(* ===== verification/Fr_Prelude.thy ===== *)
theory Fr_Prelude
  imports Main "HOL-Library.Word"
begin

text \<open>
  Shared vocabulary of the development: the machine types of the C sources, the status codes of
  \<^verbatim>\<open>flightrec.h\<close> and \<^verbatim>\<open>dab/dab.h\<close>, byte buffers (slices, overwriting, little-endian loads) and the
  arithmetic facts on 64-bit addresses that the component theories share.  The collections
  \<open>buf_simps\<close> (buffers) and \<open>addr_simps\<close> (addresses) are what the component proofs pass to
  \<open>simp\<close> and \<open>auto\<close>.
\<close>

named_theorems buf_simps
named_theorems addr_simps

section \<open>Machine types and status codes\<close>

type_synonym byte = "8 word"
type_synonym u64 = "64 word"

text \<open>\<^verbatim>\<open>SUCCESS\<close> and \<^verbatim>\<open>FAILURE\<close> of \<^verbatim>\<open>flightrec.h\<close>: the outcome of a call.\<close>

datatype status = SUCCESS | FAILURE

text \<open>The result codes of the database layer, \<^verbatim>\<open>dab/dab.h\<close>.\<close>

datatype dab_status =
  DAB_OK | DAB_FAIL | DAB_NO_DATA | DAB_INVALID | DAB_MALFUNCTION | DAB_UNEXPECTED

text \<open>\<^verbatim>\<open>MEM_SEGMENT_SIZE\<close> of \<^verbatim>\<open>mem.h\<close>: the unit in which memory changes are detected and stored.\<close>

definition MEM_SEGMENT_SIZE :: nat where
  "MEM_SEGMENT_SIZE = 32"

section \<open>Byte buffers\<close>

text \<open>
  \<open>slice xs off n\<close> is what a read of \<open>n\<close> bytes at \<open>xs + off\<close> sees, \<open>overwrite xs off ys\<close> what
  \<^verbatim>\<open>memcpy(xs + off, ys, length ys)\<close> leaves behind.
\<close>

definition slice :: "'a list \<Rightarrow> nat \<Rightarrow> nat \<Rightarrow> 'a list" where
  "slice xs off n = take n (drop off xs)"

definition overwrite :: "'a list \<Rightarrow> nat \<Rightarrow> 'a list \<Rightarrow> 'a list" where
  "overwrite xs off ys = take off xs @ ys @ drop (off + length ys) xs"

lemma length_slice [buf_simps]: "length (slice xs off n) = min n (length xs - off)"
  by (simp add: slice_def min.commute)

lemma nth_slice [buf_simps]:
  "i < n \<Longrightarrow> off + i < length xs \<Longrightarrow> slice xs off n ! i = xs ! (off + i)"
  by (simp add: slice_def)

lemma length_overwrite [buf_simps]:
  "off + length ys \<le> length xs \<Longrightarrow> length (overwrite xs off ys) = length xs"
  by (simp add: overwrite_def)

lemma nth_overwrite [buf_simps]:
  assumes "off + length ys \<le> length xs" "i < length xs"
  shows "overwrite xs off ys ! i =
           (if off \<le> i \<and> i < off + length ys then ys ! (i - off) else xs ! i)"
  using assms by (auto simp: overwrite_def nth_append)

lemma slice_eq_iff:
  assumes "off + n \<le> length xs" "off + n \<le> length ys"
  shows "slice xs off n = slice ys off n \<longleftrightarrow> (\<forall>i < n. xs ! (off + i) = ys ! (off + i))"
  using assms by (auto simp: list_eq_iff_nth_eq buf_simps)

lemma slice_slice:
  "slice (slice xs a n) b m = slice xs (a + b) (min m (n - b))"
  by (simp add: slice_def drop_take add.commute)

lemma slice_overwrite_same [buf_simps]:
  assumes "off + length ys \<le> length xs" "n = length ys"
  shows "slice (overwrite xs off ys) off n = ys"
  using assms by (auto simp: list_eq_iff_nth_eq buf_simps)

lemma slice_overwrite_other [buf_simps]:
  assumes "off + length ys \<le> length xs" "a + n \<le> length xs"
    and "a + n \<le> off \<or> off + length ys \<le> a"
  shows "slice (overwrite xs off ys) a n = slice xs a n"
  using assms by (auto simp: list_eq_iff_nth_eq buf_simps)

lemma overwrite_slice_self: "off + n \<le> length xs \<Longrightarrow> overwrite xs off (slice xs off n) = xs"
  by (auto simp: list_eq_iff_nth_eq buf_simps)

lemma overwrite_adjacent:
  "off + length ys + length zs \<le> length xs \<Longrightarrow>
   overwrite (overwrite xs off ys) (off + length ys) zs = overwrite xs off (ys @ zs)"
  by (simp add: overwrite_def ac_simps)

lemma take_drop_slice: "slice xs off n @ drop (off + n) xs = drop off xs"
  by (metis add.commute append_take_drop_id drop_drop slice_def)

section \<open>Naturals, and naturals as words\<close>

lemma ex_nat_shift: "(\<exists>i :: nat. k \<le> i \<and> i < n \<and> P i) \<longleftrightarrow> (\<exists>i < n - k. P (k + i))"
proof
  assume "\<exists>i. k \<le> i \<and> i < n \<and> P i"
  then obtain i where "k \<le> i" "i < n" "P i" by blast
  then show "\<exists>i < n - k. P (k + i)" by (intro exI [of _ "i - k"]) auto
next
  assume "\<exists>i < n - k. P (k + i)"
  then obtain i where "i < n - k" "P (k + i)" by blast
  then show "\<exists>i. k \<le> i \<and> i < n \<and> P i" by (intro exI [of _ "k + i"]) auto
qed

lemma unat_word_of_nat_small:
  "n < 2 ^ LENGTH('a :: len) \<Longrightarrow> unat (word_of_nat n :: 'a word) = n"
  by (simp add: unat_of_nat)

lemma unat_word_of_int_small:
  assumes "0 \<le> i" "i < 2 ^ LENGTH('a :: len)"
  shows "unat (word_of_int i :: 'a word) = nat i"
proof -
  have "(word_of_int i :: 'a word) = word_of_nat (nat i)" using assms(1) by (metis nat_0_le of_int_of_nat_eq)
  moreover have "nat i < 2 ^ LENGTH('a)" using assms by (simp add: nat_less_iff)
  ultimately show ?thesis by (simp only: unat_word_of_nat_small)
qed

lemma word_of_nat_inject_small:
  assumes "m < 2 ^ LENGTH('a :: len)" "n < 2 ^ LENGTH('a)"
  shows "(word_of_nat m :: 'a word) = word_of_nat n \<longleftrightarrow> m = n"
  by (metis assms unat_word_of_nat_small)

lemma word_of_nat_unat: "word_of_nat (unat (w :: 'a :: len word)) = w"
  by simp

lemma ucast_word_of_nat_unat: "(ucast (w :: 'a :: len word) :: 'b :: len word) = word_of_nat (unat w)"
  by simp

lemma scast_word_of_nat_small:
  assumes "n < 2 ^ (LENGTH('a) - 1)"
  shows "(scast (word_of_nat n :: 'a :: len word) :: 'b :: len word) = word_of_nat n"
proof -
  have "signed_take_bit (LENGTH('a) - Suc 0) (int n) = int n"
  proof (rule signed_take_bit_int_eq_self)
    show "- (2 ^ (LENGTH('a) - Suc 0)) \<le> int n" by (rule order_trans [of _ 0]) simp_all
    show "int n < 2 ^ (LENGTH('a) - Suc 0)" using assms by simp
  qed
  then show ?thesis by (simp add: signed_of_nat)
qed

lemma sint_word_of_nat_small:
  assumes "n < 2 ^ (LENGTH('a) - 1)"
  shows "sint (word_of_nat n :: 'a :: len word) = int n"
proof -
  have "signed_take_bit (LENGTH('a) - Suc 0) (int n) = int n"
  proof (rule signed_take_bit_int_eq_self)
    show "- (2 ^ (LENGTH('a) - Suc 0)) \<le> int n" by (rule order_trans [of _ 0]) simp_all
    show "int n < 2 ^ (LENGTH('a) - Suc 0)" using assms by simp
  qed
  then show ?thesis by (simp add: signed_of_nat)
qed

lemma word_of_sint [simp]: "word_of_int (sint (w :: u64)) = w"
  by simp

section \<open>Little-endian values\<close>

text \<open>
  The value that a load of \<open>length bs\<close> bytes at a byte pointer yields on x86-64.
\<close>

fun le_val :: "byte list \<Rightarrow> nat" where
  "le_val [] = 0"
| "le_val (b # bs) = unat b + 256 * le_val bs"

lemma unat_byte_bound [simp]: "unat (b :: byte) < 256"
  using unsigned_less [of b] by simp

lemma le_val_bound: "le_val bs < 256 ^ length bs"
proof (induction bs)
  case Nil
  then show ?case by simp
next
  case (Cons b bs)
  have "unat b < 256" by simp
  with Cons.IH have "unat b + 256 * le_val bs < 256 * 256 ^ length bs" by linarith
  then show ?case by simp
qed

lemma base256_inject:
  assumes "a < 256" "b < (256 :: nat)"
  shows "a + 256 * m = b + 256 * n \<longleftrightarrow> a = b \<and> m = n"
proof
  assume e: "a + 256 * m = b + 256 * n"
  then have "(a + 256 * m) mod 256 = (b + 256 * n) mod 256" by (rule arg_cong)
  then have "a = b" using assms by (simp only: mod_mult_self2 mod_less)
  with e show "a = b \<and> m = n" by simp
qed simp

lemma le_val_inject:
  "length xs = length ys \<Longrightarrow> le_val xs = le_val ys \<longleftrightarrow> xs = ys"
proof (induction xs ys rule: list_induct2)
  case Nil
  then show ?case by simp
next
  case (Cons x xs y ys)
  have "unat x + 256 * le_val xs = unat y + 256 * le_val ys \<longleftrightarrow>
      unat x = unat y \<and> le_val xs = le_val ys"
    by (rule base256_inject) simp_all
  with Cons.IH show ?case by (simp add: word_unat_eq_iff)
qed

definition load_u64 :: "byte list \<Rightarrow> u64" where
  "load_u64 bs = word_of_nat (le_val (take 8 bs))"

lemma load_u64_inject:
  assumes "8 \<le> length xs" "8 \<le> length ys"
  shows "load_u64 xs = load_u64 ys \<longleftrightarrow> take 8 xs = take 8 ys"
proof -
  have b: "le_val (take 8 xs) < 2 ^ 64" "le_val (take 8 ys) < 2 ^ 64"
    using le_val_bound [of "take 8 xs"] le_val_bound [of "take 8 ys"] assms by simp_all
  then have "load_u64 xs = load_u64 ys \<longleftrightarrow> le_val (take 8 xs) = le_val (take 8 ys)"
    by (simp add: load_u64_def word_of_nat_inject_small)
  with assms show ?thesis by (simp add: le_val_inject)
qed

section \<open>Addresses\<close>

text \<open>Offsets added to an address without leaving the 64-bit address space.\<close>

lemma unat_add_offset [addr_simps]:
  "unat (a :: u64) + n < 2 ^ 64 \<Longrightarrow> unat (a + word_of_nat n) = unat a + n"
  by (simp add: unat_word_ariths unat_of_nat)

lemma unat_sub_le [addr_simps]: "(a :: u64) \<le> b \<Longrightarrow> unat (b - a) = unat b - unat a"
  by (rule unat_sub)

lemma unat_u64_bound: "unat (a :: u64) < 2 ^ 64"
  using unsigned_less [of a] by simp

lemma u64_le_unat: "(a :: u64) \<le> b \<longleftrightarrow> unat a \<le> unat b"
  by (rule word_le_nat_alt)

lemma u64_less_unat: "(a :: u64) < b \<longleftrightarrow> unat a < unat b"
  by (rule word_less_nat_alt)

lemma u64_offset_inject:
  assumes "unat (a :: u64) + m < 2 ^ 64" "unat a + n < 2 ^ 64"
  shows "a + word_of_nat m = a + word_of_nat n \<longleftrightarrow> m = n"
proof
  assume "a + word_of_nat m = a + word_of_nat n"
  then have "unat (a + word_of_nat m) = unat (a + word_of_nat n)" by (rule arg_cong)
  then show "m = n" by (simp only: unat_add_offset assms add_left_cancel)
qed simp

end
