(* ===== verification/Memdiff.thy ===== *)
theory Memdiff
  imports Fr_Prelude
begin

text \<open>
  The memory comparison routines of \<^verbatim>\<open>record/memdiff.c\<close> and the selection of the routine for the
  CPU (\<^verbatim>\<open>best_memdiff\<close>).  A buffer pointer is the list of the bytes it points to; \<^verbatim>\<open>buf += n\<close> is
  \<open>drop n\<close>.  The SSE2/AVX2/AVX-512 intrinsics are written out lane by lane.  The contract of a
  comparison routine is the locale \<open>mem_compare\<close>; it is interpreted on every routine that meets it,
  and \<open>memdiff64\<close> is shown not to.
\<close>

section \<open>The intrinsics used by the vector routines\<close>

text \<open>\<^verbatim>\<open>_mm_cmpeq_epi8\<close>, \<^verbatim>\<open>_mm256_cmpeq_epi8\<close>: 0xFF in every byte lane that agrees, 0 elsewhere.\<close>

definition cmpeq_epi8 :: "byte list \<Rightarrow> byte list \<Rightarrow> byte list" where
  "cmpeq_epi8 a b = map2 (\<lambda>x y. if x = y then 0xFF else 0) a b"

text \<open>\<^verbatim>\<open>_mm_movemask_epi8\<close>, \<^verbatim>\<open>_mm256_movemask_epi8\<close>: the most significant bit of each byte lane.\<close>

fun lane_bits :: "bool list \<Rightarrow> nat" where
  "lane_bits [] = 0"
| "lane_bits (b # bs) = (if b then 1 else 0) + 2 * lane_bits bs"

definition movemask_epi8 :: "byte list \<Rightarrow> 32 word" where
  "movemask_epi8 v = word_of_nat (lane_bits (map (\<lambda>b. 0x80 \<le> b) v))"

text \<open>\<^verbatim>\<open>_mm512_cmpeq_epi64_mask\<close>: one bit per 64-bit lane.  \<^verbatim>\<open>_kortestz_mask8_u8\<close>: is the union of
  two masks empty?\<close>

fun u64_lanes :: "nat \<Rightarrow> byte list \<Rightarrow> u64 list" where
  "u64_lanes 0 bs = []"
| "u64_lanes (Suc n) bs = load_u64 bs # u64_lanes n (drop 8 bs)"

definition cmpeq_epi64_mask :: "byte list \<Rightarrow> byte list \<Rightarrow> byte" where
  "cmpeq_epi64_mask a b = word_of_nat (lane_bits (map2 (=) (u64_lanes 8 a) (u64_lanes 8 b)))"

definition kortestz_mask8_u8 :: "byte \<Rightarrow> byte \<Rightarrow> bool" where
  "kortestz_mask8_u8 m n \<longleftrightarrow> or m n = 0"

section \<open>The routines\<close>

text \<open>\<^verbatim>\<open>memdiff8\<close>: the loop over 64-bit words, then the loop over the remaining bytes.\<close>

function memdiff8_words :: "byte list \<Rightarrow> byte list \<Rightarrow> nat \<Rightarrow> nat \<Rightarrow> bool" where
  "memdiff8_words buf1 buf2 cur limit =
     (if cur < limit then
        if load_u64 (drop (8 * cur) buf1) \<noteq> load_u64 (drop (8 * cur) buf2) then True
        else memdiff8_words buf1 buf2 (Suc cur) limit
      else False)"
  by pat_completeness auto
termination
  by (relation "measure (\<lambda>(_, _, cur, limit). limit - cur)") auto

function memdiff8_tail :: "byte list \<Rightarrow> byte list \<Rightarrow> nat \<Rightarrow> nat \<Rightarrow> bool" where
  "memdiff8_tail buf1 buf2 pos sz =
     (if pos < sz then
        if buf1 ! pos \<noteq> buf2 ! pos then True else memdiff8_tail buf1 buf2 (Suc pos) sz
      else False)"
  by pat_completeness auto
termination
  by (relation "measure (\<lambda>(_, _, pos, sz). sz - pos)") auto

definition memdiff8 :: "byte list \<Rightarrow> byte list \<Rightarrow> nat \<Rightarrow> bool" where
  "memdiff8 buf1 buf2 sz =
     (let limit = sz div 8 in
      if memdiff8_words buf1 buf2 0 limit then True
      else if limit * 8 < sz then memdiff8_tail buf1 buf2 (limit * 8) sz
      else False)"

function memdiff16 :: "byte list \<Rightarrow> byte list \<Rightarrow> nat \<Rightarrow> bool" where
  "memdiff16 buf1 buf2 sz =
     (if 16 \<le> sz then
        if 0xFFFF \<noteq> movemask_epi8 (cmpeq_epi8 (take 16 buf1) (take 16 buf2)) then True
        else memdiff16 (drop 16 buf1) (drop 16 buf2) (sz - 16)
      else if 0 < sz then memdiff8 buf1 buf2 sz
      else False)"
  by pat_completeness auto
termination
  by (relation "measure (\<lambda>(_, _, sz). sz)") auto

function memdiff32 :: "byte list \<Rightarrow> byte list \<Rightarrow> nat \<Rightarrow> bool" where
  "memdiff32 buf1 buf2 sz =
     (if 32 \<le> sz then
        if 0xFFFFFFFF \<noteq> movemask_epi8 (cmpeq_epi8 (take 32 buf1) (take 32 buf2)) then True
        else memdiff32 (drop 32 buf1) (drop 32 buf2) (sz - 32)
      else if 0 < sz then memdiff16 buf1 buf2 sz
      else False)"
  by pat_completeness auto
termination
  by (relation "measure (\<lambda>(_, _, sz). sz)") auto

function memdiff64 :: "byte list \<Rightarrow> byte list \<Rightarrow> nat \<Rightarrow> bool" where
  "memdiff64 buf1 buf2 sz =
     (if 64 \<le> sz then
        if \<not> kortestz_mask8_u8 0 (cmpeq_epi64_mask (take 64 buf1) (take 64 buf2)) then True
        else memdiff64 (drop 64 buf1) (drop 64 buf2) (sz - 64)
      else if 0 < sz then memdiff32 buf1 buf2 sz
      else False)"
  by pat_completeness auto
termination
  by (relation "measure (\<lambda>(_, _, sz). sz)") auto

declare memdiff8_words.simps [simp del] memdiff8_tail.simps [simp del] memdiff16.simps [simp del]
  memdiff32.simps [simp del] memdiff64.simps [simp del]

text \<open>
  \<^verbatim>\<open>best_memdiff\<close>: the instruction sets the recorder was compiled for and that
  \<^verbatim>\<open>__builtin_cpu_supports\<close> reports.
\<close>

record cpu_features =
  built_avx512dq :: bool
  built_avx2 :: bool
  built_sse2 :: bool
  cpu_avx512dq :: bool
  cpu_avx2 :: bool
  cpu_sse2 :: bool

definition best_memdiff :: "cpu_features \<Rightarrow> nat \<Rightarrow> (byte list \<Rightarrow> byte list \<Rightarrow> nat \<Rightarrow> bool)" where
  "best_memdiff c sz =
     (if built_avx512dq c \<and> 64 \<le> sz \<and> cpu_avx512dq c then memdiff64
      else if built_avx2 c \<and> 32 \<le> sz \<and> cpu_avx2 c then memdiff32
      else if built_sse2 c \<and> 16 \<le> sz \<and> cpu_sse2 c then memdiff16
      else memdiff8)"

section \<open>The contract of a comparison routine\<close>

locale mem_compare =
  fixes diff :: "byte list \<Rightarrow> byte list \<Rightarrow> nat \<Rightarrow> bool"
  assumes diff_iff:
    "n \<le> length a \<Longrightarrow> n \<le> length b \<Longrightarrow> diff a b n \<longleftrightarrow> take n a \<noteq> take n b"
begin

lemma diff_slice:
  assumes "off + n \<le> length a" "off + n \<le> length b"
  shows "diff (drop off a) (drop off b) n \<longleftrightarrow> slice a off n \<noteq> slice b off n"
  using assms by (simp add: diff_iff slice_def)

lemma diff_self: "n \<le> length a \<Longrightarrow> \<not> diff a a n"
  by (simp add: diff_iff)

lemma diff_commute: "n \<le> length a \<Longrightarrow> n \<le> length b \<Longrightarrow> diff a b n \<longleftrightarrow> diff b a n"
  by (auto simp: diff_iff)

end

text \<open>A comparison of \<open>n\<close> bytes splits at any offset.\<close>

lemma take_neq_split:
  assumes "k \<le> n"
  shows "take n a \<noteq> take n b \<longleftrightarrow>
    take k a \<noteq> take k b \<or> take (n - k) (drop k a) \<noteq> take (n - k) (drop k b)"
proof -
  have "take n a = take k a @ take (n - k) (drop k a)" "take n b = take k b @ take (n - k) (drop k b)"
    using assms take_add [of k "n - k"] by simp_all
  then show ?thesis
    by (metis append_take_drop_id assms length_take min.absorb1 take_take append_same_eq append_eq_append_conv)
qed

lemma lane_bits_bound: "lane_bits bs < 2 ^ length bs"
  by (induction bs) auto

lemma lane_bits_full: "lane_bits bs = 2 ^ length bs - 1 \<longleftrightarrow> (\<forall>b \<in> set bs. b)"
proof (induction bs)
  case Nil
  then show ?case by simp
next
  case (Cons b bs)
  have p: "0 < (2 :: nat) ^ length bs" by simp
  have odd: "1 + 2 * l = 2 * p - 1 \<longleftrightarrow> l = p - 1" and even: "2 * l \<noteq> 2 * p - 1" if "0 < p" for l p :: nat
    using that by presburger+
  show ?case
    using Cons.IH odd [OF p, of "lane_bits bs"] even [OF p, of "lane_bits bs"] by (cases b) simp_all
qed

lemma cmpeq_lanes:
  "length a = length b \<Longrightarrow> (\<forall>x \<in> set (map (\<lambda>b. 0x80 \<le> b) (cmpeq_epi8 a b)). x) \<longleftrightarrow> a = b"
  by (induction a b rule: list_induct2) (auto simp: cmpeq_epi8_def)

lemma movemask_full:
  assumes "length a = n" "length b = n" "n \<le> 32"
  shows "movemask_epi8 (cmpeq_epi8 a b) = word_of_nat (2 ^ n - 1) \<longleftrightarrow> a = b"
proof -
  let ?bs = "map (\<lambda>b. 0x80 \<le> b) (cmpeq_epi8 a b)"
  have len: "length ?bs = n" using assms by (simp add: cmpeq_epi8_def)
  have pow: "(2 :: nat) ^ n \<le> 2 ^ 32" using assms(3) by (rule power_increasing) simp
  then have "lane_bits ?bs < 2 ^ 32" "(2 :: nat) ^ n - 1 < 2 ^ 32"
    using lane_bits_bound [of ?bs] len by (simp_all add: diff_less_Suc less_le_trans)
  then have "movemask_epi8 (cmpeq_epi8 a b) = word_of_nat (2 ^ n - 1) \<longleftrightarrow> lane_bits ?bs = 2 ^ n - 1"
    unfolding movemask_epi8_def by (intro word_of_nat_inject_small) simp_all
  also have "\<dots> \<longleftrightarrow> (\<forall>x \<in> set ?bs. x)" using lane_bits_full [of ?bs] len by simp
  also have "\<dots> \<longleftrightarrow> a = b"
    using assms(1,2) by (intro cmpeq_lanes) simp
  finally show ?thesis .
qed

section \<open>The scalar and vector routines meet the contract\<close>

lemma memdiff8_words_iff:
  assumes "8 * limit \<le> length a" "8 * limit \<le> length b" "cur \<le> limit"
  shows "memdiff8_words a b cur limit \<longleftrightarrow>
    take (8 * (limit - cur)) (drop (8 * cur) a) \<noteq> take (8 * (limit - cur)) (drop (8 * cur) b)"
  using assms
proof (induction a b cur limit rule: memdiff8_words.induct)
  case (1 a b cur limit)
  show ?case
  proof (cases "cur < limit")
    case True
    have split: "take (8 * (limit - cur)) (drop (8 * cur) a) \<noteq> take (8 * (limit - cur)) (drop (8 * cur) b)
        \<longleftrightarrow> take 8 (drop (8 * cur) a) \<noteq> take 8 (drop (8 * cur) b) \<or>
          take (8 * (limit - Suc cur)) (drop (8 * Suc cur) a)
            \<noteq> take (8 * (limit - Suc cur)) (drop (8 * Suc cur) b)"
    proof -
      have "8 \<le> 8 * (limit - cur)" and n: "8 * (limit - cur) - 8 = 8 * (limit - Suc cur)"
        using True by simp_all
      then show ?thesis
        using take_neq_split [of 8 "8 * (limit - cur)" "drop (8 * cur) a" "drop (8 * cur) b"]
        by (simp only: n drop_drop) simp
    qed
    have "8 \<le> length (drop (8 * cur) a)" "8 \<le> length (drop (8 * cur) b)"
      using "1.prems" True by simp_all
    then have load: "load_u64 (drop (8 * cur) a) = load_u64 (drop (8 * cur) b) \<longleftrightarrow>
        take 8 (drop (8 * cur) a) = take 8 (drop (8 * cur) b)"
      by (rule load_u64_inject)
    show ?thesis
      using "1.IH" "1.prems" True
      by (subst memdiff8_words.simps) (simp only: load split, auto)
  next
    case False
    then show ?thesis using "1.prems" by (subst memdiff8_words.simps) simp
  qed
qed

lemma memdiff8_tail_iff:
  assumes "sz \<le> length a" "sz \<le> length b"
  shows "memdiff8_tail a b pos sz \<longleftrightarrow> (\<exists>i. pos \<le> i \<and> i < sz \<and> a ! i \<noteq> b ! i)"
  using assms
proof (induction a b pos sz rule: memdiff8_tail.induct)
  case (1 a b pos sz)
  show ?case
  proof (cases "pos < sz \<and> a ! pos = b ! pos")
    case True
    then have "memdiff8_tail a b pos sz \<longleftrightarrow> memdiff8_tail a b (Suc pos) sz"
      by (subst memdiff8_tail.simps) simp
    also have "\<dots> \<longleftrightarrow> (\<exists>i. Suc pos \<le> i \<and> i < sz \<and> a ! i \<noteq> b ! i)"
      using "1.IH" "1.prems" True by simp
    also have "\<dots> \<longleftrightarrow> (\<exists>i. pos \<le> i \<and> i < sz \<and> a ! i \<noteq> b ! i)"
      using True by (metis Suc_leD le_antisym not_less_eq_eq)
    finally show ?thesis .
  next
    case False
    then show ?thesis by (subst memdiff8_tail.simps) auto
  qed
qed

interpretation scalar8: mem_compare memdiff8
proof
  fix n and a b :: "byte list"
  assume len: "n \<le> length a" "n \<le> length b"
  define k where "k = n div 8 * 8"
  have k: "k \<le> n" "8 * (n div 8) = k" by (simp_all add: k_def)
  have words: "memdiff8_words a b 0 (n div 8) \<longleftrightarrow> take k a \<noteq> take k b"
    using memdiff8_words_iff [of "n div 8" a b 0] len k by simp
  have tail: "memdiff8_tail a b k n \<longleftrightarrow> take (n - k) (drop k a) \<noteq> take (n - k) (drop k b)"
    using len by (simp add: memdiff8_tail_iff list_eq_iff_nth_eq ex_nat_shift)
  show "memdiff8 a b n \<longleftrightarrow> take n a \<noteq> take n b"
  proof (cases "k < n")
    case True
    then show ?thesis
      using words tail take_neq_split [OF k(1), of a b] by (simp add: memdiff8_def k_def Let_def)
  next
    case False
    with k(1) have "k = n" by simp
    then show ?thesis using words by (simp add: memdiff8_def k_def Let_def)
  qed
qed

interpretation sse2: mem_compare memdiff16
proof
  fix n and a b :: "byte list"
  assume "n \<le> length a" "n \<le> length b"
  then show "memdiff16 a b n \<longleftrightarrow> take n a \<noteq> take n b"
  proof (induction a b n rule: memdiff16.induct)
    case (1 a b n)
    show ?case
    proof (cases "16 \<le> n")
      case True
      have "0xFFFF = movemask_epi8 (cmpeq_epi8 (take 16 a) (take 16 b)) \<longleftrightarrow> take 16 a = take 16 b"
        using movemask_full [of "take 16 a" 16 "take 16 b"] "1.prems" True by auto
      then show ?thesis
        using "1.IH" "1.prems" True take_neq_split [OF True, of a b]
        by (subst memdiff16.simps) auto
    next
      case False
      then show ?thesis
        using "1.prems" by (subst memdiff16.simps) (simp add: scalar8.diff_iff)
    qed
  qed
qed

interpretation avx2: mem_compare memdiff32
proof
  fix n and a b :: "byte list"
  assume "n \<le> length a" "n \<le> length b"
  then show "memdiff32 a b n \<longleftrightarrow> take n a \<noteq> take n b"
  proof (induction a b n rule: memdiff32.induct)
    case (1 a b n)
    show ?case
    proof (cases "32 \<le> n")
      case True
      have "0xFFFFFFFF = movemask_epi8 (cmpeq_epi8 (take 32 a) (take 32 b)) \<longleftrightarrow> take 32 a = take 32 b"
        using movemask_full [of "take 32 a" 32 "take 32 b"] "1.prems" True by auto
      then show ?thesis
        using "1.IH" "1.prems" True take_neq_split [OF True, of a b]
        by (subst memdiff32.simps) auto
    next
      case False
      then show ?thesis
        using "1.prems" by (subst memdiff32.simps) (simp add: sse2.diff_iff)
    qed
  qed
qed

interpretation best: mem_compare "best_memdiff c MEM_SEGMENT_SIZE" for c
  by unfold_locales
    (simp add: best_memdiff_def MEM_SEGMENT_SIZE_def scalar8.diff_iff sse2.diff_iff avx2.diff_iff)

section \<open>Properties\<close>

text \<open>
  C19.  Whatever the CPU, the routine that \<open>best_memdiff\<close> selects for segments of
  \<^verbatim>\<open>MEM_SEGMENT_SIZE\<close> bytes reports a difference exactly when the two segments differ.
\<close>

theorem best_memdiff_exact:
  assumes "MEM_SEGMENT_SIZE \<le> length a" "MEM_SEGMENT_SIZE \<le> length b"
  shows "best_memdiff c MEM_SEGMENT_SIZE a b MEM_SEGMENT_SIZE \<longleftrightarrow>
    slice a 0 MEM_SEGMENT_SIZE \<noteq> slice b 0 MEM_SEGMENT_SIZE"
  using best.diff_iff [OF assms] by (simp add: slice_def)

theorem best_memdiff_exact_witness:
  "best_memdiff \<lparr>built_avx512dq = True, built_avx2 = True, built_sse2 = True, cpu_avx512dq = True,
      cpu_avx2 = True, cpu_sse2 = True\<rparr> MEM_SEGMENT_SIZE (replicate 32 1) ((replicate 32 1)[7 := 2])
      MEM_SEGMENT_SIZE"
  by (subst best_memdiff_exact)
    (auto simp: MEM_SEGMENT_SIZE_def slice_def list_eq_iff_nth_eq intro!: exI [of _ 7])

text \<open>
  The scalar, SSE2 and AVX2 routines agree with each other on buffers of every size (the comparison
  of 64 bits at a time, of 16 lanes and of 32 lanes, with their tails).
\<close>

lemma memdiff_routines_agree:
  assumes "n \<le> length a" "n \<le> length b"
  shows "memdiff16 a b n = memdiff8 a b n" "memdiff32 a b n = memdiff8 a b n"
  using assms by (simp_all add: scalar8.diff_iff sse2.diff_iff avx2.diff_iff)

lemma lane_bits_zero: "lane_bits bs = 0 \<longleftrightarrow> (\<forall>b \<in> set bs. \<not> b)"
  by (induction bs) auto

lemma length_u64_lanes [simp]: "length (u64_lanes n bs) = n"
  by (induction n arbitrary: bs) auto

lemma nth_u64_lanes: "k < n \<Longrightarrow> u64_lanes n bs ! k = load_u64 (drop (8 * k) bs)"
  by (induction n bs arbitrary: k rule: u64_lanes.induct) (auto simp: nth_Cons' drop_drop algebra_simps split: nat.splits)

lemma cmpeq_epi64_mask_zero:
  "cmpeq_epi64_mask a b = 0 \<longleftrightarrow> (\<forall>k < 8. load_u64 (drop (8 * k) a) \<noteq> load_u64 (drop (8 * k) b))"
proof -
  let ?bs = "map2 (=) (u64_lanes 8 a) (u64_lanes 8 b)"
  have "lane_bits ?bs < 2 ^ 8" using lane_bits_bound [of ?bs] by simp
  then have "cmpeq_epi64_mask a b = 0 \<longleftrightarrow> lane_bits ?bs = 0"
    unfolding cmpeq_epi64_mask_def using word_of_nat_inject_small [of "lane_bits ?bs" 0, where 'a = 8] by simp
  also have "\<dots> \<longleftrightarrow> (\<forall>k < 8. u64_lanes 8 a ! k \<noteq> u64_lanes 8 b ! k)"
    unfolding lane_bits_zero by (simp add: all_set_conv_all_nth)
  finally show ?thesis by (simp add: nth_u64_lanes)
qed

text \<open>
  What \<open>memdiff64\<close> computes on one 64-byte block: it answers ``different'' exactly when some
  8-byte lane is \<^emph>\<open>equal\<close>, so identical blocks are reported as different and blocks that
  differ in every lane as equal.  (The recorder never calls it: C1 holds because a 32-byte segment is
  too small for it.)
\<close>

theorem memdiff64_inverted:
  assumes "length a = 64" "length b = 64"
  shows "memdiff64 a b 64 \<longleftrightarrow> (\<exists>k < 8. slice a (8 * k) 8 = slice b (8 * k) 8)"
proof -
  have "memdiff64 a b 64 \<longleftrightarrow> cmpeq_epi64_mask a b \<noteq> 0"
    using assms by (subst memdiff64.simps, subst memdiff64.simps) (simp add: kortestz_mask8_u8_def)
  also have "\<dots> \<longleftrightarrow> (\<exists>k < 8. load_u64 (drop (8 * k) a) = load_u64 (drop (8 * k) b))"
    by (auto simp: cmpeq_epi64_mask_zero)
  also have "\<dots> \<longleftrightarrow> (\<exists>k < 8. slice a (8 * k) 8 = slice b (8 * k) 8)"
    using assms by (intro arg_cong [of _ _ Ex] ext conj_cong refl) (simp add: load_u64_inject slice_def)
  finally show ?thesis .
qed

theorem memdiff64_inverted_witness:
  "memdiff64 (replicate 64 7) (replicate 64 7) 64 \<and> \<not> memdiff64 (replicate 64 7) (replicate 64 8) 64"
proof
  show "memdiff64 (replicate 64 7) (replicate 64 7) 64"
    by (subst memdiff64_inverted) (auto intro: exI [of _ 0])
  show "\<not> memdiff64 (replicate 64 7) (replicate 64 8) 64"
    by (subst memdiff64_inverted) (auto simp: slice_def)
qed

end
