(* ===== verification/Channel.thy ===== *)
theory Channel
  imports Fr_Prelude
begin

text \<open>
  The message channels of \<^verbatim>\<open>record/channel.c\<close>: a singly linked list of messages with a head and a
  tail pointer, a mutex around the list and a counting semaphore that the reader waits on.  The
  nodes live in an explicit heap owned by the channel; \<^verbatim>\<open>malloc\<close> hands out the addresses
  \<open>ch_brk\<close>, \<open>ch_brk + 1\<close>, \<dots> and \<^verbatim>\<open>free\<close> removes the node.  What the pthread and semaphore calls
  return is an input of each operation.  The channel is shown to be a FIFO queue (locale \<open>fifo\<close>),
  and an interleaving model of writers and the reader shows that the reader never finds the list
  empty after a successful wait.
\<close>

named_theorems ch_simps

section \<open>Data\<close>

datatype ch_status = CHANNEL_OK | CHANNEL_FAIL | CHANNEL_MISREAD | CHANNEL_END | CHANNEL_NODATA

datatype read_flag = READ_NONBLOCK | READ_BLOCK

text \<open>\<^verbatim>\<open>struct message\<close>; a NULL payload (sent by \<^verbatim>\<open>ch_finish\<close>) is \<open>None\<close>.\<close>

record 'a message =
  payload :: "'a option"
  msg_size :: nat
  msg_next :: "nat option"

text \<open>\<^verbatim>\<open>struct channel\<close>, with the heap of its nodes.\<close>

record 'a channel =
  ch_sem :: nat
  ch_head :: "nat option"
  ch_tail :: "nat option"
  ch_heap :: "nat \<rightharpoonup> 'a message"
  ch_brk :: nat

text \<open>Outcomes of the system calls that an operation makes.\<close>

record ch_sys =
  lock_ok :: bool
  unlock_ok :: bool
  post_ok :: bool
  wait_ok :: bool

definition sys_ok :: ch_sys where
  "sys_ok = \<lparr>lock_ok = True, unlock_ok = True, post_ok = True, wait_ok = True\<rparr>"

section \<open>Operations\<close>

text \<open>
  \<^verbatim>\<open>ch_create\<close>: \<open>None\<close> is the NULL result when the semaphore or the mutex cannot be initialised.  The code does not check
  the results of \<^verbatim>\<open>malloc\<close> in this file, and follows a null pointer when there is no memory; here memory does not run out.
\<close>

definition ch_create :: "bool \<Rightarrow> bool \<Rightarrow> 'a channel option" where
  "ch_create sem_init_ok mutex_init_ok =
     (if \<not> sem_init_ok then None
      else if \<not> mutex_init_ok then None
      else Some \<lparr>ch_sem = 0, ch_head = None, ch_tail = None, ch_heap = Map.empty, ch_brk = 0\<rparr>)"

text \<open>The critical section of \<^verbatim>\<open>ch_write\<close>: append a node to the list.\<close>

definition ch_append :: "'a channel \<Rightarrow> 'a option \<Rightarrow> nat \<Rightarrow> 'a channel" where
  "ch_append ch buf bufsize =
     (let a = ch_brk ch;
          h = (ch_heap ch)(a \<mapsto> \<lparr>payload = buf, msg_size = bufsize, msg_next = None\<rparr>);
          ch1 = ch\<lparr>ch_heap := h, ch_brk := Suc a\<rparr>
      in case ch_tail ch of
           Some t \<Rightarrow> ch1\<lparr>ch_heap := h(t \<mapsto> (the (h t))\<lparr>msg_next := Some a\<rparr>), ch_tail := Some a\<rparr>
         | None \<Rightarrow> ch1\<lparr>ch_tail := Some a, ch_head := Some a\<rparr>)"

definition ch_write :: "ch_sys \<Rightarrow> 'a channel \<Rightarrow> 'a option \<Rightarrow> nat \<Rightarrow> ch_status \<times> 'a channel" where
  "ch_write sys ch buf bufsize =
     (if \<not> lock_ok sys then (CHANNEL_FAIL, ch)
      else
        let ch1 = ch_append ch buf bufsize in
        if \<not> unlock_ok sys then (CHANNEL_FAIL, ch1)
        else if \<not> post_ok sys then (CHANNEL_FAIL, ch1)
        else (CHANNEL_OK, ch1\<lparr>ch_sem := Suc (ch_sem ch1)\<rparr>))"

text \<open>
  The critical section of \<^verbatim>\<open>ch_read\<close>: unlink the head node.  \<open>None\<close> is the dereference of a NULL or
  dangling head.
\<close>

definition ch_unlink :: "'a channel \<Rightarrow> ('a message \<times> 'a channel) option" where
  "ch_unlink ch =
     (case ch_head ch of
        None \<Rightarrow> None
      | Some a \<Rightarrow>
          (case ch_heap ch a of
             None \<Rightarrow> None
           | Some m \<Rightarrow>
               (let ch1 = ch\<lparr>ch_head := msg_next m\<rparr>;
                    ch2 = (if msg_next m = None then ch1\<lparr>ch_tail := None\<rparr> else ch1)
                in Some (m, ch2\<lparr>ch_heap := (ch_heap ch2)(a := None)\<rparr>))))"

text \<open>What a call of \<^verbatim>\<open>ch_read\<close> does: it blocks, crashes, or returns a status with the new values of
  \<^verbatim>\<open>*buf\<close> and \<^verbatim>\<open>*bufsize\<close>.\<close>

datatype ('a, 'c) read_result =
  Blocked
| Crash
| Done ch_status "'a option" nat 'c

definition ch_read ::
    "ch_sys \<Rightarrow> 'a channel \<Rightarrow> 'a option \<Rightarrow> nat \<Rightarrow> read_flag \<Rightarrow> ('a, 'a channel) read_result" where
  "ch_read sys ch buf bufsize flag =
     (if \<not> wait_ok sys then Done CHANNEL_FAIL buf bufsize ch
      else if ch_sem ch = 0 then
        (if flag = READ_BLOCK then Blocked else Done CHANNEL_NODATA buf bufsize ch)
      else
        let ch1 = ch\<lparr>ch_sem := ch_sem ch - 1\<rparr> in
        if \<not> lock_ok sys then Done CHANNEL_FAIL buf bufsize ch1
        else case ch_unlink ch1 of
               None \<Rightarrow> Crash
             | Some (m, ch2) \<Rightarrow>
                 if \<not> unlock_ok sys then Done CHANNEL_FAIL (payload m) bufsize ch2
                 else if payload m = None then Done CHANNEL_END None 0 ch2
                 else if bufsize \<noteq> 0 \<and> bufsize \<noteq> msg_size m then Done CHANNEL_MISREAD None 0 ch2
                 else Done CHANNEL_OK (payload m) (msg_size m) ch2)"

definition ch_finish :: "ch_sys \<Rightarrow> 'a channel \<Rightarrow> ch_status \<times> 'a channel" where
  "ch_finish sys ch = ch_write sys ch None 0"

text \<open>
  \<^verbatim>\<open>ch_destroy\<close>: the loop that frees every message; the result lists the payloads passed to
  \<^verbatim>\<open>free\<close>.  \<open>fuel\<close> bounds the number of nodes.
\<close>

fun ch_destroy_loop :: "nat \<Rightarrow> 'a channel \<Rightarrow> ('a option list \<times> 'a channel) option" where
  "ch_destroy_loop 0 ch = None"
| "ch_destroy_loop (Suc fuel) ch =
     (case ch_head ch of
        None \<Rightarrow> Some ([], ch)
      | Some a \<Rightarrow>
          (case ch_heap ch a of
             None \<Rightarrow> None
           | Some m \<Rightarrow>
               (case ch_destroy_loop fuel
                       (ch\<lparr>ch_head := msg_next m, ch_heap := (ch_heap ch)(a := None)\<rparr>) of
                  None \<Rightarrow> None
                | Some (ps, ch') \<Rightarrow> Some (payload m # ps, ch'))))"

definition ch_destroy :: "'a channel \<Rightarrow> ('a option list \<times> 'a channel) option" where
  "ch_destroy ch = ch_destroy_loop (Suc (ch_brk ch)) ch"

section \<open>The list a channel represents\<close>

primrec chain :: "(nat \<rightharpoonup> 'a message) \<Rightarrow> nat option \<Rightarrow> nat list \<Rightarrow> bool" where
  "chain h p [] \<longleftrightarrow> p = None"
| "chain h p (a # as) \<longleftrightarrow> p = Some a \<and> (\<exists>m. h a = Some m \<and> chain h (msg_next m) as)"

type_synonym 'a msg_view = "'a option \<times> nat"

definition view :: "'a message \<Rightarrow> 'a msg_view" where
  "view m = (payload m, msg_size m)"

text \<open>
  \<open>ch_nodes ch as\<close>: the list of the channel runs through the nodes \<open>as\<close>, which are exactly the
  allocated ones; \<open>tail\<close> points at the last.
\<close>

definition ch_nodes :: "'a channel \<Rightarrow> nat list \<Rightarrow> bool" where
  "ch_nodes ch as \<longleftrightarrow>
     chain (ch_heap ch) (ch_head ch) as \<and> distinct as \<and> dom (ch_heap ch) = set as \<and>
     (\<forall>a \<in> set as. a < ch_brk ch) \<and> ch_tail ch = (if as = [] then None else Some (last as))"

text \<open>\<open>ch_queue ch q\<close>: the channel holds the messages \<open>q\<close>, oldest first.\<close>

definition ch_queue :: "'a channel \<Rightarrow> 'a msg_view list \<Rightarrow> bool" where
  "ch_queue ch q \<longleftrightarrow>
     (\<exists>as. ch_nodes ch as \<and> map (\<lambda>a. view (the (ch_heap ch a))) as = q)"

text \<open>With no call in flight the semaphore counts the queued messages.\<close>

definition ch_rep :: "'a channel \<Rightarrow> 'a msg_view list \<Rightarrow> bool" where
  "ch_rep ch q \<longleftrightarrow> ch_queue ch q \<and> ch_sem ch = length q"

lemma chain_upd_other [ch_simps]: "a \<notin> set as \<Longrightarrow> chain (h(a := v)) p as \<longleftrightarrow> chain h p as"
  by (induction as arbitrary: p) auto

lemma chain_append_node:
  assumes "chain h p as" "as \<noteq> []" "distinct as" "b \<notin> set as" "h b = None"
  shows "chain (h(b \<mapsto> n\<lparr>msg_next := None\<rparr>, last as \<mapsto> (the (h (last as)))\<lparr>msg_next := Some b\<rparr>)) p (as @ [b])"
  using assms
proof (induction as arbitrary: p)
  case Nil
  then show ?case by simp
next
  case (Cons a as)
  show ?case
  proof (cases "as = []")
    case True
    with Cons.prems show ?thesis by auto
  next
    case False
    let ?h = "h(b \<mapsto> n\<lparr>msg_next := None\<rparr>, last as \<mapsto> (the (h (last as)))\<lparr>msg_next := Some b\<rparr>)"
    from Cons.prems obtain m where m: "h a = Some m" "chain h (msg_next m) as" "p = Some a" by auto
    have "chain ?h (msg_next m) (as @ [b])"
      using Cons.prems by (intro Cons.IH [OF m(2) False]) simp_all
    moreover have "?h a = Some m"
      using Cons.prems False m(1) by auto
    ultimately have "chain ?h p (a # as @ [b])"
      unfolding chain.simps using m(3) by blast
    then show ?thesis using False by (simp only: last.simps if_False append_Cons)
  qed
qed

lemma chain_heap_eq:
  "(\<And>a. a \<in> set as \<Longrightarrow> h a = h' a) \<Longrightarrow> chain h p as \<longleftrightarrow> chain h' p as"
  by (induction as arbitrary: p) auto

lemma chain_dom: "chain h p as \<Longrightarrow> set as \<subseteq> dom h"
  by (induction as arbitrary: p) auto

lemma chain_unique: "chain h p as \<Longrightarrow> chain h p bs \<Longrightarrow> as = bs"
proof (induction as arbitrary: p bs)
  case Nil
  then show ?case by (cases bs) auto
next
  case (Cons a as)
  then show ?case by (cases bs) auto
qed

section \<open>The operations on the represented queue\<close>

lemma ch_queue_unique: "ch_queue ch q \<Longrightarrow> ch_queue ch q' \<Longrightarrow> q = q'"
  unfolding ch_queue_def ch_nodes_def by (metis chain_unique)

lemma ch_queue_create: "ch_create True True = Some ch \<Longrightarrow> ch_rep ch []"
  by (auto simp: ch_create_def ch_rep_def ch_queue_def ch_nodes_def)

lemma ch_nodes_append:
  assumes "ch_nodes ch as"
  shows "ch_nodes (ch_append ch buf n) (as @ [ch_brk ch])"
proof (cases "as = []")
  case True
  with assms show ?thesis by (auto simp: ch_nodes_def ch_append_def Let_def)
next
  case False
  let ?b = "ch_brk ch"
  from assms have b: "?b \<notin> set as" "ch_heap ch ?b = None"
    unfolding ch_nodes_def by (auto simp: domIff [symmetric])
  have last: "last as \<in> set as" using False by simp
  then have tail: "ch_tail ch = Some (last as)" "last as \<noteq> ?b" "last as \<in> set as"
    using assms False b by (auto simp: ch_nodes_def simp del: last_in_set)
  have "chain (ch_heap (ch_append ch buf n)) (ch_head ch) (as @ [?b])"
    using chain_append_node [of "ch_heap ch" "ch_head ch" as ?b
        "\<lparr>payload = buf, msg_size = n, msg_next = None\<rparr>"] assms False b tail
    by (simp add: ch_append_def ch_nodes_def Let_def)
  moreover have "dom (ch_heap (ch_append ch buf n)) = set (as @ [?b])"
    using assms tail by (auto simp: ch_append_def ch_nodes_def Let_def)
  ultimately show ?thesis
    using assms tail b(1) by (auto simp: ch_append_def ch_nodes_def Let_def less_SucI)
qed

lemma ch_append_view:
  assumes "ch_nodes ch as"
  shows "map (\<lambda>a. view (the (ch_heap (ch_append ch buf n) a))) (as @ [ch_brk ch]) =
    map (\<lambda>a. view (the (ch_heap ch a))) as @ [(buf, n)]"
proof -
  have "ch_brk ch \<notin> set as" "\<And>t. ch_tail ch = Some t \<Longrightarrow> t \<in> set as"
    using assms by (auto simp: ch_nodes_def split: if_splits)
  then show ?thesis
    by (auto simp: ch_append_def view_def Let_def split: option.splits)
qed

lemma ch_queue_append: "ch_queue ch q \<Longrightarrow> ch_queue (ch_append ch buf n) (q @ [(buf, n)])"
  unfolding ch_queue_def using ch_nodes_append ch_append_view by metis

lemma ch_queue_sem [ch_simps]: "ch_queue (ch\<lparr>ch_sem := k\<rparr>) q \<longleftrightarrow> ch_queue ch q"
  by (simp add: ch_queue_def ch_nodes_def)

lemma ch_append_sem [ch_simps]: "ch_sem (ch_append ch buf n) = ch_sem ch"
  by (simp add: ch_append_def Let_def split: option.split)

lemma ch_unlink_queue:
  assumes "ch_queue ch ((buf, n) # q)"
  obtains m ch' where "ch_unlink ch = Some (m, ch')" "payload m = buf" "msg_size m = n"
    "ch_queue ch' q" "ch_sem ch' = ch_sem ch"
proof -
  from assms obtain a as where nodes: "ch_nodes ch (a # as)"
    and hd: "view (the (ch_heap ch a)) = (buf, n)"
    and tl: "map (\<lambda>a. view (the (ch_heap ch a))) as = q"
    unfolding ch_queue_def by auto
  from nodes obtain m where m: "ch_head ch = Some a" "ch_heap ch a = Some m"
    "chain (ch_heap ch) (msg_next m) as" by (auto simp: ch_nodes_def)
  let ?ch = "(if msg_next m = None then ch\<lparr>ch_head := msg_next m, ch_tail := None\<rparr>
      else ch\<lparr>ch_head := msg_next m\<rparr>)\<lparr>ch_heap := (ch_heap ch)(a := None)\<rparr>"
  have unlink: "ch_unlink ch = Some (m, ?ch)"
    using m by (simp add: ch_unlink_def Let_def)
  have a: "a \<notin> set as" using nodes by (simp add: ch_nodes_def)
  have empty: "msg_next m = None \<longleftrightarrow> as = []" using m(3) by (cases as) auto
  have "ch_nodes ?ch as"
    using nodes m a empty by (auto simp: ch_nodes_def ch_simps)
  moreover have "map (\<lambda>a. view (the (ch_heap ?ch a))) as = q"
    using tl a by (auto simp: map_eq_conv [symmetric] intro!: map_cong)
  ultimately have "ch_queue ?ch q" unfolding ch_queue_def by blast
  then show ?thesis using unlink hd m(2) by (intro that [of m ?ch]) (auto simp: view_def)
qed

lemma ch_write_rep:
  "ch_rep ch q \<Longrightarrow> ch_write sys_ok ch buf n = (CHANNEL_OK, ch') \<Longrightarrow> ch_rep ch' (q @ [(buf, n)])"
  by (auto simp: ch_rep_def ch_write_def sys_ok_def Let_def ch_simps intro: ch_queue_append)

lemma ch_write_sys_ok [ch_simps]: "fst (ch_write sys_ok ch buf n) = CHANNEL_OK"
  by (simp add: ch_write_def sys_ok_def Let_def)

lemma ch_write_rep_snd: "ch_rep ch q \<Longrightarrow> ch_rep (snd (ch_write sys_ok ch buf n)) (q @ [(buf, n)])"
  using ch_write_rep [of ch q buf n] ch_write_sys_ok [of ch buf n] by (metis prod.collapse)

section \<open>The queue specification\<close>

text \<open>The abstract reader: the same call on the list of queued messages.\<close>

fun q_read :: "'a msg_view list \<Rightarrow> 'a option \<Rightarrow> nat \<Rightarrow> read_flag \<Rightarrow> ('a, 'a msg_view list) read_result" where
  "q_read [] buf bufsize READ_BLOCK = Blocked"
| "q_read [] buf bufsize READ_NONBLOCK = Done CHANNEL_NODATA buf bufsize []"
| "q_read ((None, n) # q) buf bufsize flag = Done CHANNEL_END None 0 q"
| "q_read ((Some x, n) # q) buf bufsize flag =
     (if bufsize = 0 \<or> bufsize = n then Done CHANNEL_OK (Some x) n q
      else Done CHANNEL_MISREAD None 0 q)"

lemma ch_read_simulates:
  assumes "ch_rep ch q"
  shows "rel_read_result (=) ch_rep (ch_read sys_ok ch buf bufsize flag) (q_read q buf bufsize flag)"
proof (cases q)
  case Nil
  with assms show ?thesis
    by (cases flag) (auto simp: ch_read_def sys_ok_def ch_rep_def option.rel_eq)
next
  case (Cons e q')
  obtain b n where e: "e = (b, n)" by (cases e)
  from assms Cons e have "ch_queue (ch\<lparr>ch_sem := ch_sem ch - 1\<rparr>) ((b, n) # q')"
    by (simp add: ch_rep_def ch_simps)
  then obtain m ch' where u: "ch_unlink (ch\<lparr>ch_sem := ch_sem ch - 1\<rparr>) = Some (m, ch')"
    "payload m = b" "msg_size m = n" "ch_queue ch' q'" "ch_sem ch' = ch_sem ch - 1"
    by (rule ch_unlink_queue) auto
  with assms Cons have rep: "ch_rep ch' q'" and pos: "ch_sem ch \<noteq> 0" by (auto simp: ch_rep_def)
  show ?thesis
    by (cases b) (use Cons e u rep pos in \<open>auto simp: ch_read_def sys_ok_def Let_def option.rel_eq\<close>)
qed

locale fifo =
  fixes empty :: 'c
    and put :: "'m \<Rightarrow> 'c \<Rightarrow> 'c"
    and get :: "'c \<Rightarrow> ('m \<times> 'c) option"
    and rep :: "'c \<Rightarrow> 'm list \<Rightarrow> bool"
  assumes rep_empty: "rep empty []"
    and rep_put: "rep c q \<Longrightarrow> rep (put x c) (q @ [x])"
    and get_empty: "rep c [] \<Longrightarrow> get c = None"
    and get_nonempty: "rep c (x # q) \<Longrightarrow> \<exists>c'. get c = Some (x, c') \<and> rep c' q"
begin

lemma rep_put_all: "rep c q \<Longrightarrow> rep (fold put xs c) (q @ xs)"
proof (induction xs arbitrary: c q)
  case Nil
  then show ?case by simp
next
  case (Cons x xs)
  then show ?case using Cons.IH [OF rep_put [OF Cons.prems, of x]] by simp
qed

text \<open>Reading as many messages as were written returns them in the order they were written.\<close>

primrec get_all :: "nat \<Rightarrow> 'c \<Rightarrow> 'm list" where
  "get_all 0 c = []"
| "get_all (Suc n) c = (case get c of None \<Rightarrow> [] | Some (x, c') \<Rightarrow> x # get_all n c')"

lemma get_all_rep: "rep c q \<Longrightarrow> length q \<le> n \<Longrightarrow> get_all n c = q"
proof (induction n arbitrary: c q)
  case 0
  then show ?case by simp
next
  case (Suc n)
  show ?case
  proof (cases q)
    case Nil
    with Suc.prems show ?thesis by (simp add: get_empty)
  next
    case (Cons x q')
    then obtain c' where "get c = Some (x, c')" "rep c' q'"
      using get_nonempty Suc.prems(1) by blast
    with Suc.IH [of c' q'] Suc.prems(2) Cons show ?thesis by simp
  qed
qed

lemma get_all_put_all: "get_all (length xs) (fold put xs empty) = xs"
  using rep_put_all [OF rep_empty, of xs] by (simp add: get_all_rep)

end

text \<open>
  The channel as a client sees it: \<open>ch_put\<close> sends a payload of a given size, \<open>ch_get\<close> reads without
  blocking and without an expected size.
\<close>

definition ch_put :: "'a \<times> nat \<Rightarrow> 'a channel \<Rightarrow> 'a channel" where
  "ch_put x ch = snd (ch_write sys_ok ch (Some (fst x)) (snd x))"

definition ch_get :: "'a channel \<Rightarrow> (('a \<times> nat) \<times> 'a channel) option" where
  "ch_get ch =
     (case ch_read sys_ok ch None 0 READ_NONBLOCK of
        Done CHANNEL_OK (Some x) n ch' \<Rightarrow> Some ((x, n), ch')
      | _ \<Rightarrow> None)"

definition ch_holds :: "'a channel \<Rightarrow> ('a \<times> nat) list \<Rightarrow> bool" where
  "ch_holds ch q \<longleftrightarrow> ch_rep ch (map (\<lambda>(x, n). (Some x, n)) q)"

interpretation chan: fifo "the (ch_create True True)" ch_put ch_get ch_holds
proof
  show "ch_holds (the (ch_create True True)) []"
    by (simp add: ch_holds_def) (simp add: ch_create_def ch_queue_create)
next
  fix c :: "'a channel" and q and x :: "'a \<times> nat"
  assume "ch_holds c q"
  then show "ch_holds (ch_put x c) (q @ [x])"
    unfolding ch_holds_def ch_put_def using ch_write_rep_snd [of c _ "Some (fst x)" "snd x"]
    by (simp add: case_prod_beta)
next
  fix c :: "'a channel"
  assume "ch_holds c []"
  then have "rel_read_result (=) ch_rep (ch_read sys_ok c None 0 READ_NONBLOCK) (q_read [] None 0 READ_NONBLOCK)"
    unfolding ch_holds_def by (intro ch_read_simulates) simp
  then show "ch_get c = None"
    by (cases "ch_read sys_ok c None 0 READ_NONBLOCK") (auto simp: ch_get_def)
next
  fix c :: "'a channel" and x :: "'a \<times> nat" and q
  assume "ch_holds c (x # q)"
  then have "rel_read_result (=) ch_rep (ch_read sys_ok c None 0 READ_NONBLOCK)
      (q_read ((Some (fst x), snd x) # map (\<lambda>(x, n). (Some x, n)) q) None 0 READ_NONBLOCK)"
    unfolding ch_holds_def by (intro ch_read_simulates) (simp add: case_prod_beta)
  then show "\<exists>c'. ch_get c = Some (x, c') \<and> ch_holds c' q"
    by (cases "ch_read sys_ok c None 0 READ_NONBLOCK")
      (auto simp: ch_get_def ch_holds_def option.rel_eq)
qed

lemma ch_holds_read:
  assumes "ch_holds ch ((x, n) # q)" "bufsize = 0 \<or> bufsize = n"
  obtains ch' where "ch_read sys_ok ch buf bufsize flag = Done CHANNEL_OK (Some x) n ch'" "ch_holds ch' q"
  using ch_read_simulates [OF assms(1) [unfolded ch_holds_def], of buf bufsize flag] assms(2)
  by (cases "ch_read sys_ok ch buf bufsize flag") (auto simp: ch_holds_def option.rel_eq)

lemma ch_holds_read_empty:
  assumes "ch_holds ch []"
  obtains ch' where "ch_read sys_ok ch buf bufsize READ_NONBLOCK = Done CHANNEL_NODATA buf bufsize ch'"
    "ch_holds ch' []"
  using ch_read_simulates [OF assms(1) [unfolded ch_holds_def], of buf bufsize READ_NONBLOCK]
  by (cases "ch_read sys_ok ch buf bufsize READ_NONBLOCK") (auto simp: ch_holds_def option.rel_eq)

section \<open>Writers and reader interleaved\<close>

text \<open>
  \<^verbatim>\<open>ch_write\<close> is two atomic steps (the locked append, then \<^verbatim>\<open>sem_post\<close>), \<^verbatim>\<open>ch_read\<close> is two as well
  (\<^verbatim>\<open>sem_wait\<close>, then the locked unlink).  Any number of threads may be between the two steps:
  \<open>posting\<close> of them have appended and not yet posted, \<open>taking\<close> have been let through by the semaphore
  and have not yet unlinked.  \<open>sent\<close> and \<open>received\<close> record the history.
\<close>

record 'a chan_sys =
  chan :: "'a channel"
  posting :: nat
  taking :: nat
  sent :: "'a msg_view list"
  received :: "'a msg_view list"

inductive ch_step :: "'a chan_sys \<Rightarrow> 'a chan_sys \<Rightarrow> bool" where
  append: "ch_step s (s\<lparr>chan := ch_append (chan s) buf n, posting := Suc (posting s),
             sent := sent s @ [(buf, n)]\<rparr>)"
| post: "0 < posting s \<Longrightarrow>
     ch_step s (s\<lparr>chan := (chan s)\<lparr>ch_sem := Suc (ch_sem (chan s))\<rparr>, posting := posting s - 1\<rparr>)"
| wait: "0 < ch_sem (chan s) \<Longrightarrow>
     ch_step s (s\<lparr>chan := (chan s)\<lparr>ch_sem := ch_sem (chan s) - 1\<rparr>, taking := Suc (taking s)\<rparr>)"
| take: "0 < taking s \<Longrightarrow> ch_unlink (chan s) = Some (m, ch') \<Longrightarrow>
     ch_step s (s\<lparr>chan := ch', taking := taking s - 1, received := received s @ [view m]\<rparr>)"

definition chan_init :: "'a chan_sys" where
  "chan_init = \<lparr>chan = the (ch_create True True), posting = 0, taking = 0, sent = [], received = []\<rparr>"

inductive chan_reachable :: "'a chan_sys \<Rightarrow> bool" where
  start: "chan_reachable chan_init"
| step: "chan_reachable s \<Longrightarrow> ch_step s t \<Longrightarrow> chan_reachable t"

definition chan_inv :: "'a chan_sys \<Rightarrow> bool" where
  "chan_inv s \<longleftrightarrow> (\<exists>q. ch_queue (chan s) q \<and> sent s = received s @ q \<and>
     ch_sem (chan s) + taking s + posting s = length q)"

lemma chan_inv_init: "chan_inv chan_init"
  using chan.rep_empty by (auto simp: chan_inv_def chan_init_def ch_holds_def ch_rep_def)

lemma ch_step_inv: "ch_step s t \<Longrightarrow> chan_inv s \<Longrightarrow> chan_inv t"
proof (induction rule: ch_step.induct)
  case (append s buf n)
  then show ?case by (fastforce simp: chan_inv_def ch_simps intro: ch_queue_append)
next
  case (take s m ch')
  from take.prems obtain q where q: "ch_queue (chan s) q" "sent s = received s @ q"
    "ch_sem (chan s) + taking s + posting s = length q" unfolding chan_inv_def by blast
  then obtain b n q' where "q = (b, n) # q'" using take.hyps(1) by (cases q) auto
  moreover from this q(1) obtain m' ch'' where "ch_unlink (chan s) = Some (m', ch'')" "payload m' = b"
    "msg_size m' = n" "ch_queue ch'' q'" "ch_sem ch'' = ch_sem (chan s)"
    by (metis ch_unlink_queue)
  ultimately show ?case
    using take.hyps q by (auto simp: chan_inv_def view_def intro!: exI [of _ q'])
qed (auto simp: chan_inv_def ch_simps)

lemma chan_reachable_inv: "chan_reachable s \<Longrightarrow> chan_inv s"
  by (induction rule: chan_reachable.induct) (auto intro: chan_inv_init ch_step_inv)

section \<open>Properties\<close>

text \<open>
  C7.  A channel is a FIFO queue: \<open>ch_read\<close> on the linked list does exactly what the same call does on
  the list of queued messages, in every case (data, no data, blocking, end of transmission, size
  mismatch), and leaves a channel that represents the remaining list.
\<close>

theorem ch_read_refines_queue:
  assumes "ch_rep ch q"
  shows "rel_read_result (=) ch_rep (ch_read sys_ok ch buf bufsize flag) (q_read q buf bufsize flag)"
  using assms by (rule ch_read_simulates)

theorem ch_read_refines_queue_witness:
  "rel_read_result (=) ch_rep
     (ch_read sys_ok (ch_put (7 :: nat, 8) (the (ch_create True True))) None 8 READ_BLOCK)
     (q_read [(Some 7, 8)] None 8 READ_BLOCK)"
proof (rule ch_read_refines_queue)
  show "ch_rep (ch_put (7 :: nat, 8) (the (ch_create True True))) [(Some 7, 8)]"
    using chan.rep_put [OF chan.rep_empty, of "(7 :: nat, 8)"] by (simp add: ch_holds_def)
qed

text \<open>
  C6.  In every interleaving of writers and readers, a reader that the semaphore let through finds a
  message: the unlink never dereferences an empty list, and what has been received is a prefix of
  what has been sent (nothing is lost, duplicated or reordered).
\<close>

theorem channel_interleaving_safe:
  assumes "chan_reachable s"
  shows "(0 < taking s \<longrightarrow> ch_unlink (chan s) \<noteq> None) \<and> (\<exists>q. sent s = received s @ q)"
proof -
  obtain q where q: "ch_queue (chan s) q" "sent s = received s @ q"
    "ch_sem (chan s) + taking s + posting s = length q"
    using chan_reachable_inv [OF assms] unfolding chan_inv_def by blast
  have "ch_unlink (chan s) \<noteq> None" if t: "0 < taking s"
  proof -
    obtain b n q' where "q = (b, n) # q'" using t q(3) by (cases q) auto
    with q(1) show ?thesis by (metis ch_unlink_queue option.distinct(1))
  qed
  with q(2) show ?thesis by blast
qed

lemma chan_reachable_taking:
  "\<exists>s. chan_reachable s \<and> taking s = 1 \<and> posting s = 0 \<and> sent s = [(Some (5 :: nat), 8)]"
proof -
  let ?s0 = "chan_init :: nat chan_sys"
  let ?s1 = "?s0\<lparr>chan := ch_append (chan ?s0) (Some (5 :: nat)) 8,
      posting := Suc (posting ?s0), sent := sent ?s0 @ [(Some 5, 8)]\<rparr>"
  let ?s2 = "?s1\<lparr>chan := (chan ?s1)\<lparr>ch_sem := Suc (ch_sem (chan ?s1))\<rparr>, posting := posting ?s1 - 1\<rparr>"
  let ?s3 = "?s2\<lparr>chan := (chan ?s2)\<lparr>ch_sem := ch_sem (chan ?s2) - 1\<rparr>, taking := Suc (taking ?s2)\<rparr>"
  have "chan_reachable ?s1" by (rule chan_reachable.step [OF chan_reachable.start ch_step.append])
  moreover have "ch_step ?s1 ?s2" by (rule ch_step.post) simp
  ultimately have "chan_reachable ?s2" by (rule chan_reachable.step)
  moreover have "ch_step ?s2 ?s3" by (rule ch_step.wait) simp
  ultimately have "chan_reachable ?s3" by (rule chan_reachable.step)
  then show ?thesis by (intro exI [of _ ?s3]) (simp add: chan_init_def)
qed

theorem channel_interleaving_safe_witness:
  "\<exists>s :: nat chan_sys. taking s = 1 \<and> sent s = [(Some 5, 8)] \<and> ch_unlink (chan s) \<noteq> None"
  using chan_reachable_taking channel_interleaving_safe by (metis zero_less_one)

lemma ch_destroy_loop_frees:
  assumes "chain (ch_heap ch) (ch_head ch) as" "distinct as" "dom (ch_heap ch) = set as"
    and "length as < fuel"
  shows "\<exists>ch'. ch_destroy_loop fuel ch = Some (map (\<lambda>a. payload (the (ch_heap ch a))) as, ch') \<and>
    ch_heap ch' = Map.empty"
  using assms
proof (induction as arbitrary: ch fuel)
  case Nil
  then show ?case by (cases fuel) auto
next
  case (Cons a as)
  then obtain f where f: "fuel = Suc f" "length as < f" by (cases fuel) auto
  from Cons.prems obtain m where m: "ch_head ch = Some a" "ch_heap ch a = Some m"
    "chain (ch_heap ch) (msg_next m) as" by auto
  let ?ch = "ch\<lparr>ch_head := msg_next m, ch_heap := (ch_heap ch)(a := None)\<rparr>"
  have d: "dom (ch_heap ?ch) = set as" and dist: "distinct as" using Cons.prems by auto
  have c: "chain (ch_heap ?ch) (ch_head ?ch) as"
    using m(3) Cons.prems(2) by (simp add: ch_simps del: fun_upd_apply)
  obtain ch' where "ch_destroy_loop f ?ch = Some (map (\<lambda>a. payload (the (ch_heap ?ch a))) as, ch')"
    "ch_heap ch' = Map.empty"
    using Cons.IH [OF c dist d f(2)] by blast
  moreover have "map (\<lambda>a. payload (the (ch_heap ?ch a))) as = map (\<lambda>a. payload (the (ch_heap ch a))) as"
    using Cons.prems(2) by auto
  ultimately show ?case using f m by auto
qed

text \<open>
  \<open>ch_destroy\<close> terminates, passes the payload of every queued message to \<^verbatim>\<open>free\<close> exactly once and
  leaves no node allocated.
\<close>

theorem ch_destroy_frees_all:
  assumes "ch_queue ch q"
  shows "\<exists>ch'. ch_destroy ch = Some (map fst q, ch') \<and> ch_heap ch' = Map.empty"
proof -
  obtain as where as: "ch_nodes ch as" "map (\<lambda>a. view (the (ch_heap ch a))) as = q"
    using assms unfolding ch_queue_def by blast
  have "length as = card (set as)" using as(1) by (simp add: ch_nodes_def distinct_card)
  also have "\<dots> \<le> card {..<ch_brk ch}"
    using as(1) by (intro card_mono) (auto simp: ch_nodes_def)
  finally have "length as < Suc (ch_brk ch)" by simp
  moreover have "map (\<lambda>a. payload (the (ch_heap ch a))) as = map fst q"
    unfolding as(2) [symmetric] by (simp add: view_def)
  ultimately show ?thesis
    using ch_destroy_loop_frees [of ch as "Suc (ch_brk ch)"] as(1)
    by (simp add: ch_destroy_def ch_nodes_def)
qed

theorem ch_destroy_frees_all_witness:
  "\<exists>ch'. ch_destroy (ch_append (the (ch_create True True)) (Some (3 :: nat)) 4) = Some ([Some 3], ch') \<and>
     ch_heap ch' = Map.empty"
proof -
  have "ch_queue (the (ch_create True True) :: nat channel) []"
    using chan.rep_empty [where 'a = nat] by (simp add: ch_holds_def ch_rep_def)
  then have "ch_queue (ch_append (the (ch_create True True)) (Some (3 :: nat)) 4) [(Some 3, 4)]"
    using ch_queue_append by fastforce
  from ch_destroy_frees_all [OF this] show ?thesis by simp
qed

end
