(* ===== verification/Memcache.thy ===== *)
theory Memcache
  imports Memdiff Channel
begin

text \<open>
  The memory cache of \<^verbatim>\<open>record/memcache.c\<close>: the recorder's copy of the child's memory regions, the
  lookup of the page of an address (\<^verbatim>\<open>find_page\<close>), the comparison of a page with the child
  (\<^verbatim>\<open>process_page\<close>), the addition of a region (\<^verbatim>\<open>cache_add_region\<close>) and the processing of the reported
  page faults (\<^verbatim>\<open>proc_dirty_mem\<close>).  \<^verbatim>\<open>PAGE_SIZE\<close> is the parameter \<open>psz\<close>;
  \<^verbatim>\<open>process_vm_readv\<close> is the parameter \<open>readv\<close>, which returns the bytes that the call transferred (none
  when it fails).  The pointer \<^verbatim>\<open>cached\<close> is a pair of a region number and an offset into its pages.
\<close>

section \<open>Data\<close>

record region =
  reg_start :: u64
  reg_end :: u64
  reg_pages :: "byte list"

text \<open>\<^verbatim>\<open>struct insert_mem_msg\<close> of \<^verbatim>\<open>record/db_workers.h\<close>; its size is 8 + 8 + 32 bytes.\<close>

record mem_msg =
  mm_step_id :: u64
  mm_address :: u64
  mm_content :: "byte list"

definition mem_msg_size :: nat where
  "mem_msg_size = 48"

record memcache =
  mc_regions :: "region list"
  mc_insert :: "mem_msg channel"

section \<open>Operations\<close>

text \<open>The binary search of \<^verbatim>\<open>find_page\<close>; the result is the final \<open>(left, right, index)\<close>.\<close>

function find_page_loop :: "region list \<Rightarrow> u64 \<Rightarrow> nat \<Rightarrow> nat \<Rightarrow> nat \<times> nat \<times> nat" where
  "find_page_loop cache address left right =
     (let index = (left + right) div 2 in
      if left < right then
        if address < reg_start (cache ! index) then find_page_loop cache address left index
        else if reg_end (cache ! index) \<le> address then find_page_loop cache address (Suc index) right
        else (left, right, index)
      else (left, right, index))"
  by pat_completeness auto
termination
  by (relation "measure (\<lambda>(_, _, left, right). right - left)") auto

declare find_page_loop.simps [simp del]

text \<open>
  \<^verbatim>\<open>find_page\<close>: \<open>None\<close> when the address is in no region, otherwise the position of the cached page and
  the page's address.  \<^verbatim>\<open>page_num\<close> is an \<^verbatim>\<open>int\<close>: the quotient is cut to 32 bits and sign-extended
  again when it is multiplied.
\<close>

definition find_page :: "nat \<Rightarrow> region list \<Rightarrow> u64 \<Rightarrow> (nat \<times> nat \<times> u64) option" where
  "find_page psz cache address =
     (case find_page_loop cache address 0 (length cache) of
        (left, right, index) \<Rightarrow>
          if left = right then None
          else
            let r = cache ! index;
                page_num = (ucast ((address - reg_start r) div word_of_nat psz) :: 32 word);
                off = (scast page_num :: u64) * word_of_nat psz
            in Some (index, unat off, reg_start r + off))"

definition put_mem_msg :: "u64 \<Rightarrow> u64 \<Rightarrow> byte list \<Rightarrow> mem_msg channel \<Rightarrow> mem_msg channel" where
  "put_mem_msg address step_id content ch =
     ch_put (\<lparr>mm_step_id = step_id, mm_address = address, mm_content = content\<rparr>, mem_msg_size) ch"

text \<open>
  The loop of \<^verbatim>\<open>process_page\<close> over the segments of a page: \<open>buffer\<close> holds the page as read from the
  child, \<open>pages\<close> the cached region with the page at offset \<open>off\<close>.
\<close>

function process_page_loop ::
    "(byte list \<Rightarrow> byte list \<Rightarrow> nat \<Rightarrow> bool) \<Rightarrow> nat \<Rightarrow> byte list \<Rightarrow> nat \<Rightarrow> u64 \<Rightarrow> u64 \<Rightarrow>
     nat \<Rightarrow> byte list \<Rightarrow> mem_msg channel \<Rightarrow> byte list \<times> mem_msg channel" where
  "process_page_loop memdiff psz buffer off address step_id offset pages ch =
     (if offset < psz then
        if memdiff (drop offset buffer) (drop (off + offset) pages) MEM_SEGMENT_SIZE then
          let seg = slice buffer offset MEM_SEGMENT_SIZE in
          process_page_loop memdiff psz buffer off address step_id (offset + MEM_SEGMENT_SIZE)
            (overwrite pages (off + offset) seg)
            (put_mem_msg (address + word_of_nat offset) step_id seg ch)
        else process_page_loop memdiff psz buffer off address step_id (offset + MEM_SEGMENT_SIZE) pages ch
      else (pages, ch))"
  by pat_completeness auto
termination
  by (relation "measure (\<lambda>(_, psz, _, _, _, _, offset, _, _). psz - offset)")
    (auto simp: MEM_SEGMENT_SIZE_def)

declare process_page_loop.simps [simp del]

text \<open>
  \<^verbatim>\<open>process_page\<close>.  \<open>stk\<close> is what the local buffer holds before the read.  \<open>None\<close> is an access outside the
  cached pages.
\<close>

definition process_page ::
    "(byte list \<Rightarrow> byte list \<Rightarrow> nat \<Rightarrow> bool) \<Rightarrow> nat \<Rightarrow> (u64 \<Rightarrow> nat \<Rightarrow> byte list) \<Rightarrow> byte list \<Rightarrow>
     u64 \<Rightarrow> byte list \<Rightarrow> nat \<Rightarrow> u64 \<Rightarrow> mem_msg channel \<Rightarrow> (byte list \<times> mem_msg channel) option" where
  "process_page memdiff psz readv stk address pages off step_id ch =
     (let got = readv address psz in
      if length got < MEM_SEGMENT_SIZE then Some (pages, ch)
      else if length pages < off + psz then None
      else Some (process_page_loop memdiff psz (overwrite stk 0 got) off address step_id 0 pages ch))"

text \<open>\<^verbatim>\<open>cache_add_region\<close>: the position of the new region.\<close>

function add_index :: "region list \<Rightarrow> u64 \<Rightarrow> nat \<Rightarrow> nat" where
  "add_index cache address index =
     (if index < length cache \<and> reg_start (cache ! index) \<le> address
      then add_index cache address (Suc index) else index)"
  by pat_completeness auto
termination
  by (relation "measure (\<lambda>(cache, _, index). length cache - index)") auto

declare add_index.simps [simp del]

text \<open>The loop that stores every segment of the new region.\<close>

function add_region_loop ::
    "u64 \<Rightarrow> nat \<Rightarrow> u64 \<Rightarrow> byte list \<Rightarrow> nat \<Rightarrow> mem_msg channel \<Rightarrow> mem_msg channel" where
  "add_region_loop address sz step_id pages offset ch =
     (if offset < sz then
        add_region_loop address sz step_id pages (offset + MEM_SEGMENT_SIZE)
          (put_mem_msg (address + word_of_nat offset) step_id (slice pages offset MEM_SEGMENT_SIZE) ch)
      else ch)"
  by pat_completeness auto
termination
  by (relation "measure (\<lambda>(_, sz, _, _, offset, _). sz - offset)") (auto simp: MEM_SEGMENT_SIZE_def)

declare add_region_loop.simps [simp del]

text \<open>
  \<^verbatim>\<open>cache_add_region\<close>.  \<open>fresh\<close> is the content of the block from \<^verbatim>\<open>posix_memalign\<close>.  The region enters
  the cache also when its content cannot be read; then nothing is stored.
\<close>

definition cache_add_region ::
    "(u64 \<Rightarrow> nat \<Rightarrow> byte list) \<Rightarrow> byte list \<Rightarrow> u64 \<Rightarrow> u64 \<Rightarrow> u64 \<Rightarrow> memcache \<Rightarrow> memcache" where
  "cache_add_region readv fresh address sz step_id mc =
     (let cache = mc_regions mc;
          index = add_index cache address 0;
          got = readv address (unat sz);
          pages = overwrite fresh 0 got;
          new_reg = \<lparr>reg_start = address, reg_end = address + sz, reg_pages = pages\<rparr>;
          cache' = take index cache @ [new_reg] @ drop index cache
      in if length got < unat sz then mc\<lparr>mc_regions := cache'\<rparr>
         else mc\<lparr>mc_regions := cache',
                 mc_insert := add_region_loop address (unat sz) step_id pages 0 (mc_insert mc)\<rparr>)"

text \<open>The body of the loop of \<^verbatim>\<open>proc_dirty_mem\<close> for one reported address.\<close>

definition proc_dirty_addr ::
    "(byte list \<Rightarrow> byte list \<Rightarrow> nat \<Rightarrow> bool) \<Rightarrow> nat \<Rightarrow> (u64 \<Rightarrow> nat \<Rightarrow> byte list) \<Rightarrow> byte list \<Rightarrow>
     u64 \<Rightarrow> u64 \<Rightarrow> memcache \<Rightarrow> memcache option" where
  "proc_dirty_addr memdiff psz readv stk step_id address mc =
     (case find_page psz (mc_regions mc) address of
        None \<Rightarrow> Some mc
      | Some (index, off, page_address) \<Rightarrow>
          if page_address = 0 then Some mc
          else
            let r = mc_regions mc ! index in
            (case process_page memdiff psz readv stk page_address (reg_pages r) off step_id (mc_insert mc) of
               None \<Rightarrow> None
             | Some (pages, ch) \<Rightarrow>
                 Some (mc\<lparr>mc_regions := (mc_regions mc)[index := r\<lparr>reg_pages := pages\<rparr>],
                          mc_insert := ch\<rparr>)))"

lemma ch_unlink_sem: "ch_unlink ch = Some (m, ch') \<Longrightarrow> ch_sem ch' = ch_sem ch"
  by (auto simp: ch_unlink_def Let_def split: option.splits if_splits)

lemma ch_read_OK_sem:
  "ch_read sys ch buf n flag = Done CHANNEL_OK b k ch' \<Longrightarrow> ch_sem ch' < ch_sem ch"
  by (auto simp: ch_read_def Let_def dest!: ch_unlink_sem split: if_splits option.splits prod.splits)

text \<open>
  \<^verbatim>\<open>proc_dirty_mem\<close>: read addresses from the channel until a read does not return \<^verbatim>\<open>CHANNEL_OK\<close>.
\<close>

function proc_dirty_mem ::
    "(byte list \<Rightarrow> byte list \<Rightarrow> nat \<Rightarrow> bool) \<Rightarrow> nat \<Rightarrow> (u64 \<Rightarrow> nat \<Rightarrow> byte list) \<Rightarrow> byte list \<Rightarrow>
     u64 \<Rightarrow> u64 channel \<Rightarrow> memcache \<Rightarrow> (u64 channel \<times> memcache) option" where
  "proc_dirty_mem memdiff psz readv stk step_id ch mc =
     (case ch_read sys_ok ch None 8 READ_NONBLOCK of
        Done CHANNEL_OK (Some address) _ ch' \<Rightarrow>
          (case proc_dirty_addr memdiff psz readv stk step_id address mc of
             None \<Rightarrow> None
           | Some mc' \<Rightarrow> proc_dirty_mem memdiff psz readv stk step_id ch' mc')
      | Done _ _ _ ch' \<Rightarrow> Some (ch', mc)
      | _ \<Rightarrow> None)"
  by pat_completeness auto
termination
  by (relation "measure (\<lambda>(_, _, _, _, _, ch, _). ch_sem ch)") (auto dest: ch_read_OK_sem)

declare proc_dirty_mem.simps [simp del]

section \<open>Well-formed caches\<close>

text \<open>
  Regions are sorted and disjoint; each holds whole pages, in at most \<open>2 ^ 31\<close> pages (the range of
  \<^verbatim>\<open>page_num\<close>), and does not start at address 0.
\<close>

definition region_ok :: "nat \<Rightarrow> region \<Rightarrow> bool" where
  "region_ok psz r \<longleftrightarrow>
     0 < reg_start r \<and> reg_start r < reg_end r \<and>
     length (reg_pages r) = unat (reg_end r) - unat (reg_start r) \<and>
     psz dvd length (reg_pages r) \<and> length (reg_pages r) < psz * 2 ^ 31"

definition cache_wf :: "nat \<Rightarrow> region list \<Rightarrow> bool" where
  "cache_wf psz cache \<longleftrightarrow>
     sorted_wrt (\<lambda>r s. reg_end r \<le> reg_start s) cache \<and> (\<forall>r \<in> set cache. region_ok psz r)"

section \<open>Finding a page\<close>

definition in_region :: "u64 \<Rightarrow> region \<Rightarrow> bool" where
  "in_region a r \<longleftrightarrow> reg_start r \<le> a \<and> a < reg_end r"

lemma cache_wf_nth_less:
  "cache_wf psz cache \<Longrightarrow> i < j \<Longrightarrow> j < length cache \<Longrightarrow> reg_end (cache ! i) \<le> reg_start (cache ! j)"
  by (simp add: cache_wf_def sorted_wrt_iff_nth_less)

lemma cache_wf_region: "cache_wf psz cache \<Longrightarrow> i < length cache \<Longrightarrow> region_ok psz (cache ! i)"
  by (simp add: cache_wf_def)

lemma cache_wf_start_mono:
  "cache_wf psz cache \<Longrightarrow> i \<le> j \<Longrightarrow> j < length cache \<Longrightarrow> reg_start (cache ! i) \<le> reg_start (cache ! j)"
  using cache_wf_nth_less [of psz cache i j] cache_wf_region [of psz cache i]
  by (cases "i = j") (auto simp: region_ok_def)

lemma cache_wf_end_mono:
  "cache_wf psz cache \<Longrightarrow> i \<le> j \<Longrightarrow> j < length cache \<Longrightarrow> reg_end (cache ! i) \<le> reg_end (cache ! j)"
  using cache_wf_nth_less [of psz cache i j] cache_wf_region [of psz cache j]
  by (cases "i = j") (auto simp: region_ok_def)

lemma find_page_loop_correct:
  assumes "cache_wf psz cache" "left \<le> right" "right \<le> length cache"
    and "\<And>j. j < left \<Longrightarrow> reg_end (cache ! j) \<le> a"
    and "\<And>j. right \<le> j \<Longrightarrow> j < length cache \<Longrightarrow> a < reg_start (cache ! j)"
    and "find_page_loop cache a left right = (l, r, i)"
  shows "if l = r then \<forall>s \<in> set cache. \<not> in_region a s
         else i < length cache \<and> in_region a (cache ! i)"
  using assms
proof (induction cache a left right rule: find_page_loop.induct)
  case (1 cache a left right)
  let ?i = "(left + right) div 2"
  show ?case
  proof (cases "left < right")
    case False
    with "1.prems"(2,6) have lr: "left = right" "l = left" "r = right"
      by (subst (asm) find_page_loop.simps, simp add: Let_def)+
    have "\<not> in_region a (cache ! j)" if "j < length cache" for j
      using "1.prems"(4) [of j] "1.prems"(5) [of j] that lr(1)
      by (cases "j < left") (auto simp: in_region_def)
    then show ?thesis using lr by (auto simp: in_set_conv_nth)
  next
    case True
    then have i: "?i < right" "left \<le> ?i" "?i < length cache" using "1.prems"(3) by auto
    consider (below) "a < reg_start (cache ! ?i)" | (above) "reg_end (cache ! ?i) \<le> a"
      "\<not> a < reg_start (cache ! ?i)"
      | (found) "in_region a (cache ! ?i)" by (force simp: in_region_def not_less)
    then show ?thesis
    proof cases
      case below
      have "a < reg_start (cache ! j)" if "?i \<le> j" "j < length cache" for j
        using cache_wf_start_mono [OF "1.prems"(1) that] below by (rule less_le_trans [rotated])
      moreover have "find_page_loop cache a left ?i = (l, r, i)"
        using "1.prems"(6) True below by (simp add: find_page_loop.simps [of cache a left right] Let_def)
      ultimately show ?thesis
        using "1.IH"(1) [OF refl True below] "1.prems"(1,4) i by simp
    next
      case above
      have "reg_end (cache ! j) \<le> a" if "j < Suc ?i" for j
        using cache_wf_end_mono [OF "1.prems"(1), of j ?i] that above(1) i(3) by simp
      moreover have "find_page_loop cache a (Suc ?i) right = (l, r, i)"
        using "1.prems"(6) True above by (simp add: find_page_loop.simps [of cache a left right] Let_def)
      ultimately show ?thesis
        using "1.IH"(2) [OF refl True] above "1.prems"(1,3,5) i by simp
    next
      case found
      then have "\<not> a < reg_start (cache ! ?i)" "\<not> reg_end (cache ! ?i) \<le> a"
        by (auto simp: in_region_def)
      then have "(l, r, i) = (left, right, ?i)"
        using "1.prems"(6) True by (auto simp: find_page_loop.simps [of cache a left right] Let_def)
      then show ?thesis using True found i by simp
    qed
  qed
qed

lemma page_offset_exact:
  assumes "region_ok psz r" "in_region a r"
  defines "q \<equiv> (unat a - unat (reg_start r)) div psz"
  shows "(scast (ucast ((a - reg_start r) div word_of_nat psz) :: 32 word) :: u64) * word_of_nat psz
           = word_of_nat (q * psz)"
    and "q * psz + psz \<le> length (reg_pages r)"
    and "unat (reg_start r) + q * psz \<le> unat a" and "unat a < unat (reg_start r) + q * psz + psz"
proof -
  let ?n = "unat a - unat (reg_start r)"
  have le: "unat (reg_start r) \<le> unat a" "?n < length (reg_pages r)"
    using assms(1,2) by (auto simp: region_ok_def in_region_def u64_le_unat u64_less_unat)
  have psz: "0 < psz" using assms(1) by (auto simp: region_ok_def)
  have len: "length (reg_pages r) < 2 ^ 64"
    using assms(1) unat_u64_bound [of "reg_end r"] by (simp add: region_ok_def)
  have "psz dvd length (reg_pages r)" using assms(1) unfolding region_ok_def by blast
  then obtain k where k: "length (reg_pages r) = psz * k" ..
  have "psz \<le> length (reg_pages r)" using le(2) k psz by (cases k) auto
  with len have psz64: "psz < 2 ^ 64" by simp
  have kb: "k < 2 ^ 31" using assms(1) k psz by (simp add: region_ok_def)
  have q: "q < k" using le(2) k psz by (simp add: q_def div_less_iff_less_mult mult.commute)
  then have "q * psz + psz \<le> psz * k"
    using mult_le_mono2 [of "Suc q" k psz] by (simp add: algebra_simps)
  then show "q * psz + psz \<le> length (reg_pages r)" using k by simp
  have "unat ((a - reg_start r) div word_of_nat psz) = q"
    using assms(2) psz64 by (simp add: unat_div unat_sub_le in_region_def unat_of_nat q_def)
  then have "(ucast ((a - reg_start r) div word_of_nat psz) :: 32 word) = word_of_nat q"
    by (simp only: ucast_word_of_nat_unat)
  then show "(scast (ucast ((a - reg_start r) div word_of_nat psz) :: 32 word) :: u64) * word_of_nat psz
           = word_of_nat (q * psz)"
    using scast_word_of_nat_small [where 'a = 32 and 'b = 64, of q] q kb by simp
  have "q * psz \<le> ?n" "?n < q * psz + psz"
    using psz mod_less_divisor [OF psz, of ?n] div_mult_mod_eq [of ?n psz] unfolding q_def by linarith+
  then show "unat (reg_start r) + q * psz \<le> unat a" "unat a < unat (reg_start r) + q * psz + psz"
    using le(1) by linarith+
qed

text \<open>\<open>page_at psz r a\<close>: the offset of the page of \<open>a\<close> in the region.\<close>

definition page_at :: "nat \<Rightarrow> region \<Rightarrow> u64 \<Rightarrow> nat" where
  "page_at psz r a = (unat a - unat (reg_start r)) div psz * psz"

lemma find_page_cases:
  assumes "cache_wf psz cache"
  obtains (none) "find_page psz cache a = None" "\<forall>r \<in> set cache. \<not> in_region a r"
  | (page) i where "i < length cache" "in_region a (cache ! i)"
      "find_page psz cache a = Some (i, page_at psz (cache ! i) a,
         reg_start (cache ! i) + word_of_nat (page_at psz (cache ! i) a))"
proof -
  obtain l r i where loop: "find_page_loop cache a 0 (length cache) = (l, r, i)"
    by (cases "find_page_loop cache a 0 (length cache)") auto
  have c: "if l = r then \<forall>s \<in> set cache. \<not> in_region a s
         else i < length cache \<and> in_region a (cache ! i)"
    using find_page_loop_correct [OF assms _ _ _ _ loop] by simp
  show ?thesis
  proof (cases "l = r")
    case True
    then show ?thesis using c loop none by (simp add: find_page_def)
  next
    case False
    with c have i: "i < length cache" "in_region a (cache ! i)" by simp_all
    have ok: "region_ok psz (cache ! i)" using assms i(1) by (rule cache_wf_region)
    have "page_at psz (cache ! i) a < 2 ^ 64"
      using page_offset_exact(3) [OF ok i(2)] unat_u64_bound [of a] by (simp add: page_at_def)
    then have un: "unat (word_of_nat (page_at psz (cache ! i) a) :: u64) = page_at psz (cache ! i) a"
      by (intro unat_word_of_nat_small) simp
    have "find_page psz cache a = Some (i, page_at psz (cache ! i) a,
         reg_start (cache ! i) + word_of_nat (page_at psz (cache ! i) a))"
      using False
      by (simp only: find_page_def loop Let_def prod.case if_False
          page_offset_exact(1) [OF ok i(2), folded page_at_def] un)
    then show ?thesis using page i by blast
  qed
qed

lemma page_at_bounds:
  assumes "region_ok psz r" "in_region a r"
  shows "page_at psz r a + psz \<le> length (reg_pages r)"
    and "unat (reg_start r) + page_at psz r a \<le> unat a"
    and "unat a < unat (reg_start r) + page_at psz r a + psz"
    and "psz dvd page_at psz r a"
  using page_offset_exact [OF assms] by (simp_all add: page_at_def)

lemma region_fits: "region_ok psz r \<Longrightarrow> unat (reg_start r) + length (reg_pages r) = unat (reg_end r)"
  by (auto simp: region_ok_def u64_less_unat)

lemma region_addr_bound:
  assumes "region_ok psz r" "n \<le> length (reg_pages r)"
  shows "unat (reg_start r) + n < 2 ^ 64"
  using region_fits [OF assms(1)] assms(2) unat_u64_bound [of "reg_end r"] by simp

section \<open>Processing a page\<close>

text \<open>
  The messages that a comparison of the old page with the new one must produce: one per changed
  segment, in the order of addresses.
\<close>

definition seg_msg :: "u64 \<Rightarrow> u64 \<Rightarrow> byte list \<Rightarrow> nat \<Rightarrow> mem_msg" where
  "seg_msg address step_id buffer k =
     \<lparr>mm_step_id = step_id, mm_address = address + word_of_nat (32 * k), mm_content = slice buffer (32 * k) 32\<rparr>"

definition changed_segs :: "byte list \<Rightarrow> nat \<Rightarrow> byte list \<Rightarrow> nat \<Rightarrow> nat \<Rightarrow> nat list" where
  "changed_segs buffer off pages k n =
     filter (\<lambda>j. slice buffer (32 * j) 32 \<noteq> slice pages (off + 32 * j) 32) [k..<n]"

definition sized :: "mem_msg list \<Rightarrow> (mem_msg \<times> nat) list" where
  "sized ms = map (\<lambda>m. (m, mem_msg_size)) ms"

lemma sized_append [simp]: "sized (xs @ ys) = sized xs @ sized ys"
  by (simp add: sized_def)

lemma sized_Cons [simp]: "sized (x # xs) = (x, mem_msg_size) # sized xs"
  by (simp add: sized_def)

lemma sized_Nil [simp]: "sized [] = []"
  by (simp add: sized_def)

lemma put_mem_msg_holds:
  "ch_holds ch (sized q) \<Longrightarrow>
   ch_holds (put_mem_msg a s c ch) (sized (q @ [\<lparr>mm_step_id = s, mm_address = a, mm_content = c\<rparr>]))"
  unfolding put_mem_msg_def using chan.rep_put by fastforce

context mem_compare
begin

lemma process_page_loop_step:
  assumes "k < n" "psz = 32 * n" "length buffer = psz" "off + psz \<le> length pages"
  defines "seg \<equiv> slice buffer (32 * k) 32"
  shows "process_page_loop diff psz buffer off address step_id (32 * k) pages ch =
    (if seg \<noteq> slice pages (off + 32 * k) 32
     then process_page_loop diff psz buffer off address step_id (32 * Suc k)
            (overwrite pages (off + 32 * k) seg) (put_mem_msg (address + word_of_nat (32 * k)) step_id seg ch)
     else process_page_loop diff psz buffer off address step_id (32 * Suc k) pages ch)"
proof -
  have "diff (drop (32 * k) buffer) (drop (off + 32 * k) pages) 32 \<longleftrightarrow> seg \<noteq> slice pages (off + 32 * k) 32"
    using diff_iff [of 32 "drop (32 * k) buffer" "drop (off + 32 * k) pages"] assms(1-4)
    by (simp add: slice_def seg_def)
  then show ?thesis
    using assms(1,2) unfolding seg_def
    by (subst process_page_loop.simps) (simp add: MEM_SEGMENT_SIZE_def Let_def add.commute)
qed

lemma process_page_loop_spec:
  assumes "k \<le> n" "psz = 32 * n" "length buffer = psz" "off + psz \<le> length pages" "ch_holds ch (sized q)"
  shows "\<exists>ch'. process_page_loop diff psz buffer off address step_id (32 * k) pages ch
             = (overwrite pages (off + 32 * k) (drop (32 * k) buffer), ch') \<and>
           ch_holds ch' (sized (q @ map (seg_msg address step_id buffer) (changed_segs buffer off pages k n)))"
  using assms
proof (induction k arbitrary: pages ch q rule: inc_induct)
  case base
  then show ?case by (simp add: process_page_loop.simps overwrite_def changed_segs_def)
next
  case (step k)
  let ?seg = "slice buffer (32 * k) 32"
  let ?chg = "?seg \<noteq> slice pages (off + 32 * k) 32"
  let ?pages = "if ?chg then overwrite pages (off + 32 * k) ?seg else pages"
  let ?q = "if ?chg then q @ [seg_msg address step_id buffer k] else q"
  let ?ch = "if ?chg then put_mem_msg (address + word_of_nat (32 * k)) step_id ?seg ch else ch"
  have len: "length ?seg = 32" using step.hyps step.prems by (simp add: length_slice)
  have lenp: "length ?pages = length pages" using len step.hyps step.prems by (simp add: length_overwrite)
  have ch: "ch_holds ?ch (sized ?q)"
    using put_mem_msg_holds [OF step.prems(4)] step.prems(4) by (simp add: seg_msg_def)
  have same: "slice ?pages (off + 32 * j) 32 = slice pages (off + 32 * j) 32" if "Suc k \<le> j" "j < n" for j
    using that len step.hyps step.prems by (simp add: slice_overwrite_other)
  have segs: "changed_segs buffer off ?pages (Suc k) n = changed_segs buffer off pages (Suc k) n"
    unfolding changed_segs_def using same by (intro filter_cong) auto
  have "?pages = overwrite pages (off + 32 * k) ?seg"
    using overwrite_slice_self [of "off + 32 * k" 32 pages] step.hyps step.prems by simp
  then have ow: "overwrite ?pages (off + 32 * Suc k) (drop (32 * Suc k) buffer)
      = overwrite pages (off + 32 * k) (drop (32 * k) buffer)"
    using overwrite_adjacent [of "off + 32 * k" ?seg "drop (32 * Suc k) buffer" pages] len
      step.hyps step.prems take_drop_slice [of buffer "32 * k" 32] by (simp add: add.commute add.left_commute)
  have qs: "sized (?q @ map (seg_msg address step_id buffer) (changed_segs buffer off pages (Suc k) n))
      = sized (q @ map (seg_msg address step_id buffer) (changed_segs buffer off pages k n))"
    using step.hyps by (simp add: changed_segs_def upt_conv_Cons)
  have st: "process_page_loop diff psz buffer off address step_id (32 * k) pages ch =
      process_page_loop diff psz buffer off address step_id (32 * Suc k) ?pages ?ch"
    using process_page_loop_step [OF step.hyps(2) step.prems(1-3)] by simp
  have "off + psz \<le> length ?pages" using step.prems(3) lenp by simp
  from step.IH [OF step.prems(1,2) this ch] show ?case unfolding ow qs segs st .
qed

end

section \<open>The bytes that the cache and the log hold\<close>

text \<open>The cached value of the byte at an address.\<close>

definition cache_byte :: "region list \<Rightarrow> u64 \<Rightarrow> byte option" where
  "cache_byte cache a =
     (case find (in_region a) cache of
        None \<Rightarrow> None
      | Some r \<Rightarrow> Some (reg_pages r ! (unat a - unat (reg_start r))))"

text \<open>The value of the byte according to the messages: the last one that covers the address counts.\<close>

definition covers :: "mem_msg \<Rightarrow> u64 \<Rightarrow> bool" where
  "covers m a \<longleftrightarrow> unat (mm_address m) \<le> unat a \<and> unat a < unat (mm_address m) + 32"

definition replay :: "u64 \<Rightarrow> mem_msg list \<Rightarrow> byte option \<Rightarrow> byte option" where
  "replay a = fold (\<lambda>m acc. if covers m a then Some (mm_content m ! (unat a - unat (mm_address m))) else acc)"

definition recorded :: "mem_msg list \<Rightarrow> u64 \<Rightarrow> byte option" where
  "recorded msgs a = replay a msgs None"

text \<open>The recorded messages reproduce the cache.\<close>

definition cache_logged :: "region list \<Rightarrow> mem_msg list \<Rightarrow> bool" where
  "cache_logged cache msgs \<longleftrightarrow> (\<forall>a b. cache_byte cache a = Some b \<longrightarrow> recorded msgs a = Some b)"

lemma replay_append [simp]: "replay a (xs @ ys) acc = replay a ys (replay a xs acc)"
  by (simp add: replay_def)

lemma recorded_append: "recorded (xs @ ys) a = replay a ys (recorded xs a)"
  by (simp add: recorded_def)

lemma covers_seg_msg:
  assumes "unat address + 32 * Suc k \<le> 2 ^ 64"
  shows "covers (seg_msg address s buf k) a \<longleftrightarrow>
    unat address + 32 * k \<le> unat a \<and> unat a < unat address + 32 * k + 32"
proof -
  have "unat (address + word_of_nat (32 * k)) = unat address + 32 * k"
    using assms by (intro unat_add_offset) simp
  then show ?thesis by (simp only: covers_def seg_msg_def mem_msg.simps)
qed

lemma seg_msg_byte:
  assumes "covers (seg_msg address s buf k) a" "unat address + 32 * Suc k \<le> 2 ^ 64" "32 * Suc k \<le> length buf"
  shows "mm_content (seg_msg address s buf k) ! (unat a - unat (mm_address (seg_msg address s buf k)))
    = buf ! (unat a - unat address)"
proof -
  have u: "unat (address + word_of_nat (32 * k)) = unat address + 32 * k"
    using assms(2) by (intro unat_add_offset) simp
  have c: "unat address + 32 * k \<le> unat a" "unat a < unat address + 32 * k + 32"
    using assms(1,2) covers_seg_msg by blast+
  then have "slice buf (32 * k) 32 ! (unat a - (unat address + 32 * k)) = buf ! (unat a - unat address)"
    using assms(3) by (subst nth_slice) auto
  then show ?thesis by (simp only: seg_msg_def mem_msg.simps u)
qed

text \<open>Replaying the messages of segments of one buffer gives that buffer's byte where one covers.\<close>

lemma replay_segs:
  assumes "unat address + length buf \<le> 2 ^ 64" "\<forall>k \<in> set ks. 32 * Suc k \<le> length buf"
  shows "replay a (map (seg_msg address s buf) ks) acc =
    (if \<exists>k \<in> set ks. unat address + 32 * k \<le> unat a \<and> unat a < unat address + 32 * k + 32
     then Some (buf ! (unat a - unat address)) else acc)"
  using assms(2)
proof (induction ks rule: rev_induct)
  case Nil
  then show ?case by (simp add: replay_def)
next
  case (snoc k ks)
  have k: "unat address + 32 * Suc k \<le> 2 ^ 64" "32 * Suc k \<le> length buf"
    using snoc.prems assms(1) by simp_all
  have "replay a [seg_msg address s buf k] x =
      (if unat address + 32 * k \<le> unat a \<and> unat a < unat address + 32 * k + 32
       then Some (buf ! (unat a - unat address)) else x)" for x
    using covers_seg_msg [OF k(1)] seg_msg_byte [OF _ k] by (simp add: replay_def)
  moreover have "\<forall>k \<in> set ks. 32 * Suc k \<le> length buf" using snoc.prems by simp
  ultimately show ?case using snoc.IH by (auto simp del: mult_Suc_right)
qed

lemma seg_of_offset:
  assumes "A \<le> x" "x < A + 32 * (n :: nat)"
  obtains k where "k < n" "A + 32 * k \<le> x" "x < A + 32 * k + 32"
proof
  show "(x - A) div 32 < n" using assms by (simp add: div_less_iff_less_mult mult.commute)
  show "A + 32 * ((x - A) div 32) \<le> x" "x < A + 32 * ((x - A) div 32) + 32" 
    using assms div_mult_mod_eq [of "x - A" 32] mod_less_divisor [of 32 "x - A"] by linarith+
qed

lemma in_region_unique:
  assumes "cache_wf psz cache" "i < length cache" "j < length cache"
    "in_region a (cache ! i)" "in_region a (cache ! j)"
  shows "i = j"
proof (rule linorder_cases [of i j])
  assume "i < j"
  then have "reg_end (cache ! i) \<le> reg_start (cache ! j)" using assms(1,3) by (metis cache_wf_nth_less)
  then show ?thesis using assms(4,5) by (auto simp: in_region_def)
next
  assume "j < i"
  then have "reg_end (cache ! j) \<le> reg_start (cache ! i)" using assms(1,2) by (metis cache_wf_nth_less)
  then show ?thesis using assms(4,5) by (auto simp: in_region_def)
qed

lemma cache_byte_in:
  assumes "cache_wf psz cache" "i < length cache" "in_region a (cache ! i)"
  shows "cache_byte cache a = Some (reg_pages (cache ! i) ! (unat a - unat (reg_start (cache ! i))))"
proof (cases "find (in_region a) cache")
  case None
  then show ?thesis using assms(2,3) by (auto simp: find_None_iff)
next
  case (Some r)
  then obtain j where "j < length cache" "in_region a (cache ! j)" "r = cache ! j"
    by (auto simp: find_Some_iff)
  then show ?thesis using in_region_unique [OF assms(1)] assms(2,3) Some by (auto simp: cache_byte_def)
qed

lemma cache_byte_None: "cache_byte cache a = None \<longleftrightarrow> (\<forall>r \<in> set cache. \<not> in_region a r)"
proof (cases "find (in_region a) cache")
  case None
  then show ?thesis by (simp add: cache_byte_def) (simp add: find_None_iff)
next
  case (Some r)
  then have "r \<in> set cache \<and> in_region a r" by (auto simp: find_Some_iff)
  then show ?thesis using Some by (auto simp: cache_byte_def)
qed

lemma cache_byte_cases:
  assumes "cache_wf psz cache"
  obtains (none) "cache_byte cache a = None" "\<forall>r \<in> set cache. \<not> in_region a r"
  | (byte) i where "i < length cache" "in_region a (cache ! i)"
      "cache_byte cache a = Some (reg_pages (cache ! i) ! (unat a - unat (reg_start (cache ! i))))"
  using cache_byte_in [OF assms] cache_byte_None [of cache a] by (metis in_set_conv_nth)

section \<open>Processing the page of one address\<close>

text \<open>What a read of the child's memory \<open>cm\<close> transfers when it succeeds.\<close>

definition child_bytes :: "(u64 \<Rightarrow> byte) \<Rightarrow> u64 \<Rightarrow> nat \<Rightarrow> byte list" where
  "child_bytes cm a n = map (\<lambda>i. cm (a + word_of_nat i)) [0..<n]"

lemma length_child_bytes [simp]: "length (child_bytes cm a n) = n"
  by (simp add: child_bytes_def)

lemma nth_child_bytes: "i < n \<Longrightarrow> child_bytes cm a n ! i = cm (a + word_of_nat i)"
  by (simp add: child_bytes_def)

lemma offset_of_address: "(s :: u64) \<le> a \<Longrightarrow> s + word_of_nat (unat a - unat s) = a"
  by (simp add: unat_sub_le [symmetric])

text \<open>Two addresses in the same page of the cache.\<close>

definition same_page :: "nat \<Rightarrow> region list \<Rightarrow> u64 \<Rightarrow> u64 \<Rightarrow> bool" where
  "same_page psz cache a b \<longleftrightarrow> find_page psz cache a \<noteq> None \<and> find_page psz cache a = find_page psz cache b"

text \<open>The regions, leaving out the content of their pages.\<close>

definition layout :: "region list \<Rightarrow> (u64 \<times> u64) list" where
  "layout cache = map (\<lambda>r. (reg_start r, reg_end r)) cache"

lemma page_at_eq_iff:
  assumes "region_ok psz r" "in_region a r" "in_region b r"
  shows "page_at psz r a = page_at psz r b \<longleftrightarrow>
    unat (reg_start r) + page_at psz r a \<le> unat b \<and> unat b < unat (reg_start r) + page_at psz r a + psz"
    (is "?l \<longleftrightarrow> ?r")
proof
  assume ?l
  then show ?r using page_at_bounds(2,3) [OF assms(1,3)] by simp
next
  assume r: ?r
  have psz: "0 < psz" using assms(1) by (auto simp: region_ok_def)
  define k where "k = (unat a - unat (reg_start r)) div psz"
  have "(unat b - unat (reg_start r)) div psz = k"
    using r psz by (intro div_nat_eqI) (auto simp: page_at_def k_def algebra_simps)
  then show ?l by (simp add: page_at_def k_def)
qed

lemma find_page_in:
  assumes "cache_wf psz cache" "i < length cache" "in_region a (cache ! i)"
  shows "find_page psz cache a = Some (i, page_at psz (cache ! i) a,
         reg_start (cache ! i) + word_of_nat (page_at psz (cache ! i) a))"
  using find_page_cases [OF assms(1), of a] in_region_unique [OF assms(1) _ assms(2) _ assms(3)] assms(2,3)
  by (metis nth_mem)

lemma same_page_iff:
  assumes "cache_wf psz cache" "i < length cache" "in_region a (cache ! i)"
  shows "same_page psz cache a b \<longleftrightarrow>
    in_region b (cache ! i) \<and> page_at psz (cache ! i) a = page_at psz (cache ! i) b"
  using assms(1)
proof (cases rule: find_page_cases [where a = b, case_names none page])
  case none
  then show ?thesis using find_page_in [OF assms] assms(2) by (simp add: same_page_def)
next
  case (page j)
  show ?thesis
  proof (cases "i = j")
    case True
    then show ?thesis using page find_page_in [OF assms] by (auto simp: same_page_def)
  next
    case False
    then have "\<not> in_region b (cache ! i)" using in_region_unique [OF assms(1,2) page(1)] page(2) by blast
    then show ?thesis using False page(3) find_page_in [OF assms] by (simp add: same_page_def)
  qed
qed

text \<open>Replacing the content of the pages keeps the cache well formed.\<close>

lemma cache_wf_update_pages:
  assumes "cache_wf psz cache" "i < length cache" "length pages = length (reg_pages (cache ! i))"
  shows "cache_wf psz (cache[i := (cache ! i)\<lparr>reg_pages := pages\<rparr>])"
proof -
  have "region_ok psz r" if "r \<in> set (cache[i := (cache ! i)\<lparr>reg_pages := pages\<rparr>])" for r
  proof -
    have "r = (cache ! i)\<lparr>reg_pages := pages\<rparr> \<or> r \<in> set cache"
      using that set_update_subset_insert by fastforce
    then show ?thesis
      using assms cache_wf_region [OF assms(1,2)] by (auto simp: cache_wf_def region_ok_def)
  qed
  moreover have "reg_end (cache[i := (cache ! i)\<lparr>reg_pages := pages\<rparr>] ! j)
      \<le> reg_start (cache[i := (cache ! i)\<lparr>reg_pages := pages\<rparr>] ! k)" if "j < k" "k < length cache" for j k
    using cache_wf_nth_less [OF assms(1) that] that assms(2) by (auto simp: nth_list_update)
  ultimately show ?thesis by (simp add: cache_wf_def sorted_wrt_iff_nth_less)
qed

lemma layout_update_pages [simp]:
  "i < length cache \<Longrightarrow> layout (cache[i := (cache ! i)\<lparr>reg_pages := pages\<rparr>]) = layout cache"
  by (auto simp: layout_def map_update list_eq_iff_nth_eq nth_list_update)

lemma in_region_update_pages [simp]: "in_region a (r\<lparr>reg_pages := pages\<rparr>) = in_region a r"
  by (simp add: in_region_def)

lemma layout_nth:
  assumes "layout c = layout c'"
  shows "length c = length c'"
    and "i < length c \<Longrightarrow> reg_start (c ! i) = reg_start (c' ! i)"
    and "i < length c \<Longrightarrow> reg_end (c ! i) = reg_end (c' ! i)"
proof -
  show len: "length c = length c'" using arg_cong [OF assms, of length] by (simp add: layout_def)
  have "layout c ! i = layout c' ! i" using assms by simp
  then have "i < length c \<Longrightarrow> (reg_start (c ! i), reg_end (c ! i)) = (reg_start (c' ! i), reg_end (c' ! i))"
    using len by (simp add: layout_def)
  then show "i < length c \<Longrightarrow> reg_start (c ! i) = reg_start (c' ! i)"
    and "i < length c \<Longrightarrow> reg_end (c ! i) = reg_end (c' ! i)"
    by simp_all
qed

lemma find_page_loop_layout:
  "layout c = layout c' \<Longrightarrow> left \<le> right \<Longrightarrow> right \<le> length c \<Longrightarrow>
   find_page_loop c a left right = find_page_loop c' a left right"
proof (induction c a left right rule: find_page_loop.induct)
  case (1 c a left right)
  show ?case
    using "1.IH" "1.prems" layout_nth(2,3) [OF "1.prems"(1), of "(left + right) div 2"]
    by (auto simp: find_page_loop.simps [of c a left right] find_page_loop.simps [of c' a left right] Let_def)
qed

lemma find_page_layout:
  assumes "layout c = layout c'" "cache_wf psz c"
  shows "find_page psz c a = find_page psz c' a"
proof -
  obtain l r i where l: "find_page_loop c a 0 (length c) = (l, r, i)"
    by (cases "find_page_loop c a 0 (length c)") auto
  have "l \<noteq> r \<Longrightarrow> i < length c"
    using find_page_loop_correct [OF assms(2) _ _ _ _ l] by auto
  then have "reg_start (c ! i) = reg_start (c' ! i)" if "l \<noteq> r"
    using that layout_nth(2) [OF assms(1)] by blast
  moreover have "find_page_loop c' a 0 (length c') = (l, r, i)"
    using l find_page_loop_layout [OF assms(1), of 0 "length c" a] layout_nth(1) [OF assms(1)] by simp
  ultimately show ?thesis using l by (simp add: find_page_def Let_def)
qed

lemma same_page_layout:
  "layout c = layout c' \<Longrightarrow> cache_wf psz c \<Longrightarrow> same_page psz c a b = same_page psz c' a b"
  using find_page_layout [of c c' psz] by (simp add: same_page_def)

lemma page_address:
  assumes "region_ok psz r" "in_region f r"
  shows "unat (reg_start r + word_of_nat (page_at psz r f)) = unat (reg_start r) + page_at psz r f"
    and "unat (reg_start r) + page_at psz r f + psz < 2 ^ 64"
proof -
  show b: "unat (reg_start r) + page_at psz r f + psz < 2 ^ 64"
    using region_addr_bound [OF assms(1) page_at_bounds(1) [OF assms]] by simp
  show "unat (reg_start r + word_of_nat (page_at psz r f)) = unat (reg_start r) + page_at psz r f"
    using b by (intro unat_add_offset) simp
qed

lemma same_page_range:
  assumes "cache_wf psz cache" "i < length cache" "in_region f (cache ! i)"
  shows "same_page psz cache f a \<longleftrightarrow>
    unat (reg_start (cache ! i)) + page_at psz (cache ! i) f \<le> unat a \<and>
    unat a < unat (reg_start (cache ! i)) + page_at psz (cache ! i) f + psz"
    (is "_ \<longleftrightarrow> ?r")
proof -
  have ok: "region_ok psz (cache ! i)" using assms(1,2) by (rule cache_wf_region)
  have "in_region a (cache ! i)" if ?r
    using that region_fits [OF ok] page_at_bounds(1) [OF ok assms(3)]
    by (auto simp: in_region_def u64_le_unat u64_less_unat)
  then show ?thesis
    using same_page_iff [OF assms] page_at_eq_iff [OF ok assms(3)] by blast
qed

section \<open>The messages of a stop\<close>

text \<open>
  \<open>changes cache cm step_id P ms\<close>: the messages \<open>ms\<close> are exactly the changes between the cache and the
  child's memory \<open>cm\<close> at the addresses that satisfy \<open>P\<close>: each carries the child's bytes at addresses of
  \<open>P\<close>, at least one of them new; no segment is stored twice; and no changed byte is missed.
\<close>

text \<open>A message holds a segment of a region: 32 bytes inside it, at a multiple of 32 from its start.\<close>

definition on_grid :: "(u64 \<times> u64) list \<Rightarrow> mem_msg \<Rightarrow> bool" where
  "on_grid lay m \<longleftrightarrow>
     (\<exists>(s, e) \<in> set lay. unat s \<le> unat (mm_address m) \<and> unat (mm_address m) + 32 \<le> unat e \<and>
        32 dvd (unat (mm_address m) - unat s))"

definition msg_new :: "region list \<Rightarrow> (u64 \<Rightarrow> byte) \<Rightarrow> u64 \<Rightarrow> (u64 \<Rightarrow> bool) \<Rightarrow> mem_msg \<Rightarrow> bool" where
  "msg_new cache cm step_id P m \<longleftrightarrow>
     mm_step_id m = step_id \<and> length (mm_content m) = 32 \<and> on_grid (layout cache) m \<and>
     (\<forall>a. covers m a \<longrightarrow> P a \<and> mm_content m ! (unat a - unat (mm_address m)) = cm a) \<and>
     (\<exists>a. covers m a \<and> cache_byte cache a \<noteq> Some (cm a))"

definition changes :: "region list \<Rightarrow> (u64 \<Rightarrow> byte) \<Rightarrow> u64 \<Rightarrow> (u64 \<Rightarrow> bool) \<Rightarrow> mem_msg list \<Rightarrow> bool" where
  "changes cache cm step_id P ms \<longleftrightarrow>
     distinct (map mm_address ms) \<and> (\<forall>m \<in> set ms. msg_new cache cm step_id P m) \<and>
     (\<forall>a b. P a \<longrightarrow> cache_byte cache a = Some b \<longrightarrow> b \<noteq> cm a \<longrightarrow> (\<exists>m \<in> set ms. covers m a))"

lemma replay_child:
  assumes "\<forall>m \<in> set ms. \<forall>a. covers m a \<longrightarrow> mm_content m ! (unat a - unat (mm_address m)) = cm a"
  shows "replay a ms acc = (if \<exists>m \<in> set ms. covers m a then Some (cm a) else acc)"
  using assms by (induction ms arbitrary: acc) (auto simp: replay_def)

lemma changes_replay:
  assumes "changes cache cm step_id P ms"
  shows "replay a ms acc = (if \<exists>m \<in> set ms. covers m a then Some (cm a) else acc)"
  using assms by (intro replay_child) (auto simp: changes_def msg_new_def)

text \<open>The cache after the addresses of \<open>P\<close> have been brought up to date.\<close>

definition refreshed :: "region list \<Rightarrow> (u64 \<Rightarrow> byte) \<Rightarrow> (u64 \<Rightarrow> bool) \<Rightarrow> region list \<Rightarrow> bool" where
  "refreshed cache cm P cache' \<longleftrightarrow>
     layout cache' = layout cache \<and>
     (\<forall>a. cache_byte cache' a = (if P a \<and> cache_byte cache a \<noteq> None then Some (cm a) else cache_byte cache a))"

lemma refreshed_logged:
  assumes "cache_logged cache log" "changes cache cm step_id P ms" "refreshed cache cm P cache'"
  shows "cache_logged cache' (log @ ms)"
  unfolding cache_logged_def recorded_append
proof (intro allI impI)
  fix a b assume b: "cache_byte cache' a = Some b"
  then obtain b' where b': "cache_byte cache a = Some b'" "b = (if P a then cm a else b')"
    using assms(3) by (auto simp: refreshed_def split: if_splits)
  have "(\<exists>m \<in> set ms. covers m a) \<Longrightarrow> P a" "P a \<Longrightarrow> b' \<noteq> cm a \<Longrightarrow> \<exists>m \<in> set ms. covers m a"
    using assms(2) b'(1) by (auto simp: changes_def msg_new_def)
  moreover have "recorded log a = Some b'" using assms(1) b'(1) by (simp add: cache_logged_def)
  ultimately show "replay a ms (recorded log a) = Some b"
    using b'(2) changes_replay [OF assms(2), of a "recorded log a"] by auto
qed

text \<open>Bringing first the addresses of \<open>P\<close>, then those of \<open>Q\<close> up to date.\<close>

lemma refreshed_trans:
  "refreshed c cm P c' \<Longrightarrow> refreshed c' cm Q c'' \<Longrightarrow> refreshed c cm (\<lambda>a. P a \<or> Q a) c''"
  by (auto simp: refreshed_def)

lemma covers_self: "covers m (mm_address m)"
  by (simp add: covers_def)

lemma covers_cong: "mm_address m = mm_address m' \<Longrightarrow> covers m a \<longleftrightarrow> covers m' a"
  by (simp add: covers_def)

lemma changes_trans:
  assumes "changes c cm s P ms" "refreshed c cm P c'" "changes c' cm s Q ms'"
    and cached: "\<And>a. P a \<Longrightarrow> cache_byte c a \<noteq> None"
  shows "changes c cm s (\<lambda>a. P a \<or> Q a) (ms @ ms')"
proof -
  have new: "\<exists>a. covers m' a \<and> \<not> P a \<and> cache_byte c a \<noteq> Some (cm a)" if "m' \<in> set ms'" for m'
    using that assms(2,3) cached unfolding changes_def msg_new_def refreshed_def by metis
  have "mm_address m \<noteq> mm_address m'" if "m \<in> set ms" "m' \<in> set ms'" for m m'
    using that new [OF that(2)] assms(1) covers_cong [of m m'] unfolding changes_def msg_new_def by metis
  then have "distinct (map mm_address (ms @ ms'))"
    using assms(1,3) by (auto simp: changes_def)
  moreover have "msg_new c cm s (\<lambda>a. P a \<or> Q a) m" if m: "m \<in> set (ms @ ms')" for m
  proof (cases "m \<in> set ms")
    case True
    then show ?thesis using assms(1) by (simp add: changes_def msg_new_def)
  next
    case False
    then have "m \<in> set ms'" using m by simp
    moreover have "layout c' = layout c" using assms(2) by (simp add: refreshed_def)
    ultimately show ?thesis using assms(3) new [of m] by (auto simp: changes_def msg_new_def)
  qed
  moreover have "\<exists>m \<in> set (ms @ ms'). covers m a"
    if "P a \<or> Q a" "cache_byte c a = Some b" "b \<noteq> cm a" for a b
  proof (cases "P a")
    case True
    then show ?thesis using that(2,3) assms(1) unfolding changes_def set_append by blast
  next
    case False
    then have "Q a" "cache_byte c' a = Some b" using that(1,2) assms(2) by (auto simp: refreshed_def)
    then show ?thesis using that(3) assms(3) unfolding changes_def set_append by blast
  qed
  ultimately show ?thesis unfolding changes_def by blast
qed

context mem_compare
begin

lemma proc_dirty_addr_in:
  assumes wf: "cache_wf psz (mc_regions mc)" and n: "psz = 32 * n"
    and i: "i < length (mc_regions mc)" "in_region f (mc_regions mc ! i)"
    and readv: "\<And>a. readv a psz = child_bytes cm a psz" and stk: "length stk = psz"
    and q: "ch_holds (mc_insert mc) (sized q)"
  defines "r \<equiv> mc_regions mc ! i"
  defines "off \<equiv> page_at psz r f"
  defines "pa \<equiv> reg_start r + word_of_nat off"
  defines "buf \<equiv> child_bytes cm pa psz"
  shows "\<exists>ch. proc_dirty_addr diff psz readv stk step_id f mc =
      Some (mc\<lparr>mc_regions := (mc_regions mc)[i := r\<lparr>reg_pages := overwrite (reg_pages r) off buf\<rparr>],
               mc_insert := ch\<rparr>) \<and>
    ch_holds ch (sized (q @ map (seg_msg pa step_id buf) (changed_segs buf off (reg_pages r) 0 n)))"
proof -
  have ok: "region_ok psz r" unfolding r_def using wf i(1) by (rule cache_wf_region)
  have fr: "in_region f r" using i(2) by (simp add: r_def)
  have psz: "32 \<le> psz" using ok n by (cases n) (auto simp: region_ok_def)
  have pa: "unat pa = unat (reg_start r) + off" unfolding pa_def off_def using ok fr by (rule page_address)
  have "pa \<noteq> 0" using pa ok by (auto simp: region_ok_def word_less_nat_alt)
  moreover have "overwrite stk 0 buf = buf" using stk by (simp add: overwrite_def buf_def)
  moreover have off: "off + psz \<le> length (reg_pages r)" unfolding off_def using ok fr by (rule page_at_bounds)
  moreover have "find_page psz (mc_regions mc) f = Some (i, off, pa)"
    using find_page_in [OF wf i] by (simp only: r_def off_def pa_def)
  moreover obtain ch where ch: "process_page_loop diff psz buf off pa step_id 0 (reg_pages r) (mc_insert mc)
      = (overwrite (reg_pages r) off buf, ch)"
      "ch_holds ch (sized (q @ map (seg_msg pa step_id buf) (changed_segs buf off (reg_pages r) 0 n)))"
    using process_page_loop_spec [OF _ n _ off q, of 0 buf pa step_id] by (auto simp: buf_def)
  ultimately show ?thesis
    using psz readv [of pa]
    by (intro exI [of _ ch])
      (simp add: proc_dirty_addr_def process_page_def MEM_SEGMENT_SIZE_def Let_def buf_def r_def)
qed

end

text \<open>The messages of one page are the changes of that page.\<close>

lemma page_changes:
  fixes cm :: "u64 \<Rightarrow> byte"
  assumes wf: "cache_wf psz cache" and n: "psz = 32 * n"
    and i: "i < length cache" "in_region f (cache ! i)"
  defines "r \<equiv> cache ! i"
  defines "off \<equiv> page_at psz r f"
  defines "pa \<equiv> reg_start r + word_of_nat off"
  defines "buf \<equiv> child_bytes cm pa psz"
  shows "changes cache cm s (same_page psz cache f) (map (seg_msg pa s buf) (changed_segs buf off (reg_pages r) 0 n))"
    (is "changes _ _ _ ?P (map ?seg ?ks)")
proof -
  have ok: "region_ok psz r" unfolding r_def using wf i(1) by (rule cache_wf_region)
  have fr: "in_region f r" using i(2) by (simp add: r_def)
  have pa: "unat pa = unat (reg_start r) + off" and b: "unat pa + psz < 2 ^ 64"
    using page_address [OF ok fr] unfolding pa_def off_def by simp_all
  have page: "?P a \<longleftrightarrow> unat pa \<le> unat a \<and> unat a < unat pa + psz" for a
    using same_page_range [OF wf i] pa by (simp add: r_def off_def)
  have off: "off + psz \<le> length (reg_pages r)" unfolding off_def using ok fr by (rule page_at_bounds)
  have byte: "buf ! (unat a - unat pa) = cm a" if "?P a" for a
  proof -
    have a: "pa \<le> a" "unat a - unat pa < psz" using that page [of a] by (auto simp: u64_le_unat)
    show ?thesis by (simp only: buf_def nth_child_bytes [OF a(2)] offset_of_address [OF a(1)])
  qed
  have cached: "cache_byte cache a = Some (reg_pages r ! (off + (unat a - unat pa)))" if "?P a" for a
    using that page [of a] cache_byte_in [OF wf i(1), of a] same_page_iff [OF wf i, of a] pa
    by (simp add: r_def)
  have seg: "covers (?seg k) a \<longleftrightarrow> unat pa + 32 * k \<le> unat a \<and> unat a < unat pa + 32 * k + 32" if "k < n" for k a
    using that b n by (intro covers_seg_msg) simp
  have addr: "unat (mm_address (?seg k)) = unat pa + 32 * k" if "k < n" for k
    unfolding seg_msg_def mem_msg.simps using that b n by (intro unat_add_offset) simp
  have inP: "?P a" if "k < n" "covers (?seg k) a" for k a
    using that seg page [of a] n by simp
  show ?thesis
    unfolding changes_def
  proof (intro conjI ballI allI impI)
    have "inj_on (\<lambda>k. mm_address (?seg k)) (set ?ks)"
      using addr by (intro inj_onI) (metis (no_types, lifting) add_left_cancel atLeastLessThan_iff
          changed_segs_def filter_is_subset mult_cancel_left set_upt subsetD zero_neq_numeral)
    then show "distinct (map mm_address (map ?seg ?ks))"
      by (simp add: distinct_map o_def changed_segs_def)
  next
    fix m assume "m \<in> set (map ?seg ?ks)"
    then obtain k where k: "m = ?seg k" "k < n" "slice buf (32 * k) 32 \<noteq> slice (reg_pages r) (off + 32 * k) 32"
      by (auto simp: changed_segs_def)
    have len: "32 * Suc k \<le> length buf" "off + 32 * Suc k \<le> length (reg_pages r)"
      using k(2) n off by (simp_all add: buf_def)
    then obtain j where j: "j < 32" "buf ! (32 * k + j) \<noteq> reg_pages r ! (off + 32 * k + j)"
      using k(3) by (auto simp: list_eq_iff_nth_eq buf_simps)
    obtain x :: u64 where x: "unat x = unat pa + (32 * k + j)"
      using unat_add_offset [of pa "32 * k + j"] j k(2) n b by auto
    then have cov: "covers m x" using j(1) k(1,2) seg by simp
    then have "?P x" using inP k(1,2) by blast
    then have "cache_byte cache x \<noteq> Some (cm x)"
      using j(2) x cached [of x] byte [of x] by (simp add: add.assoc)
    moreover have "mm_content m ! (unat a - unat (mm_address m)) = cm a" if "covers m a" for a
      using seg_msg_byte [of pa s buf k a] that k(1,2) len(1) n b byte inP by simp
    moreover have "on_grid (layout cache) m"
    proof -
      have "unat (mm_address m) = unat (reg_start r) + (off + 32 * k)" using addr [OF k(2)] pa k(1) by simp
      moreover have "32 dvd off" using page_at_bounds(4) [OF ok fr] n off_def by (metis dvd_mult_left)
      moreover have "(reg_start r, reg_end r) \<in> set (layout cache)" using i(1) by (auto simp: layout_def r_def)
      moreover have "off + 32 * k + 32 \<le> length (reg_pages r)" using len(2) by simp
      ultimately show ?thesis
        unfolding on_grid_def using region_fits [OF ok] by (intro bexI [of _ "(reg_start r, reg_end r)"]) auto
    qed
    ultimately show "msg_new cache cm s ?P m"
      using cov inP k(1,2) len unfolding msg_new_def by (auto simp: seg_msg_def length_slice)
  next
    fix a b assume a: "?P a" "cache_byte cache a = Some b" "b \<noteq> cm a"
    then obtain k where k: "k < n" "unat pa + 32 * k \<le> unat a" "unat a < unat pa + 32 * k + 32"
      using page [of a] n seg_of_offset [of "unat pa" "unat a" n] by auto
    let ?j = "unat a - unat pa - 32 * k"
    have "slice buf (32 * k) 32 ! ?j \<noteq> slice (reg_pages r) (off + 32 * k) 32 ! ?j"
      using a cached [OF a(1)] byte [OF a(1)] k n off by (simp add: nth_slice buf_def)
    then have "k \<in> set ?ks" using k(1) by (auto simp: changed_segs_def)
    then show "\<exists>m \<in> set (map ?seg ?ks). covers m a" using seg [OF k(1)] k(2,3) by auto
  qed
qed

lemma page_refreshed:
  fixes cm :: "u64 \<Rightarrow> byte"
  assumes wf: "cache_wf psz cache" and i: "i < length cache" "in_region f (cache ! i)"
  defines "r \<equiv> cache ! i"
  defines "off \<equiv> page_at psz r f"
  defines "buf \<equiv> child_bytes cm (reg_start r + word_of_nat off) psz"
  defines "cache' \<equiv> cache[i := r\<lparr>reg_pages := overwrite (reg_pages r) off buf\<rparr>]"
  shows "cache_wf psz cache'" and "refreshed cache cm (same_page psz cache f) cache'"
proof -
  have ok: "region_ok psz r" unfolding r_def using wf i(1) by (rule cache_wf_region)
  have fr: "in_region f r" using i(2) by (simp add: r_def)
  have off: "off + psz \<le> length (reg_pages r)" unfolding off_def using ok fr by (rule page_at_bounds)
  have len: "length buf = psz" by (simp add: buf_def)
  then have lenp: "length (overwrite (reg_pages r) off buf) = length (reg_pages r)"
    using off by (simp add: length_overwrite)
  show wf': "cache_wf psz cache'"
    unfolding cache'_def r_def using wf i(1) lenp [unfolded r_def] by (rule cache_wf_update_pages)
  have pa: "unat (reg_start r + word_of_nat off) = unat (reg_start r) + off"
    unfolding off_def using ok fr by (rule page_address)
  have "cache_byte cache' a =
      (if same_page psz cache f a \<and> cache_byte cache a \<noteq> None then Some (cm a) else cache_byte cache a)" for a
  proof (cases rule: cache_byte_cases [OF wf, of a, case_names none byte])
    case none
    then have "cache_byte cache' a = None"
      unfolding cache_byte_None cache'_def r_def using i(1) set_update_subset_insert by fastforce
    then show ?thesis using none(1) by simp
  next
    case (byte j)
    have lenj: "j < length cache'" using byte(1) by (simp add: cache'_def)
    have "in_region a (cache' ! j)" using byte(1,2) i(1) by (auto simp: cache'_def r_def nth_list_update)
    then have c': "cache_byte cache' a = Some (reg_pages (cache' ! j) ! (unat a - unat (reg_start (cache' ! j))))"
      by (rule cache_byte_in [OF wf' lenj])
    show ?thesis
    proof (cases "i = j")
      case False
      then have "\<not> same_page psz cache f a"
        using same_page_iff [OF wf i] in_region_unique [OF wf i(1) byte(1)] byte(2) by blast
      then show ?thesis using False c' byte(3) by (simp add: cache'_def)
    next
      case True
      let ?o = "unat a - unat (reg_start r)"
      have o: "?o < length (reg_pages r)" "unat (reg_start r) \<le> unat a"
        using byte(2) region_fits [OF ok] True by (auto simp: in_region_def r_def u64_le_unat u64_less_unat)
      have P: "same_page psz cache f a \<longleftrightarrow> off \<le> ?o \<and> ?o < off + psz"
        using o(2) unfolding same_page_range [OF wf i, folded r_def, folded off_def] by linarith
      have "buf ! (?o - off) = cm a" if "off \<le> ?o" "?o < off + psz"
      proof -
        have a: "reg_start r + word_of_nat off \<le> a" using that o pa by (simp add: u64_le_unat)
        have o: "?o - off = unat a - unat (reg_start r + word_of_nat off)" using pa by simp
        have l: "unat a - unat (reg_start r + word_of_nat off) < psz" using that pa by simp
        show ?thesis unfolding buf_def o nth_child_bytes [OF l] offset_of_address [OF a] ..
      qed
      then show ?thesis
        using c' byte True P o off len by (simp add: cache'_def r_def nth_overwrite)
    qed
  qed
  then show "refreshed cache cm (same_page psz cache f) cache'"
    using i(1) by (simp add: refreshed_def cache'_def r_def)
qed

lemma same_page_cached:
  assumes "cache_wf psz cache" "same_page psz cache f a"
  shows "cache_byte cache a \<noteq> None"
proof (cases rule: find_page_cases [OF assms(1), of f, case_names none page])
  case none
  then show ?thesis using assms(2) by (simp add: same_page_def)
next
  case (page i)
  then have "in_region a (cache ! i)" using same_page_iff [OF assms(1)] assms(2) by blast
  then show ?thesis using page(1) cache_byte_None nth_mem by blast
qed

text \<open>
  \<open>brought_up psz cm step_id P mc q mc' ms\<close>: from \<open>mc\<close>, whose channel holds \<open>q\<close>, to \<open>mc'\<close> the cached bytes
  at the addresses of \<open>P\<close> have become those of the child, and the changes \<open>ms\<close> have been sent.
\<close>

definition brought_up ::
    "nat \<Rightarrow> (u64 \<Rightarrow> byte) \<Rightarrow> u64 \<Rightarrow> (u64 \<Rightarrow> bool) \<Rightarrow> memcache \<Rightarrow> mem_msg list \<Rightarrow> memcache \<Rightarrow> mem_msg list \<Rightarrow> bool" where
  "brought_up psz cm step_id P mc q mc' ms \<longleftrightarrow>
     cache_wf psz (mc_regions mc') \<and> ch_holds (mc_insert mc') (sized (q @ ms)) \<and>
     changes (mc_regions mc) cm step_id P ms \<and> refreshed (mc_regions mc) cm P (mc_regions mc')"

lemma brought_up_none:
  "cache_wf psz (mc_regions mc) \<Longrightarrow> ch_holds (mc_insert mc) (sized q) \<Longrightarrow>
   brought_up psz cm step_id (\<lambda>a. False) mc q mc []"
  by (simp add: brought_up_def changes_def refreshed_def)

lemma brought_up_trans:
  assumes "brought_up psz cm s P mc q mc' ms" "brought_up psz cm s Q mc' (q @ ms) mc'' ms'"
    and "\<And>a. P a \<Longrightarrow> cache_byte (mc_regions mc) a \<noteq> None"
  shows "brought_up psz cm s (\<lambda>a. P a \<or> Q a) mc q mc'' (ms @ ms')"
  using assms(1,2) changes_trans [OF _ _ _ assms(3)] refreshed_trans
  unfolding brought_up_def append_assoc [symmetric] by blast

context mem_compare
begin

lemma proc_dirty_addr_spec:
  assumes wf: "cache_wf psz (mc_regions mc)" and n: "psz = 32 * n"
    and readv: "\<And>a. readv a psz = child_bytes cm a psz" and stk: "length stk = psz"
    and q: "ch_holds (mc_insert mc) (sized q)"
  shows "\<exists>mc' ms. proc_dirty_addr diff psz readv stk step_id f mc = Some mc' \<and>
    brought_up psz cm step_id (same_page psz (mc_regions mc) f) mc q mc' ms"
proof (cases rule: find_page_cases [OF wf, of f, case_names none page])
  case none
  then have "same_page psz (mc_regions mc) f = (\<lambda>a. False)" by (simp add: same_page_def fun_eq_iff)
  moreover have "proc_dirty_addr diff psz readv stk step_id f mc = Some mc"
    using none by (simp add: proc_dirty_addr_def)
  ultimately show ?thesis using brought_up_none [OF wf q] by metis
next
  case (page i)
  show ?thesis
    using proc_dirty_addr_in [where readv = readv and cm = cm, OF wf n page(1,2) readv stk q, of step_id]
      page_changes [OF wf n page(1,2), of cm step_id] page_refreshed [OF wf page(1,2), of cm]
    unfolding brought_up_def by fastforce
qed

lemma proc_dirty_mem_spec:
  assumes n: "psz = 32 * n" and readv: "\<And>a. readv a psz = child_bytes cm a psz" and stk: "length stk = psz"
  shows "cache_wf psz (mc_regions mc) \<Longrightarrow> ch_holds (mc_insert mc) (sized q) \<Longrightarrow>
    ch_holds fch (map (\<lambda>f. (f, 8)) fs) \<Longrightarrow>
    \<exists>fch' mc' ms. proc_dirty_mem diff psz readv stk step_id fch mc = Some (fch', mc') \<and> ch_holds fch' [] \<and>
      brought_up psz cm step_id (\<lambda>a. \<exists>f \<in> set fs. same_page psz (mc_regions mc) f a) mc q mc' ms"
proof (induction fs arbitrary: fch mc q)
  case Nil
  then have "ch_holds fch []" by simp
  then obtain fch' where "ch_read sys_ok fch None 8 READ_NONBLOCK = Done CHANNEL_NODATA None 8 fch'"
    "ch_holds fch' []" by (rule ch_holds_read_empty)
  then show ?case
    using brought_up_none [OF Nil.prems(1,2)] by (subst proc_dirty_mem.simps) auto
next
  case (Cons f fs)
  have "ch_holds fch ((f, 8) # map (\<lambda>f. (f, 8)) fs)" using Cons.prems(3) by simp
  then obtain fch1 where r: "ch_read sys_ok fch None 8 READ_NONBLOCK = Done CHANNEL_OK (Some f) 8 fch1"
    "ch_holds fch1 (map (\<lambda>f. (f, 8)) fs)"
    by (rule ch_holds_read [where bufsize = 8 and buf = None and flag = READ_NONBLOCK]) simp_all
  obtain mc1 ms1 where 1: "proc_dirty_addr diff psz readv stk step_id f mc = Some mc1"
    "brought_up psz cm step_id (same_page psz (mc_regions mc) f) mc q mc1 ms1"
    using proc_dirty_addr_spec [where readv = readv and cm = cm, OF Cons.prems(1) n readv stk Cons.prems(2)]
    by blast
  then have w: "cache_wf psz (mc_regions mc1)" "ch_holds (mc_insert mc1) (sized (q @ ms1))"
    "layout (mc_regions mc1) = layout (mc_regions mc)" by (auto simp: brought_up_def refreshed_def)
  have "same_page psz (mc_regions mc1) = same_page psz (mc_regions mc)"
    by (intro ext same_page_layout [OF w(3,1)])
  with Cons.IH [OF w(1,2) r(2)] obtain fch' mc' ms where 2: "proc_dirty_mem diff psz readv stk step_id fch1 mc1 = Some (fch', mc')"
    "ch_holds fch' []"
    "brought_up psz cm step_id (\<lambda>a. \<exists>f \<in> set fs. same_page psz (mc_regions mc) f a) mc1 (q @ ms1) mc' ms"
    by auto
  have "brought_up psz cm step_id
      (\<lambda>a. same_page psz (mc_regions mc) f a \<or> (\<exists>f \<in> set fs. same_page psz (mc_regions mc) f a)) mc q mc' (ms1 @ ms)"
    using 1(2) 2(3) same_page_cached [OF Cons.prems(1)] by (rule brought_up_trans)
  moreover have "proc_dirty_mem diff psz readv stk step_id fch mc = Some (fch', mc')"
    using r(1) 1(1) 2(1) by (subst proc_dirty_mem.simps) simp
  ultimately show ?case using 2(2) by auto
qed

end

lemma grid_disjoint:
  assumes "cache_wf psz cache" "on_grid (layout cache) m" "on_grid (layout cache) m'"
  shows "mm_address m = mm_address m' \<or> unat (mm_address m) + 32 \<le> unat (mm_address m') \<or>
    unat (mm_address m') + 32 \<le> unat (mm_address m)"
proof -
  let ?x = "unat (mm_address m)" and ?y = "unat (mm_address m')"
  obtain i where i: "i < length cache" "unat (reg_start (cache ! i)) \<le> ?x" "?x + 32 \<le> unat (reg_end (cache ! i))"
    "32 dvd (?x - unat (reg_start (cache ! i)))"
    using assms(2) unfolding on_grid_def layout_def by (auto simp: in_set_conv_nth)
  obtain j where j: "j < length cache" "unat (reg_start (cache ! j)) \<le> ?y" "?y + 32 \<le> unat (reg_end (cache ! j))"
    "32 dvd (?y - unat (reg_start (cache ! j)))"
    using assms(3) unfolding on_grid_def layout_def by (auto simp: in_set_conv_nth)
  show ?thesis
  proof (rule linorder_cases [of i j])
    assume "i = j"
    then obtain a b where ab: "?x = unat (reg_start (cache ! i)) + 32 * a" "?y = unat (reg_start (cache ! i)) + 32 * b"
      using i j by (metis dvdE le_add_diff_inverse)
    have "a = b \<or> a + 1 \<le> b \<or> b + 1 \<le> a" by linarith
    then show ?thesis unfolding word_unat_eq_iff ab by linarith
  next
    assume "i < j"
    then show ?thesis using cache_wf_nth_less [OF assms(1) _ j(1)] i j by (fastforce simp: u64_le_unat)
  next
    assume "j < i"
    then show ?thesis using cache_wf_nth_less [OF assms(1) _ i(1)] i j by (fastforce simp: u64_le_unat)
  qed
qed

section \<open>Adding a region\<close>

lemma add_index_spec:
  assumes "index \<le> length cache" "\<And>j. j < index \<Longrightarrow> reg_start (cache ! j) \<le> a"
  shows "index \<le> add_index cache a index \<and> add_index cache a index \<le> length cache \<and>
    (\<forall>j < add_index cache a index. reg_start (cache ! j) \<le> a) \<and>
    (add_index cache a index < length cache \<longrightarrow> a < reg_start (cache ! add_index cache a index))"
  using assms
proof (induction cache a index rule: add_index.induct)
  case (1 cache a index)
  show ?case
  proof (cases "index < length cache \<and> reg_start (cache ! index) \<le> a")
    case True
    then have "\<And>j. j < Suc index \<Longrightarrow> reg_start (cache ! j) \<le> a"
      using "1.prems"(2) less_Suc_eq by auto
    then show ?thesis
      using "1.IH" [OF True] True by (subst (1 2 3 4 5) add_index.simps) auto
  next
    case False
    then show ?thesis using "1.prems" by (subst (1 2 3 4 5) add_index.simps) auto
  qed
qed

lemma add_region_loop_spec:
  assumes "k \<le> n" "ch_holds ch (sized q)"
  shows "ch_holds (add_region_loop address (32 * n) step_id pages (32 * k) ch)
    (sized (q @ map (seg_msg address step_id pages) [k..<n]))"
  using assms
proof (induction k arbitrary: ch q rule: inc_induct)
  case base
  then show ?case by (simp add: add_region_loop.simps)
next
  case (step k)
  have "add_region_loop address (32 * n) step_id pages (32 * k) ch =
      add_region_loop address (32 * n) step_id pages (32 * Suc k)
        (put_mem_msg (address + word_of_nat (32 * k)) step_id (slice pages (32 * k) 32) ch)"
    using step.hyps by (subst add_region_loop.simps) (simp add: MEM_SEGMENT_SIZE_def add.commute)
  moreover have "ch_holds (put_mem_msg (address + word_of_nat (32 * k)) step_id (slice pages (32 * k) 32) ch)
      (sized (q @ [seg_msg address step_id pages k]))"
    using put_mem_msg_holds [OF step.prems] by (simp add: seg_msg_def)
  note step.IH [OF this]
  moreover have "[k..<n] = k # [Suc k..<n]" using step.hyps by (simp add: upt_conv_Cons)
  ultimately show ?case by simp
qed

text \<open>The new region is disjoint from those in the cache.\<close>

definition region_free :: "region list \<Rightarrow> u64 \<Rightarrow> u64 \<Rightarrow> bool" where
  "region_free cache address sz \<longleftrightarrow>
     (\<forall>r \<in> set cache. reg_end r \<le> address \<or> address + sz \<le> reg_start r)"

lemma insert_region_wf:
  assumes "cache_wf psz cache" "region_ok psz new" "region_free cache (reg_start new) (reg_end new - reg_start new)"
  defines "index \<equiv> add_index cache (reg_start new) 0"
  shows "cache_wf psz (take index cache @ [new] @ drop index cache)"
proof -
  note ix = add_index_spec [of 0 cache "reg_start new", folded index_def, simplified]
  have free: "reg_end r \<le> reg_start new \<or> reg_end new \<le> reg_start r" if "r \<in> set cache" for r
    using assms(3) that by (auto simp: region_free_def)
  have sz: "reg_start new < reg_end new" using assms(2) by (simp add: region_ok_def)
  have before: "reg_end r \<le> reg_start new" if "r \<in> set (take index cache)" for r
  proof -
    have "reg_start r \<le> reg_start new" using that ix by (auto simp: in_set_conv_nth)
    then show ?thesis using free [of r] sz in_set_takeD [OF that] by force
  qed
  have after: "reg_end new \<le> reg_start r" if r: "r \<in> set (drop index cache)" for r
  proof -
    obtain j where j: "r = cache ! (index + j)" "index + j < length cache"
      using r by (auto simp: in_set_conv_nth)
    then have "reg_start (cache ! index) \<le> reg_start r"
      using cache_wf_start_mono [OF assms(1), of index "index + j"] by simp
    then have "reg_start new < reg_start r" using ix j(2) by (meson add_lessD1 less_le_trans)
    moreover have "reg_start r < reg_end r" using cache_wf_region [OF assms(1) j(2)] j(1) by (simp add: region_ok_def)
    ultimately show ?thesis using free [OF in_set_dropD [OF r]] by force
  qed
  have "sorted_wrt (\<lambda>r s. reg_end r \<le> reg_start s) (take index cache @ drop index cache)"
    using assms(1) by (simp add: cache_wf_def)
  then have "sorted_wrt (\<lambda>r s. reg_end r \<le> reg_start s) (take index cache @ [new] @ drop index cache)"
    using before after unfolding sorted_wrt_append by simp
  moreover have "\<forall>r \<in> set (take index cache @ [new] @ drop index cache). region_ok psz r"
    using assms(1,2) by (auto simp: cache_wf_def dest: in_set_takeD in_set_dropD)
  ultimately show ?thesis unfolding cache_wf_def by blast
qed

lemma cache_byte_mem:
  assumes "cache_wf psz cache" "r \<in> set cache" "in_region a r"
  shows "cache_byte cache a = Some (reg_pages r ! (unat a - unat (reg_start r)))"
  using assms cache_byte_in [OF assms(1)] by (metis in_set_conv_nth)

lemma region_new_ok:
  assumes "0 < address" "0 < sz" "unat address + unat sz < 2 ^ 64" "psz dvd unat sz" "unat sz < psz * 2 ^ 31"
    and "length pages = unat sz"
  shows "region_ok psz \<lparr>reg_start = address, reg_end = address + sz, reg_pages = pages\<rparr>"
    and "unat (address + sz) = unat address + unat sz"
proof -
  show u: "unat (address + sz) = unat address + unat sz"
    using unat_add_offset [of address "unat sz"] assms(3) by simp
  show "region_ok psz \<lparr>reg_start = address, reg_end = address + sz, reg_pages = pages\<rparr>"
    using assms u by (simp add: region_ok_def u64_less_unat)
qed

text \<open>The conditions under which a mapping of the child is added: inside the address space, whole
  pages, at most \<open>2 ^ 31\<close> of them, disjoint from the regions already cached.\<close>

definition region_addable :: "nat \<Rightarrow> region list \<Rightarrow> u64 \<Rightarrow> u64 \<Rightarrow> bool" where
  "region_addable psz cache address sz \<longleftrightarrow>
     0 < address \<and> 0 < sz \<and> unat address + unat sz < 2 ^ 64 \<and> psz dvd unat sz \<and> unat sz < psz * 2 ^ 31 \<and>
     region_free cache address sz"

text \<open>Messages for a whole new region: each has a segment of its own.\<close>

definition region_msgs :: "u64 \<Rightarrow> u64 \<Rightarrow> u64 \<Rightarrow> mem_msg list \<Rightarrow> bool" where
  "region_msgs address sz step_id ms \<longleftrightarrow>
     (\<forall>m \<in> set ms. mm_step_id m = step_id \<and> length (mm_content m) = 32 \<and> on_grid [(address, address + sz)] m) \<and>
     distinct (map mm_address ms)"

lemma region_msgs_segs:
  assumes n: "unat sz = 32 * n" and b: "unat address + unat sz < 2 ^ 64" and len: "length pages = unat sz"
  shows "region_msgs address sz step_id (map (seg_msg address step_id pages) [0..<n])"
proof -
  have u: "unat (mm_address (seg_msg address step_id pages k)) = unat address + 32 * k" if "k < n" for k
    unfolding seg_msg_def mem_msg.simps using that n b by (intro unat_add_offset) simp
  have e: "unat (address + sz) = unat address + unat sz" using unat_add_offset [of address "unat sz"] b by simp
  have "on_grid [(address, address + sz)] (seg_msg address step_id pages k)" if "k < n" for k
    using that u e n by (simp add: on_grid_def)
  moreover have "length (mm_content (seg_msg address step_id pages k)) = 32" if "k < n" for k
    using that len n by (simp add: seg_msg_def length_slice)
  moreover have "distinct (map (\<lambda>k. mm_address (seg_msg address step_id pages k)) [0..<n])"
    unfolding distinct_map inj_on_def using u by (auto dest!: arg_cong [of _ _ unat])
  ultimately show ?thesis by (simp add: region_msgs_def comp_def seg_msg_def)
qed

lemma cache_add_region_eq:
  fixes mc :: memcache
  assumes "readv address (unat sz) = child_bytes cm address (unat sz)" "length fresh = unat sz"
  defines "pages \<equiv> child_bytes cm address (unat sz)"
  defines "new \<equiv> \<lparr>reg_start = address, reg_end = address + sz, reg_pages = pages\<rparr>"
  defines "index \<equiv> add_index (mc_regions mc) address 0"
  shows "cache_add_region readv fresh address sz step_id mc =
    mc\<lparr>mc_regions := take index (mc_regions mc) @ [new] @ drop index (mc_regions mc),
       mc_insert := add_region_loop address (unat sz) step_id pages 0 (mc_insert mc)\<rparr>"
  using assms(1,2)
  by (simp add: cache_add_region_def Let_def overwrite_def pages_def new_def index_def)

lemma cache_add_region_spec:
  fixes step_id :: u64
  assumes wf: "cache_wf psz (mc_regions mc)" and psz: "32 dvd psz" and new: "region_addable psz (mc_regions mc) address sz"
    and readv: "readv address (unat sz) = child_bytes cm address (unat sz)" and fresh: "length fresh = unat sz"
    and q: "ch_holds (mc_insert mc) (sized q)" and log: "cache_logged (mc_regions mc) log"
  defines "mc' \<equiv> cache_add_region readv fresh address sz step_id mc"
  shows "cache_wf psz (mc_regions mc')"
    and "cache_byte (mc_regions mc') a =
           (if address \<le> a \<and> a < address + sz then Some (cm a) else cache_byte (mc_regions mc) a)"
    and "\<exists>ms. ch_holds (mc_insert mc') (sized (q @ ms)) \<and> cache_logged (mc_regions mc') (log @ ms) \<and>
           region_msgs address sz step_id ms"
proof -
  let ?pages = "child_bytes cm address (unat sz)"
  let ?new = "\<lparr>reg_start = address, reg_end = address + sz, reg_pages = ?pages\<rparr>"
  obtain n where n: "unat sz = 32 * n"
    using new psz unfolding region_addable_def by (meson dvd_def dvd_trans)
  have ok: "region_ok psz ?new" and u: "unat (address + sz) = unat address + unat sz"
    using region_new_ok [of address sz psz ?pages] new by (simp_all add: region_addable_def)
  have b: "unat address + unat sz < 2 ^ 64" using new by (simp add: region_addable_def)
  note eq = cache_add_region_eq [where readv = readv, OF readv fresh, of step_id mc, folded mc'_def]
  have regs: "set (mc_regions mc') = insert ?new (set (mc_regions mc))"
    by (simp add: eq) (metis append_take_drop_id set_append)
  show wf': "cache_wf psz (mc_regions mc')"
    using insert_region_wf [OF wf ok] new by (simp add: eq region_addable_def)
  have byte: "?pages ! (unat a - unat address) = cm a" if "address \<le> a" "a < address + sz" for a
  proof -
    have "unat a - unat address < unat sz" using that u by (auto simp: u64_le_unat u64_less_unat)
    then show ?thesis by (simp only: nth_child_bytes offset_of_address [OF that(1)])
  qed
  show bytes: "cache_byte (mc_regions mc') a =
      (if address \<le> a \<and> a < address + sz then Some (cm a) else cache_byte (mc_regions mc) a)" for a
  proof (cases "address \<le> a \<and> a < address + sz")
    case True
    then show ?thesis using cache_byte_mem [OF wf', of ?new a] regs byte by (simp add: in_region_def)
  next
    case False
    then have out: "\<not> in_region a ?new" by (simp add: in_region_def)
    show ?thesis
    proof (cases "\<exists>r \<in> set (mc_regions mc). in_region a r")
      case True
      then show ?thesis using False cache_byte_mem [OF wf'] cache_byte_mem [OF wf] regs by force
    next
      case none: False
      then have "cache_byte (mc_regions mc) a = None" "cache_byte (mc_regions mc') a = None"
        using out unfolding cache_byte_None regs by blast+
      then show ?thesis using False by simp
    qed
  qed
  let ?ms = "map (seg_msg address step_id ?pages) [0..<n]"
  have "mc_insert mc' = add_region_loop address (32 * n) step_id ?pages (32 * 0) (mc_insert mc)"
    unfolding n [symmetric] mult_0_right by (simp add: eq)
  then have "ch_holds (mc_insert mc') (sized (q @ ?ms))"
    using add_region_loop_spec [OF le0 q, of address n step_id ?pages] by (simp only:)
  moreover have "cache_logged (mc_regions mc') (log @ ?ms)"
    unfolding cache_logged_def recorded_append
  proof (intro allI impI)
    fix a v assume v: "cache_byte (mc_regions mc') a = Some v"
    have r: "replay a ?ms acc = (if \<exists>k \<in> set [0..<n]. unat address + 32 * k \<le> unat a \<and> unat a < unat address + 32 * k + 32
        then Some (?pages ! (unat a - unat address)) else acc)" for acc
      using b n by (intro replay_segs) auto
    have c: "(\<exists>k \<in> set [0..<n]. unat address + 32 * k \<le> unat a \<and> unat a < unat address + 32 * k + 32)
        \<longleftrightarrow> address \<le> a \<and> a < address + sz"
      using seg_of_offset [of "unat address" "unat a" n] u n by (force simp: u64_le_unat u64_less_unat)
    show "replay a ?ms (recorded log a) = Some v"
      using v r [of "recorded log a"] c byte [of a] bytes [of a] log by (auto simp: cache_logged_def split: if_splits)
  qed
  ultimately show "\<exists>ms. ch_holds (mc_insert mc') (sized (q @ ms)) \<and> cache_logged (mc_regions mc') (log @ ms) \<and>
           region_msgs address sz step_id ms"
    using region_msgs_segs [OF n b, of ?pages step_id] by (intro exI [of _ ?ms]) (simp add: length_child_bytes)
qed

section \<open>Properties\<close>

text \<open>
  The page lookup is exact: for an address in a cached region \<open>find_page\<close> returns the page that contains
  the address (its address in the child and its place in the cache, which holds a whole page there);
  for any other address it reports that there is none.
\<close>

theorem find_page_exact:
  assumes "cache_wf psz cache"
  shows "case find_page psz cache a of
           None \<Rightarrow> \<forall>r \<in> set cache. \<not> in_region a r
         | Some (i, off, page) \<Rightarrow>
             i < length cache \<and> in_region a (cache ! i) \<and> off + psz \<le> length (reg_pages (cache ! i)) \<and>
             psz dvd off \<and> unat page = unat (reg_start (cache ! i)) + off \<and>
             unat page \<le> unat a \<and> unat a < unat page + psz"
proof (cases rule: find_page_cases [OF assms, of a, case_names none page])
  case none
  then show ?thesis by simp
next
  case (page i)
  have ok: "region_ok psz (cache ! i)" using assms page(1) by (rule cache_wf_region)
  show ?thesis
    using page page_at_bounds [OF ok page(2)] page_address(1) [OF ok page(2)] by simp
qed

definition sample_cache :: memcache where
  "sample_cache = \<lparr>mc_regions = [\<lparr>reg_start = 64, reg_end = 128, reg_pages = replicate 64 0\<rparr>],
                   mc_insert = the (ch_create True True)\<rparr>"

lemma sample_cache_wf: "cache_wf 64 (mc_regions sample_cache)"
  by (simp add: sample_cache_def cache_wf_def region_ok_def)

lemma sample_cache_empty: "ch_holds (mc_insert sample_cache) (sized [])"
  using chan.rep_empty by (simp add: sample_cache_def)

theorem find_page_exact_witness:
  "case find_page 64 (mc_regions sample_cache) 100 of
     None \<Rightarrow> \<forall>r \<in> set (mc_regions sample_cache). \<not> in_region 100 r
   | Some (i, off, page) \<Rightarrow>
       i < length (mc_regions sample_cache) \<and> in_region 100 (mc_regions sample_cache ! i) \<and>
       off + 64 \<le> length (reg_pages (mc_regions sample_cache ! i)) \<and>
       64 dvd off \<and> unat page = unat (reg_start (mc_regions sample_cache ! i)) + off \<and>
       unat page \<le> unat (100 :: u64) \<and> unat (100 :: u64) < unat page + 64"
  by (rule find_page_exact [OF sample_cache_wf])

text \<open>
  C4.  A stop of the child: when the reads of its memory succeed, \<open>proc_dirty_mem\<close> terminates without an
  access outside the cache, empties the channel of page faults, makes every byte of the reported pages
  equal to the child's, leaves all others alone, and sends exactly the changed segments with the
  child's content, each once and under the current step.
\<close>

theorem proc_dirty_mem_exact:
  assumes "cache_wf psz (mc_regions mc)" "32 dvd psz" "\<And>a. readv a psz = child_bytes cm a psz"
    and "length stk = psz" "ch_holds (mc_insert mc) (sized q)" "ch_holds fch (map (\<lambda>f. (f, 8)) fs)"
  shows "\<exists>fch' mc' ms.
    proc_dirty_mem (best_memdiff feat MEM_SEGMENT_SIZE) psz readv stk step_id fch mc = Some (fch', mc') \<and> ch_holds fch' [] \<and>
    brought_up psz cm step_id (\<lambda>a. \<exists>f \<in> set fs. same_page psz (mc_regions mc) f a) mc q mc' ms"
proof -
  from assms(2) obtain n where n: "psz = 32 * n" ..
  show ?thesis using best.proc_dirty_mem_spec [where readv = readv and cm = cm, OF n assms(3,4,1,5,6)] .
qed

definition sample_faults :: "u64 channel" where
  "sample_faults = ch_put (100, 8) (the (ch_create True True))"

lemma sample_faults_holds: "ch_holds sample_faults (map (\<lambda>f. (f, 8)) [100])"
  using chan.rep_put [OF chan.rep_empty, of "(100 :: u64, 8)"] by (simp add: sample_faults_def)

theorem proc_dirty_mem_exact_witness:
  "\<exists>fch' mc' ms.
    proc_dirty_mem (best_memdiff \<lparr>built_avx512dq = False, built_avx2 = True, built_sse2 = True,
      cpu_avx512dq = False, cpu_avx2 = True, cpu_sse2 = True\<rparr> MEM_SEGMENT_SIZE) 64 (child_bytes (\<lambda>a. 5))
      (replicate 64 0) 3 sample_faults sample_cache = Some (fch', mc') \<and> ch_holds fch' [] \<and>
    brought_up 64 (\<lambda>a. 5) 3 (\<lambda>a. \<exists>f \<in> set [100]. same_page 64 (mc_regions sample_cache) f a)
      sample_cache [] mc' ms"
  by (rule proc_dirty_mem_exact
    [where readv = "child_bytes (\<lambda>a. 5)" and cm = "\<lambda>a. 5", OF sample_cache_wf _ refl _ sample_cache_empty sample_faults_holds]) simp_all

text \<open>
  C3.  The recorder's view stays complete: suppose that the log reproduces the cache and that every
  cached byte which differs from the child's memory lies in a reported page.  Then after
  \<open>proc_dirty_mem\<close> the cache equals the child's memory on all regions, and the log with the messages just
  sent reproduces that memory.
\<close>

theorem dirty_pages_suffice:
  assumes "cache_wf psz (mc_regions mc)" "32 dvd psz" "\<And>a. readv a psz = child_bytes cm a psz"
    and "length stk = psz" "ch_holds (mc_insert mc) (sized q)" "ch_holds fch (map (\<lambda>f. (f, 8)) fs)"
    and "cache_logged (mc_regions mc) log"
    and "\<And>a b. cache_byte (mc_regions mc) a = Some b \<Longrightarrow> b \<noteq> cm a \<Longrightarrow>
           \<exists>f \<in> set fs. same_page psz (mc_regions mc) f a"
  shows "\<exists>fch' mc' ms.
    proc_dirty_mem (best_memdiff feat MEM_SEGMENT_SIZE) psz readv stk step_id fch mc = Some (fch', mc') \<and>
    ch_holds (mc_insert mc') (sized (q @ ms)) \<and>
    (\<forall>a. cache_byte (mc_regions mc) a \<noteq> None \<longrightarrow>
       cache_byte (mc_regions mc') a = Some (cm a) \<and> recorded (log @ ms) a = Some (cm a))"
proof -
  from assms(2) obtain n where n: "psz = 32 * n" ..
  obtain fch' mc' ms where 1:
    "proc_dirty_mem (best_memdiff feat MEM_SEGMENT_SIZE) psz readv stk step_id fch mc = Some (fch', mc')"
    "brought_up psz cm step_id (\<lambda>a. \<exists>f \<in> set fs. same_page psz (mc_regions mc) f a) mc q mc' ms"
    using best.proc_dirty_mem_spec [where readv = readv and cm = cm, OF n assms(3,4,1,5,6)] by blast
  then have bu: "refreshed (mc_regions mc) cm (\<lambda>a. \<exists>f \<in> set fs. same_page psz (mc_regions mc) f a) (mc_regions mc')"
    "changes (mc_regions mc) cm step_id (\<lambda>a. \<exists>f \<in> set fs. same_page psz (mc_regions mc) f a) ms"
    "ch_holds (mc_insert mc') (sized (q @ ms))" by (simp_all add: brought_up_def)
  have logged: "cache_logged (mc_regions mc') (log @ ms)" using assms(7) bu(2,1) by (rule refreshed_logged)
  have "cache_byte (mc_regions mc') a = Some (cm a)" if "cache_byte (mc_regions mc) a = Some b" for a b
    using bu(1) assms(8) [OF that] that unfolding refreshed_def by (cases "b = cm a") simp_all
  then show ?thesis using 1(1) bu(3) logged unfolding cache_logged_def by blast
qed

theorem dirty_pages_suffice_witness:
  "\<exists>fch' mc' ms.
    proc_dirty_mem (best_memdiff \<lparr>built_avx512dq = False, built_avx2 = False, built_sse2 = True,
      cpu_avx512dq = False, cpu_avx2 = True, cpu_sse2 = True\<rparr> MEM_SEGMENT_SIZE) 64 (child_bytes (\<lambda>a. 5))
      (replicate 64 0) 3 sample_faults sample_cache = Some (fch', mc') \<and>
    ch_holds (mc_insert mc') (sized ([] @ ms)) \<and>
    (\<forall>a. cache_byte (mc_regions sample_cache) a \<noteq> None \<longrightarrow>
       cache_byte (mc_regions mc') a = Some 5 \<and>
       recorded ([seg_msg 64 1 (replicate 64 0) 0, seg_msg 64 1 (replicate 64 0) 1] @ ms) a = Some 5)"
proof (rule dirty_pages_suffice
    [where readv = "child_bytes (\<lambda>a. 5)" and cm = "\<lambda>a. 5", OF sample_cache_wf _ refl _ sample_cache_empty sample_faults_holds])
  let ?c = "mc_regions sample_cache"
  have in100: "in_region 100 (?c ! 0)" by (simp add: sample_cache_def in_region_def)
  have page: "same_page 64 ?c 100 a \<longleftrightarrow> 64 \<le> unat a \<and> unat a < 128" for a
    using same_page_range [OF sample_cache_wf _ in100, of a] by (simp add: sample_cache_def page_at_def)
  have byte: "64 \<le> unat a \<and> unat a < 128 \<and> b = 0" if "cache_byte ?c a = Some b" for a b
    using that by (auto simp: cache_byte_def sample_cache_def in_region_def word_le_nat_alt word_less_nat_alt
        split: if_splits)
  then show "\<And>a b. cache_byte ?c a = Some b \<Longrightarrow> b \<noteq> 5 \<Longrightarrow> \<exists>f \<in> set [100]. same_page 64 ?c f a"
    using page by simp
  show "cache_logged ?c [seg_msg 64 1 (replicate 64 0) 0, seg_msg 64 1 (replicate 64 0) 1]"
    unfolding cache_logged_def recorded_def
    using replay_segs [of "64 :: u64" "replicate 64 0" "[0, 1]"] byte by fastforce
qed simp_all

text \<open>
  C10.  Adding a region that is disjoint from the cached ones keeps the cache sorted and well formed,
  caches the child's bytes of the region and nothing else, and sends messages that make the log
  reproduce the enlarged cache.
\<close>

theorem cache_add_region_exact:
  assumes "cache_wf psz (mc_regions mc)" "32 dvd psz" "region_addable psz (mc_regions mc) address sz"
    and "readv address (unat sz) = child_bytes cm address (unat sz)" "length fresh = unat sz"
    and "ch_holds (mc_insert mc) (sized q)" "cache_logged (mc_regions mc) log"
  shows "cache_wf psz (mc_regions (cache_add_region readv fresh address sz step_id mc)) \<and>
    (\<forall>a. cache_byte (mc_regions (cache_add_region readv fresh address sz step_id mc)) a =
       (if address \<le> a \<and> a < address + sz then Some (cm a) else cache_byte (mc_regions mc) a)) \<and>
    (\<exists>ms. ch_holds (mc_insert (cache_add_region readv fresh address sz step_id mc)) (sized (q @ ms)) \<and>
       cache_logged (mc_regions (cache_add_region readv fresh address sz step_id mc)) (log @ ms) \<and>
       (\<forall>m \<in> set ms. mm_step_id m = step_id))"
  using cache_add_region_spec [where readv = readv, OF assms] unfolding region_msgs_def by blast

theorem cache_add_region_exact_witness:
  "cache_wf 64 (mc_regions (cache_add_region (child_bytes (\<lambda>a. 5)) (replicate 64 0) 64 64 1
       (sample_cache\<lparr>mc_regions := []\<rparr>)))"
  by (rule cache_add_region_exact [where readv = "child_bytes (\<lambda>a. 5)" and cm = "\<lambda>a. 5" and q = "[]" and log = "[]"
        and psz = 64, THEN conjunct1])
    (use sample_cache_empty in \<open>simp_all add: cache_wf_def region_addable_def region_free_def cache_logged_def
      cache_byte_def\<close>)

end
