(* ===== verification/Db_Workers.thy ===== *)
theory Db_Workers
  imports Memcache
begin

text \<open>
  The database workers of \<^verbatim>\<open>record/db_workers.c\<close>: three threads that read messages from their channel and
  insert them in batches of \<^verbatim>\<open>COMMIT_FREQ\<close> into the tables \<^verbatim>\<open>step\<close>, \<^verbatim>\<open>heap\<close> and \<^verbatim>\<open>mem\<close>.  A table is the
  list of its rows.  SQLite is not modelled: the result of the \<open>n\<close>-th database call of a worker is the
  parameter \<open>out n op\<close>, and a statement has its effect exactly when its call succeeds.  An unsigned long
  is stored as the signed integer with the same bits (\<open>sint\<close>).
\<close>

section \<open>Database calls\<close>

datatype sql_op =
  Open_Db | Pragma_Journal | Pragma_Sync | Create_Table | Prepare | Begin_Tx | Reset_Cursor | Bind_Cursor
| Fetch_Cursor | Commit_Tx | Rollback_Tx | Attach_Db | Copy_Table | Unique_Index

text \<open>The result that the workers require of each call.\<close>

fun wanted :: "sql_op \<Rightarrow> dab_status" where
  "wanted Pragma_Journal = DAB_UNEXPECTED"
| "wanted Fetch_Cursor = DAB_NO_DATA"
| "wanted _ = DAB_OK"

type_synonym sql_env = "nat \<Rightarrow> sql_op \<Rightarrow> dab_status"

text \<open>
  The state of a worker: the number of calls so far, the rows of its table as committed and as seen
  inside the open transaction, the copy of the table in the main database, the commit counter.
\<close>

record 'r worker =
  calls :: nat
  committed :: "'r list"
  pending :: "'r list"
  exported :: "'r list option"
  counter :: nat

definition worker_start :: "'r worker" where
  "worker_start = \<lparr>calls = 0, committed = [], pending = [], exported = None, counter = 0\<rparr>"

text \<open>\<^verbatim>\<open>COMMIT_FREQ\<close>.\<close>

definition COMMIT_FREQ :: nat where
  "COMMIT_FREQ = 4096"

definition sql_do ::
    "sql_env \<Rightarrow> sql_op \<Rightarrow> ('r worker \<Rightarrow> 'r worker) \<Rightarrow> 'r worker \<Rightarrow> status \<times> 'r worker" where
  "sql_do out op eff w =
     (let w1 = w\<lparr>calls := Suc (calls w)\<rparr> in
      if out (calls w) op = wanted op then (SUCCESS, eff w1) else (FAILURE, w1))"

fun and_then :: "status \<times> 's \<Rightarrow> ('s \<Rightarrow> status \<times> 's) \<Rightarrow> status \<times> 's" where
  "and_then (SUCCESS, s) k = k s"
| "and_then (FAILURE, s) k = (FAILURE, s)"

text \<open>\<^verbatim>\<open>DAB_ROLLBACK; return NULL;\<close> on failure.\<close>

fun or_rollback :: "sql_env \<Rightarrow> status \<times> 'r worker \<Rightarrow> status \<times> 'r worker" where
  "or_rollback out (SUCCESS, w) = (SUCCESS, w)"
| "or_rollback out (FAILURE, w) =
     (FAILURE, snd (sql_do out Rollback_Tx (\<lambda>w. w\<lparr>pending := committed w\<rparr>) w))"

section \<open>Messages and rows\<close>

text \<open>\<^verbatim>\<open>struct insert_step_msg\<close> and \<^verbatim>\<open>struct insert_heap_msg\<close>; \<open>'g\<close> is \<^verbatim>\<open>struct user_regs_struct\<close>.\<close>

record 'g step_msg =
  sm_step_id :: u64
  sm_depth :: u64
  sm_func_id :: u64
  sm_address :: u64
  sm_regs :: 'g

record heap_msg =
  hm_step_id :: u64
  hm_address :: u64
  hm_size :: u64

record 'g step_row =
  st_id :: int
  st_address :: int
  st_depth :: int
  st_function_id :: int
  st_regs :: 'g

record heap_row =
  hr_address :: int
  hr_size :: int
  hr_allocated_at :: int
  hr_freed_at :: int

record mem_row =
  mr_address :: int
  mr_step_id :: int
  mr_content :: "byte list"

text \<open>The sizes of the messages; \<^verbatim>\<open>struct user_regs_struct\<close> has 27 eight-byte fields.\<close>

definition step_msg_size :: nat where
  "step_msg_size = 4 * 8 + 27 * 8"

definition heap_msg_size :: nat where
  "heap_msg_size = 24"

section \<open>Handling one message\<close>

text \<open>The execution of a prepared statement: reset, bind, fetch.\<close>

definition run_stmt :: "sql_env \<Rightarrow> ('r list \<Rightarrow> 'r list) \<Rightarrow> 'r worker \<Rightarrow> status \<times> 'r worker" where
  "run_stmt out f w =
     or_rollback out
       (and_then (sql_do out Reset_Cursor id w) (\<lambda>w1.
        and_then (sql_do out Bind_Cursor id w1) (\<lambda>w2.
        sql_do out Fetch_Cursor (\<lambda>w. w\<lparr>pending := f (pending w)\<rparr>) w2)))"

definition step_row_of :: "'g step_msg \<Rightarrow> 'g step_row" where
  "step_row_of m = \<lparr>st_id = sint (sm_step_id m), st_address = sint (sm_address m), st_depth = sint (sm_depth m),
                    st_function_id = sint (sm_func_id m), st_regs = sm_regs m\<rparr>"

definition mem_row_of :: "mem_msg \<Rightarrow> mem_row" where
  "mem_row_of m = \<lparr>mr_address = sint (mm_address m), mr_step_id = sint (mm_step_id m), mr_content = mm_content m\<rparr>"

definition insert_step :: "'g step_msg \<Rightarrow> 'g step_row list \<Rightarrow> 'g step_row list" where
  "insert_step m rows = rows @ [step_row_of m]"

definition insert_mem :: "mem_msg \<Rightarrow> mem_row list \<Rightarrow> mem_row list" where
  "insert_mem m rows = rows @ [mem_row_of m]"

text \<open>A message with a size inserts a block; one without frees the blocks at its address.\<close>

definition insert_heap :: "heap_msg \<Rightarrow> heap_row list \<Rightarrow> heap_row list" where
  "insert_heap m rows =
     (if hm_size m \<noteq> 0 then
        rows @ [\<lparr>hr_address = sint (hm_address m), hr_size = sint (hm_size m),
                 hr_allocated_at = sint (hm_step_id m), hr_freed_at = 0\<rparr>]
      else map (\<lambda>r. if hr_address r = sint (hm_address m) \<and> hr_freed_at r = 0
                    then r\<lparr>hr_freed_at := sint (hm_step_id m)\<rparr> else r) rows)"

text \<open>After each message: count, and commit every \<^verbatim>\<open>COMMIT_FREQ\<close> messages.\<close>

definition batch :: "sql_env \<Rightarrow> 'r worker \<Rightarrow> status \<times> 'r worker" where
  "batch out w =
     (let w1 = w\<lparr>counter := Suc (counter w)\<rparr> in
      if COMMIT_FREQ \<le> counter w1 then
        and_then (or_rollback out (sql_do out Commit_Tx (\<lambda>w. w\<lparr>committed := pending w\<rparr>) w1)) (\<lambda>w2.
        and_then (sql_do out Begin_Tx id w2) (\<lambda>w3. (SUCCESS, w3\<lparr>counter := 0\<rparr>)))
      else (SUCCESS, w1))"

text \<open>
  The loop of a worker: \<open>apply_msg\<close> is the effect of a message on the table, \<open>sz\<close> the size of a
  message.  \<open>None\<close>: the worker blocks for ever (or the channel is broken).
\<close>

function worker_loop ::
    "sql_env \<Rightarrow> ('m \<Rightarrow> 'r list \<Rightarrow> 'r list) \<Rightarrow> nat \<Rightarrow> 'm channel \<Rightarrow> 'r worker \<Rightarrow> (status \<times> 'r worker) option" where
  "worker_loop out apply_msg sz ch w =
     (case ch_read sys_ok ch None sz READ_BLOCK of
        Done CHANNEL_OK (Some m) _ ch' \<Rightarrow>
          (case and_then (run_stmt out (apply_msg m) w) (batch out) of
             (SUCCESS, w') \<Rightarrow> worker_loop out apply_msg sz ch' w'
           | (FAILURE, w') \<Rightarrow> Some (FAILURE, w'))
      | Done _ _ _ ch' \<Rightarrow> Some (or_rollback out (sql_do out Commit_Tx (\<lambda>w. w\<lparr>committed := pending w\<rparr>) w))
      | _ \<Rightarrow> None)"
  by pat_completeness auto
termination
  by (relation "measure (\<lambda>(_, _, _, ch, _). ch_sem ch)") (auto dest: ch_read_OK_sem)

declare worker_loop.simps [simp del]

section \<open>The workers\<close>

text \<open>Opening the database and creating the table, up to the first \<^verbatim>\<open>DAB_BEGIN\<close>; \<open>stmts\<close> is the number of
  prepared statements, \<open>chown_ok\<close> the outcome of \<^verbatim>\<open>chown\<close>.\<close>

primrec prepare_stmts :: "sql_env \<Rightarrow> nat \<Rightarrow> 'r worker \<Rightarrow> status \<times> 'r worker" where
  "prepare_stmts out 0 w = (SUCCESS, w)"
| "prepare_stmts out (Suc n) w = and_then (sql_do out Prepare id w) (prepare_stmts out n)"

definition worker_open :: "sql_env \<Rightarrow> bool \<Rightarrow> nat \<Rightarrow> 'r worker \<Rightarrow> status \<times> 'r worker" where
  "worker_open out chown_ok stmts w =
     and_then (sql_do out Open_Db id w) (\<lambda>w.
     and_then (sql_do out Pragma_Journal id w) (\<lambda>w.
     and_then (sql_do out Pragma_Sync id w) (\<lambda>w.
     and_then (if chown_ok then (SUCCESS, w) else (FAILURE, w)) (\<lambda>w.
     and_then (sql_do out Create_Table (\<lambda>w. w\<lparr>committed := [], pending := []\<rparr>) w) (\<lambda>w.
     and_then (prepare_stmts out stmts w) (\<lambda>w.
     sql_do out Begin_Tx id w))))))"

fun then_loop :: "status \<times> 'r worker \<Rightarrow> ('r worker \<Rightarrow> (status \<times> 'r worker) option) \<Rightarrow> (status \<times> 'r worker) option" where
  "then_loop (SUCCESS, w) k = k w"
| "then_loop (FAILURE, w) k = Some (FAILURE, w)"

text \<open>\<^verbatim>\<open>wrk_insert_step\<close> works on the main database.\<close>

definition wrk_insert_step :: "sql_env \<Rightarrow> 'g step_msg channel \<Rightarrow> (status \<times> 'g step_row worker) option" where
  "wrk_insert_step out ch =
     then_loop (worker_open out True 1 worker_start) (\<lambda>w. worker_loop out insert_step step_msg_size ch w)"

text \<open>The copy of a temporary table into the main database.\<close>

definition export_table :: "sql_env \<Rightarrow> 'r worker \<Rightarrow> status \<times> 'r worker" where
  "export_table out w =
     and_then (sql_do out Attach_Db id w) (\<lambda>w.
     sql_do out Copy_Table (\<lambda>w. w\<lparr>exported := Some (committed w)\<rparr>) w)"

definition wrk_insert_heap :: "sql_env \<Rightarrow> bool \<Rightarrow> heap_msg channel \<Rightarrow> (status \<times> heap_row worker) option" where
  "wrk_insert_heap out chown_ok ch =
     then_loop (worker_open out chown_ok 2 worker_start) (\<lambda>w.
     case worker_loop out insert_heap heap_msg_size ch w of
       None \<Rightarrow> None
     | Some r \<Rightarrow> Some (and_then r (export_table out)))"

text \<open>The unique index on \<open>(address, step_id)\<close> can only be created when no key occurs twice.\<close>

definition mem_key :: "mem_row \<Rightarrow> int \<times> int" where
  "mem_key r = (mr_address r, mr_step_id r)"

definition mem_index :: "sql_env \<Rightarrow> mem_row worker \<Rightarrow> status \<times> mem_row worker" where
  "mem_index out w =
     and_then (sql_do out Unique_Index id w) (\<lambda>w.
     (if distinct (map mem_key (the (exported w))) then SUCCESS else FAILURE, w))"

definition wrk_insert_mem :: "sql_env \<Rightarrow> bool \<Rightarrow> mem_msg channel \<Rightarrow> (status \<times> mem_row worker) option" where
  "wrk_insert_mem out chown_ok ch =
     then_loop (worker_open out chown_ok 1 worker_start) (\<lambda>w.
     case worker_loop out insert_mem mem_msg_size ch w of
       None \<Rightarrow> None
     | Some r \<Rightarrow> Some (and_then r (\<lambda>w. and_then (export_table out w) (mem_index out))))"

section \<open>What a successful call leaves behind\<close>

named_theorems worker_simps

lemma sql_do_success [worker_simps]:
  "sql_do out op eff w = (SUCCESS, w') \<longleftrightarrow> out (calls w) op = wanted op \<and> w' = eff (w\<lparr>calls := Suc (calls w)\<rparr>)"
  by (auto simp: sql_do_def Let_def)

lemma and_then_success [worker_simps]: "and_then r k = (SUCCESS, w') \<longleftrightarrow> (\<exists>w. r = (SUCCESS, w) \<and> k w = (SUCCESS, w'))"
  by (cases r; cases "fst r") auto

lemma or_rollback_success [worker_simps]: "or_rollback out r = (SUCCESS, w') \<longleftrightarrow> r = (SUCCESS, w')"
  by (cases r; cases "fst r") auto

lemma run_stmt_success:
  assumes "run_stmt out f w = (SUCCESS, w')"
  shows "pending w' = f (pending w)" "committed w' = committed w" "counter w' = counter w" "exported w' = exported w"
  using assms by (auto simp: run_stmt_def worker_simps)

lemma run_stmt_failure:
  assumes "run_stmt out f w = (FAILURE, w')"
  shows "committed w' = committed w" "exported w' = exported w"
  using assms
  by (auto simp: run_stmt_def sql_do_def Let_def split: if_splits)

text \<open>
  The batch invariant after the messages \<open>ms\<close>: the transaction has them all, the committed table has all
  but the last \<open>counter\<close>, which are fewer than \<^verbatim>\<open>COMMIT_FREQ\<close>.
\<close>

definition batch_inv :: "('m \<Rightarrow> 'r list \<Rightarrow> 'r list) \<Rightarrow> 'm list \<Rightarrow> 'r worker \<Rightarrow> bool" where
  "batch_inv apply_msg ms w \<longleftrightarrow>
     counter w < COMMIT_FREQ \<and> counter w \<le> length ms \<and> pending w = fold apply_msg ms [] \<and>
     committed w = fold apply_msg (take (length ms - counter w) ms) [] \<and> exported w = None"

lemma batch_inv_step:
  assumes "batch_inv f ms w" "run_stmt out (f m) w = (SUCCESS, w1)" "batch out w1 = (SUCCESS, w2)"
  shows "batch_inv f (ms @ [m]) w2"
proof -
  note s = run_stmt_success [OF assms(2)]
  show ?thesis
  proof (cases "COMMIT_FREQ \<le> Suc (counter w1)")
    case True
    then have "pending w2 = pending w1 \<and> committed w2 = pending w1 \<and> counter w2 = 0 \<and> exported w2 = exported w1"
      using assms(3) by (auto simp: batch_def worker_simps)
    then show ?thesis using assms(1) s by (simp add: batch_inv_def COMMIT_FREQ_def)
  next
    case False
    then have "pending w2 = pending w1 \<and> committed w2 = committed w1 \<and> counter w2 = Suc (counter w1) \<and>
        exported w2 = exported w1"
      using assms(3) by (auto simp: batch_def)
    then show ?thesis using False assms(1) s by (simp add: batch_inv_def)
  qed
qed

text \<open>A failing commit leaves what was committed before.\<close>

lemma batch_failure:
  assumes "batch out w1 = (FAILURE, w2)"
  shows "committed w2 = committed w1 \<or> committed w2 = pending w1" "exported w2 = exported w1"
  using assms by (auto simp: batch_def sql_do_def Let_def split: if_splits)

text \<open>The channel holds \<open>ms\<close> and has been finished.\<close>

definition ch_closed :: "'m channel \<Rightarrow> 'm list \<Rightarrow> nat \<Rightarrow> bool" where
  "ch_closed ch ms sz \<longleftrightarrow> ch_rep ch (map (\<lambda>m. (Some m, sz)) ms @ [(None, 0)])"

lemma ch_closed_finish:
  assumes "ch_holds ch (map (\<lambda>m. (m, sz)) ms)"
  shows "ch_closed (snd (ch_finish sys_ok ch)) ms sz"
  using ch_write_rep_snd [OF assms [unfolded ch_holds_def], of None 0]
  by (simp add: ch_closed_def ch_finish_def o_def)

lemma ch_closed_read:
  assumes "ch_closed ch (m # ms) sz"
  obtains ch' where "ch_read sys_ok ch None sz READ_BLOCK = Done CHANNEL_OK (Some m) sz ch'" "ch_closed ch' ms sz"
  using ch_read_simulates [OF assms [unfolded ch_closed_def], of None sz READ_BLOCK]
  by (cases "ch_read sys_ok ch None sz READ_BLOCK") (auto simp: ch_closed_def option.rel_eq)

lemma ch_closed_end:
  assumes "ch_closed ch [] sz"
  obtains ch' where "ch_read sys_ok ch None sz READ_BLOCK = Done CHANNEL_END None 0 ch'"
  using ch_read_simulates [OF assms [unfolded ch_closed_def], of None sz READ_BLOCK]
  by (cases "ch_read sys_ok ch None sz READ_BLOCK") (auto simp: option.rel_eq)

text \<open>
  The loop always ends on a finished channel.  What is committed then is the table of a prefix of the
  messages, of all of them when the worker succeeds.
\<close>

lemma worker_loop_spec:
  assumes "ch_closed ch ms sz" "batch_inv f done w"
  shows "\<exists>st w' k. worker_loop out f sz ch w = Some (st, w') \<and> exported w' = None \<and>
    committed w' = fold f (take k (done @ ms)) [] \<and> (st = SUCCESS \<longrightarrow> k = length (done @ ms))"
  using assms
proof (induction ms arbitrary: ch w "done")
  case Nil
  obtain ch' where r: "ch_read sys_ok ch None sz READ_BLOCK = Done CHANNEL_END None 0 ch'"
    using Nil.prems(1) by (rule ch_closed_end)
  let ?commit = "\<lambda>w. w\<lparr>committed := pending w\<rparr>"
  have l: "worker_loop out f sz ch w = Some (or_rollback out (sql_do out Commit_Tx ?commit w))"
    using r by (subst worker_loop.simps) simp
  show ?case
  proof (cases "out (calls w) Commit_Tx = DAB_OK")
    case True
    then show ?thesis using l Nil.prems(2)
      by (intro exI [of _ SUCCESS] exI [of _ "?commit (w\<lparr>calls := Suc (calls w)\<rparr>)"] exI [of _ "length done"])
        (simp add: sql_do_def batch_inv_def)
  next
    case False
    then show ?thesis using l Nil.prems(2)
      by (intro exI [of _ FAILURE] exI [of _ "snd (or_rollback out (sql_do out Commit_Tx ?commit w))"]
          exI [of _ "length done - counter w"])
        (simp add: sql_do_def batch_inv_def Let_def)
  qed
next
  case (Cons m ms)
  obtain ch' where r: "ch_read sys_ok ch None sz READ_BLOCK = Done CHANNEL_OK (Some m) sz ch'" "ch_closed ch' ms sz"
    using Cons.prems(1) by (rule ch_closed_read)
  obtain st w1 where h: "and_then (run_stmt out (f m) w) (batch out) = (st, w1)" by (metis prod.collapse)
  show ?case
  proof (cases st)
    case SUCCESS
    then have "batch_inv f (done @ [m]) w1"
      using h Cons.prems(2) batch_inv_step by (auto simp: and_then_success)
    note IH = Cons.IH [OF r(2) this]
    have "worker_loop out f sz ch w = worker_loop out f sz ch' w1"
      using r(1) h SUCCESS by (subst worker_loop.simps) simp
    with IH show ?thesis by simp
  next
    case FAILURE
    have "\<exists>k. committed w1 = fold f (take k (done @ m # ms)) [] \<and> exported w1 = None"
    proof (cases "run_stmt out (f m) w")
      case (Pair st' w')
      show ?thesis
      proof (cases st')
        case SUCCESS
        note s = run_stmt_success [OF Pair [unfolded SUCCESS]]
        have "committed w1 = committed w' \<or> committed w1 = pending w'" "exported w1 = exported w'"
          using h Pair SUCCESS FAILURE batch_failure [of out w' w1] by simp_all
        then have "committed w1 = fold f (take (length done - counter w) (done @ m # ms)) [] \<or>
            committed w1 = fold f (take (Suc (length done)) (done @ m # ms)) []" "exported w1 = None"
          using s Cons.prems(2) by (auto simp: batch_inv_def)
        then show ?thesis by blast
      next
        case failed: FAILURE
        then have "committed w1 = fold f (take (length done - counter w) (done @ m # ms)) [] \<and> exported w1 = None"
          using h Pair run_stmt_failure [of out "f m" w w'] Cons.prems(2) by (simp add: batch_inv_def)
        then show ?thesis by blast
      qed
    qed
    then show ?thesis using r(1) h FAILURE by (subst worker_loop.simps) auto
  qed
qed

text \<open>A database on which every call gives the result that the workers want.\<close>

definition healthy :: "sql_env \<Rightarrow> bool" where
  "healthy out \<longleftrightarrow> (\<forall>n op. out n op = wanted op)"

lemma healthy_sql_do [simp]:
  "healthy out \<Longrightarrow> sql_do out op eff w = (SUCCESS, eff (w\<lparr>calls := Suc (calls w)\<rparr>))"
  by (simp add: healthy_def sql_do_def)

lemma healthy_handle:
  "healthy out \<Longrightarrow> \<exists>w'. and_then (run_stmt out g w) (batch out) = (SUCCESS, w')"
  by (auto simp: run_stmt_def batch_def Let_def)

lemma healthy_loop:
  assumes "healthy out"
  shows "ch_closed ch ms sz \<Longrightarrow> \<exists>w'. worker_loop out f sz ch w = Some (SUCCESS, w')"
proof (induction ms arbitrary: ch w)
  case Nil
  then obtain ch' where "ch_read sys_ok ch None sz READ_BLOCK = Done CHANNEL_END None 0 ch'"
    by (rule ch_closed_end)
  then show ?case using assms by (subst worker_loop.simps) simp
next
  case (Cons m ms)
  obtain ch' where r: "ch_read sys_ok ch None sz READ_BLOCK = Done CHANNEL_OK (Some m) sz ch'" "ch_closed ch' ms sz"
    using Cons.prems by (rule ch_closed_read)
  obtain w' where "and_then (run_stmt out (f m) w) (batch out) = (SUCCESS, w')"
    using healthy_handle [OF assms] by blast
  then have "worker_loop out f sz ch w = worker_loop out f sz ch' w'"
    using r(1) by (subst worker_loop.simps) simp
  then show ?case using Cons.IH [OF r(2)] by simp
qed

lemma prepare_stmts_keeps:
  "prepare_stmts out n w = (SUCCESS, w') \<Longrightarrow>
   pending w' = pending w \<and> committed w' = committed w \<and> counter w' = counter w \<and> exported w' = exported w"
  by (induction n arbitrary: w) (auto simp: worker_simps)

lemma worker_open_inv:
  assumes "worker_open out c n worker_start = (SUCCESS, w)"
  shows "batch_inv f [] w"
  using assms
  by (auto simp: worker_open_def worker_simps worker_start_def batch_inv_def COMMIT_FREQ_def
      dest!: prepare_stmts_keeps split: if_splits)

lemma healthy_open: "healthy out \<Longrightarrow> \<exists>w. worker_open out True n w0 = (SUCCESS, w)"
proof -
  assume h: "healthy out"
  have "\<exists>w'. prepare_stmts out n w = (SUCCESS, w')" for w :: "'a worker"
    using h by (induction n arbitrary: w) auto
  then show ?thesis using h by (auto simp: worker_open_def worker_simps)
qed

text \<open>
  A worker that opens the database, runs its loop and continues with \<open>fin\<close>: on a finished channel it
  ends, and it can only succeed with all messages in the committed table.
\<close>

lemma worker_spec:
  fixes f :: "'m \<Rightarrow> 'r list \<Rightarrow> 'r list"
  assumes "ch_closed ch ms sz"
  shows "\<exists>st w. then_loop (worker_open out c n worker_start) (\<lambda>w.
      case worker_loop out f sz ch w of None \<Rightarrow> None | Some r \<Rightarrow> Some (and_then r fin)) = Some (st, w) \<and>
    (st = SUCCESS \<longrightarrow> (\<exists>w1. committed w1 = fold f ms [] \<and> fin w1 = (SUCCESS, w)))"
proof (cases "worker_open out c n (worker_start :: 'r worker)")
  case (Pair st w)
  show ?thesis
  proof (cases st)
    case FAILURE
    then show ?thesis using Pair by simp
  next
    case SUCCESS
    then have "batch_inv f [] w" using Pair worker_open_inv by blast
    from worker_loop_spec [OF assms this, of out] obtain st1 w1 k where
      l: "worker_loop out f sz ch w = Some (st1, w1)" "committed w1 = fold f (take k ms) []"
        "st1 = SUCCESS \<Longrightarrow> k = length ms" by auto
    show ?thesis
    proof (cases st1)
      case S1: SUCCESS
      then show ?thesis using Pair SUCCESS l by (cases "fin w1") auto
    next
      case F1: FAILURE
      then show ?thesis using Pair SUCCESS l by simp
    qed
  qed
qed

lemma fold_insert_mem: "fold insert_mem ms rows = rows @ map mem_row_of ms"
  by (induction ms arbitrary: rows) (simp_all add: insert_mem_def)

lemma fold_insert_step: "fold insert_step ms rows = rows @ map step_row_of ms"
  by (induction ms arbitrary: rows) (simp_all add: insert_step_def)

text \<open>On a working database every worker runs to the end of its loop with all messages applied.\<close>

lemma healthy_worker:
  fixes f :: "'m \<Rightarrow> 'r list \<Rightarrow> 'r list"
  assumes "healthy out" "ch_closed ch ms sz"
  shows "\<exists>w0 w1. worker_open out True n (worker_start :: 'r worker) = (SUCCESS, w0) \<and>
    worker_loop out f sz ch w0 = Some (SUCCESS, w1) \<and> committed w1 = fold f ms []"
proof -
  obtain w0 :: "'r worker" where o: "worker_open out True n worker_start = (SUCCESS, w0)"
    using healthy_open [OF assms(1)] by blast
  then have inv: "batch_inv f [] w0" by (rule worker_open_inv)
  obtain w1 where l: "worker_loop out f sz ch w0 = Some (SUCCESS, w1)"
    using healthy_loop [OF assms(1,2)] by blast
  then have "committed w1 = fold f ms []" using worker_loop_spec [OF assms(2) inv, of out] by auto
  with o l show ?thesis by blast
qed

lemma wrk_insert_step_all:
  assumes "healthy out" "ch_closed ch ms step_msg_size"
  shows "\<exists>w. wrk_insert_step out ch = Some (SUCCESS, w) \<and> committed w = map step_row_of ms"
  using healthy_worker [OF assms, of 1 insert_step] by (force simp: wrk_insert_step_def fold_insert_step)

lemma wrk_insert_heap_all:
  assumes "healthy out" "ch_closed ch ms heap_msg_size"
  shows "\<exists>w. wrk_insert_heap out True ch = Some (SUCCESS, w) \<and> exported w = Some (fold insert_heap ms [])"
proof -
  obtain w0 w1 where "worker_open out True 2 worker_start = (SUCCESS, w0)"
    "worker_loop out insert_heap heap_msg_size ch w0 = Some (SUCCESS, w1)" "committed w1 = fold insert_heap ms []"
    using healthy_worker [OF assms, of 2 insert_heap] by blast
  then show ?thesis using assms(1) by (simp add: wrk_insert_heap_def export_table_def)
qed

lemma wrk_insert_mem_all:
  assumes "healthy out" "ch_closed ch ms mem_msg_size" "distinct (map (mem_key \<circ> mem_row_of) ms)"
  shows "\<exists>w. wrk_insert_mem out True ch = Some (SUCCESS, w) \<and> exported w = Some (map mem_row_of ms)"
proof -
  obtain w0 w1 where "worker_open out True 1 worker_start = (SUCCESS, w0)"
    "worker_loop out insert_mem mem_msg_size ch w0 = Some (SUCCESS, w1)" "committed w1 = map mem_row_of ms"
    using healthy_worker [OF assms(1,2), of 1 insert_mem] by (auto simp: fold_insert_mem)
  then show ?thesis using assms(1,3) by (simp add: wrk_insert_mem_def export_table_def mem_index_def)
qed

section \<open>Properties\<close>

text \<open>
  C5.  The memory worker on a finished channel always returns, whatever the database does.  If it returns
  success, the table \<^verbatim>\<open>mem\<close> of the main database holds one row per message, in order, and no two rows
  share address and step: a successful recording has lost nothing.
\<close>

theorem wrk_insert_mem_complete:
  assumes "ch_closed ch ms mem_msg_size"
  shows "\<exists>st w. wrk_insert_mem out chown_ok ch = Some (st, w) \<and>
    (st = SUCCESS \<longrightarrow> exported w = Some (map mem_row_of ms) \<and> distinct (map (mem_key \<circ> mem_row_of) ms))"
  using worker_spec [OF assms, where f = insert_mem and out = out and c = chown_ok and n = 1 and
      fin = "\<lambda>w. and_then (export_table out w) (mem_index out)"]
  unfolding wrk_insert_mem_def
  by (auto simp: fold_insert_mem export_table_def mem_index_def worker_simps split: if_splits)

definition sample_mem_msgs :: "mem_msg list" where
  "sample_mem_msgs = [\<lparr>mm_step_id = 1, mm_address = 64, mm_content = replicate 32 7\<rparr>,
                      \<lparr>mm_step_id = 1, mm_address = 96, mm_content = replicate 32 8\<rparr>,
                      \<lparr>mm_step_id = 2, mm_address = 64, mm_content = replicate 32 9\<rparr>]"

definition sample_mem_channel :: "mem_msg channel" where
  "sample_mem_channel =
     snd (ch_finish sys_ok (fold ch_put (map (\<lambda>m. (m, mem_msg_size)) sample_mem_msgs) (the (ch_create True True))))"

lemma sample_mem_closed: "ch_closed sample_mem_channel sample_mem_msgs mem_msg_size"
  unfolding sample_mem_channel_def
  using chan.rep_put_all [OF chan.rep_empty, of "map (\<lambda>m. (m, mem_msg_size)) sample_mem_msgs"]
  by (intro ch_closed_finish) simp

theorem wrk_insert_mem_complete_witness:
  "\<exists>st w. wrk_insert_mem (\<lambda>n. wanted) True sample_mem_channel = Some (st, w) \<and>
    (st = SUCCESS \<longrightarrow> exported w = Some (map mem_row_of sample_mem_msgs) \<and>
       distinct (map (mem_key \<circ> mem_row_of) sample_mem_msgs))"
  by (rule wrk_insert_mem_complete [OF sample_mem_closed])

text \<open>
  C11.  Conversely, on a database whose calls succeed, the memory worker succeeds for every finished
  channel whose messages have distinct addresses within each step.
\<close>

theorem wrk_insert_mem_succeeds:
  assumes "healthy out" "ch_closed ch ms mem_msg_size" "distinct (map (mem_key \<circ> mem_row_of) ms)"
  shows "\<exists>w. wrk_insert_mem out True ch = Some (SUCCESS, w) \<and> exported w = Some (map mem_row_of ms)"
  using assms by (rule wrk_insert_mem_all)

theorem wrk_insert_mem_succeeds_witness:
  "\<exists>w. wrk_insert_mem (\<lambda>n. wanted) True sample_mem_channel = Some (SUCCESS, w) \<and>
    exported w = Some (map mem_row_of sample_mem_msgs)"
proof (rule wrk_insert_mem_succeeds [OF _ sample_mem_closed])
  show "healthy (\<lambda>n. wanted)" by (simp add: healthy_def)
  show "distinct (map (mem_key \<circ> mem_row_of) sample_mem_msgs)"
    by (simp add: sample_mem_msgs_def mem_key_def mem_row_of_def)
qed

section \<open>The heap table\<close>

text \<open>
  The heap as it is at step \<open>s\<close> according to the events: the size of the live block at each address.
\<close>

definition heap_event :: "heap_msg \<Rightarrow> (int \<rightharpoonup> int) \<Rightarrow> (int \<rightharpoonup> int)" where
  "heap_event m h =
     (if hm_size m \<noteq> 0 then h(sint (hm_address m) \<mapsto> sint (hm_size m)) else h(sint (hm_address m) := None))"

definition heap_after :: "heap_msg list \<Rightarrow> (int \<rightharpoonup> int)" where
  "heap_after ms = fold heap_event ms Map.empty"

definition events_upto :: "int \<Rightarrow> heap_msg list \<Rightarrow> heap_msg list" where
  "events_upto s ms = filter (\<lambda>m. sint (hm_step_id m) \<le> s) ms"

definition heap_table :: "heap_msg list \<Rightarrow> heap_row list" where
  "heap_table ms = fold insert_heap ms []"

text \<open>
  A heap trace: positive steps in ascending order; a block is only allocated at an address where none
  is live, and no address is allocated twice in one step.
\<close>

definition heap_trace :: "heap_msg list \<Rightarrow> bool" where
  "heap_trace ms \<longleftrightarrow>
     sorted (map (\<lambda>m. sint (hm_step_id m)) ms) \<and> (\<forall>m \<in> set ms. 0 < sint (hm_step_id m)) \<and>
     (\<forall>i < length ms. hm_size (ms ! i) \<noteq> 0 \<longrightarrow>
        heap_after (take i ms) (sint (hm_address (ms ! i))) = None \<and>
        (\<forall>j < i. hm_size (ms ! j) \<noteq> 0 \<longrightarrow> hm_address (ms ! j) = hm_address (ms ! i) \<longrightarrow>
           sint (hm_step_id (ms ! j)) < sint (hm_step_id (ms ! i))))"

text \<open>What the table shows of step \<open>s\<close>: later rows are not there yet, later releases have not happened.\<close>

definition heap_view :: "int \<Rightarrow> heap_row list \<Rightarrow> heap_row list" where
  "heap_view s rows =
     map (\<lambda>r. if s < hr_freed_at r then r\<lparr>hr_freed_at := 0\<rparr> else r) (filter (\<lambda>r. hr_allocated_at r \<le> s) rows)"

lemma heap_trace_snoc:
  assumes "heap_trace (ms @ [m])"
  shows "heap_trace ms" "0 < sint (hm_step_id m)" "\<forall>e \<in> set ms. sint (hm_step_id e) \<le> sint (hm_step_id m)"
    "hm_size m \<noteq> 0 \<Longrightarrow> heap_after ms (sint (hm_address m)) = None"
    "hm_size m \<noteq> 0 \<Longrightarrow> e \<in> set ms \<Longrightarrow> hm_size e \<noteq> 0 \<Longrightarrow> hm_address e = hm_address m \<Longrightarrow>
       sint (hm_step_id e) < sint (hm_step_id m)"
proof -
  show "heap_trace ms"
    unfolding heap_trace_def
  proof (intro conjI allI impI)
    show "sorted (map (\<lambda>m. sint (hm_step_id m)) ms)" using assms by (simp add: heap_trace_def sorted_append)
    show "\<forall>m \<in> set ms. 0 < sint (hm_step_id m)" using assms by (simp add: heap_trace_def)
  next
    fix i assume i: "i < length ms" "hm_size (ms ! i) \<noteq> 0"
    then have at: "(ms @ [m]) ! i = ms ! i" "take i (ms @ [m]) = take i ms" "i < length (ms @ [m])"
      by (simp_all add: nth_append)
    show "heap_after (take i ms) (sint (hm_address (ms ! i))) = None"
      using assms i at unfolding heap_trace_def by metis
    fix j assume "j < i" "hm_size (ms ! j) \<noteq> 0" "hm_address (ms ! j) = hm_address (ms ! i)"
    moreover have "(ms @ [m]) ! j = ms ! j" using \<open>j < i\<close> i(1) by (simp add: nth_append)
    ultimately show "sint (hm_step_id (ms ! j)) < sint (hm_step_id (ms ! i))"
      using assms i at unfolding heap_trace_def by metis
  qed
  show "0 < sint (hm_step_id m)" "\<forall>e \<in> set ms. sint (hm_step_id e) \<le> sint (hm_step_id m)"
    using assms by (auto simp: heap_trace_def sorted_append)
  show "hm_size m \<noteq> 0 \<Longrightarrow> heap_after ms (sint (hm_address m)) = None"
    using assms by (auto simp: heap_trace_def dest: spec [of _ "length ms"])
  assume m: "hm_size m \<noteq> 0" "e \<in> set ms" "hm_size e \<noteq> 0" "hm_address e = hm_address m"
  then obtain j where "j < length ms" "ms ! j = e" by (auto simp: in_set_conv_nth)
  then have "(ms @ [m]) ! j = e" "(ms @ [m]) ! length ms = m" "j < length ms" "length ms < length (ms @ [m])"
    by (simp_all add: nth_append)
  then show "sint (hm_step_id e) < sint (hm_step_id m)"
    using assms m unfolding heap_trace_def by metis
qed

lemma heap_table_snoc: "heap_table (ms @ [m]) = insert_heap m (heap_table ms)"
  by (simp add: heap_table_def)

lemma heap_after_snoc: "heap_after (ms @ [m]) = heap_event m (heap_after ms)"
  by (simp add: heap_after_def)

lemma heap_row_origin:
  assumes "r \<in> set (heap_table ms)"
  obtains m where "m \<in> set ms" "hm_size m \<noteq> 0" "hr_address r = sint (hm_address m)"
    "hr_allocated_at r = sint (hm_step_id m)"
proof -
  have "\<exists>m \<in> set ms. hm_size m \<noteq> 0 \<and> hr_address r = sint (hm_address m) \<and> hr_allocated_at r = sint (hm_step_id m)"
    using assms
  proof (induction ms arbitrary: r rule: rev_induct)
    case Nil
    then show ?case by (simp add: heap_table_def)
  next
    case (snoc m ms)
    show ?case
    proof (cases "hm_size m = 0")
      case True
      then obtain r' where "r' \<in> set (heap_table ms)" "hr_address r = hr_address r'"
        "hr_allocated_at r = hr_allocated_at r'"
        using snoc.prems by (auto simp: heap_table_snoc insert_heap_def split: if_splits)
      then show ?thesis using snoc.IH [of r'] by auto
    next
      case False
      then show ?thesis using snoc.prems snoc.IH [of r] by (auto simp: heap_table_snoc insert_heap_def)
    qed
  qed
  then show ?thesis using that by blast
qed

lemma heap_row_freed:
  assumes "r \<in> set (heap_table ms)"
  shows "hr_freed_at r = 0 \<or> (\<exists>m \<in> set ms. hr_freed_at r = sint (hm_step_id m))"
  using assms
proof (induction ms arbitrary: r rule: rev_induct)
  case Nil
  then show ?case by (simp add: heap_table_def)
next
  case (snoc m ms)
  then show ?case by (fastforce simp: heap_table_snoc insert_heap_def split: if_splits)
qed

text \<open>The rows of one address.\<close>

definition rows_at :: "int \<Rightarrow> heap_row list \<Rightarrow> heap_row list" where
  "rows_at a rows = filter (\<lambda>r. hr_address r = a) rows"

lemma rows_at_insert:
  "rows_at a (insert_heap m rows) =
     (if a \<noteq> sint (hm_address m) then rows_at a rows
      else if hm_size m \<noteq> 0 then
        rows_at a rows @ [\<lparr>hr_address = a, hr_size = sint (hm_size m), hr_allocated_at = sint (hm_step_id m),
                          hr_freed_at = 0\<rparr>]
      else map (\<lambda>r. if hr_freed_at r = 0 then r\<lparr>hr_freed_at := sint (hm_step_id m)\<rparr> else r) (rows_at a rows))"
proof (induction rows)
  case Nil
  then show ?case by (simp add: rows_at_def insert_heap_def)
next
  case (Cons r rows)
  then show ?case by (auto simp: rows_at_def insert_heap_def)
qed

text \<open>
  After a trace, the rows of an address are in the order of their allocation; all but the last have been
  freed, and the last is live exactly when a block is live at that address, with its size.
\<close>

definition rows_ok :: "(int \<rightharpoonup> int) \<Rightarrow> int \<Rightarrow> heap_row list \<Rightarrow> bool" where
  "rows_ok h a R \<longleftrightarrow>
     sorted_wrt (\<lambda>r r'. hr_allocated_at r < hr_allocated_at r') R \<and> (\<forall>r \<in> set (butlast R). hr_freed_at r \<noteq> 0) \<and>
     h a = (if R = [] \<or> hr_freed_at (last R) \<noteq> 0 then None else Some (hr_size (last R)))"

lemma rows_ok_table: "heap_trace ms \<Longrightarrow> rows_ok (heap_after ms) a (rows_at a (heap_table ms))"
proof (induction ms rule: rev_induct)
  case Nil
  then show ?case by (simp add: rows_ok_def rows_at_def heap_table_def heap_after_def)
next
  case (snoc m ms)
  note tr = heap_trace_snoc [OF snoc.prems]
  let ?R = "rows_at a (heap_table ms)"
  have IH: "rows_ok (heap_after ms) a ?R" using snoc.IH tr(1) by blast
  consider (other) "a \<noteq> sint (hm_address m)" | (alloc) "a = sint (hm_address m)" "hm_size m \<noteq> 0"
    | (free) "a = sint (hm_address m)" "hm_size m = 0" by blast
  then show ?case
  proof cases
    case other
    then show ?thesis using IH by (simp add: heap_table_snoc rows_at_insert heap_after_snoc heap_event_def rows_ok_def)
  next
    case alloc
    have "hr_allocated_at r < sint (hm_step_id m)" if "r \<in> set ?R" for r
    proof -
      from that have "r \<in> set (heap_table ms)" "hr_address r = a" by (auto simp: rows_at_def)
      then show ?thesis using tr(5) [OF alloc(2)] alloc(1) by (metis heap_row_origin signed_word_eqI)
    qed
    moreover have "\<forall>r \<in> set ?R. hr_freed_at r \<noteq> 0"
      using IH tr(4) [OF alloc(2)] alloc(1) unfolding rows_ok_def
      by (metis append_butlast_last_id list.set(1) empty_iff option.distinct(1) rotate1.simps(2) set_ConsD set_rotate1)
    ultimately show ?thesis
      using IH alloc
      by (simp add: heap_table_snoc rows_at_insert heap_after_snoc heap_event_def rows_ok_def sorted_wrt_append)
  next
    case free
    then show ?thesis using IH tr(2)
      by (auto simp: heap_table_snoc rows_at_insert heap_after_snoc heap_event_def rows_ok_def sorted_wrt_map
          map_butlast [symmetric] last_map elim!: sorted_wrt_mono_rel [rotated] split: if_splits)
  qed
qed

text \<open>The events up to a step are the first events of a trace.\<close>

lemma events_upto_split:
  assumes "sorted (map (\<lambda>m. sint (hm_step_id m)) ms)"
  obtains late where "ms = events_upto s ms @ late" "\<forall>m \<in> set late. s < sint (hm_step_id m)"
proof -
  have "\<exists>late. ms = events_upto s ms @ late \<and> (\<forall>m \<in> set late. s < sint (hm_step_id m))"
    using assms
  proof (induction ms)
    case Nil
    then show ?case by (simp add: events_upto_def)
  next
    case (Cons m ms)
    show ?case
    proof (cases "sint (hm_step_id m) \<le> s")
      case True
      then show ?thesis using Cons by (auto simp: events_upto_def)
    next
      case False
      then have "events_upto s (m # ms) = []"
        using Cons.prems by (auto simp: events_upto_def filter_empty_conv)
      then show ?thesis using Cons.prems False by auto
    qed
  qed
  then show ?thesis using that by blast
qed

lemma heap_trace_prefix: "heap_trace (xs @ ys) \<Longrightarrow> heap_trace xs"
proof (induction ys rule: rev_induct)
  case Nil
  then show ?case by simp
next
  case (snoc y ys)
  then show ?case using heap_trace_snoc(1) [of "xs @ ys" y] by simp
qed

lemma heap_view_late:
  assumes "0 \<le> s" "\<forall>m \<in> set late. s < sint (hm_step_id m)"
  shows "heap_view s (fold insert_heap late rows) = heap_view s rows"
  using assms(2)
proof (induction late arbitrary: rows)
  case Nil
  then show ?case by simp
next
  case (Cons m late)
  have "heap_view s (insert_heap m rows) = heap_view s rows"
    using Cons.prems assms(1) by (induction rows) (auto simp: heap_view_def insert_heap_def)
  then show ?case using Cons by simp
qed

lemma heap_view_early:
  assumes "\<forall>m \<in> set ms. sint (hm_step_id m) \<le> s" "0 \<le> s"
  shows "heap_view s (heap_table ms) = heap_table ms"
proof -
  have "hr_allocated_at r \<le> s \<and> hr_freed_at r \<le> s" if "r \<in> set (heap_table ms)" for r
    using that assms heap_row_freed [OF that] by (metis heap_row_origin)
  then show ?thesis unfolding heap_view_def by (simp add: list_eq_iff_nth_eq) (meson not_less nth_mem)
qed

text \<open>What the table shows of step \<open>s\<close> is the table of the events up to that step.\<close>

lemma heap_view_table:
  assumes "heap_trace ms" "0 \<le> s"
  shows "heap_view s (heap_table ms) = heap_table (events_upto s ms)" "heap_trace (events_upto s ms)"
proof -
  obtain late where late: "ms = events_upto s ms @ late" "\<forall>m \<in> set late. s < sint (hm_step_id m)"
    using assms(1) events_upto_split [of ms s] by (auto simp: heap_trace_def)
  have "heap_table ms = fold insert_heap late (heap_table (events_upto s ms))"
    unfolding heap_table_def by (subst late(1)) simp
  then show "heap_view s (heap_table ms) = heap_table (events_upto s ms)"
    using heap_view_late [OF assms(2) late(2)] heap_view_early [OF _ assms(2), of "events_upto s ms"]
    by (simp add: events_upto_def)
  show "heap_trace (events_upto s ms)" using assms(1) late(1) heap_trace_prefix by metis
qed

end
