(* ===== verification/Vars.thy ===== *)
theory Vars
  imports Db_Workers
begin

text \<open>
  Reading recorded memory, \<^verbatim>\<open>examine/vars.c\<close>: the value of memory at a step (\<^verbatim>\<open>get_var_value\<close>), the size of
  the block a pointer points to (\<^verbatim>\<open>get_pointer_size\<close>), and the lookup of types and variable references.
  The queries are written out as functions on the tables; rows that tie in an \<^verbatim>\<open>ORDER BY\<close> come in the
  order of insertion.  The outcome of opening or resetting a cursor is a parameter.
\<close>

section \<open>Queries\<close>

text \<open>
  \<^verbatim>\<open>SELECT address, content FROM mem WHERE step_id <= ? AND address <= ? AND address >= ? GROUP BY address
  HAVING step_id = MAX(step_id)\<close>: per address, the content of the latest row; ascending addresses.
\<close>

definition mem_match :: "int \<Rightarrow> int \<Rightarrow> int \<Rightarrow> mem_row \<Rightarrow> bool" where
  "mem_match step hi lo r \<longleftrightarrow> mr_step_id r \<le> step \<and> mr_address r \<le> hi \<and> lo \<le> mr_address r"

definition latest_content :: "int \<Rightarrow> mem_row list \<Rightarrow> byte list" where
  "latest_content a rows = mr_content (last (sort_key mr_step_id (filter (\<lambda>r. mr_address r = a) rows)))"

definition mem_query :: "mem_row list \<Rightarrow> int \<Rightarrow> int \<Rightarrow> int \<Rightarrow> (int \<times> byte list) list" where
  "mem_query rows step hi lo =
     (let sel = filter (mem_match step hi lo) rows in
      map (\<lambda>a. (a, latest_content a sel)) (sort (remdups (map mr_address sel))))"

text \<open>
  \<^verbatim>\<open>SELECT size, freed_at FROM heap WHERE address = ? AND allocated_at <= ? ORDER BY allocated_at DESC\<close>
\<close>

definition heap_query :: "heap_row list \<Rightarrow> int \<Rightarrow> int \<Rightarrow> (int \<times> int) list" where
  "heap_query rows a step =
     map (\<lambda>r. (hr_size r, hr_freed_at r))
       (sort_key (\<lambda>r. - hr_allocated_at r) (filter (\<lambda>r. hr_address r = a \<and> hr_allocated_at r \<le> step) rows))"

section \<open>\<^verbatim>\<open>get_var_value\<close>\<close>

text \<open>Which part of a chunk is copied: its offset and its length, in the arithmetic of \<^verbatim>\<open>size_t\<close>.\<close>

definition chunk_part :: "u64 \<Rightarrow> u64 \<Rightarrow> u64 \<Rightarrow> nat \<times> nat" where
  "chunk_part addr sz chunk_start =
     (let to_copy = (if addr + sz < chunk_start + word_of_nat MEM_SEGMENT_SIZE
                     then word_of_nat MEM_SEGMENT_SIZE - ((chunk_start + word_of_nat MEM_SEGMENT_SIZE) - (addr + sz))
                     else word_of_nat MEM_SEGMENT_SIZE)
      in if chunk_start < addr then (unat (addr - chunk_start), unat (to_copy - (addr - chunk_start)))
         else (0, unat to_copy))"

text \<open>The loop over the fetched rows; \<open>None\<close> when \<^verbatim>\<open>memcpy\<close> leaves one of the buffers.\<close>

fun copy_chunks :: "u64 \<Rightarrow> u64 \<Rightarrow> (int \<times> byte list) list \<Rightarrow> byte list \<Rightarrow> nat \<Rightarrow> (byte list \<times> nat) option" where
  "copy_chunks addr sz [] buffer cur = Some (buffer, cur)"
| "copy_chunks addr sz ((a, content) # rest) buffer cur =
     (case chunk_part addr sz (word_of_int a) of
        (from_off, to_copy) \<Rightarrow>
          if length content < from_off + to_copy \<or> length buffer < cur + to_copy then None
          else copy_chunks addr sz rest (overwrite buffer cur (slice content from_off to_copy)) (cur + to_copy))"

text \<open>
  \<^verbatim>\<open>get_var_value\<close>: \<open>None\<close> is a memory error, \<open>Some None\<close> the result \<^verbatim>\<open>NULL\<close>.  \<open>cursor\<close> is the outcome of opening
  or of resetting and binding the cursor, \<open>final\<close> the status of the fetch that ends the loop.
\<close>

definition get_var_value ::
    "dab_status \<Rightarrow> dab_status \<Rightarrow> mem_row list \<Rightarrow> u64 \<Rightarrow> u64 \<Rightarrow> u64 \<Rightarrow> byte list option option" where
  "get_var_value cursor final rows addr sz step =
     (if cursor \<noteq> DAB_OK then Some None
      else
        case copy_chunks addr sz
               (mem_query rows (sint step) (sint (addr + sz)) (sint (addr - word_of_nat MEM_SEGMENT_SIZE)))
               (replicate (unat sz + 1) 0) 0 of
          None \<Rightarrow> None
        | Some (buffer, _) \<Rightarrow> if final \<noteq> DAB_NO_DATA then Some None else Some (Some buffer))"

section \<open>\<^verbatim>\<open>get_pointer_size\<close>\<close>

datatype ptr_status = PTR_SUCCESS | PTR_FAILURE | MEM_RELEASED | MEM_NOTFOUND

text \<open>\<open>heap_cur\<close> and \<open>mem_cur\<close> are the outcomes of opening or resetting the two cursors.\<close>

definition get_pointer_size ::
    "dab_status \<Rightarrow> dab_status \<Rightarrow> heap_row list \<Rightarrow> mem_row list \<Rightarrow> u64 \<Rightarrow> u64 \<Rightarrow> ptr_status \<times> u64 option" where
  "get_pointer_size heap_cur mem_cur heap mem address cur_step =
     (if heap_cur \<noteq> DAB_OK then (PTR_FAILURE, None)
      else
        case heap_query heap (sint address) (sint cur_step) of
          (sz, freed) # _ \<Rightarrow>
            (let freed_at = (word_of_int freed :: u64) in
             if freed_at \<noteq> 0 \<and> freed_at \<le> cur_step then (MEM_RELEASED, Some (word_of_int sz))
             else (PTR_SUCCESS, Some (word_of_int sz)))
        | [] \<Rightarrow>
            if mem_cur \<noteq> DAB_OK then (PTR_FAILURE, None)
            else if mem_query mem (sint cur_step) (sint (address + word_of_nat MEM_SEGMENT_SIZE)) (sint address) = []
            then (MEM_NOTFOUND, None)
            else (PTR_SUCCESS, Some 0))"

section \<open>Signed integers and addresses\<close>

lemma sint_unat_small:
  assumes "unat (w :: u64) < 2 ^ 63"
  shows "sint w = int (unat w)"
proof -
  have u: "int (unat w) = uint w" by simp
  have "uint w < 2 ^ 63" unfolding u [symmetric] of_nat_less_numeral_power_cancel_iff by (rule assms)
  moreover have "0 \<le> uint w" by simp
  ultimately have "sint w = uint w"
    unfolding sint_uint by (intro signed_take_bit_int_eq_self) (auto intro: order_trans [of _ 0])
  then show ?thesis by simp
qed

lemma sint_eq_nat: "unat (w :: u64) = n \<Longrightarrow> n < 2 ^ 63 \<Longrightarrow> sint w = int n"
  using sint_unat_small by blast

section \<open>Copying chunks\<close>

text \<open>The part of a chunk at \<open>c\<close> that lies in the range from \<open>A\<close> to \<open>E\<close>.\<close>

lemma chunk_part_range:
  assumes "unat addr = A" "unat addr + unat sz = E" "E + 32 < 2 ^ 64"
    and "c \<le> E" "A \<le> c + 32"
  shows "chunk_part addr sz (word_of_nat c) = (max c A - c, min (c + 32) E - max c A)"
proof -
  let ?c = "word_of_nat c :: u64"
  have c: "unat ?c = c" using assms by (intro unat_word_of_nat_small) simp
  have c32: "unat (?c + 32) = c + 32"
    using unat_add_offset [of ?c 32] c assms by simp
  have E: "unat (addr + sz) = E"
    using unat_add_offset [of addr "unat sz"] assms by simp
  have lt: "addr + sz < ?c + 32 \<longleftrightarrow> E < c + 32" by (simp add: u64_less_unat c32 E)
  define t where "t = (if addr + sz < ?c + 32 then 32 - ((?c + 32) - (addr + sz)) else 32)"
  have t: "unat t = min (c + 32) E - c"
  proof (cases "E < c + 32")
    case True
    then have "unat ((?c + 32) - (addr + sz)) = c + 32 - E"
      using unat_sub_le [of "addr + sz" "?c + 32"] lt c32 E by simp
    moreover have "(?c + 32) - (addr + sz) \<le> 32" using calculation assms by (simp add: u64_le_unat)
    ultimately have "unat (32 - ((?c + 32) - (addr + sz))) = 32 - (c + 32 - E)"
      using unat_sub_le [of "(?c + 32) - (addr + sz)" 32] by simp
    then show ?thesis using True lt assms by (simp add: t_def)
  next
    case False
    then show ?thesis using lt by (simp add: t_def)
  qed
  have cp: "chunk_part addr sz ?c =
      (if ?c < addr then (unat (addr - ?c), unat (t - (addr - ?c))) else (0, unat t))"
    by (simp only: chunk_part_def MEM_SEGMENT_SIZE_def t_def Let_def of_nat_numeral)
  show ?thesis
  proof (cases "c < A")
    case True
    then have a: "unat (addr - ?c) = A - c" using unat_sub_le [of ?c addr] c assms by (simp add: u64_le_unat)
    have AE: "A \<le> E" using assms by simp
    then have "addr - ?c \<le> t" using a t True assms by (simp add: u64_le_unat)
    then have "unat (t - (addr - ?c)) = min (c + 32) E - c - (A - c)" using unat_sub_le a t by simp
    then show ?thesis
      using True a c assms(1) by (simp add: cp u64_less_unat)
  next
    case False
    then show ?thesis
      using t c assms(1) by (simp add: cp u64_less_unat)
  qed
qed

text \<open>
  \<open>frontier A E pos L\<close>: the bytes from \<open>A\<close> to \<open>pos\<close> have been copied; the chunks \<open>L\<close> still to come are
  ascending, do not overlap, touch the range, start no earlier than \<open>pos\<close> (or before the range), and
  cover what is missing.
\<close>

definition frontier :: "nat \<Rightarrow> nat \<Rightarrow> nat \<Rightarrow> nat list \<Rightarrow> bool" where
  "frontier A E pos L \<longleftrightarrow>
     A \<le> pos \<and> pos \<le> E \<and> sorted_wrt (\<lambda>c d. c + 32 \<le> d) L \<and>
     (\<forall>c \<in> set L. pos \<le> max c A \<and> c \<le> E \<and> A \<le> c + 32) \<and>
     (\<forall>x. pos \<le> x \<longrightarrow> x < E \<longrightarrow> (\<exists>c \<in> set L. c \<le> x \<and> x < c + 32))"

lemma frontier_head:
  assumes "frontier A E pos (c # L)"
  shows "max c A = pos"
proof (cases "pos < E")
  case True
  then obtain d where d: "d \<in> set (c # L)" "d \<le> pos" "pos < d + 32"
    using assms unfolding frontier_def by blast
  have "pos \<le> max c A" using assms by (simp add: frontier_def)
  moreover have "c \<le> pos" using d assms by (auto simp: frontier_def)
  moreover have "A \<le> pos" using assms by (simp add: frontier_def)
  ultimately show ?thesis by simp
next
  case False
  then show ?thesis using assms by (auto simp: frontier_def)
qed

lemma frontier_step:
  assumes "frontier A E pos (c # L)"
  shows "frontier A E (min (c + 32) E) L" "pos \<le> min (c + 32) E"
proof -
  have pos: "max c A = pos" using assms by (rule frontier_head)
  show le: "pos \<le> min (c + 32) E" using assms pos by (auto simp: frontier_def)
  show "frontier A E (min (c + 32) E) L"
    unfolding frontier_def
  proof (intro conjI ballI allI impI)
    fix x assume x: "min (c + 32) E \<le> x" "x < E"
    then have "pos \<le> x" using le by simp
    then obtain d where "d \<in> set (c # L)" "d \<le> x" "x < d + 32"
      using x(2) assms unfolding frontier_def by blast
    then show "\<exists>c \<in> set L. c \<le> x \<and> x < c + 32" using x by auto
  qed (use assms le in \<open>auto simp: frontier_def\<close>)
qed

lemma frontier_end: "frontier A E pos [] \<Longrightarrow> pos = E"
  by (auto simp: frontier_def)

lemma copy_chunks_correct:
  assumes "unat addr = A" "unat addr + unat sz = E" "E + 32 < 2 ^ 64"
  shows "frontier A E pos L \<Longrightarrow>
    (\<forall>c \<in> set L. length (cont c) = 32 \<and> (\<forall>i < 32. cont c ! i = val (c + i))) \<Longrightarrow>
    copy_chunks addr sz (map (\<lambda>c. (int c, cont c)) L) (map val [A..<pos] @ replicate (E - pos + 1) 0) (pos - A)
      = Some (map val [A..<E] @ [0], E - A)"
proof (induction L arbitrary: pos)
  case Nil
  then show ?case using frontier_end [OF Nil(1)] by simp
next
  case (Cons c L)
  note hd = frontier_head [OF Cons.prems(1)] and st = frontier_step [OF Cons.prems(1)]
  let ?pos = "min (c + 32) E"
  have c: "c \<le> E" "A \<le> c + 32" "A \<le> pos" "pos \<le> E" using Cons.prems(1) by (auto simp: frontier_def)
  have part: "chunk_part addr sz (word_of_nat c) = (pos - c, ?pos - pos)"
    using chunk_part_range [OF assms c(1,2)] hd by simp
  have seg: "slice (cont c) (pos - c) (?pos - pos) = map val [pos..<?pos]"
    using Cons.prems(2) hd by (auto simp: list_eq_iff_nth_eq buf_simps less_diff_conv add.commute)
  have len: "length (cont c) = 32" using Cons.prems(2) by simp
  have "overwrite (map val [A..<pos] @ replicate (E - pos + 1) 0) (pos - A) (map val [pos..<?pos])
      = map val [A..<?pos] @ replicate (E - ?pos + 1) 0"
  proof -
    have n: "E - pos + 1 - (?pos - pos) = E - ?pos + 1" using c st(2) by (auto simp: min_def)
    have "drop (?pos - pos) (replicate (E - pos + 1) (0 :: byte)) = replicate (E - ?pos + 1) 0"
      unfolding drop_replicate n ..
    then show ?thesis
      using c st(2) upt_add_eq_append [of A pos "?pos - pos"] by (simp add: overwrite_def del: replicate.simps)
  qed
  moreover have "\<not> (length (cont c) < pos - c + (?pos - pos) \<or>
      length (map val [A..<pos] @ replicate (E - pos + 1) (0 :: byte)) < pos - A + (?pos - pos))"
    using len c st(2) hd by auto
  moreover have "pos - A + (?pos - pos) = ?pos - A" using c st(2) by simp
  ultimately show ?case
    using Cons.IH [OF st(1)] Cons.prems(2) part seg by (simp add: of_nat_numeral)
qed

section \<open>The log and the table\<close>

text \<open>
  A recorded log: steps ascend, contents are whole segments, segments that overlap have the same address,
  and addresses and steps are in the range in which signed and unsigned comparison agree.
\<close>

definition log_ok :: "mem_msg list \<Rightarrow> bool" where
  "log_ok ms \<longleftrightarrow>
     sorted (map (\<lambda>m. unat (mm_step_id m)) ms) \<and>
     (\<forall>m \<in> set ms. length (mm_content m) = 32 \<and> unat (mm_step_id m) < 2 ^ 63 \<and> unat (mm_address m) < 2 ^ 63) \<and>
     (\<forall>m \<in> set ms. \<forall>m' \<in> set ms. mm_address m = mm_address m' \<or>
        unat (mm_address m) + 32 \<le> unat (mm_address m') \<or> unat (mm_address m') + 32 \<le> unat (mm_address m))"

text \<open>The messages of the steps up to \<open>step\<close>.\<close>

definition upto_step :: "u64 \<Rightarrow> mem_msg list \<Rightarrow> mem_msg list" where
  "upto_step step ms = filter (\<lambda>m. mm_step_id m \<le> step) ms"

lemma replay_last:
  "replay a ms acc =
     (if filter (\<lambda>m. covers m a) ms = [] then acc
      else let m = last (filter (\<lambda>m. covers m a) ms) in Some (mm_content m ! (unat a - unat (mm_address m))))"
  by (induction ms rule: rev_induct) (simp_all add: replay_def Let_def)

lemma mem_row_of_nats:
  assumes "log_ok ms" "m \<in> set ms"
  shows "mr_address (mem_row_of m) = int (unat (mm_address m))" "mr_step_id (mem_row_of m) = int (unat (mm_step_id m))"
  using assms sint_unat_small by (auto simp: mem_row_of_def log_ok_def)

lemma sorted_map_int: "sorted (map int xs) \<longleftrightarrow> sorted xs"
  by (simp add: sorted_map)

lemma sort_remdups_int: "sort (remdups (map int xs)) = map int (sort (remdups xs))"
  by (rule sorted_distinct_set_unique)
    (auto simp: sorted_map distinct_map intro: sorted_wrt_mono_rel [OF _ sorted_sort])

text \<open>The messages that the query selects.\<close>

definition selected :: "u64 \<Rightarrow> nat \<Rightarrow> nat \<Rightarrow> mem_msg list \<Rightarrow> mem_msg list" where
  "selected step A E ms =
     filter (\<lambda>m. unat (mm_address m) \<le> E \<and> A \<le> unat (mm_address m) + 32) (upto_step step ms)"

lemma mem_query_selected:
  assumes "log_ok ms" "unat step < 2 ^ 63" "32 \<le> A" "unat (addr :: u64) = A" "unat addr + unat sz = E" "E < 2 ^ 63"
  shows "filter (mem_match (sint step) (sint (addr + sz)) (sint (addr - 32))) (map mem_row_of ms)
    = map mem_row_of (selected step A E ms)"
proof -
  have E: "sint (addr + sz) = int E"
    using unat_add_offset [of addr "unat sz"] assms(5,6) by (intro sint_eq_nat) simp_all
  have "unat (addr - 32) = A - 32" using unat_sub_le [of 32 addr] assms(3,4) by (simp add: u64_le_unat)
  then have A: "sint (addr - 32) = int A - 32"
    using sint_eq_nat [of "addr - 32"] assms(3-6) by simp
  have s: "sint step = int (unat step)" using assms(2) by (rule sint_unat_small)
  have "mem_match (sint step) (sint (addr + sz)) (sint (addr - 32)) (mem_row_of m) \<longleftrightarrow>
      mm_step_id m \<le> step \<and> unat (mm_address m) \<le> E \<and> A \<le> unat (mm_address m) + 32" if "m \<in> set ms" for m
    unfolding mem_match_def mem_row_of_nats [OF assms(1) that] A E s u64_le_unat by linarith
  then have "filter (mem_match (sint step) (sint (addr + sz)) (sint (addr - 32)) \<circ> mem_row_of) ms
      = filter (\<lambda>m. mm_step_id m \<le> step \<and> unat (mm_address m) \<le> E \<and> A \<le> unat (mm_address m) + 32) ms"
    by (intro filter_cong) auto
  then show ?thesis unfolding filter_map selected_def upto_step_def filter_filter by simp
qed

lemma log_ok_filter: "log_ok ms \<Longrightarrow> log_ok (filter P ms)"
  by (auto simp: log_ok_def sorted_filter)

text \<open>The latest content of an address is what replaying the log gives at each of its bytes.\<close>

lemma latest_content_recorded:
  assumes ok: "log_ok ms" and m: "m \<in> set (selected step A E ms)" and i: "i < 32"
  defines "c \<equiv> unat (mm_address m)"
  shows "length (latest_content (int c) (map mem_row_of (selected step A E ms))) = 32"
    and "recorded (upto_step step ms) (word_of_nat (c + i)) =
           Some (latest_content (int c) (map mem_row_of (selected step A E ms)) ! i)"
proof -
  let ?up = "upto_step step ms"
  let ?at = "filter (\<lambda>m. unat (mm_address m) = c) ?up"
  have up: "log_ok ?up" using ok by (simp add: upto_step_def log_ok_filter)
  have mup: "m \<in> set ?up" "c \<le> E" "A \<le> c + 32" using m by (auto simp: selected_def c_def)
  then have ne: "?at \<noteq> []" by (auto simp: c_def filter_empty_conv)
  have "filter (\<lambda>r. mr_address r = int c) (map mem_row_of (selected step A E ms)) = map mem_row_of ?at"
  proof -
    have "filter ((\<lambda>r. mr_address r = int c) \<circ> mem_row_of) (selected step A E ms) = ?at"
      unfolding selected_def filter_filter
      using mem_row_of_nats(1) [OF up] mup by (intro filter_cong) (auto simp del: of_nat_unat)
    then show ?thesis by (simp add: filter_map)
  qed
  moreover have "sorted (map mr_step_id (map mem_row_of ?at))"
  proof -
    have "sorted (map (\<lambda>m. unat (mm_step_id m)) ?at)" using log_ok_filter [OF up] by (simp add: log_ok_def)
    moreover have steps: "map mr_step_id (map mem_row_of ?at) = map int (map (\<lambda>m. unat (mm_step_id m)) ?at)"
      using mem_row_of_nats(2) [OF up] by simp
    ultimately show ?thesis unfolding steps sorted_map_int by simp
  qed
  ultimately have lc: "latest_content (int c) (map mem_row_of (selected step A E ms)) = mm_content (last ?at)"
    using ne by (simp add: latest_content_def sort_key_id_if_sorted last_map mem_row_of_def)
  have last: "last ?at \<in> set ?up" "unat (mm_address (last ?at)) = c" using last_in_set [OF ne] by auto
  show "length (latest_content (int c) (map mem_row_of (selected step A E ms))) = 32"
    using lc last up by (simp add: log_ok_def)
  have u: "unat (word_of_nat (c + i) :: u64) = c + i"
    using mup(1) up i by (intro unat_word_of_nat_small) (auto simp: log_ok_def c_def)
  have "covers m' (word_of_nat (c + i)) \<longleftrightarrow> unat (mm_address m') = c" if "m' \<in> set ?up" for m'
    unfolding covers_def u using that mup(1) up i unfolding log_ok_def c_def by fastforce
  then have "filter (\<lambda>m. covers m (word_of_nat (c + i))) ?up = ?at" by (intro filter_cong) auto
  then show "recorded ?up (word_of_nat (c + i)) =
      Some (latest_content (int c) (map mem_row_of (selected step A E ms)) ! i)"
    unfolding recorded_def replay_last using ne last(2) u lc by (simp add: Let_def)
qed

lemma selected_frontier:
  assumes ok: "log_ok ms" and "A \<le> E" "E < 2 ^ 64"
    and cov: "\<And>x. A \<le> x \<Longrightarrow> x < E \<Longrightarrow> recorded (upto_step step ms) (word_of_nat x) \<noteq> None"
  shows "frontier A E A (sort (remdups (map (unat \<circ> mm_address) (selected step A E ms))))"
  unfolding frontier_def
proof (intro conjI)
  let ?L = "sort (remdups (map (unat \<circ> mm_address) (selected step A E ms)))"
  have set: "set ?L = (unat \<circ> mm_address) ` set (selected step A E ms)" by simp
  have sel: "set (selected step A E ms) \<subseteq> set ms" by (auto simp: selected_def upto_step_def)
  have grid: "c + 32 \<le> d" if cd: "c \<in> set ?L" "d \<in> set ?L" "c < d" for c d
  proof -
    obtain m m' where "m \<in> set ms" "m' \<in> set ms" "c = unat (mm_address m)" "d = unat (mm_address m')"
      using cd(1,2) set sel by auto
    then show ?thesis using ok cd(3) unfolding log_ok_def by fastforce
  qed
  have "sorted_wrt (<) ?L" by (simp add: strict_sorted_iff)
  then show "sorted_wrt (\<lambda>c d. c + 32 \<le> d) ?L" 
    by (rule sorted_wrt_mono_rel [of ?L "(<)" "\<lambda>c d. c + 32 \<le> d", rotated]) (rule grid)
  show "\<forall>c \<in> set ?L. A \<le> max c A \<and> c \<le> E \<and> A \<le> c + 32" by (auto simp: selected_def)
  show "\<forall>x. A \<le> x \<longrightarrow> x < E \<longrightarrow> (\<exists>c \<in> set ?L. c \<le> x \<and> x < c + 32)"
  proof (intro allI impI)
    fix x assume x: "A \<le> x" "x < E"
    then have u: "unat (word_of_nat x :: u64) = x" using assms(3) by (intro unat_word_of_nat_small) simp
    obtain m where "m \<in> set (upto_step step ms)" "covers m (word_of_nat x)"
      using cov [OF x] unfolding recorded_def replay_last by (auto simp: filter_empty_conv split: if_splits)
    then have "m \<in> set (selected step A E ms)" "unat (mm_address m) \<le> x \<and> x < unat (mm_address m) + 32"
      using x u by (auto simp: selected_def covers_def)
    then show "\<exists>c \<in> set ?L. c \<le> x \<and> x < c + 32" unfolding set by force
  qed
qed (use assms in simp_all)

lemma get_var_value_reads:
  assumes "log_ok ms" "unat step < 2 ^ 63" "32 \<le> unat addr" "unat addr + unat sz < 2 ^ 63"
    and "\<And>i. i < unat sz \<Longrightarrow> recorded (upto_step step ms) (addr + word_of_nat i) \<noteq> None"
  shows "get_var_value DAB_OK DAB_NO_DATA (map mem_row_of ms) addr sz step =
    Some (Some (map (\<lambda>i. the (recorded (upto_step step ms) (addr + word_of_nat i))) [0..<unat sz] @ [0]))"
proof -
  let ?A = "unat addr" and ?E = "unat addr + unat sz"
  let ?sel = "selected step ?A ?E ms"
  let ?L = "sort (remdups (map (unat \<circ> mm_address) ?sel))"
  let ?cont = "\<lambda>c. latest_content (int c) (map mem_row_of ?sel)"
  define val where "val = (\<lambda>x. the (recorded (upto_step step ms) (word_of_nat x)))"
  have cov: "recorded (upto_step step ms) (word_of_nat x) \<noteq> None" if "?A \<le> x" "x < ?E" for x
    using assms(5) [of "x - ?A"] that by simp
  have front: "frontier ?A ?E ?A ?L"
    using assms(1,4) cov by (intro selected_frontier) simp_all
  have sel: "set ?sel \<subseteq> set ms" by (auto simp: selected_def upto_step_def)
  have addrs: "map mr_address (map mem_row_of ?sel) = map int (map (unat \<circ> mm_address) ?sel)"
    using mem_row_of_nats(1) [OF assms(1)] sel by auto
  have q: "mem_query (map mem_row_of ms) (sint step) (sint (addr + sz)) (sint (addr - 32)) =
      map (\<lambda>c. (int c, ?cont c)) ?L"
    unfolding mem_query_def mem_query_selected [OF assms(1,2,3) refl refl assms(4)] Let_def addrs sort_remdups_int
    by simp
  have "\<forall>c \<in> set ?L. length (?cont c) = 32 \<and> (\<forall>i < 32. ?cont c ! i = val (c + i))"
    unfolding val_def using latest_content_recorded [OF assms(1), of _ step ?A ?E] by fastforce
  then have "copy_chunks addr sz (map (\<lambda>c. (int c, ?cont c)) ?L)
      (map val [?A..<?A] @ replicate (?E - ?A + 1) 0) (?A - ?A) = Some (map val [?A..<?E] @ [0], ?E - ?A)"
    using assms(4) front by (intro copy_chunks_correct) simp_all
  moreover have "map val [?A..<?E] =
      map (\<lambda>i. the (recorded (upto_step step ms) (addr + word_of_nat i))) [0..<unat sz]"
    by (auto simp: list_eq_iff_nth_eq val_def)
  ultimately show ?thesis using q by (simp add: get_var_value_def MEM_SEGMENT_SIZE_def)
qed

section \<open>The newest allocation of an address\<close>

lemma insort_key_last:
  fixes f :: "'a \<Rightarrow> 'b :: linorder"
  shows "(\<And>y. y \<in> set xs \<Longrightarrow> f y < f x) \<Longrightarrow> insort_key f x xs = xs @ [x]"
proof (induction xs)
  case (Cons y ys)
  then have "\<not> f x \<le> f y" by (simp add: not_le)
  with Cons show ?case by simp
qed simp

lemma sort_key_descending:
  fixes g :: "'a \<Rightarrow> int"
  shows "sorted_wrt (\<lambda>r r'. g r < g r') F \<Longrightarrow> sort_key (\<lambda>r. - g r) F = rev F"
  by (induction F) (auto intro!: insort_key_last)

text \<open>The first row of the query is the last allocation up to the step.\<close>

lemma heap_query_head:
  fixes a :: int
  assumes "heap_trace ms" "0 \<le> s"
  defines "R \<equiv> rows_at a (heap_table (events_upto s ms))"
  shows "R = [] \<Longrightarrow> heap_query (heap_table ms) a s = []"
    and "R \<noteq> [] \<Longrightarrow> \<exists>freed rest. heap_query (heap_table ms) a s = (hr_size (last R), freed) # rest \<and>
           hr_freed_at (last R) = (if s < freed then 0 else freed) \<and> freed \<in> hr_freed_at ` set (heap_table ms)"
proof -
  define F where "F = filter (\<lambda>r. hr_address r = a \<and> hr_allocated_at r \<le> s) (heap_table ms)"
  let ?v = "\<lambda>r. if s < hr_freed_at r then r\<lparr>hr_freed_at := 0\<rparr> else r"
  have "R = rows_at a (heap_view s (heap_table ms))"
    using heap_view_table(1) [OF assms(1,2)] by (simp add: R_def)
  also have "\<dots> = map ?v F"
    unfolding rows_at_def heap_view_def F_def filter_map filter_filter
    by (intro arg_cong [where f = "map ?v"] filter_cong) auto
  finally have R: "R = map ?v F" .
  have "sorted_wrt (\<lambda>r r'. hr_allocated_at r < hr_allocated_at r') R"
    using rows_ok_table [OF heap_view_table(2) [OF assms(1,2)], of a] by (simp add: R_def rows_ok_def)
  then have "sorted_wrt (\<lambda>r r'. hr_allocated_at r < hr_allocated_at r') F"
    unfolding R sorted_wrt_map by (rule sorted_wrt_mono_rel [rotated]) (simp split: if_splits)
  then have q: "heap_query (heap_table ms) a s = map (\<lambda>r. (hr_size r, hr_freed_at r)) (rev F)"
    by (simp add: heap_query_def F_def [symmetric] sort_key_descending)
  show "R = [] \<Longrightarrow> heap_query (heap_table ms) a s = []" using q R by simp
  assume "R \<noteq> []"
  then have F: "F \<noteq> []" "last R = ?v (last F)" "rev F = last F # rev (butlast F)"
    using R arg_cong [OF append_butlast_last_id [of F], of rev] by (auto simp: last_map)
  have "last F \<in> set (heap_table ms)" using last_in_set [OF F(1)] by (simp add: F_def)
  then show "\<exists>freed rest. heap_query (heap_table ms) a s = (hr_size (last R), freed) # rest \<and>
           hr_freed_at (last R) = (if s < freed then 0 else freed) \<and> freed \<in> hr_freed_at ` set (heap_table ms)"
    using q F(2,3) by auto
qed

lemma rows_at_empty:
  "rows_at (sint a) (heap_table ms) = [] \<longleftrightarrow> (\<forall>m \<in> set ms. hm_size m \<noteq> 0 \<longrightarrow> hm_address m \<noteq> a)"
proof (induction ms rule: rev_induct)
  case Nil
  then show ?case by (simp add: rows_at_def heap_table_def)
next
  case (snoc m ms)
  have "sint a = sint (hm_address m) \<longleftrightarrow> hm_address m = a" by (metis word_of_sint)
  with snoc show ?case by (auto simp: heap_table_snoc rows_at_insert)
qed

lemma heap_freed_range:
  assumes "heap_trace ms" "r \<in> set (heap_table ms)"
  shows "0 \<le> hr_freed_at r \<and> hr_freed_at r < 2 ^ 63"
proof -
  have "sint (w :: u64) < 2 ^ 63" for w using sint_lt [of w] by simp
  then show ?thesis using heap_row_freed [OF assms(2)] assms(1) by (auto simp: heap_trace_def)
qed

section \<open>Properties\<close>

text \<open>
  C2.  Reading memory at a step: if the recorded log covers the bytes from \<open>addr\<close> to \<open>addr + sz\<close> at step
  \<open>step\<close>, then \<open>get_var_value\<close> on the recorded table returns, without leaving a buffer, exactly the bytes
  that the log gives for that step (later steps do not disturb the result), followed by a zero byte.
\<close>

theorem get_var_value_time_travel:
  assumes "log_ok ms" "unat step < 2 ^ 63" "32 \<le> unat addr" "unat addr + unat sz < 2 ^ 63"
    and "\<And>i. i < unat sz \<Longrightarrow> recorded (upto_step step ms) (addr + word_of_nat i) \<noteq> None"
  shows "get_var_value DAB_OK DAB_NO_DATA (map mem_row_of ms) addr sz step =
    Some (Some (map (\<lambda>i. the (recorded (upto_step step ms) (addr + word_of_nat i))) [0..<unat sz] @ [0]))"
  using assms by (rule get_var_value_reads)

theorem get_var_value_time_travel_witness:
  "get_var_value DAB_OK DAB_NO_DATA (map mem_row_of sample_mem_msgs) 90 10 1 =
    Some (Some (map (\<lambda>i. the (recorded (upto_step 1 sample_mem_msgs) (90 + word_of_nat i))) [0..<unat (10 :: u64)] @ [0]))"
proof (rule get_var_value_time_travel)
  show "log_ok sample_mem_msgs" by (simp add: log_ok_def sample_mem_msgs_def)
  fix i :: nat assume i: "i < unat (10 :: u64)"
  have "unat (90 + word_of_nat i :: u64) = 90 + i" using unat_add_offset [of 90 i] i by simp
  then show "recorded (upto_step 1 sample_mem_msgs) (90 + word_of_nat i) \<noteq> None"
    using i by (simp add: upto_step_def sample_mem_msgs_def recorded_def replay_def covers_def)
qed simp_all

text \<open>
  C8.  The size of a block at a step: on the heap table of a trace, \<open>get_pointer_size\<close> reports the size of the
  block that is live at the address at the current step, \<open>MEM_RELEASED\<close> when the address had been allocated
  but is not live, and asks the memory table only for addresses that had not been allocated by then.
\<close>

theorem get_pointer_size_time_travel:
  assumes "heap_trace ms" "unat cur_step < 2 ^ 63"
  defines "now \<equiv> events_upto (sint cur_step) ms"
  shows "get_pointer_size DAB_OK mem_cur (heap_table ms) mem address cur_step =
    (case heap_after now (sint address) of
       Some z \<Rightarrow> (PTR_SUCCESS, Some (word_of_int z))
     | None \<Rightarrow>
         if \<exists>m \<in> set now. hm_size m \<noteq> 0 \<and> hm_address m = address
         then (MEM_RELEASED, Some (word_of_int (hr_size (last (rows_at (sint address) (heap_table now))))))
         else get_pointer_size DAB_OK mem_cur [] mem address cur_step)"
proof -
  have s: "sint cur_step = int (unat cur_step)" using assms(2) by (rule sint_unat_small)
  then have s0: "0 \<le> sint cur_step" by linarith
  let ?R = "rows_at (sint address) (heap_table now)"
  have tr: "heap_trace now" unfolding now_def using assms(1) s0 by (rule heap_view_table(2))
  note ok = rows_ok_table [OF tr, of "sint address"]
  show ?thesis
  proof (cases "?R = []")
    case True
    then have "heap_query (heap_table ms) (sint address) (sint cur_step) = []"
      using heap_query_head(1) [OF assms(1) s0] by (simp add: now_def)
    moreover have "heap_after now (sint address) = None" using ok True by (simp add: rows_ok_def)
    moreover have "\<not> (\<exists>m \<in> set now. hm_size m \<noteq> 0 \<and> hm_address m = address)"
      using True rows_at_empty by blast
    ultimately show ?thesis by (simp add: get_pointer_size_def heap_query_def)
  next
    case False
    then obtain freed rest where q: "heap_query (heap_table ms) (sint address) (sint cur_step) =
        (hr_size (last ?R), freed) # rest" "hr_freed_at (last ?R) = (if sint cur_step < freed then 0 else freed)"
        "freed \<in> hr_freed_at ` set (heap_table ms)"
      using heap_query_head(2) [OF assms(1) s0] unfolding now_def by blast
    have range: "0 \<le> freed" "freed < 2 ^ 63" using q(3) heap_freed_range [OF assms(1)] by auto
    then have u: "unat (word_of_int freed :: u64) = nat freed"
      using unat_word_of_nat_small [where 'a = 64, of "nat freed"] by simp
    have live: "heap_after now (sint address) =
        (if hr_freed_at (last ?R) \<noteq> 0 then None else Some (hr_size (last ?R)))"
      using ok False by (simp add: rows_ok_def)
    have ex: "\<exists>m \<in> set now. hm_size m \<noteq> 0 \<and> hm_address m = address" using False rows_at_empty by blast
    have "(word_of_int freed :: u64) \<noteq> 0 \<and> word_of_int freed \<le> cur_step \<longleftrightarrow> hr_freed_at (last ?R) \<noteq> 0"
      unfolding unat_eq_zero [symmetric] u64_le_unat u q(2) s using range by (auto simp del: of_nat_unat)
    then show ?thesis using q(1) live ex by (simp add: get_pointer_size_def Let_def)
  qed
qed

definition sample_heap_msgs :: "heap_msg list" where
  "sample_heap_msgs = [\<lparr>hm_step_id = 1, hm_address = 64, hm_size = 16\<rparr>,
                       \<lparr>hm_step_id = 3, hm_address = 64, hm_size = 0\<rparr>,
                       \<lparr>hm_step_id = 5, hm_address = 64, hm_size = 24\<rparr>]"

theorem get_pointer_size_time_travel_witness:
  "get_pointer_size DAB_OK DAB_OK (heap_table sample_heap_msgs) [] 64 4 =
    (case heap_after (events_upto (sint (4 :: u64)) sample_heap_msgs) (sint (64 :: u64)) of
       Some z \<Rightarrow> (PTR_SUCCESS, Some (word_of_int z))
     | None \<Rightarrow>
         if \<exists>m \<in> set (events_upto (sint (4 :: u64)) sample_heap_msgs). hm_size m \<noteq> 0 \<and> hm_address m = 64
         then (MEM_RELEASED, Some (word_of_int (hr_size (last (rows_at (sint (64 :: u64))
                (heap_table (events_upto (sint (4 :: u64)) sample_heap_msgs)))))))
         else get_pointer_size DAB_OK DAB_OK [] [] 64 4)"
proof (rule get_pointer_size_time_travel)
  show "heap_trace sample_heap_msgs"
    by (auto simp: heap_trace_def sample_heap_msgs_def heap_after_def heap_event_def less_Suc_eq numeral_3_eq_3)
qed simp

end
