(* ===== verification/Line_Cache.thy ===== *)
theory Line_Cache
  imports Fr_Prelude
begin

text \<open>
  The cache of source lines of \<^verbatim>\<open>record/run.c\<close> and its lookup (\<^verbatim>\<open>lookup_cache\<close>): a binary search for the
  compilation unit, then an interpolation search for the line, in the arithmetic of the C code
  (\<^verbatim>\<open>uint64_t\<close> products, the result cut to \<^verbatim>\<open>int\<close>).  A division by zero and an access outside an array are
  results of their own.
\<close>

section \<open>Data\<close>

record cached_line =
  cl_address :: u64
  cl_func_id :: u64
  cl_func_flag :: byte
  cl_org_instr_byte :: byte

record cached_unit =
  cu_start :: u64
  cu_end :: u64
  cu_lines :: "cached_line list"

definition FUNC_FLAG_START :: byte where
  "FUNC_FLAG_START = 1"

definition FUNC_FLAG_END :: byte where
  "FUNC_FLAG_END = 2"

text \<open>What a search does: it finds an index, finds nothing, divides by zero or leaves the array.\<close>

datatype search_result = Found nat | Absent | Div_Zero | Out_Of_Bounds

section \<open>The search for the unit\<close>

function unit_search :: "cached_unit list \<Rightarrow> u64 \<Rightarrow> nat \<Rightarrow> nat \<Rightarrow> nat \<times> nat \<times> nat" where
  "unit_search units address left right =
     (let index = (left + right) div 2 in
      if left < right then
        if address < cu_start (units ! index) then unit_search units address left index
        else if cu_end (units ! index) < address then unit_search units address (Suc index) right
        else (left, right, index)
      else (left, right, index))"
  by pat_completeness auto
termination
  by (relation "measure (\<lambda>(_, _, left, right). right - left)") auto

declare unit_search.simps [simp del]

text \<open>The first half of \<^verbatim>\<open>lookup_cache\<close>: \<open>last_unit\<close> is the static variable \<^verbatim>\<open>unit\<close>.\<close>

definition find_unit :: "cached_unit list \<Rightarrow> nat \<Rightarrow> u64 \<Rightarrow> nat option" where
  "find_unit units last_unit address =
     (if address < cu_start (units ! last_unit) \<or> cu_end (units ! last_unit) < address then
        (case unit_search units address 0 (length units) of
           (left, right, index) \<Rightarrow> if left = right then None else Some index)
      else Some last_unit)"

section \<open>The search for the line\<close>

text \<open>
  The approximation of the index: \<^verbatim>\<open>left + (address - left_addr) * (right - left) / (right_addr - left_addr)\<close>,
  an unsigned 64-bit value that is assigned to an \<^verbatim>\<open>int\<close>.
\<close>

definition approx_index :: "u64 \<Rightarrow> int \<Rightarrow> u64 \<Rightarrow> int \<Rightarrow> u64 \<Rightarrow> int" where
  "approx_index address left left_addr right right_addr =
     sint (ucast (word_of_int left +
        (address - left_addr) * word_of_int (right - left) div (right_addr - left_addr)) :: 32 word)"

definition line_at :: "cached_line list \<Rightarrow> int \<Rightarrow> u64 option" where
  "line_at ls i = (if 0 \<le> i \<and> i < int (length ls) then Some (cl_address (ls ! nat i)) else None)"

text \<open>
  The loop.  Nothing in it keeps the index between the bounds, so it is a partial function: \<open>None\<close> is a
  loop that does not end.
\<close>

partial_function (option) line_search ::
    "cached_line list \<Rightarrow> u64 \<Rightarrow> int \<Rightarrow> u64 \<Rightarrow> int \<Rightarrow> u64 \<Rightarrow> search_result option" where
  "line_search ls address left left_addr right right_addr =
     (if right < left then Some Absent
      else if right_addr = left_addr then Some Div_Zero
      else
        let index = approx_index address left left_addr right right_addr in
        case line_at ls index of
          None \<Rightarrow> Some Out_Of_Bounds
        | Some a \<Rightarrow>
            if address < a then
              (case line_at ls (index - 1) of
                 None \<Rightarrow> Some Out_Of_Bounds
               | Some a' \<Rightarrow> line_search ls address left left_addr (index - 1) a')
            else if a < address then
              (case line_at ls (index + 1) of
                 None \<Rightarrow> Some Out_Of_Bounds
               | Some a' \<Rightarrow> line_search ls address (index + 1) a' right right_addr)
            else Some (Found (nat index)))"

definition find_line :: "cached_line list \<Rightarrow> u64 \<Rightarrow> search_result option" where
  "find_line ls address =
     (case line_at ls 0 of
        None \<Rightarrow> Some Out_Of_Bounds
      | Some left_addr \<Rightarrow>
          (case line_at ls (int (length ls) - 1) of
             None \<Rightarrow> Some Out_Of_Bounds
           | Some right_addr \<Rightarrow> line_search ls address 0 left_addr (int (length ls) - 1) right_addr))"

text \<open>\<^verbatim>\<open>lookup_cache\<close>: the new value of the static variable, and the result (\<open>Absent\<close> is \<^verbatim>\<open>NULL\<close>).\<close>

definition lookup_cache :: "cached_unit list \<Rightarrow> nat \<Rightarrow> u64 \<Rightarrow> nat \<times> search_result option" where
  "lookup_cache units last_unit address =
     (case find_unit units last_unit address of
        None \<Rightarrow> (last_unit, Some Absent)
      | Some u \<Rightarrow> (u, find_line (cu_lines (units ! u)) address))"

section \<open>Well-formed caches\<close>

text \<open>
  The lines of a unit ascend strictly; the unit's bounds are its first and last line.  The products of the
  interpolation fit into 64 bits, the indices into \<^verbatim>\<open>int\<close>.
\<close>

definition lines_ok :: "cached_line list \<Rightarrow> bool" where
  "lines_ok ls \<longleftrightarrow>
     sorted_wrt (<) (map cl_address ls) \<and> 0 < length ls \<and> length ls < 2 ^ 31 \<and>
     (unat (cl_address (last ls)) - unat (cl_address (hd ls))) * length ls < 2 ^ 64"

definition unit_ok :: "cached_unit \<Rightarrow> bool" where
  "unit_ok u \<longleftrightarrow>
     lines_ok (cu_lines u) \<and> cu_start u = cl_address (hd (cu_lines u)) \<and> cu_end u = cl_address (last (cu_lines u))"

definition units_ok :: "cached_unit list \<Rightarrow> bool" where
  "units_ok units \<longleftrightarrow>
     sorted_wrt (\<lambda>u v. cu_end u < cu_start v) units \<and> (\<forall>u \<in> set units. unit_ok u)"

lemma lines_ok_strict:
  assumes "lines_ok ls" "i < j" "j < length ls"
  shows "cl_address (ls ! i) < cl_address (ls ! j)"
  using assms sorted_wrt_nth_less [of "(<)" "map cl_address ls" i j] by (simp add: lines_ok_def)

lemma lines_ok_mono:
  assumes "lines_ok ls" "i \<le> j" "j < length ls"
  shows "cl_address (ls ! i) \<le> cl_address (ls ! j)"
  using assms lines_ok_strict [of ls i j] by (cases "i = j") (auto intro: less_imp_le)

lemma line_at_nat: "i < length ls \<Longrightarrow> line_at ls (int i) = Some (cl_address (ls ! i))"
  by (simp add: line_at_def)

text \<open>The interpolated index, without overflow.\<close>

lemma approx_index_exact:
  assumes "l \<le> r" "r < 2 ^ 31" "la \<le> address" "address \<le> ra" "la < ra"
    and "(unat ra - unat la) * (r - l) < 2 ^ 64"
  shows "approx_index address (int l) la (int r) ra =
    int (l + (unat address - unat la) * (r - l) div (unat ra - unat la))"
    and "(unat address - unat la) * (r - l) div (unat ra - unat la) \<le> r - l"
proof -
  let ?d = "unat address - unat la" and ?D = "unat ra - unat la" and ?n = "r - l"
  let ?q = "?d * ?n div ?D"
  have le: "unat la \<le> unat address" "unat address \<le> unat ra" "unat la < unat ra"
    using assms(3-5) by (simp_all add: u64_le_unat u64_less_unat)
  have "?d * ?n \<le> ?D * ?n" using le by (intro mult_right_mono) auto
  then have dn: "?d * ?n < 2 ^ 64" using assms(6) by linarith
  have "?d * ?n \<le> ?n * ?D" using \<open>?d * ?n \<le> ?D * ?n\<close> by (simp add: mult.commute)
  then have q: "?q \<le> ?n" using div_le_mono [of "?d * ?n" "?n * ?D" ?D] le by simp
  then show "(unat address - unat la) * (r - l) div (unat ra - unat la) \<le> r - l" .
  have ud: "unat (address - la) = ?d" "unat (ra - la) = ?D" using assms(3-5) by (simp_all add: unat_sub_le)
  have un: "unat (word_of_int (int r - int l) :: u64) = ?n"
    using assms(1,2) unat_word_of_nat_small [where 'a = 64, of ?n] by (simp add: of_nat_diff)
  have "unat ((address - la) * word_of_int (int r - int l)) = ?d * ?n"
    unfolding unat_word_ariths ud un using dn by simp
  then have "unat ((address - la) * word_of_int (int r - int l) div (ra - la)) = ?q"
    by (simp add: unat_div ud)
  then have w: "(address - la) * word_of_int (int r - int l) div (ra - la) = word_of_nat ?q"
    by (metis word_of_nat_unat)
  have lq: "l + ?q < 2 ^ 31" using q assms(1,2) by linarith
  have "word_of_int (int l) + (address - la) * word_of_int (int r - int l) div (ra - la) = (word_of_nat (l + ?q) :: u64)"
    by (simp only: w of_int_of_nat_eq of_nat_add)
  moreover have "(ucast (word_of_nat (l + ?q) :: u64) :: 32 word) = word_of_nat (l + ?q)"
    using lq unat_word_of_nat_small [where 'a = 64, of "l + ?q"] by (simp only: ucast_word_of_nat_unat) simp
  moreover have "sint (word_of_nat (l + ?q) :: 32 word) = int (l + ?q)"
    using lq by (intro sint_word_of_nat_small) simp
  ultimately show "approx_index address (int l) la (int r) ra =
      int (l + (unat address - unat la) * (r - l) div (unat ra - unat la))"
    by (simp only: approx_index_def)
qed

lemma line_search_hit:
  assumes "l \<le> r" "ra \<noteq> la" "approx_index a l la r ra = i" "line_at ls i = Some a"
  shows "line_search ls a l la r ra = Some (Found (nat i))"
  using assms by (simp add: line_search.simps [of ls a l la r ra])

lemma line_search_right:
  assumes "l \<le> r" "ra \<noteq> la" "approx_index a l la r ra = i" "line_at ls i = Some b" "b < a"
    "line_at ls (i + 1) = Some c"
  shows "line_search ls a l la r ra = line_search ls a (i + 1) c r ra"
proof -
  have "\<not> a < b" using assms(5) by (simp add: not_less)
  then show ?thesis using assms by (simp add: line_search.simps [of ls a l la r ra])
qed

lemma line_search_left:
  assumes "l \<le> r" "ra \<noteq> la" "approx_index a l la r ra = i" "line_at ls i = Some b" "a < b"
    "line_at ls (i - 1) = Some c"
  shows "line_search ls a l la r ra = line_search ls a l la (i - 1) c"
  using assms by (simp add: line_search.simps [of ls a l la r ra])

text \<open>
  The invariant of the search for a line that is there: its position \<open>p\<close> lies between the bounds.  When a
  bound reaches \<open>p\<close> the next approximation is exact, so the bounds never meet and the divisor is not zero.
\<close>

lemma line_search_finds:
  assumes ok: "lines_ok ls"
  shows "l \<le> p \<Longrightarrow> p \<le> r \<Longrightarrow> l < r \<Longrightarrow> r < length ls \<Longrightarrow>
    line_search ls (cl_address (ls ! p)) (int l) (cl_address (ls ! l)) (int r) (cl_address (ls ! r))
      = Some (Found p)"
proof (induction "r - l" arbitrary: l r rule: less_induct)
  case less
  let ?a = "cl_address (ls ! p)" and ?la = "cl_address (ls ! l)" and ?ra = "cl_address (ls ! r)"
  let ?q = "(unat ?a - unat ?la) * (r - l) div (unat ?ra - unat ?la)"
  have la: "?la \<le> ?a" "?a \<le> ?ra" "?la < ?ra"
    using less.prems lines_ok_mono [OF ok, of l p] lines_ok_mono [OF ok, of p r] lines_ok_strict [OF ok, of l r]
    by simp_all
  have len: "length ls < 2 ^ 31" using ok by (simp add: lines_ok_def)
  have "ls \<noteq> []" using less.prems by auto
  then have "hd ls = ls ! 0" "last ls = ls ! (length ls - 1)"
    by (simp_all add: hd_conv_nth last_conv_nth)
  then have "cl_address (hd ls) \<le> ?la" "?ra \<le> cl_address (last ls)"
    using less.prems lines_ok_mono [OF ok, of 0 l] lines_ok_mono [OF ok, of r "length ls - 1"] by auto
  then have "unat ?ra - unat ?la \<le> unat (cl_address (last ls)) - unat (cl_address (hd ls))"
    unfolding u64_le_unat by linarith
  then have "(unat ?ra - unat ?la) * (r - l) \<le>
      (unat (cl_address (last ls)) - unat (cl_address (hd ls))) * length ls"
    using less.prems by (intro mult_mono) auto
  then have prod: "(unat ?ra - unat ?la) * (r - l) < 2 ^ 64" using ok by (simp add: lines_ok_def)
  have ix: "approx_index ?a (int l) ?la (int r) ?ra = int (l + ?q)" and q: "?q \<le> r - l"
    using approx_index_exact [OF _ _ la prod] less.prems len by auto
  have hi: "?q = r - l" if "p = r" using that la by (simp add: u64_less_unat)
  have lo: "?q = 0" if "p = l" using that by simp
  obtain i where i: "approx_index ?a (int l) ?la (int r) ?ra = int i" "l \<le> i" "i \<le> r"
    "p = r \<Longrightarrow> i = r" "p = l \<Longrightarrow> i = l"
  proof (rule that [of "l + ?q"])
    show "l + ?q \<le> r" using q less.prems by linarith
    show "p = r \<Longrightarrow> l + ?q = r" using hi less.prems by linarith
    show "p = l \<Longrightarrow> l + ?q = l" using lo by linarith
  qed (use ix in simp_all)
  then have il: "i < length ls" using less.prems by linarith
  have lr: "int l \<le> int r" "?ra \<noteq> ?la" using less.prems la by simp_all
  show ?case
  proof (rule linorder_cases [of i p])
    assume "i = p"
    then show ?thesis using line_search_hit [OF lr i(1)] line_at_nat [OF il] by simp
  next
    assume lt: "i < p"
    then have a: "cl_address (ls ! i) < ?a" using lines_ok_strict [OF ok lt] less.prems by simp
    have "p \<noteq> r" using i(4) lt by auto
    then have "line_search ls ?a (int (Suc i)) (cl_address (ls ! Suc i)) (int r) ?ra = Some (Found p)"
      using lt i(2) less.prems by (intro less.hyps) auto
    moreover have "line_at ls (int i + 1) = Some (cl_address (ls ! Suc i))"
      using line_at_nat [of "Suc i" ls] lt less.prems by (simp add: add.commute)
    ultimately show ?thesis using line_search_right [OF lr i(1) line_at_nat [OF il] a] by (simp add: add.commute)
  next
    assume gt: "p < i"
    from lines_ok_strict [OF ok gt il] have a: "?a < cl_address (ls ! i)" .
    have "p \<noteq> l" using i(5) gt by auto
    then have "line_search ls ?a (int l) ?la (int (i - 1)) (cl_address (ls ! (i - 1))) = Some (Found p)"
      using gt i(3) less.prems by (intro less.hyps) auto
    moreover have e: "int i - 1 = int (i - 1)" using gt by simp
    moreover have "line_at ls (int (i - 1)) = Some (cl_address (ls ! (i - 1)))" using il by (intro line_at_nat) simp
    ultimately show ?thesis using line_search_left [OF lr i(1) line_at_nat [OF il] a] unfolding e by simp
  qed
qed

section \<open>The search for the unit\<close>

definition in_unit :: "u64 \<Rightarrow> cached_unit \<Rightarrow> bool" where
  "in_unit a u \<longleftrightarrow> cu_start u \<le> a \<and> a \<le> cu_end u"

lemma unit_ok_bounds:
  assumes "unit_ok u"
  shows "cu_start u \<le> cu_end u" and "l \<in> set (cu_lines u) \<Longrightarrow> in_unit (cl_address l) u"
proof -
  have ok: "lines_ok (cu_lines u)" and ne: "cu_lines u \<noteq> []" using assms by (auto simp: unit_ok_def lines_ok_def)
  have b: "cu_start u = cl_address (cu_lines u ! 0)" "cu_end u = cl_address (cu_lines u ! (length (cu_lines u) - 1))"
    using assms ne by (simp_all add: unit_ok_def hd_conv_nth last_conv_nth)
  show "cu_start u \<le> cu_end u" using lines_ok_mono [OF ok, of 0 "length (cu_lines u) - 1"] ne by (simp add: b)
  assume "l \<in> set (cu_lines u)"
  then obtain i where "l = cu_lines u ! i" "i < length (cu_lines u)" by (auto simp: in_set_conv_nth)
  then show "in_unit (cl_address l) u"
    using lines_ok_mono [OF ok, of 0 i] lines_ok_mono [OF ok, of i "length (cu_lines u) - 1"]
    by (simp add: in_unit_def b)
qed

lemma units_ok_order:
  assumes "units_ok units" "i < j" "j < length units"
  shows "cu_end (units ! i) < cu_start (units ! j)"
  using assms sorted_wrt_nth_less [of "\<lambda>u v. cu_end u < cu_start v" units i j] by (simp add: units_ok_def)

text \<open>A line that is found has the address, in any array of units.\<close>

lemma line_search_result:
  assumes "line_search ls a l la r ra = Some x"
  shows "\<forall>i. x = Found i \<longrightarrow> i < length ls \<and> cl_address (ls ! i) = a"
proof (rule line_search.raw_induct [where P = "\<lambda>ls a l la r ra x. \<forall>i. x = Found i \<longrightarrow> i < length ls \<and> cl_address (ls ! i) = a",
      OF _ assms])
  fix search :: "cached_line list \<Rightarrow> u64 \<Rightarrow> int \<Rightarrow> u64 \<Rightarrow> int \<Rightarrow> u64 \<Rightarrow> search_result option" and ls a l la r ra x
  assume IH: "\<And>ls a l la r ra x. search ls a l la r ra = Some x \<Longrightarrow> \<forall>i. x = Found i \<longrightarrow> i < length ls \<and> cl_address (ls ! i) = a"
  let ?i = "approx_index a l la r ra"
  assume run: "(if r < l then Some Absent
     else if ra = la then Some Div_Zero
     else let index = ?i in
       case line_at ls index of
         None \<Rightarrow> Some Out_Of_Bounds
       | Some b \<Rightarrow>
           if a < b then (case line_at ls (index - 1) of None \<Rightarrow> Some Out_Of_Bounds | Some c \<Rightarrow> search ls a l la (index - 1) c)
           else if b < a then (case line_at ls (index + 1) of None \<Rightarrow> Some Out_Of_Bounds | Some c \<Rightarrow> search ls a (index + 1) c r ra)
           else Some (Found (nat index))) = Some x"
  have hit: "nat ?i < length ls \<and> cl_address (ls ! nat ?i) = b" if "line_at ls ?i = Some b" for b
    using that by (auto simp: line_at_def split: if_splits)
  show "\<forall>i. x = Found i \<longrightarrow> i < length ls \<and> cl_address (ls ! i) = a"
    using run IH hit by (fastforce simp: Let_def split: if_splits option.splits)
qed

lemma unit_search_index:
  "unit_search units a left right = (l, r, k) \<Longrightarrow> l \<noteq> r \<Longrightarrow> left \<le> right \<Longrightarrow> right \<le> length units \<Longrightarrow> k < length units"
proof (induction units a left right rule: unit_search.induct)
  case (1 units a left right)
  then show ?case by (subst (asm) unit_search.simps) (auto simp: Let_def split: if_splits)
qed

lemma lookup_found:
  assumes "lookup_cache units last_unit a = (u, Some (Found i))" "last_unit < length units"
  shows "u < length units" "i < length (cu_lines (units ! u))" "cl_address (cu_lines (units ! u) ! i) = a"
proof -
  obtain k where k: "find_unit units last_unit a = Some u" "find_line (cu_lines (units ! u)) a = Some (Found i)"
    using assms(1) by (auto simp: lookup_cache_def split: option.splits)
  show "u < length units"
    using k(1) assms(2) unit_search_index [of units a 0 "length units"]
    by (auto simp: find_unit_def split: if_splits prod.splits)
  show "i < length (cu_lines (units ! u))" "cl_address (cu_lines (units ! u) ! i) = a"
    using k(2) line_search_result by (auto simp: find_line_def split: option.splits)
qed

lemma in_unit_unique:
  assumes "units_ok units" "i < length units" "j < length units" "in_unit a (units ! i)" "in_unit a (units ! j)"
  shows "i = j"
proof (rule linorder_cases [of i j])
  assume "i < j"
  then have "cu_end (units ! i) < cu_start (units ! j)" using units_ok_order assms(1,3) by blast
  then show ?thesis using assms(4,5) by (auto simp: in_unit_def)
next
  assume "j < i"
  then have "cu_end (units ! j) < cu_start (units ! i)" using units_ok_order assms(1,2) by blast
  then show ?thesis using assms(4,5) by (auto simp: in_unit_def)
qed

lemma unit_search_finds:
  assumes ok: "units_ok units" and k: "k < length units" "in_unit a (units ! k)"
  shows "left \<le> k \<Longrightarrow> k < right \<Longrightarrow> right \<le> length units \<Longrightarrow>
    \<exists>l r. unit_search units a left right = (l, r, k) \<and> l \<noteq> r"
proof (induction "right - left" arbitrary: left right rule: less_induct)
  case less
  let ?i = "(left + right) div 2"
  have i: "?i < length units" using less.prems by linarith
  note step = unit_search.simps [of units a left right]
  consider (below) "a < cu_start (units ! ?i)" | (above) "cu_end (units ! ?i) < a" "\<not> a < cu_start (units ! ?i)"
    | (found) "in_unit a (units ! ?i)" by (force simp: in_unit_def)
  then show ?case
  proof cases
    case below
    have "k < ?i"
    proof (rule ccontr)
      assume "\<not> k < ?i"
      then have "k = ?i \<or> cu_end (units ! ?i) < cu_start (units ! k)"
        using units_ok_order [OF ok, of ?i k] k(1) linorder_neqE_nat by blast
      moreover have "cu_start (units ! ?i) \<le> cu_end (units ! ?i)"
        using ok i unit_ok_bounds(1) by (simp add: units_ok_def)
      ultimately show False using below k(2) by (auto simp: in_unit_def)
    qed
    then have "\<exists>l r. unit_search units a left ?i = (l, r, k) \<and> l \<noteq> r" using less.prems by (intro less.hyps) auto
    then show ?thesis using below less.prems by (subst step) (simp add: Let_def)
  next
    case above
    have "?i < k"
    proof (rule ccontr)
      assume "\<not> ?i < k"
      then have "k = ?i \<or> cu_end (units ! k) < cu_start (units ! ?i)"
        using units_ok_order [OF ok, of k ?i] i linorder_neqE_nat by blast
      then show False using above k(2) by (auto simp: in_unit_def)
    qed
    then have "\<exists>l r. unit_search units a (Suc ?i) right = (l, r, k) \<and> l \<noteq> r" using less.prems by (intro less.hyps) auto
    then show ?thesis using above less.prems by (subst step) (simp add: Let_def)
  next
    case found
    then have "?i = k" using in_unit_unique [OF ok i k(1)] k(2) by blast
    then show ?thesis using found less.prems by (subst step) (auto simp: Let_def in_unit_def)
  qed
qed

lemma find_unit_finds:
  assumes "units_ok units" "k < length units" "in_unit a (units ! k)" "last_unit < length units"
  shows "find_unit units last_unit a = Some k"
proof (cases "in_unit a (units ! last_unit)")
  case True
  then have "last_unit = k" using in_unit_unique [OF assms(1,4,2)] assms(3) by blast
  then show ?thesis using True by (auto simp: find_unit_def in_unit_def)
next
  case False
  then show ?thesis
    using unit_search_finds [OF assms(1-3), of 0 "length units"] assms(2)
    by (auto simp: find_unit_def in_unit_def)
qed

lemma lookup_finds:
  assumes "units_ok units" "last_unit < length units" "k < length units"
    and "p < length (cu_lines (units ! k))" "2 \<le> length (cu_lines (units ! k))"
  shows "lookup_cache units last_unit (cl_address (cu_lines (units ! k) ! p)) = (k, Some (Found p))"
proof -
  let ?ls = "cu_lines (units ! k)"
  have ok: "unit_ok (units ! k)" using assms(1,3) by (simp add: units_ok_def)
  have "in_unit (cl_address (?ls ! p)) (units ! k)" using unit_ok_bounds(2) [OF ok] assms(4) by simp
  then have u: "find_unit units last_unit (cl_address (?ls ! p)) = Some k"
    using find_unit_finds assms(1-3) by blast
  have "line_search ?ls (cl_address (?ls ! p)) (int 0) (cl_address (?ls ! 0))
      (int (length ?ls - 1)) (cl_address (?ls ! (length ?ls - 1))) = Some (Found p)"
    using ok assms(4,5) by (intro line_search_finds) (auto simp: unit_ok_def)
  then have search: "line_search ?ls (cl_address (?ls ! p)) 0 (cl_address (?ls ! 0))
      (int (length ?ls - 1)) (cl_address (?ls ! (length ?ls - 1))) = Some (Found p)" by (simp only: int_ops(1))
  have e: "int (length ?ls) - 1 = int (length ?ls - 1)" using assms(5) by simp
  have "line_at ?ls (int 0) = Some (cl_address (?ls ! 0))"
    "line_at ?ls (int (length ?ls - 1)) = Some (cl_address (?ls ! (length ?ls - 1)))"
    by (rule line_at_nat, use assms(5) in linarith)+
  then have "find_line ?ls (cl_address (?ls ! p)) = Some (Found p)"
    unfolding find_line_def e by (simp only: int_ops(1) option.simps search)
  then show ?thesis using u by (simp add: lookup_cache_def)
qed

section \<open>Properties\<close>

text \<open>
  C22.  Every breakpoint is found: for each line of a unit with at least two lines, \<open>lookup_cache\<close> terminates
  with that line, whatever unit was looked up before, without dividing by zero and without leaving an
  array.
\<close>

theorem lookup_cache_finds:
  assumes "units_ok units" "last_unit < length units" "k < length units"
    and "p < length (cu_lines (units ! k))" "2 \<le> length (cu_lines (units ! k))"
  shows "lookup_cache units last_unit (cl_address (cu_lines (units ! k) ! p)) = (k, Some (Found p))"
  using assms by (rule lookup_finds)

definition sample_line :: "u64 \<Rightarrow> cached_line" where
  "sample_line a = \<lparr>cl_address = a, cl_func_id = 1, cl_func_flag = 0, cl_org_instr_byte = 0x55\<rparr>"

definition sample_units :: "cached_unit list" where
  "sample_units = [\<lparr>cu_start = 100, cu_end = 120, cu_lines = map sample_line [100, 103, 104, 120]\<rparr>,
                   \<lparr>cu_start = 200, cu_end = 200, cu_lines = map sample_line [200]\<rparr>]"

theorem lookup_cache_finds_witness:
  "lookup_cache sample_units 1 (cl_address (cu_lines (sample_units ! 0) ! 2)) = (0, Some (Found 2))"
  by (rule lookup_cache_finds) (simp_all add: sample_units_def units_ok_def unit_ok_def lines_ok_def sample_line_def)

text \<open>
  A unit with a single line: the lookup of its only line divides zero by zero.
\<close>

theorem lookup_cache_single_line:
  assumes "units_ok units" "last_unit < length units" "k < length units" "cu_lines (units ! k) = [l]"
  shows "lookup_cache units last_unit (cl_address l) = (k, Some Div_Zero)"
proof -
  have "unit_ok (units ! k)" using assms(1,3) by (simp add: units_ok_def)
  then have "in_unit (cl_address l) (units ! k)" using unit_ok_bounds(2) assms(4) by simp
  then have "find_unit units last_unit (cl_address l) = Some k" using find_unit_finds assms(1-3) by blast
  then show ?thesis
    using assms(4) by (simp add: lookup_cache_def find_line_def line_at_def line_search.simps)
qed

theorem lookup_cache_single_line_witness:
  "lookup_cache sample_units 0 (cl_address (sample_line 200)) = (1, Some Div_Zero)"
  by (rule lookup_cache_single_line)
    (simp_all add: sample_units_def units_ok_def unit_ok_def lines_ok_def sample_line_def)

end
