(* ===== verification/Run.thy ===== *)
theory Run
  imports Vars Line_Cache
begin

unbundle bit_operations_syntax

text \<open>
  The recording loop of \<^verbatim>\<open>record/run.c\<close>: the processing of a stop of the child (\<^verbatim>\<open>process_breakpoint\<close>), the
  callback for kernel events (\<^verbatim>\<open>bpf_callback\<close>) and the placing of the breakpoints (\<^verbatim>\<open>set_breakpoints\<close>).
  The child is its code, a byte per address, and its memory, which \<^verbatim>\<open>process_vm_readv\<close> reads.  What the
  system calls return is the input record \<open>stop_env\<close> of each stop.
\<close>

section \<open>Data\<close>

text \<open>\<^verbatim>\<open>struct user_regs_struct\<close>: the sixteen general registers in DWARF order, and the instruction pointer.\<close>

record user_regs =
  reg_gpr :: "u64 list"
  reg_ip :: u64

text \<open>\<^verbatim>\<open>struct heap_event\<close> of \<^verbatim>\<open>mem.h\<close>.\<close>

datatype heap_event_type = HEAP_EVENT_ALLOC | HEAP_EVENT_FREE

record heap_event =
  he_type :: heap_event_type
  he_address :: u64
  he_size :: u64

text \<open>
  The state of the recorder: the static variables of \<^verbatim>\<open>run.c\<close>, the channels and the memory cache; and of the
  child: its code and instruction pointer.  \<open>tr_trig\<close> and \<open>tr_wait\<close> count the calls of
  \<^verbatim>\<open>trigger_reset_dirty\<close> and \<^verbatim>\<open>wait_reset_dirty\<close>.
\<close>

record tracer =
  tr_step_id :: u64
  tr_depth :: u64
  tr_func_id :: u64
  tr_unit :: nat
  tr_mem_dirty :: bool
  tr_cache :: memcache
  tr_proc_mem :: "u64 channel option"
  tr_insert_step :: "user_regs step_msg channel"
  tr_insert_heap :: "heap_msg channel"
  tr_code :: "u64 \<Rightarrow> byte"
  tr_ip :: u64
  tr_trig :: nat
  tr_wait :: nat

record stop_env =
  se_regs :: "user_regs option"
  se_events :: "heap_event list"
  se_read_ok :: bool
  se_peek_ok :: bool
  se_poke_ok :: bool
  se_set_ip_ok :: bool
  se_step_ok :: bool
  se_step_exec :: "u64 \<Rightarrow> (u64 \<Rightarrow> byte) \<Rightarrow> u64 \<times> (u64 \<Rightarrow> byte)"
  se_trap_ok :: bool
  se_repoke_ok :: bool

text \<open>What does not change during a recording.\<close>

record rec_env =
  re_units :: "cached_unit list"
  re_base :: u64
  re_psz :: nat
  re_memdiff :: "byte list \<Rightarrow> byte list \<Rightarrow> nat \<Rightarrow> bool"
  re_stk :: "byte list"

text \<open>How a call ends: it returns, the process exits, it crashes, or it does not return.\<close>

datatype 's outcome = Ret status 's | Exit_Process | Crash_Process | Hang_Process

section \<open>Code of the child\<close>

text \<open>\<^verbatim>\<open>PTRACE_PEEKDATA\<close> and \<^verbatim>\<open>PTRACE_POKEDATA\<close>: the 64-bit little-endian word at an address.\<close>

definition code_byte :: "(u64 \<Rightarrow> byte) \<Rightarrow> u64 \<Rightarrow> nat \<Rightarrow> u64" where
  "code_byte code pc i = push_bit (8 * i) (ucast (code (pc + word_of_nat i)))"

definition peek :: "(u64 \<Rightarrow> byte) \<Rightarrow> u64 \<Rightarrow> u64" where
  "peek code pc =
     code_byte code pc 0 OR code_byte code pc 1 OR code_byte code pc 2 OR code_byte code pc 3 OR
     code_byte code pc 4 OR code_byte code pc 5 OR code_byte code pc 6 OR code_byte code pc 7"

definition poke :: "(u64 \<Rightarrow> byte) \<Rightarrow> u64 \<Rightarrow> u64 \<Rightarrow> (u64 \<Rightarrow> byte)" where
  "poke code pc w = (\<lambda>a. if unat (a - pc) < 8 then ucast (drop_bit (8 * unat (a - pc)) w) else code a)"

definition INT3 :: u64 where
  "INT3 = 0xCC"

text \<open>\<^verbatim>\<open>(instr & ~0xFF) | b\<close>\<close>

definition with_low_byte :: "u64 \<Rightarrow> u64 \<Rightarrow> u64" where
  "with_low_byte instr b = (instr AND NOT 0xFF) OR b"

section \<open>\<^verbatim>\<open>process_breakpoint\<close>\<close>

text \<open>The beginning: trigger the reset of the page references, count the step.\<close>

definition bp_begin :: "tracer \<Rightarrow> bool \<times> tracer" where
  "bp_begin t =
     (let wait_reset = tr_mem_dirty t;
          t1 = (if wait_reset then t\<lparr>tr_trig := Suc (tr_trig t)\<rparr> else t)
      in (wait_reset, t1\<lparr>tr_step_id := tr_step_id t1 + 1\<rparr>))"

text \<open>Function and call depth at the line of the stop.\<close>

definition bp_enter :: "cached_line \<Rightarrow> tracer \<Rightarrow> tracer" where
  "bp_enter line t =
     (if cl_func_id line \<noteq> tr_func_id t \<or> cl_func_flag line = FUNC_FLAG_START then
        (let t1 = (if cl_func_flag line = FUNC_FLAG_START then t\<lparr>tr_depth := tr_depth t + 1\<rparr> else t)
         in t1\<lparr>tr_func_id := cl_func_id line\<rparr>)
      else t)"

text \<open>The changes of memory, except at the first line of a function.  \<open>None\<close>: the channel does not exist yet
  (a null pointer) or the cache is left.\<close>

definition bp_memory :: "rec_env \<Rightarrow> (u64 \<Rightarrow> nat \<Rightarrow> byte list) \<Rightarrow> cached_line \<Rightarrow> tracer \<Rightarrow> tracer option" where
  "bp_memory re readv line t =
     (if tr_mem_dirty t \<and> cl_func_flag line \<noteq> FUNC_FLAG_START then
        (case tr_proc_mem t of
           None \<Rightarrow> None
         | Some ch \<Rightarrow>
             (case proc_dirty_mem (re_memdiff re) (re_psz re) readv (re_stk re) (tr_step_id t) ch (tr_cache t) of
                None \<Rightarrow> None
              | Some (ch', mc') \<Rightarrow> Some (t\<lparr>tr_proc_mem := Some ch', tr_cache := mc', tr_mem_dirty := False\<rparr>)))
      else Some t)"

definition bp_store_step :: "u64 \<Rightarrow> user_regs \<Rightarrow> tracer \<Rightarrow> tracer" where
  "bp_store_step addr regs t =
     t\<lparr>tr_insert_step := ch_put
        (\<lparr>sm_step_id = tr_step_id t, sm_depth = tr_depth t, sm_func_id = tr_func_id t, sm_address = addr,
          sm_regs = regs\<rparr>, step_msg_size) (tr_insert_step t)\<rparr>"

text \<open>The heap events that the preloaded library has written to the pipe.\<close>

definition heap_msg_of :: "u64 \<Rightarrow> heap_event \<Rightarrow> heap_msg" where
  "heap_msg_of step_id e =
     \<lparr>hm_step_id = step_id, hm_address = he_address e,
      hm_size = (if he_type e = HEAP_EVENT_ALLOC then he_size e else 0)\<rparr>"

definition bp_heap_events :: "heap_event list \<Rightarrow> tracer \<Rightarrow> tracer" where
  "bp_heap_events events t =
     t\<lparr>tr_insert_heap :=
        fold (\<lambda>e. ch_put (heap_msg_of (tr_step_id t) e, heap_msg_size)) events (tr_insert_heap t)\<rparr>"

text \<open>
  Stepping over the breakpoint: put the original byte back, set the instruction pointer, wait for the reset,
  execute one instruction, place the breakpoint again.
\<close>

definition bp_step_over :: "stop_env \<Rightarrow> bool \<Rightarrow> u64 \<Rightarrow> cached_line \<Rightarrow> tracer \<Rightarrow> tracer outcome" where
  "bp_step_over se wait_reset pc line t =
     (if \<not> se_peek_ok se then Ret FAILURE t
      else
        let instr = peek (tr_code t) pc in
        if \<not> se_poke_ok se then Ret FAILURE t
        else
          let t1 = t\<lparr>tr_code := poke (tr_code t) pc (with_low_byte instr (ucast (cl_org_instr_byte line)))\<rparr> in
          if \<not> se_set_ip_ok se then Exit_Process
          else
            let t2 = t1\<lparr>tr_ip := pc\<rparr>;
                t3 = (if wait_reset then t2\<lparr>tr_wait := Suc (tr_wait t2)\<rparr> else t2) in
            if \<not> se_step_ok se then Ret FAILURE t3
            else
              let (ip, code) = se_step_exec se (tr_ip t3) (tr_code t3);
                  t4 = t3\<lparr>tr_code := code, tr_ip := ip\<rparr> in
              if \<not> se_trap_ok se then Ret FAILURE t4
              else if \<not> se_repoke_ok se then Ret FAILURE t4
              else Ret SUCCESS (t4\<lparr>tr_code := poke (tr_code t4) pc (with_low_byte instr INT3)\<rparr>))"

definition process_breakpoint ::
    "rec_env \<Rightarrow> (u64 \<Rightarrow> nat \<Rightarrow> byte list) \<Rightarrow> stop_env \<Rightarrow> tracer \<Rightarrow> tracer outcome" where
  "process_breakpoint re readv se t =
     (case bp_begin t of
        (wait_reset, t1) \<Rightarrow>
          (case se_regs se of
             None \<Rightarrow> Ret FAILURE t1
           | Some regs \<Rightarrow>
               (let pc = reg_ip regs - 1 in
                case lookup_cache (re_units re) (tr_unit t1) (pc - re_base re) of
                  (u, None) \<Rightarrow> Hang_Process
                | (u, Some Absent) \<Rightarrow> Ret FAILURE (t1\<lparr>tr_unit := u\<rparr>)
                | (u, Some (Found i)) \<Rightarrow>
                    (let line = cu_lines (re_units re ! u) ! i;
                         t2 = bp_enter line (t1\<lparr>tr_unit := u\<rparr>) in
                     case bp_memory re readv line t2 of
                       None \<Rightarrow> Crash_Process
                     | Some t3 \<Rightarrow>
                         (let t4 = bp_heap_events (se_events se) (bp_store_step (pc - re_base re) regs t3) in
                          if \<not> se_read_ok se then Ret FAILURE t4
                          else
                            let t5 = (if cl_func_flag line = FUNC_FLAG_END then t4\<lparr>tr_depth := tr_depth t4 - 1\<rparr>
                                      else t4)
                            in bp_step_over se wait_reset pc line t5))
                | (u, Some _) \<Rightarrow> Crash_Process)))"

section \<open>\<^verbatim>\<open>bpf_callback\<close>\<close>

datatype bpf_event =
  BPF_EVT_SIGNAL u64 | BPF_EVT_PAGEFAULT u64 | BPF_EVT_MMAPENTRY u64 | BPF_EVT_MMAPEXIT u64
| BPF_EVT_MUNMAP u64 | BPF_EVT_BRK u64 | BPF_EVT_UNKNOWN

text \<open>The static variables of the callback, the semaphore \<^verbatim>\<open>bpf_sem\<close> and the flag \<^verbatim>\<open>stop\<close>.\<close>

record bpf_state =
  bs_mapped_size :: u64
  bs_count :: bool
  bs_brk_boundary :: u64
  bs_sem :: nat
  bs_stop :: bool

definition SIGTRAP :: u64 where
  "SIGTRAP = 5"

text \<open>\<open>posted\<close> is the outcome of \<^verbatim>\<open>sem_post\<close>, \<open>fresh n\<close> the content of a newly allocated block.\<close>

definition bpf_callback ::
    "bool \<Rightarrow> (u64 \<Rightarrow> nat \<Rightarrow> byte list) \<Rightarrow> (nat \<Rightarrow> byte list) \<Rightarrow> bpf_event \<Rightarrow> bpf_state \<times> tracer \<Rightarrow> bpf_state \<times> tracer" where
  "bpf_callback posted readv fresh ev = (\<lambda>(b, t).
     if bs_stop b then (b, t)
     else case ev of
       BPF_EVT_SIGNAL sig \<Rightarrow>
         if sig = SIGTRAP then
           if bs_count b then (b\<lparr>bs_count := False\<rparr>, t)
           else if \<not> posted then (b, t)
           else (b\<lparr>bs_sem := Suc (bs_sem b), bs_count := True\<rparr>, t)
         else (b, t)
     | BPF_EVT_PAGEFAULT a \<Rightarrow>
         (b, t\<lparr>tr_proc_mem := map_option (ch_put (a, 8)) (tr_proc_mem t), tr_mem_dirty := True\<rparr>)
     | BPF_EVT_MMAPENTRY sz \<Rightarrow> (b\<lparr>bs_mapped_size := sz\<rparr>, t)
     | BPF_EVT_MMAPEXIT a \<Rightarrow>
         (b, t\<lparr>tr_cache := cache_add_region readv (fresh (unat (bs_mapped_size b))) a (bs_mapped_size b)
                (tr_step_id t) (tr_cache t)\<rparr>)
     | BPF_EVT_MUNMAP a \<Rightarrow> (b, t)
     | BPF_EVT_BRK a \<Rightarrow>
         if bs_brk_boundary b = 0 then (b\<lparr>bs_brk_boundary := a\<rparr>, t)
         else if bs_brk_boundary b < a then
           (let allocated = a - bs_brk_boundary b in
            (b\<lparr>bs_brk_boundary := a\<rparr>,
             t\<lparr>tr_cache := cache_add_region readv (fresh (unat allocated)) (bs_brk_boundary b) allocated
                (tr_step_id t) (tr_cache t)\<rparr>))
         else (b, t)
     | BPF_EVT_UNKNOWN \<Rightarrow> (b, t))"

section \<open>Replacing one byte of the code\<close>

lemma bit_code_byte:
  "bit (code_byte code pc i) n \<longleftrightarrow> n < 64 \<and> i = n div 8 \<and> bit (code (pc + word_of_nat (n div 8))) (n mod 8)"
proof -
  have "bit (code_byte code pc i) n \<longleftrightarrow> n < 64 \<and> 8 * i \<le> n \<and> bit (code (pc + word_of_nat i)) (n - 8 * i)"
    by (auto simp: code_byte_def bit_simps)
  also have "\<dots> \<longleftrightarrow> n < 64 \<and> i = n div 8 \<and> bit (code (pc + word_of_nat i)) (n - 8 * i)"
  proof -
    have "i = n div 8" if "8 * i \<le> n" "bit (code (pc + word_of_nat i)) (n - 8 * i)"
    proof -
      have "n - 8 * i < 8" using bit_imp_le_length [OF that(2)] by simp
      then show ?thesis using that(1) by (simp add: div_nat_eqI)
    qed
    moreover have "8 * (n div 8) \<le> n" by simp
    ultimately show ?thesis by blast
  qed
  also have "\<dots> \<longleftrightarrow> n < 64 \<and> i = n div 8 \<and> bit (code (pc + word_of_nat (n div 8))) (n mod 8)"
    by (auto simp: minus_mult_div_eq_mod)
  finally show ?thesis .
qed

lemma bit_peek:
  assumes "n < 64"
  shows "bit (peek code pc) n \<longleftrightarrow> bit (code (pc + word_of_nat (n div 8))) (n mod 8)"
proof -
  have "n div 8 < 8" using assms by simp
  then have "0 = n div 8 \<or> 1 = n div 8 \<or> 2 = n div 8 \<or> 3 = n div 8 \<or> 4 = n div 8 \<or> 5 = n div 8 \<or>
      6 = n div 8 \<or> 7 = n div 8" by linarith
  then show ?thesis using assms unfolding peek_def bit_or_iff bit_code_byte by blast
qed

lemma bit_low_mask: "bit (NOT 0xFF :: u64) n \<longleftrightarrow> 8 \<le> n \<and> n < 64"
proof -
  have m: "(0xFF :: u64) = mask 8" by (simp add: mask_eq_exp_minus_1)
  show ?thesis unfolding m by (auto simp: bit_simps)
qed

text \<open>Writing back a word with a new low byte changes the byte at the address and nothing else.\<close>

lemma poke_low_byte:
  fixes c :: "u64 \<Rightarrow> byte"
  assumes "\<And>i. i < 8 \<Longrightarrow> 0 < i \<Longrightarrow> c (pc + word_of_nat i) = code (pc + word_of_nat i)"
  shows "poke c pc (with_low_byte (peek code pc) (ucast b)) = c(pc := b)"
proof
  fix a
  show "poke c pc (with_low_byte (peek code pc) (ucast b)) a = (c(pc := b)) a"
  proof (cases "unat (a - pc) < 8")
    case False
    then have "a \<noteq> pc" by auto
    then show ?thesis using False by (simp add: poke_def)
  next
    case True
    define j where "j = unat (a - pc)"
    have a: "a = pc + word_of_nat j" by (simp add: j_def)
    have j: "j < 8" using True by (simp add: j_def)
    have "bit (drop_bit (8 * j) (with_low_byte (peek code pc) (ucast b)) :: u64) n \<longleftrightarrow> bit ((c(pc := b)) a) n"
      if n: "n < 8" for n
    proof -
      have d: "(8 * j + n) div 8 = j" "(8 * j + n) mod 8 = n" "8 * j + n < 64" using n j by simp_all
      have low: "bit (ucast b :: u64) (8 * j + n) \<longleftrightarrow> j = 0 \<and> bit b n"
      proof (cases "j = 0")
        case True
        then show ?thesis using n by (simp add: bit_simps)
      next
        case False
        then have "\<not> bit b (8 * j + n)" by (intro notI) (auto dest: bit_imp_le_length)
        then show ?thesis using False by (simp add: bit_simps)
      qed
      have "bit (with_low_byte (peek code pc) (ucast b)) (8 * j + n) \<longleftrightarrow>
          (if j = 0 then bit b n else bit (code (pc + word_of_nat j)) n)"
        unfolding with_low_byte_def bit_or_iff bit_and_iff bit_low_mask bit_peek [OF d(3)] d(1,2) low
        using j n d(3) by auto
      moreover have "j = 0 \<longleftrightarrow> a = pc" by (simp add: j_def unat_eq_zero)
      ultimately show ?thesis
        using assms [OF j] a by (auto simp: bit_drop_bit_eq add.commute)
    qed
    then have "ucast (drop_bit (8 * j) (with_low_byte (peek code pc) (ucast b))) = (c(pc := b)) a"
      by (intro bit_word_eqI) (simp add: bit_ucast_iff)
    then show ?thesis using True by (simp add: poke_def j_def)
  qed
qed

section \<open>A stop at a known line\<close>

text \<open>All system calls of the stop succeed.\<close>

definition stop_ok :: "stop_env \<Rightarrow> bool" where
  "stop_ok se \<longleftrightarrow>
     se_read_ok se \<and> se_peek_ok se \<and> se_poke_ok se \<and> se_set_ip_ok se \<and> se_step_ok se \<and> se_trap_ok se \<and>
     se_repoke_ok se"

text \<open>
  Stepping over the breakpoint at \<open>pc\<close>: the child executes one instruction from \<open>pc\<close> with its original byte, and goes on from
  there, with the breakpoint in place.  The instruction is any one that does not write the seven bytes after \<open>pc\<close>, which the
  recorder writes back with the breakpoint.
\<close>

definition spares :: "stop_env \<Rightarrow> u64 \<Rightarrow> bool" where
  "spares se pc \<longleftrightarrow>
     (\<forall>c i. 0 < i \<longrightarrow> i < 8 \<longrightarrow> snd (se_step_exec se pc c) (pc + word_of_nat i) = c (pc + word_of_nat i))"

definition stepped :: "stop_env \<Rightarrow> u64 \<Rightarrow> byte \<Rightarrow> (u64 \<Rightarrow> byte) \<Rightarrow> u64 \<times> (u64 \<Rightarrow> byte)" where
  "stepped se pc org code = map_prod id (\<lambda>c. c(pc := 0xCC)) (se_step_exec se pc (code(pc := org)))"

lemma bp_step_over_ok:
  assumes "stop_ok se" "spares se pc"
  shows "bp_step_over se w pc line t =
    Ret SUCCESS (t\<lparr>tr_code := snd (stepped se pc (cl_org_instr_byte line) (tr_code t)),
                   tr_ip := fst (stepped se pc (cl_org_instr_byte line) (tr_code t)),
                   tr_wait := (if w then Suc (tr_wait t) else tr_wait t)\<rparr>)"
proof -
  let ?c = "(tr_code t)(pc := cl_org_instr_byte line)"
  have 1: "poke (tr_code t) pc (with_low_byte (peek (tr_code t) pc) (ucast (cl_org_instr_byte line))) = ?c"
    by (rule poke_low_byte) simp
  have 2: "poke (snd (se_step_exec se pc ?c)) pc (with_low_byte (peek (tr_code t) pc) (ucast (0xCC :: byte))) =
      (snd (se_step_exec se pc ?c))(pc := 0xCC)"
  proof (rule poke_low_byte)
    fix i :: nat assume i: "i < 8" "0 < i"
    have "pc + word_of_nat i \<noteq> pc"
      using i unat_word_of_nat_small [where 'a = 64, of i] by (auto simp: unat_eq_zero [symmetric])
    then show "snd (se_step_exec se pc ?c) (pc + word_of_nat i) = tr_code t (pc + word_of_nat i)"
      using assms(2) i by (simp add: spares_def)
  qed
  have "INT3 = ucast (0xCC :: byte)" by (simp add: INT3_def)
  then show ?thesis using assms(1) 1 2 by (simp add: bp_step_over_def stop_ok_def Let_def stepped_def case_prod_beta)
qed

text \<open>Depth, function and step after a stop.\<close>

definition entered_depth :: "cached_line \<Rightarrow> u64 \<Rightarrow> u64" where
  "entered_depth line d = (if cl_func_flag line = FUNC_FLAG_START then d + 1 else d)"

definition left_depth :: "cached_line \<Rightarrow> u64 \<Rightarrow> u64" where
  "left_depth line d = (if cl_func_flag line = FUNC_FLAG_END then d - 1 else d)"

lemma bp_enter_eq:
  "bp_enter line t = t\<lparr>tr_depth := entered_depth line (tr_depth t), tr_func_id := cl_func_id line\<rparr>"
  by (auto simp: bp_enter_def entered_depth_def Let_def)

lemma bp_heap_events_holds:
  "ch_holds (tr_insert_heap t) q \<Longrightarrow>
   ch_holds (tr_insert_heap (bp_heap_events events t))
     (q @ map (\<lambda>e. (heap_msg_of (tr_step_id t) e, heap_msg_size)) events)"
  using chan.rep_put_all [of "tr_insert_heap t" q "map (\<lambda>e. (heap_msg_of (tr_step_id t) e, heap_msg_size)) events"]
  by (simp add: bp_heap_events_def fold_map comp_def)

text \<open>The step message of a stop.\<close>

definition step_msg_at :: "rec_env \<Rightarrow> user_regs \<Rightarrow> cached_line \<Rightarrow> tracer \<Rightarrow> user_regs step_msg" where
  "step_msg_at re regs line t =
     \<lparr>sm_step_id = tr_step_id t + 1, sm_depth = entered_depth line (tr_depth t), sm_func_id = cl_func_id line,
      sm_address = reg_ip regs - 1 - re_base re, sm_regs = regs\<rparr>"

lemma process_breakpoint_at_line:
  assumes units: "units_ok (re_units re)" "tr_unit t < length (re_units re)" "k < length (re_units re)"
    and line: "p < length (cu_lines (re_units re ! k))" "2 \<le> length (cu_lines (re_units re ! k))"
    and stop: "stop_ok se" "spares se (reg_ip regs - 1)"
    and regs: "se_regs se = Some regs" "reg_ip regs = cl_address (cu_lines (re_units re ! k) ! p) + re_base re + 1"
  defines "line \<equiv> cu_lines (re_units re ! k) ! p"
  defines "t1 \<equiv> t\<lparr>tr_trig := (if tr_mem_dirty t then Suc (tr_trig t) else tr_trig t), tr_step_id := tr_step_id t + 1,
                   tr_unit := k, tr_depth := entered_depth line (tr_depth t), tr_func_id := cl_func_id line\<rparr>"
  assumes mem: "bp_memory re readv line t1 = Some t2"
  shows "\<exists>t'. process_breakpoint re readv se t = Ret SUCCESS t' \<and>
    tr_step_id t' = tr_step_id t + 1 \<and> tr_unit t' = k \<and> tr_func_id t' = cl_func_id line \<and>
    tr_depth t' = left_depth line (entered_depth line (tr_depth t)) \<and>
    tr_cache t' = tr_cache t2 \<and> tr_proc_mem t' = tr_proc_mem t2 \<and> tr_mem_dirty t' = tr_mem_dirty t2 \<and>
    tr_insert_step t' = ch_put (step_msg_at re regs line t, step_msg_size) (tr_insert_step t) \<and>
    tr_insert_heap t' = fold (\<lambda>e. ch_put (heap_msg_of (tr_step_id t + 1) e, heap_msg_size)) (se_events se) (tr_insert_heap t) \<and>
    (tr_ip t', tr_code t') = stepped se (reg_ip regs - 1) (cl_org_instr_byte line) (tr_code t) \<and>
    tr_trig t' = (if tr_mem_dirty t then Suc (tr_trig t) else tr_trig t) \<and>
    tr_wait t' = (if tr_mem_dirty t then Suc (tr_wait t) else tr_wait t)"
proof -
  let ?pc = "reg_ip regs - 1"
  have "?pc - re_base re = cl_address line" using regs(2) by (simp add: line_def)
  then have look: "lookup_cache (re_units re) (tr_unit t) (?pc - re_base re) = (k, Some (Found p))"
    using lookup_finds [OF units line] by (simp add: line_def)
  have keep: "tr_step_id t2 = tr_step_id t1" "tr_unit t2 = tr_unit t1" "tr_depth t2 = tr_depth t1"
    "tr_func_id t2 = tr_func_id t1" "tr_insert_step t2 = tr_insert_step t1" "tr_insert_heap t2 = tr_insert_heap t1"
    "tr_code t2 = tr_code t1" "tr_trig t2 = tr_trig t1" "tr_wait t2 = tr_wait t1"
    using mem by (auto simp: bp_memory_def split: if_splits option.splits)
  have t1: "bp_enter line ((snd (bp_begin t))\<lparr>tr_unit := k\<rparr>) = t1" "fst (bp_begin t) = tr_mem_dirty t"
    by (simp_all add: bp_enter_eq bp_begin_def t1_def Let_def)
  have read: "se_read_ok se" using stop(1) by (simp add: stop_ok_def)
  have unit: "tr_unit (snd (bp_begin t)) = tr_unit t" by (simp add: bp_begin_def Let_def)
  have eq: "process_breakpoint re readv se t =
      bp_step_over se (tr_mem_dirty t) ?pc line
        (let t4 = bp_heap_events (se_events se) (bp_store_step (?pc - re_base re) regs t2) in
         if cl_func_flag line = FUNC_FLAG_END then t4\<lparr>tr_depth := tr_depth t4 - 1\<rparr> else t4)"
    unfolding process_breakpoint_def
    using regs(1) look mem t1 read unit
    by (simp add: case_prod_beta Let_def line_def [symmetric])
  have over: "bp_step_over se w ?pc line t0 =
      Ret SUCCESS (t0\<lparr>tr_code := snd (stepped se ?pc (cl_org_instr_byte line) (tr_code t0)),
                   tr_ip := fst (stepped se ?pc (cl_org_instr_byte line) (tr_code t0)),
                   tr_wait := (if w then Suc (tr_wait t0) else tr_wait t0)\<rparr>)" for w t0
    by (rule bp_step_over_ok [OF stop])
  show ?thesis
    unfolding eq over
    by (simp add: Let_def bp_heap_events_def bp_store_step_def keep t1_def left_depth_def step_msg_at_def)
qed

section \<open>A recording\<close>

text \<open>
  One round of the main loop of \<^verbatim>\<open>record\<close>: the page faults reported since the last stop, the outcome of the
  system calls of the stop, the child's memory at the stop, and (for reference) the unit and line of the stop.
\<close>

record stop_in =
  si_faults :: "u64 list"
  si_env :: stop_env
  si_mem :: "u64 \<Rightarrow> byte"
  si_unit :: nat
  si_line :: nat

definition stop_line :: "rec_env \<Rightarrow> stop_in \<Rightarrow> cached_line" where
  "stop_line re si = cu_lines (re_units re ! si_unit si) ! si_line si"

definition record_stop :: "rec_env \<Rightarrow> bpf_state \<Rightarrow> stop_in \<Rightarrow> tracer \<Rightarrow> tracer outcome" where
  "record_stop re b si t =
     process_breakpoint re (child_bytes (si_mem si)) (si_env si)
       (snd (fold (bpf_callback True (child_bytes (si_mem si)) (\<lambda>n. replicate n 0))
               (map BPF_EVT_PAGEFAULT (si_faults si)) (b, t)))"

fun record_run :: "rec_env \<Rightarrow> bpf_state \<Rightarrow> stop_in list \<Rightarrow> tracer \<Rightarrow> tracer option" where
  "record_run re b [] t = Some t"
| "record_run re b (si # sis) t =
     (case record_stop re b si t of
        Ret SUCCESS t' \<Rightarrow> record_run re b sis t'
      | _ \<Rightarrow> None)"

lemma deliver_faults:
  assumes "\<not> bs_stop b"
  shows "snd (fold (bpf_callback True readv fresh) (map BPF_EVT_PAGEFAULT fs) (b, t)) =
    t\<lparr>tr_proc_mem := map_option (fold (\<lambda>f. ch_put (f, 8)) fs) (tr_proc_mem t),
      tr_mem_dirty := tr_mem_dirty t \<or> fs \<noteq> []\<rparr>"
proof (induction fs arbitrary: t)
  case Nil
  then show ?case by (simp add: option.map_id [unfolded id_def])
next
  case (Cons f fs)
  then show ?case using assms by (simp add: bpf_callback_def option.map_comp comp_def)
qed

text \<open>What the messages sent so far satisfy, at step \<open>s\<close>.\<close>

definition log_inv :: "(u64 \<times> u64) list \<Rightarrow> u64 \<Rightarrow> mem_msg list \<Rightarrow> bool" where
  "log_inv lay s log \<longleftrightarrow>
     (\<forall>m \<in> set log. on_grid lay m \<and> length (mm_content m) = 32 \<and> mm_step_id m \<le> s) \<and>
     sorted (map (\<lambda>m. unat (mm_step_id m)) log) \<and> distinct (map (\<lambda>m. (mm_address m, mm_step_id m)) log)"

lemma log_inv_changes:
  assumes "log_inv (layout c) s log" "changes c cm s' P ms" "s < s'"
  shows "log_inv (layout c) s' (log @ ms)"
proof -
  have ms: "on_grid (layout c) m \<and> length (mm_content m) = 32 \<and> mm_step_id m = s'" if "m \<in> set ms" for m
    using that assms(2) by (auto simp: changes_def msg_new_def)
  have log: "on_grid (layout c) m \<and> length (mm_content m) = 32 \<and> mm_step_id m < s'" if "m \<in> set log" for m
    using that assms(1,3) by (auto simp: log_inv_def)
  have "map (\<lambda>m. unat (mm_step_id m)) ms = replicate (length ms) (unat s')"
    using ms by (intro replicate_eqI) auto
  then have "sorted (map (\<lambda>m. unat (mm_step_id m)) (log @ ms))"
    using assms(1) ms log by (auto simp: log_inv_def sorted_append word_less_nat_alt less_imp_le)
  moreover have "distinct (map (\<lambda>m. (mm_address m, mm_step_id m)) (log @ ms))"
  proof -
    have "distinct (map (\<lambda>m. (mm_address m, mm_step_id m)) ms)"
      using assms(2) by (auto simp: changes_def distinct_map inj_on_def)
    then show ?thesis using assms(1) ms log by (fastforce simp: log_inv_def)
  qed
  ultimately show ?thesis using ms log unfolding log_inv_def by (auto simp: less_imp_le)
qed

text \<open>
  The invariant of a recording: the cache is well formed and reproduced by the messages \<open>log\<close>, and where it
  differs from the child's memory \<open>cm\<close> a page fault is pending.
\<close>

definition rec_inv :: "rec_env \<Rightarrow> tracer \<Rightarrow> mem_msg list \<Rightarrow> (u64 \<Rightarrow> byte) \<Rightarrow> u64 list \<Rightarrow> bool" where
  "rec_inv re t log cm pend \<longleftrightarrow>
     (let c = mc_regions (tr_cache t) in
      cache_wf (re_psz re) c \<and> ch_holds (mc_insert (tr_cache t)) (sized log) \<and> cache_logged c log \<and>
      log_inv (layout c) (tr_step_id t) log \<and>
      (\<exists>ch. tr_proc_mem t = Some ch \<and> ch_holds ch (map (\<lambda>f. (f, 8)) pend)) \<and>
      (tr_mem_dirty t \<or> pend = []) \<and>
      (\<forall>a v. cache_byte c a = Some v \<longrightarrow> v \<noteq> cm a \<longrightarrow> (\<exists>f \<in> set pend. same_page (re_psz re) c f a)) \<and>
      tr_unit t < length (re_units re))"

text \<open>
  A stop as the kernel delivers it: at a known line, with successful calls, and every byte of the cached
  regions that has changed since the last stop lies in a page for which a fault was reported.
\<close>

definition stop_good :: "rec_env \<Rightarrow> region list \<Rightarrow> (u64 \<Rightarrow> byte) \<Rightarrow> stop_in \<Rightarrow> bool" where
  "stop_good re c cm si \<longleftrightarrow>
     si_unit si < length (re_units re) \<and> si_line si < length (cu_lines (re_units re ! si_unit si)) \<and>
     2 \<le> length (cu_lines (re_units re ! si_unit si)) \<and> stop_ok (si_env si) \<and>
     (\<exists>regs. se_regs (si_env si) = Some regs \<and> spares (si_env si) (reg_ip regs - 1) \<and>
        reg_ip regs = cl_address (stop_line re si) + re_base re + 1) \<and>
     (\<forall>a. cache_byte c a \<noteq> None \<longrightarrow> cm a \<noteq> si_mem si a \<longrightarrow> (\<exists>f \<in> set (si_faults si). same_page (re_psz re) c f a))"

text \<open>The bytes that differ after the child has run on are in pages with an old or a new fault.\<close>

lemma pending_covers:
  assumes "rec_inv re t log cm pend" "stop_good re (mc_regions (tr_cache t)) cm si"
    and "cache_byte (mc_regions (tr_cache t)) a = Some v" "v \<noteq> si_mem si a"
  shows "\<exists>f \<in> set (pend @ si_faults si). same_page (re_psz re) (mc_regions (tr_cache t)) f a"
proof (cases "v = cm a")
  case True
  then show ?thesis using assms(2-4) by (auto simp: stop_good_def)
next
  case False
  then show ?thesis using assms(1,3) by (auto simp: rec_inv_def Let_def)
qed

text \<open>The processing of memory at a stop keeps the invariant; except at the first line of a function it leaves
  no fault pending.\<close>

lemma bp_memory_inv:
  assumes inv: "rec_inv re t log cm pend" and good: "stop_good re (mc_regions (tr_cache t)) cm si"
    and re: "re_memdiff re = best_memdiff feat MEM_SEGMENT_SIZE" "32 dvd re_psz re" "length (re_stk re) = re_psz re"
    and cache: "tr_cache t1 = tr_cache t" and step: "tr_step_id t1 = tr_step_id t + 1" "tr_step_id t < tr_step_id t + 1"
    and ch: "tr_proc_mem t1 = Some ch" "ch_holds ch (map (\<lambda>f. (f, 8)) (pend @ si_faults si))"
    and dirty: "tr_mem_dirty t1 \<longleftrightarrow> tr_mem_dirty t \<or> si_faults si \<noteq> []"
  shows "\<exists>t2 ms pend'. bp_memory re (child_bytes (si_mem si)) line t1 = Some t2 \<and>
    (\<forall>t'. tr_cache t' = tr_cache t2 \<and> tr_proc_mem t' = tr_proc_mem t2 \<and> tr_mem_dirty t' = tr_mem_dirty t2 \<and>
       tr_step_id t' = tr_step_id t + 1 \<and> tr_unit t' < length (re_units re) \<longrightarrow>
       rec_inv re t' (log @ ms) (si_mem si) pend') \<and>
    layout (mc_regions (tr_cache t2)) = layout (mc_regions (tr_cache t)) \<and>
    (cl_func_flag line \<noteq> FUNC_FLAG_START \<longrightarrow> pend' = []) \<and> (\<forall>m \<in> set ms. mm_step_id m = tr_step_id t + 1)"
proof -
  let ?c = "mc_regions (tr_cache t)" and ?all = "pend @ si_faults si"
  have i: "cache_wf (re_psz re) ?c" "ch_holds (mc_insert (tr_cache t)) (sized log)" "cache_logged ?c log"
    "log_inv (layout ?c) (tr_step_id t) log" "tr_mem_dirty t \<or> pend = []" using inv by (auto simp: rec_inv_def Let_def)
  show ?thesis
  proof (cases "tr_mem_dirty t1 \<and> cl_func_flag line \<noteq> FUNC_FLAG_START")
    case False
    then have m: "bp_memory re (child_bytes (si_mem si)) line t1 = Some t1" by (simp only: bp_memory_def if_False)
    have "log_inv (layout ?c) (tr_step_id t + 1) log"
      using log_inv_changes [OF i(4) _ step(2), of "si_mem si" "\<lambda>a. False" "[]"] by (simp add: changes_def)
    then have "rec_inv re t' (log @ []) (si_mem si) ?all"
      if "tr_cache t' = tr_cache t1" "tr_proc_mem t' = tr_proc_mem t1" "tr_mem_dirty t' = tr_mem_dirty t1"
        "tr_step_id t' = tr_step_id t + 1" "tr_unit t' < length (re_units re)" for t'
      using that i ch cache dirty pending_covers [OF inv good] by (auto simp: rec_inv_def Let_def)
    moreover have "cl_func_flag line \<noteq> FUNC_FLAG_START \<longrightarrow> ?all = []" using False dirty i(5) by auto
    ultimately show ?thesis
      using m cache by (intro exI [of _ t1] exI [of _ "[]"] exI [of _ ?all]) auto
  next
    case True
    let ?P = "\<lambda>a. \<exists>f \<in> set ?all. same_page (re_psz re) ?c f a"
    from re(2) obtain n where n: "re_psz re = 32 * n" ..
    obtain ch' mc' ms where p:
      "proc_dirty_mem (re_memdiff re) (re_psz re) (child_bytes (si_mem si)) (re_stk re) (tr_step_id t + 1) ch (tr_cache t)
         = Some (ch', mc')" "ch_holds ch' []" "brought_up (re_psz re) (si_mem si) (tr_step_id t + 1) ?P (tr_cache t) log mc' ms"
      using best.proc_dirty_mem_spec [where readv = "child_bytes (si_mem si)" and cm = "si_mem si",
          OF n refl re(3) i(1,2) ch(2)] unfolding re(1) by blast
    let ?t2 = "t1\<lparr>tr_proc_mem := Some ch', tr_cache := mc', tr_mem_dirty := False\<rparr>"
    have m: "bp_memory re (child_bytes (si_mem si)) line t1 = Some ?t2"
      using True ch(1) p(1) cache step(1) by (simp add: bp_memory_def)
    have bu: "cache_wf (re_psz re) (mc_regions mc')" "ch_holds (mc_insert mc') (sized (log @ ms))"
      "changes ?c (si_mem si) (tr_step_id t + 1) ?P ms" "refreshed ?c (si_mem si) ?P (mc_regions mc')"
      using p(3) by (simp_all add: brought_up_def)
    have lay: "layout (mc_regions mc') = layout ?c" using bu(4) by (simp add: refreshed_def)
    have logged: "cache_logged (mc_regions mc') (log @ ms)" using i(3) bu(3,4) by (rule refreshed_logged)
    have linv: "log_inv (layout (mc_regions mc')) (tr_step_id t + 1) (log @ ms)"
      using log_inv_changes [OF i(4) bu(3) step(2)] lay by simp
    have sync: "v = si_mem si a" if "cache_byte (mc_regions mc') a = Some v" for a v
      using that bu(4) pending_covers [OF inv good, of a v] by (auto simp: refreshed_def split: if_splits)
    have "rec_inv re t' (log @ ms) (si_mem si) []"
      if "tr_cache t' = tr_cache ?t2" "tr_proc_mem t' = tr_proc_mem ?t2" "tr_mem_dirty t' = tr_mem_dirty ?t2"
        "tr_step_id t' = tr_step_id t + 1" "tr_unit t' < length (re_units re)" for t'
      using that bu(1,2) logged linv sync p(2) by (auto simp: rec_inv_def Let_def)
    moreover have "\<forall>m \<in> set ms. mm_step_id m = tr_step_id t + 1" using bu(3) by (auto simp: changes_def msg_new_def)
    ultimately show ?thesis
      using m lay by (intro exI [of _ ?t2] exI [of _ ms] exI [of _ "[]"]) auto
  qed
qed

text \<open>What is fixed during a recording: the units and the comparison of memory.\<close>

definition rec_ok :: "rec_env \<Rightarrow> bpf_state \<Rightarrow> bool" where
  "rec_ok re b \<longleftrightarrow>
     units_ok (re_units re) \<and> (\<exists>feat. re_memdiff re = best_memdiff feat MEM_SEGMENT_SIZE) \<and>
     32 dvd re_psz re \<and> length (re_stk re) = re_psz re \<and> \<not> bs_stop b"

lemma record_stop_inv:
  assumes ok: "rec_ok re b" and inv: "rec_inv re t log cm pend" and good: "stop_good re (mc_regions (tr_cache t)) cm si"
    and step: "tr_step_id t < tr_step_id t + 1"
  shows "\<exists>t' ms pend'. record_stop re b si t = Ret SUCCESS t' \<and> rec_inv re t' (log @ ms) (si_mem si) pend' \<and>
    tr_step_id t' = tr_step_id t + 1 \<and> layout (mc_regions (tr_cache t')) = layout (mc_regions (tr_cache t)) \<and>
    (cl_func_flag (stop_line re si) \<noteq> FUNC_FLAG_START \<longrightarrow> pend' = []) \<and>
    (\<forall>m \<in> set ms. mm_step_id m = tr_step_id t + 1)"
proof -
  let ?line = "stop_line re si"
  obtain ch where ch: "tr_proc_mem t = Some ch" "ch_holds ch (map (\<lambda>f. (f, 8)) pend)" and unit: "tr_unit t < length (re_units re)"
    using inv by (auto simp: rec_inv_def Let_def)
  let ?ch = "fold (\<lambda>f. ch_put (f, 8)) (si_faults si) ch"
  let ?t0 = "t\<lparr>tr_proc_mem := Some ?ch, tr_mem_dirty := tr_mem_dirty t \<or> si_faults si \<noteq> []\<rparr>"
  have ch0: "ch_holds ?ch (map (\<lambda>f. (f, 8)) (pend @ si_faults si))"
    using chan.rep_put_all [OF ch(2), of "map (\<lambda>f. (f, 8)) (si_faults si)"] by (simp add: fold_map comp_def)
  have stop: "record_stop re b si t = process_breakpoint re (child_bytes (si_mem si)) (si_env si) ?t0"
    using ok ch(1) by (simp add: record_stop_def rec_ok_def deliver_faults)
  obtain regs where regs: "se_regs (si_env si) = Some regs" "reg_ip regs = cl_address ?line + re_base re + 1"
    and exec: "spares (si_env si) (reg_ip regs - 1)" using good by (auto simp: stop_good_def)
  let ?t1 = "?t0\<lparr>tr_trig := (if tr_mem_dirty ?t0 then Suc (tr_trig ?t0) else tr_trig ?t0),
      tr_step_id := tr_step_id ?t0 + 1, tr_unit := si_unit si, tr_depth := entered_depth ?line (tr_depth ?t0),
      tr_func_id := cl_func_id ?line\<rparr>"
  obtain feat where re: "re_memdiff re = best_memdiff feat MEM_SEGMENT_SIZE" "32 dvd re_psz re"
    "length (re_stk re) = re_psz re" "units_ok (re_units re)" using ok by (auto simp: rec_ok_def)
  have "tr_cache ?t1 = tr_cache t" "tr_step_id ?t1 = tr_step_id t + 1" "tr_proc_mem ?t1 = Some ?ch"
    "tr_mem_dirty ?t1 \<longleftrightarrow> tr_mem_dirty t \<or> si_faults si \<noteq> []" by simp_all
  from bp_memory_inv [OF inv good re(1-3) this(1,2) step this(3) ch0 this(4), of ?line]
  obtain t2 ms pend' where m: "bp_memory re (child_bytes (si_mem si)) ?line ?t1 = Some t2"
    "\<And>t'. tr_cache t' = tr_cache t2 \<and> tr_proc_mem t' = tr_proc_mem t2 \<and> tr_mem_dirty t' = tr_mem_dirty t2 \<and>
       tr_step_id t' = tr_step_id t + 1 \<and> tr_unit t' < length (re_units re) \<Longrightarrow>
       rec_inv re t' (log @ ms) (si_mem si) pend'"
    "layout (mc_regions (tr_cache t2)) = layout (mc_regions (tr_cache t))"
    "cl_func_flag ?line \<noteq> FUNC_FLAG_START \<longrightarrow> pend' = []" "\<forall>m \<in> set ms. mm_step_id m = tr_step_id t + 1"
    by blast
  have g: "si_unit si < length (re_units re)" "si_line si < length (cu_lines (re_units re ! si_unit si))"
    "2 \<le> length (cu_lines (re_units re ! si_unit si))" "stop_ok (si_env si)" using good by (auto simp: stop_good_def)
  have unit0: "tr_unit ?t0 < length (re_units re)" using unit by simp
  obtain t' where t': "process_breakpoint re (child_bytes (si_mem si)) (si_env si) ?t0 = Ret SUCCESS t'"
    "tr_step_id t' = tr_step_id ?t0 + 1" "tr_unit t' = si_unit si" "tr_cache t' = tr_cache t2"
    "tr_proc_mem t' = tr_proc_mem t2" "tr_mem_dirty t' = tr_mem_dirty t2"
    using process_breakpoint_at_line [OF re(4) unit0 g(1-4) exec regs(1) regs(2) [unfolded stop_line_def]
        m(1) [unfolded stop_line_def]] by blast
  then show ?thesis using stop m(2) [of t'] m(3-5) g(1) by auto
qed

text \<open>The stops of a recording, each good with respect to the memory of the one before.\<close>

fun stops_good :: "rec_env \<Rightarrow> region list \<Rightarrow> (u64 \<Rightarrow> byte) \<Rightarrow> stop_in list \<Rightarrow> bool" where
  "stops_good re c cm [] \<longleftrightarrow> True"
| "stops_good re c cm (si # sis) \<longleftrightarrow> stop_good re c cm si \<and> stops_good re c (si_mem si) sis"

lemma in_layout_cached: "layout c = layout c' \<Longrightarrow> (cache_byte c a = None) = (cache_byte c' a = None)"
proof -
  have "(\<forall>r \<in> set c. \<not> in_region a r) \<longleftrightarrow> (\<forall>(s, e) \<in> set (layout c). \<not> (s \<le> a \<and> a < e))" for c
    by (auto simp: layout_def in_region_def)
  then show "layout c = layout c' \<Longrightarrow> ?thesis" by (simp add: cache_byte_None)
qed

lemma stop_good_layout:
  assumes "layout c = layout c'" "cache_wf (re_psz re) c" "stop_good re c cm si"
  shows "stop_good re c' cm si"
  using assms(3) in_layout_cached [OF assms(1)] same_page_layout [OF assms(1,2)] by (simp add: stop_good_def)

lemma stops_good_layout:
  "layout c = layout c' \<Longrightarrow> cache_wf (re_psz re) c \<Longrightarrow> stops_good re c cm sis \<Longrightarrow> stops_good re c' cm sis"
  by (induction sis arbitrary: cm) (auto intro: stop_good_layout)

text \<open>The messages up to a step are the first ones of the log.\<close>

lemma upto_step_append:
  assumes "\<forall>m \<in> set log. mm_step_id m \<le> s" "\<forall>m \<in> set later. s < mm_step_id m"
  shows "upto_step s (log @ later) = log"
proof -
  have "filter (\<lambda>m. mm_step_id m \<le> s) log = log" using assms(1) by (simp add: filter_id_conv)
  moreover have "filter (\<lambda>m. mm_step_id m \<le> s) later = []" using assms(2) by (simp add: filter_empty_conv not_le)
  ultimately show ?thesis by (simp add: upto_step_def)
qed

text \<open>With no fault pending the log reproduces the child's memory.\<close>

lemma rec_inv_synced:
  assumes "rec_inv re t log cm []" "cache_byte (mc_regions (tr_cache t)) a \<noteq> None"
  shows "recorded log a = Some (cm a)"
  using assms by (auto simp: rec_inv_def Let_def cache_logged_def)

lemma record_run_inv:
  assumes ok: "rec_ok re b"
  shows "rec_inv re t log cm pend \<Longrightarrow> stops_good re (mc_regions (tr_cache t)) cm sis \<Longrightarrow>
    unat (tr_step_id t) + length sis < 2 ^ 63 \<Longrightarrow>
    \<exists>t' log'. record_run re b sis t = Some t' \<and> ch_holds (mc_insert (tr_cache t')) (sized (log @ log')) \<and>
      cache_wf (re_psz re) (mc_regions (tr_cache t')) \<and>
      layout (mc_regions (tr_cache t')) = layout (mc_regions (tr_cache t)) \<and>
      log_inv (layout (mc_regions (tr_cache t))) (tr_step_id t') (log @ log') \<and>
      unat (tr_step_id t') = unat (tr_step_id t) + length sis \<and> (\<forall>m \<in> set log'. tr_step_id t < mm_step_id m) \<and>
      (\<forall>j < length sis. cl_func_flag (stop_line re (sis ! j)) \<noteq> FUNC_FLAG_START \<longrightarrow>
         (\<forall>a. cache_byte (mc_regions (tr_cache t)) a \<noteq> None \<longrightarrow>
            recorded (upto_step (tr_step_id t + word_of_nat (Suc j)) (log @ log')) a = Some (si_mem (sis ! j) a)))"
proof (induction sis arbitrary: t log cm pend)
  case Nil
  then show ?case by (intro exI [of _ t] exI [of _ "[]"]) (auto simp: rec_inv_def Let_def)
next
  case (Cons si sis)
  let ?c = "mc_regions (tr_cache t)"
  have s1: "unat (tr_step_id t + 1) = Suc (unat (tr_step_id t))"
    using unat_add_offset [of "tr_step_id t" 1] Cons.prems(3) by simp
  have s: "tr_step_id t < tr_step_id t + 1" unfolding u64_less_unat s1 by simp
  obtain t1 ms pend1 where 1: "record_stop re b si t = Ret SUCCESS t1" "rec_inv re t1 (log @ ms) (si_mem si) pend1"
    "tr_step_id t1 = tr_step_id t + 1" "layout (mc_regions (tr_cache t1)) = layout ?c"
    "cl_func_flag (stop_line re si) \<noteq> FUNC_FLAG_START \<longrightarrow> pend1 = []" "\<forall>m \<in> set ms. mm_step_id m = tr_step_id t + 1"
    using record_stop_inv [OF ok Cons.prems(1) _ s] Cons.prems(2) by (metis stops_good.simps(2))
  have wf: "cache_wf (re_psz re) ?c" using Cons.prems(1) by (auto simp: rec_inv_def Let_def)
  have "stops_good re (mc_regions (tr_cache t1)) (si_mem si) sis"
    using stops_good_layout [OF 1(4) [symmetric] wf] Cons.prems(2) by simp
  moreover have "unat (tr_step_id t1) + length sis < 2 ^ 63" using Cons.prems(3) 1(3) s1 by simp
  ultimately obtain t' log2 where 2: "record_run re b sis t1 = Some t'"
    "ch_holds (mc_insert (tr_cache t')) (sized ((log @ ms) @ log2))" "cache_wf (re_psz re) (mc_regions (tr_cache t'))"
    "layout (mc_regions (tr_cache t')) = layout (mc_regions (tr_cache t1))"
    "log_inv (layout (mc_regions (tr_cache t1))) (tr_step_id t') ((log @ ms) @ log2)"
    "unat (tr_step_id t') = unat (tr_step_id t1) + length sis" "\<forall>m \<in> set log2. tr_step_id t1 < mm_step_id m"
    "\<And>j a. j < length sis \<Longrightarrow> cl_func_flag (stop_line re (sis ! j)) \<noteq> FUNC_FLAG_START \<Longrightarrow>
        cache_byte (mc_regions (tr_cache t1)) a \<noteq> None \<Longrightarrow>
        recorded (upto_step (tr_step_id t1 + word_of_nat (Suc j)) ((log @ ms) @ log2)) a = Some (si_mem (sis ! j) a)"
    using Cons.IH [OF 1(2)] by blast
  have cached: "cache_byte (mc_regions (tr_cache t1)) a \<noteq> None" if "cache_byte ?c a \<noteq> None" for a
    using that in_layout_cached [OF 1(4), of a] by simp
  have upto: "upto_step (tr_step_id t1) ((log @ ms) @ log2) = log @ ms"
    using 1(2) 2(7) by (intro upto_step_append) (auto simp: rec_inv_def Let_def log_inv_def)
  have sync: "recorded (upto_step (tr_step_id t + word_of_nat (Suc j)) (log @ ms @ log2)) a = Some (si_mem ((si # sis) ! j) a)"
    if j: "j < length (si # sis)" "cl_func_flag (stop_line re ((si # sis) ! j)) \<noteq> FUNC_FLAG_START"
      and a: "cache_byte ?c a \<noteq> None" for j a
  proof (cases j)
    case 0
    then have "pend1 = []" using 1(5) j(2) by simp
    then show ?thesis using 0 rec_inv_synced [of re t1 "log @ ms" "si_mem si" a] 1(2,3) cached [OF a] upto by simp
  next
    case (Suc i)
    then show ?thesis using 2(8) [of i a] j cached [OF a] 1(3) by (simp add: add.assoc)
  qed
  have "record_run re b (si # sis) t = Some t'" using 1(1) 2(1) by simp
  moreover have "\<forall>m \<in> set (ms @ log2). tr_step_id t < mm_step_id m" using 1(3,6) 2(7) s by auto
  ultimately show ?case
    using 2(2-6) 1(3,4) s1 sync by (intro exI [of _ t'] exI [of _ "ms @ log2"]) simp
qed

section \<open>A sample recording\<close>

definition sample_env :: rec_env where
  "sample_env = \<lparr>re_units = sample_units, re_base = 0, re_psz = 64,
     re_memdiff = best_memdiff \<lparr>built_avx512dq = False, built_avx2 = True, built_sse2 = True, cpu_avx512dq = False,
       cpu_avx2 = True, cpu_sse2 = True\<rparr> MEM_SEGMENT_SIZE, re_stk = replicate 64 0\<rparr>"

definition sample_bpf :: bpf_state where
  "sample_bpf = \<lparr>bs_mapped_size = 0, bs_count = False, bs_brk_boundary = 0, bs_sem = 0, bs_stop = False\<rparr>"

text \<open>A child with one page of zero bytes, recorded at step 1.\<close>

definition sample_tracer :: tracer where
  "sample_tracer = \<lparr>tr_step_id = 1, tr_depth = 1, tr_func_id = 1, tr_unit = 0, tr_mem_dirty = True,
     tr_cache = cache_add_region (child_bytes (\<lambda>a. 0)) (replicate 64 0) 64 64 1
       \<lparr>mc_regions = [], mc_insert = the (ch_create True True)\<rparr>,
     tr_proc_mem = Some (the (ch_create True True)), tr_insert_step = the (ch_create True True),
     tr_insert_heap = the (ch_create True True), tr_code = (\<lambda>a. 0xCC), tr_ip = 0, tr_trig = 0, tr_wait = 0\<rparr>"

text \<open>Then the child fills the page with fives, which causes one page fault, and stops at a line.\<close>

definition sample_stop :: stop_in where
  "sample_stop = \<lparr>si_faults = [100],
     si_env = \<lparr>se_regs = Some \<lparr>reg_gpr = [], reg_ip = 104\<rparr>, se_events = [], se_read_ok = True, se_peek_ok = True,
       se_poke_ok = True, se_set_ip_ok = True, se_step_ok = True, se_step_exec = Pair, se_trap_ok = True,
       se_repoke_ok = True\<rparr>,
     si_mem = (\<lambda>a. 5), si_unit = 0, si_line = 1\<rparr>"

section \<open>Properties\<close>

text \<open>
  C20.  A stop is transparent to the child: at every stop at a known line whose system calls succeed, and whose changes of
  memory can be collected, the child executes one instruction from the address of the line, with exactly its original byte in
  place of the breakpoint; it goes on from where that instruction leads, with what it wrote, and with the breakpoint back in
  place.  The reset of page references has been awaited exactly when it was triggered.
\<close>

theorem breakpoint_transparent:
  assumes "units_ok (re_units re)" "tr_unit t < length (re_units re)" "k < length (re_units re)"
    and "p < length (cu_lines (re_units re ! k))" "2 \<le> length (cu_lines (re_units re ! k))"
    and "stop_ok se" "spares se pc"
    and "se_regs se = Some regs" "pc = reg_ip regs - 1" "pc = cl_address (cu_lines (re_units re ! k) ! p) + re_base re"
    and "tr_mem_dirty t \<longrightarrow> cl_func_flag (cu_lines (re_units re ! k) ! p) = FUNC_FLAG_START \<or>
      (\<exists>ch. tr_proc_mem t = Some ch \<and>
        proc_dirty_mem (re_memdiff re) (re_psz re) readv (re_stk re) (tr_step_id t + 1) ch (tr_cache t) \<noteq> None)"
    and "se_step_exec se pc ((tr_code t)(pc := cl_org_instr_byte (cu_lines (re_units re ! k) ! p))) = (ip, code)"
  shows "\<exists>t'. process_breakpoint re readv se t = Ret SUCCESS t' \<and> tr_ip t' = ip \<and> tr_code t' = code(pc := 0xCC) \<and>
    tr_trig t' - tr_trig t = tr_wait t' - tr_wait t"
proof -
  let ?line = "cu_lines (re_units re ! k) ! p"
  obtain t2 where mem: "bp_memory re readv ?line
      (t\<lparr>tr_trig := (if tr_mem_dirty t then Suc (tr_trig t) else tr_trig t), tr_step_id := tr_step_id t + 1,
         tr_unit := k, tr_depth := entered_depth ?line (tr_depth t), tr_func_id := cl_func_id ?line\<rparr>) = Some t2"
    using assms(11) by (fastforce simp: bp_memory_def)
  have regs: "reg_ip regs = cl_address ?line + re_base re + 1" using assms(9,10) by (simp add: algebra_simps)
  from process_breakpoint_at_line [OF assms(1-6) _ assms(8) regs mem] assms(7,9) obtain t' where
    "process_breakpoint re readv se t = Ret SUCCESS t'"
    "(tr_ip t', tr_code t') = stepped se pc (cl_org_instr_byte ?line) (tr_code t)"
    "tr_trig t' = (if tr_mem_dirty t then Suc (tr_trig t) else tr_trig t)"
    "tr_wait t' = (if tr_mem_dirty t then Suc (tr_wait t) else tr_wait t)" by auto
  then show ?thesis using assms(12) by (auto simp: stepped_def)
qed

text \<open>The witness: the instruction adds one to a byte of the stack and is one byte long.\<close>

theorem breakpoint_transparent_witness:
  "\<exists>t'. process_breakpoint sample_env (child_bytes (\<lambda>a. 0))
      ((si_env sample_stop)\<lparr>se_step_exec := \<lambda>ip c. (ip + 1, c(4000 := c 4000 + c ip))\<rparr>) (sample_tracer\<lparr>tr_mem_dirty := False\<rparr>)
      = Ret SUCCESS t' \<and> tr_ip t' = 104 \<and> tr_code t' = ((\<lambda>a. 0xCC)(103 := 0x55, 4000 := 0xCC + 0x55))(103 := 0xCC) \<and>
    tr_trig t' - tr_trig (sample_tracer\<lparr>tr_mem_dirty := False\<rparr>) = tr_wait t' - tr_wait (sample_tracer\<lparr>tr_mem_dirty := False\<rparr>)"
proof (rule breakpoint_transparent [where regs = "\<lparr>reg_gpr = [], reg_ip = 104\<rparr>" and k = 0 and p = 1])
  show "spares ((si_env sample_stop)\<lparr>se_step_exec := \<lambda>ip c. (ip + 1, c(4000 := c 4000 + c ip))\<rparr>) 103"
  proof -
    have "(103 :: u64) + word_of_nat i \<noteq> 4000" if "i < 8" for i
    proof
      assume "(103 :: u64) + word_of_nat i = 4000"
      then have "(word_of_nat i :: u64) = 3897" by (simp add: algebra_simps)
      then have "unat (word_of_nat i :: u64) = 3897" by simp
      then show False using that unat_word_of_nat_small [where 'a = 64, of i] by simp
    qed
    then show ?thesis by (simp add: spares_def)
  qed
qed (simp_all add: sample_env_def sample_stop_def sample_tracer_def sample_units_def sample_line_def units_ok_def
      unit_ok_def lines_ok_def stop_ok_def)

text \<open>
  The first stop: \<^verbatim>\<open>record\<close> processes it before the channel of page faults is created.  When it is
  not at the first line of a function, the recorder follows a null pointer.
\<close>

theorem first_stop_null_channel:
  assumes "units_ok (re_units re)" "tr_unit t < length (re_units re)" "k < length (re_units re)"
    and "p < length (cu_lines (re_units re ! k))" "2 \<le> length (cu_lines (re_units re ! k))"
    and "se_regs se = Some regs" "reg_ip regs = cl_address (cu_lines (re_units re ! k) ! p) + re_base re + 1"
    and "tr_mem_dirty t" "tr_proc_mem t = None" "cl_func_flag (cu_lines (re_units re ! k) ! p) \<noteq> FUNC_FLAG_START"
  shows "process_breakpoint re readv se t = Crash_Process"
proof -
  have "lookup_cache (re_units re) (tr_unit t) (reg_ip regs - 1 - re_base re) = (k, Some (Found p))"
    using lookup_finds [OF assms(1-5)] assms(7) by simp
  then show ?thesis
    using assms(6,8-10)
    by (simp add: process_breakpoint_def bp_begin_def bp_memory_def bp_enter_eq Let_def)
qed

theorem first_stop_null_channel_witness:
  "process_breakpoint sample_env (child_bytes (\<lambda>a. 0)) (si_env sample_stop) (sample_tracer\<lparr>tr_proc_mem := None\<rparr>)
     = Crash_Process"
  by (rule first_stop_null_channel [where k = 0 and p = 1 and regs = "\<lparr>reg_gpr = [], reg_ip = 104\<rparr>"])
    (simp_all add: sample_env_def sample_stop_def sample_tracer_def sample_units_def sample_line_def units_ok_def
      unit_ok_def lines_ok_def FUNC_FLAG_START_def)

lemma bpf_callback_sem:
  assumes "\<not> bs_stop b"
  shows "\<not> bs_stop (fst (bpf_callback True readv fresh ev (b, t)))"
    and "bs_sem (fst (bpf_callback True readv fresh ev (b, t))) =
      (if ev = BPF_EVT_SIGNAL SIGTRAP \<and> \<not> bs_count b then Suc (bs_sem b) else bs_sem b)"
    and "bs_count (fst (bpf_callback True readv fresh ev (b, t))) =
      (if ev = BPF_EVT_SIGNAL SIGTRAP then \<not> bs_count b else bs_count b)"
  using assms by (cases ev; simp add: bpf_callback_def Let_def)+

lemma bpf_sigtraps:
  "\<not> bs_stop b \<Longrightarrow>
   bs_sem (fst (fold (bpf_callback True readv fresh) evs (b, t))) =
     bs_sem b + (length (filter (\<lambda>e. e = BPF_EVT_SIGNAL SIGTRAP) evs) + (if bs_count b then 0 else 1)) div 2"
proof (induction evs arbitrary: b t)
  case Nil
  then show ?case by simp
next
  case (Cons e evs)
  obtain b' t' where bt: "bpf_callback True readv fresh e (b, t) = (b', t')" by (metis prod.collapse)
  have "\<not> bs_stop b'" "bs_sem b' = (if e = BPF_EVT_SIGNAL SIGTRAP \<and> \<not> bs_count b then Suc (bs_sem b) else bs_sem b)"
    "bs_count b' = (if e = BPF_EVT_SIGNAL SIGTRAP then \<not> bs_count b else bs_count b)"
    using bpf_callback_sem [OF Cons.prems, of readv fresh e t] bt by simp_all
  then show ?case using Cons.IH [of b' t'] bt by simp
qed

text \<open>
  The kernel reports two \<^verbatim>\<open>SIGTRAP\<close>s per stop, the breakpoint and the single step.  Whatever other events
  come in between, the callback posts the semaphore for every first one of a pair, and never for the second.
\<close>

theorem bpf_sigtrap_pairs:
  assumes "\<not> bs_stop b" "\<not> bs_count b"
  shows "bs_sem (fst (fold (bpf_callback True readv fresh) evs (b, t))) =
    bs_sem b + (length (filter (\<lambda>e. e = BPF_EVT_SIGNAL SIGTRAP) evs) + 1) div 2"
  using bpf_sigtraps [OF assms(1)] assms(2) by simp

theorem bpf_sigtrap_pairs_witness:
  "bs_sem (fst (fold (bpf_callback True (child_bytes (\<lambda>a. 0)) (\<lambda>n. replicate n 0))
     [BPF_EVT_SIGNAL SIGTRAP, BPF_EVT_PAGEFAULT 100, BPF_EVT_SIGNAL SIGTRAP, BPF_EVT_SIGNAL SIGTRAP]
     (sample_bpf, sample_tracer))) = 2"
  by (subst bpf_sigtrap_pairs) (simp_all add: sample_bpf_def)

lemma bp_step_over_keeps:
  "bp_step_over se w pc line t = Ret SUCCESS t' \<Longrightarrow> tr_depth t' = tr_depth t \<and> tr_insert_step t' = tr_insert_step t \<and>
   tr_insert_heap t' = tr_insert_heap t \<and> tr_step_id t' = tr_step_id t \<and> tr_unit t' = tr_unit t"
  by (auto simp: bp_step_over_def Let_def split: if_splits prod.splits)

lemma bp_memory_keeps:
  "bp_memory re readv line t = Some t' \<Longrightarrow> tr_depth t' = tr_depth t \<and> tr_insert_step t' = tr_insert_step t \<and>
   tr_step_id t' = tr_step_id t \<and> tr_func_id t' = tr_func_id t \<and> tr_insert_heap t' = tr_insert_heap t \<and>
   tr_unit t' = tr_unit t"
  by (auto simp: bp_memory_def split: if_splits option.splits)

lemma process_breakpoint_success:
  assumes "process_breakpoint re readv se t = Ret SUCCESS t'"
  obtains u i regs where "lookup_cache (re_units re) (tr_unit t) (reg_ip regs - 1 - re_base re) = (u, Some (Found i))"
    "se_regs se = Some regs"
    "tr_depth t' = left_depth (cu_lines (re_units re ! u) ! i) (entered_depth (cu_lines (re_units re ! u) ! i) (tr_depth t))"
    "tr_insert_step t' = ch_put (step_msg_at re regs (cu_lines (re_units re ! u) ! i) t, step_msg_size) (tr_insert_step t)"
    "tr_insert_heap t' = fold (\<lambda>e. ch_put (heap_msg_of (tr_step_id t + 1) e, heap_msg_size)) (se_events se) (tr_insert_heap t)"
    "tr_step_id t' = tr_step_id t + 1" "tr_unit t' = u"
proof -
  have b: "tr_unit (snd (bp_begin t)) = tr_unit t" "tr_depth (snd (bp_begin t)) = tr_depth t"
    "tr_step_id (snd (bp_begin t)) = tr_step_id t + 1" "tr_insert_step (snd (bp_begin t)) = tr_insert_step t"
    "tr_insert_heap (snd (bp_begin t)) = tr_insert_heap t" by (simp_all add: bp_begin_def Let_def)
  obtain regs where regs: "se_regs se = Some regs"
    using assms by (cases "se_regs se") (auto simp: process_breakpoint_def case_prod_beta)
  obtain u r where look: "lookup_cache (re_units re) (tr_unit t) (reg_ip regs - 1 - re_base re) = (u, r)"
    by (metis prod.collapse)
  have "\<exists>i. r = Some (Found i)"
    using assms regs look b by (auto simp: process_breakpoint_def case_prod_beta Let_def split: option.splits search_result.splits)
  then obtain i where i: "r = Some (Found i)" ..
  let ?line = "cu_lines (re_units re ! u) ! i"
  obtain t3 where m: "bp_memory re readv ?line (bp_enter ?line ((snd (bp_begin t))\<lparr>tr_unit := u\<rparr>)) = Some t3"
    using assms regs look i b
    by (cases "bp_memory re readv ?line (bp_enter ?line ((snd (bp_begin t))\<lparr>tr_unit := u\<rparr>))")
      (auto simp: process_breakpoint_def case_prod_beta Let_def)
  note keep = bp_memory_keeps [OF m]
  let ?t4 = "bp_heap_events (se_events se) (bp_store_step (reg_ip regs - 1 - re_base re) regs t3)"
  have "bp_step_over se (fst (bp_begin t)) (reg_ip regs - 1) ?line
      (if cl_func_flag ?line = FUNC_FLAG_END then ?t4\<lparr>tr_depth := tr_depth ?t4 - 1\<rparr> else ?t4) = Ret SUCCESS t'"
    using assms regs look i b m by (simp add: process_breakpoint_def case_prod_beta Let_def split: if_splits)
  note over = bp_step_over_keeps [OF this]
  show ?thesis
    using over keep b
    by (intro that [OF look [unfolded i] regs])
      (simp_all add: bp_enter_eq bp_heap_events_def bp_store_step_def left_depth_def step_msg_at_def)
qed

end
