(* ===== verification/Breakpoints.thy ===== *)
theory Breakpoints
  imports Run
begin

text \<open>
  Placing the breakpoints, \<^verbatim>\<open>set_breakpoints\<close> of \<^verbatim>\<open>record/run.c\<close>: for every line of every unit the first byte of
  the code is saved in the line cache and replaced by the trap instruction.  When an address cannot be
  read, the base address of the program is determined once and added from then on.  The rows of the two
  queries and the outcome of the system calls are inputs.
\<close>

section \<open>Definitions\<close>

record line_row =
  lr_address :: u64
  lr_func_id :: u64
  lr_func_flag :: byte

record unit_row =
  ur_start :: u64
  ur_end :: u64
  ur_lines :: "line_row list"

text \<open>
  \<open>be_readable a\<close>: the child's code at \<open>a\<close> can be read (otherwise \<^verbatim>\<open>errno\<close> is \<^verbatim>\<open>EIO\<close> or \<^verbatim>\<open>EFAULT\<close>);
  \<open>be_base\<close>: the result of \<^verbatim>\<open>get_base_address\<close>; \<open>be_store_ok\<close>: the base address can be stored; \<open>be_poke a\<close>: the code
  at \<open>a\<close> can be written; the remaining fields are the outcomes of the database calls.
\<close>

record bp_env =
  be_readable :: "u64 \<Rightarrow> bool"
  be_base :: "u64 option"
  be_store_ok :: bool
  be_poke :: "u64 \<Rightarrow> bool"
  be_open_ok :: bool
  be_bind_ok :: bool
  be_lines_end :: dab_status
  be_units_end :: dab_status

record bp_state =
  bp_base :: u64
  bp_code :: "u64 \<Rightarrow> byte"

text \<open>The base address to use for a line: \<open>None\<close> is failure.\<close>

definition line_base :: "bp_env \<Rightarrow> u64 \<Rightarrow> u64 \<Rightarrow> u64 option" where
  "line_base be base a =
     (if be_readable be (a + base) then Some base
      else if base = 0 then
        (case be_base be of
           None \<Rightarrow> None
         | Some base' \<Rightarrow>
             if base' = 0 then None
             else if \<not> be_store_ok be then None
             else if be_readable be (a + base') then Some base' else None)
      else None)"

text \<open>One line: save the original byte, write the trap.\<close>

definition set_line :: "bp_env \<Rightarrow> line_row \<Rightarrow> bp_state \<Rightarrow> (cached_line \<times> bp_state) option" where
  "set_line be l s =
     (case line_base be (bp_base s) (lr_address l) of
        None \<Rightarrow> None
      | Some base \<Rightarrow>
          (let pos = lr_address l + base;
               instr = peek (bp_code s) pos;
               line = \<lparr>cl_address = lr_address l, cl_func_id = lr_func_id l, cl_func_flag = lr_func_flag l,
                       cl_org_instr_byte = ucast (instr AND 0xFF)\<rparr>
           in if \<not> be_poke be pos then None
              else Some (line, s\<lparr>bp_base := base, bp_code := poke (bp_code s) pos (with_low_byte instr INT3)\<rparr>)))"

fun set_lines :: "bp_env \<Rightarrow> line_row list \<Rightarrow> bp_state \<Rightarrow> (cached_line list \<times> bp_state) option" where
  "set_lines be [] s = (if be_lines_end be = DAB_NO_DATA then Some ([], s) else None)"
| "set_lines be (l # ls) s =
     (case set_line be l s of
        None \<Rightarrow> None
      | Some (line, s1) \<Rightarrow>
          (case set_lines be ls s1 of
             None \<Rightarrow> None
           | Some (lines, s2) \<Rightarrow> Some (line # lines, s2)))"

fun set_units :: "bp_env \<Rightarrow> unit_row list \<Rightarrow> bp_state \<Rightarrow> (cached_unit list \<times> bp_state) option" where
  "set_units be [] s = (if be_units_end be = DAB_NO_DATA then Some ([], s) else None)"
| "set_units be (u # us) s =
     (if \<not> be_bind_ok be then None
      else
        case set_lines be (ur_lines u) s of
          None \<Rightarrow> None
        | Some (lines, s1) \<Rightarrow>
            (case set_units be us s1 of
               None \<Rightarrow> None
             | Some (units, s2) \<Rightarrow>
                 Some (\<lparr>cu_start = ur_start u, cu_end = ur_end u, cu_lines = lines\<rparr> # units, s2)))"

text \<open>\<^verbatim>\<open>set_breakpoints\<close>: \<open>None\<close> is \<^verbatim>\<open>FAILURE\<close>.\<close>

definition set_breakpoints :: "bp_env \<Rightarrow> unit_row list \<Rightarrow> bp_state \<Rightarrow> (cached_unit list \<times> bp_state) option" where
  "set_breakpoints be us s = (if \<not> be_open_ok be then None else set_units be us s)"

section \<open>The effect of a pass\<close>

lemma peek_low_byte: "ucast (peek code pc AND 0xFF) = code pc"
proof -
  have m: "(0xFF :: u64) = mask 8" by (simp add: mask_eq_exp_minus_1)
  show ?thesis
    unfolding m by (rule bit_word_eqI) (simp add: bit_ucast_iff bit_and_iff bit_mask_iff bit_peek)
qed

lemma set_line_some:
  assumes "set_line be l s = Some (line, s')"
  shows "cl_address line = lr_address l" "cl_func_id line = lr_func_id l" "cl_func_flag line = lr_func_flag l"
    "cl_org_instr_byte line = bp_code s (lr_address l + bp_base s')"
    "bp_code s' = (bp_code s)(lr_address l + bp_base s' := 0xCC)" "bp_base s \<noteq> 0 \<Longrightarrow> bp_base s' = bp_base s"
proof -
  obtain base where b: "line_base be (bp_base s) (lr_address l) = Some base"
    using assms by (auto simp: set_line_def split: option.splits)
  let ?pos = "lr_address l + base"
  have i3: "INT3 = ucast (0xCC :: byte)" by (simp add: INT3_def)
  have "poke (bp_code s) ?pos (with_low_byte (peek (bp_code s) ?pos) INT3) = (bp_code s)(?pos := 0xCC)"
    unfolding i3 by (rule poke_low_byte) simp
  then show "cl_address line = lr_address l" "cl_func_id line = lr_func_id l" "cl_func_flag line = lr_func_flag l"
    "cl_org_instr_byte line = bp_code s (lr_address l + bp_base s')"
    "bp_code s' = (bp_code s)(lr_address l + bp_base s' := 0xCC)"
    using assms b peek_low_byte by (auto simp: set_line_def Let_def split: if_splits)
  show "bp_base s \<noteq> 0 \<Longrightarrow> bp_base s' = bp_base s"
    using assms b by (auto simp: set_line_def line_base_def Let_def split: if_splits option.splits)
qed

text \<open>The lines of a pass that ran with base address \<open>base\<close> throughout.\<close>

definition lines_set :: "u64 \<Rightarrow> (u64 \<Rightarrow> byte) \<Rightarrow> line_row list \<Rightarrow> cached_line list \<Rightarrow> bool" where
  "lines_set base code rows lines \<longleftrightarrow>
     map cl_address lines = map lr_address rows \<and> map cl_func_id lines = map lr_func_id rows \<and>
     map cl_func_flag lines = map lr_func_flag rows \<and>
     (\<forall>l \<in> set lines. cl_org_instr_byte l = code (cl_address l + base))"

definition with_traps :: "u64 set \<Rightarrow> (u64 \<Rightarrow> byte) \<Rightarrow> (u64 \<Rightarrow> byte)" where
  "with_traps A code = (\<lambda>x. if x \<in> A then 0xCC else code x)"

text \<open>
  When \<open>base\<close> is the base address of a whole pass: it is known, or the program is not relocated, or it is
  found at the first line.
\<close>

definition base_for :: "bp_env \<Rightarrow> u64 \<Rightarrow> bp_state \<Rightarrow> line_row list \<Rightarrow> bool" where
  "base_for be base s rows \<longleftrightarrow>
     (bp_base s = base \<and> (base \<noteq> 0 \<or> (\<forall>l \<in> set rows. be_readable be (lr_address l)))) \<or>
     (bp_base s = 0 \<and> base \<noteq> 0 \<and> be_base be = Some base \<and> rows \<noteq> [] \<and> \<not> be_readable be (lr_address (hd rows)))"

lemma set_line_base:
  assumes "set_line be l s = Some (line, s1)" "base_for be base s (l # rows)"
  shows "bp_base s1 = base" "base_for be base s1 rows"
proof -
  show b: "bp_base s1 = base"
    using assms by (auto simp: set_line_def line_base_def base_for_def Let_def split: if_splits option.splits)
  show "base_for be base s1 rows" using assms(2) b by (auto simp: base_for_def)
qed

lemma set_lines_some:
  "set_lines be rows s = Some (lines, s') \<Longrightarrow> base_for be base s (rows @ rest) \<Longrightarrow> distinct (map lr_address rows) \<Longrightarrow>
   base_for be base s' rest \<and> lines_set base (bp_code s) rows lines \<and>
   bp_code s' = with_traps ((\<lambda>l. lr_address l + base) ` set rows) (bp_code s)"
proof (induction rows arbitrary: s lines)
  case Nil
  then show ?case by (auto simp: lines_set_def with_traps_def split: if_splits)
next
  case (Cons l rows)
  obtain line s1 lines1 where 1: "set_line be l s = Some (line, s1)" "set_lines be rows s1 = Some (lines1, s')"
    "lines = line # lines1" using Cons.prems(1) by (auto split: option.splits)
  have b: "bp_base s1 = base" "base_for be base s1 (rows @ rest)"
    using set_line_base [OF 1(1), of base "rows @ rest"] Cons.prems(2) by simp_all
  note sl = set_line_some [OF 1(1), unfolded b(1)]
  have IH: "base_for be base s' rest \<and> lines_set base (bp_code s1) rows lines1 \<and>
      bp_code s' = with_traps ((\<lambda>l. lr_address l + base) ` set rows) (bp_code s1)"
    using Cons.IH [OF 1(2) b(2)] Cons.prems(3) by simp
  have "set (map cl_address lines1) = set (map lr_address rows)" using IH by (simp add: lines_set_def)
  then have other: "cl_address x \<noteq> lr_address l" if "x \<in> set lines1" for x using that Cons.prems(3) by force
  have "cl_org_instr_byte x = bp_code s (cl_address x + base)" if "x \<in> set lines1" for x
    using that IH sl(5) other [OF that] by (simp add: lines_set_def)
  then have "lines_set base (bp_code s) (l # rows) lines" using IH sl(1-4) 1(3) by (simp add: lines_set_def)
  moreover have "bp_code s' = with_traps ((\<lambda>l. lr_address l + base) ` set (l # rows)) (bp_code s)"
    using IH sl(5) by (auto simp: with_traps_def)
  ultimately show ?case using IH by blast
qed

lemma with_traps_twice: "with_traps A (with_traps B code) = with_traps (A \<union> B) code"
  by (auto simp: with_traps_def)

definition unit_set :: "u64 \<Rightarrow> (u64 \<Rightarrow> byte) \<Rightarrow> unit_row \<Rightarrow> cached_unit \<Rightarrow> bool" where
  "unit_set base code u c \<longleftrightarrow>
     cu_start c = ur_start u \<and> cu_end c = ur_end u \<and> lines_set base code (ur_lines u) (cu_lines c)"

lemma lines_set_traps:
  assumes "lines_set base (with_traps ((\<lambda>l. lr_address l + base) ` A) code) rows lines"
    and "\<And>l. l \<in> A \<Longrightarrow> lr_address l \<notin> lr_address ` set rows"
  shows "lines_set base code rows lines"
proof -
  have "set (map cl_address lines) = set (map lr_address rows)" using assms(1) by (simp add: lines_set_def)
  then have "cl_address x + base \<notin> (\<lambda>l. lr_address l + base) ` A" if "x \<in> set lines" for x
    using that assms(2) by (auto simp: image_iff) force
  then show ?thesis using assms(1) by (simp add: lines_set_def with_traps_def)
qed

lemma set_units_some:
  "set_units be us s = Some (units, s') \<Longrightarrow> base_for be base s (concat (map ur_lines us)) \<Longrightarrow>
   distinct (map lr_address (concat (map ur_lines us))) \<Longrightarrow>
   list_all2 (unit_set base (bp_code s)) us units \<and>
   bp_code s' = with_traps ((\<lambda>l. lr_address l + base) ` set (concat (map ur_lines us))) (bp_code s)"
proof (induction us arbitrary: s units)
  case Nil
  then show ?case by (auto simp: with_traps_def split: if_splits)
next
  case (Cons u us)
  let ?rest = "concat (map ur_lines us)"
  obtain lines s1 units1 where 1: "set_lines be (ur_lines u) s = Some (lines, s1)" "set_units be us s1 = Some (units1, s')"
    "units = \<lparr>cu_start = ur_start u, cu_end = ur_end u, cu_lines = lines\<rparr> # units1"
    using Cons.prems(1) by (auto split: option.splits if_splits)
  have l: "base_for be base s1 ?rest" "lines_set base (bp_code s) (ur_lines u) lines"
    "bp_code s1 = with_traps ((\<lambda>l. lr_address l + base) ` set (ur_lines u)) (bp_code s)"
    using set_lines_some [OF 1(1), of base ?rest] Cons.prems(2,3) by simp_all
  have IH: "list_all2 (unit_set base (bp_code s1)) us units1"
    "bp_code s' = with_traps ((\<lambda>l. lr_address l + base) ` set ?rest) (bp_code s1)"
    using Cons.IH [OF 1(2) l(1)] Cons.prems(3) by simp_all
  have "unit_set base (bp_code s) v c" if "unit_set base (bp_code s1) v c" "v \<in> set us" for v c
  proof -
    have "lr_address l \<notin> lr_address ` set (ur_lines v)" if "l \<in> set (ur_lines u)" for l
      using that \<open>v \<in> set us\<close> Cons.prems(3) by fastforce
    then show ?thesis using that(1) lines_set_traps unfolding unit_set_def l(3) by blast
  qed
  then have "list_all2 (unit_set base (bp_code s)) us units1"
    using IH(1) by (auto simp: list_all2_conv_all_nth)
  moreover have "bp_code s' = with_traps ((\<lambda>l. lr_address l + base) ` set (concat (map ur_lines (u # us)))) (bp_code s)"
    using IH(2) l(3) by (simp add: with_traps_twice image_Un Un_commute)
  moreover have "unit_set base (bp_code s) u \<lparr>cu_start = ur_start u, cu_end = ur_end u, cu_lines = lines\<rparr>"
    using l(2) by (simp add: unit_set_def)
  ultimately show ?case using 1(3) by simp
qed

section \<open>Properties\<close>

text \<open>
  C21.  When \<open>set_breakpoints\<close> succeeds, the child's code has a trap at every line, shifted by the base address,
  and is unchanged everywhere else, and the line cache has the original byte of every line.  The base
  address may be known, not needed, or found at the first line.
\<close>

theorem set_breakpoints_exact:
  assumes "set_breakpoints be us s = Some (units, s')" "base_for be base s (concat (map ur_lines us))"
    and "distinct (map lr_address (concat (map ur_lines us)))"
  shows "bp_code s' = with_traps ((\<lambda>l. lr_address l + base) ` set (concat (map ur_lines us))) (bp_code s) \<and>
    list_all2 (unit_set base (bp_code s)) us units"
  using set_units_some [of be us s units s' base] assms by (simp add: set_breakpoints_def split: if_splits)

definition sample_rows :: "unit_row list" where
  "sample_rows = [\<lparr>ur_start = 16, ur_end = 32,
     ur_lines = [\<lparr>lr_address = 16, lr_func_id = 1, lr_func_flag = 1\<rparr>, \<lparr>lr_address = 32, lr_func_id = 1, lr_func_flag = 2\<rparr>]\<rparr>]"

definition sample_bp_env :: bp_env where
  "sample_bp_env = \<lparr>be_readable = (\<lambda>a. 4096 \<le> a), be_base = Some 4096, be_store_ok = True, be_poke = (\<lambda>a. True),
     be_open_ok = True, be_bind_ok = True, be_lines_end = DAB_NO_DATA, be_units_end = DAB_NO_DATA\<rparr>"

theorem set_breakpoints_exact_witness:
  "\<exists>units s'. set_breakpoints sample_bp_env sample_rows \<lparr>bp_base = 0, bp_code = (\<lambda>a. 0x90)\<rparr> = Some (units, s') \<and>
    bp_code s' 4112 = 0xCC \<and> bp_code s' 4113 = 0x90 \<and>
    list_all2 (unit_set 4096 (\<lambda>a. 0x90)) sample_rows units"
proof -
  let ?s = "\<lparr>bp_base = 0, bp_code = (\<lambda>a. 0x90)\<rparr> :: bp_state"
  obtain units s' where r: "set_breakpoints sample_bp_env sample_rows ?s = Some (units, s')"
    by (auto simp: set_breakpoints_def sample_bp_env_def sample_rows_def set_line_def line_base_def Let_def)
  have "bp_code s' = with_traps ((\<lambda>l. lr_address l + 4096) ` set (concat (map ur_lines sample_rows))) (bp_code ?s) \<and>
    list_all2 (unit_set 4096 (bp_code ?s)) sample_rows units"
    using r by (rule set_breakpoints_exact) (simp_all add: base_for_def sample_bp_env_def sample_rows_def)
  then show ?thesis using r by (intro exI [of _ units] exI [of _ s']) (simp add: with_traps_def sample_rows_def)
qed

end
