(* ===== verification/Comms.thy ===== *)
theory Comms
  imports Fr_Prelude
begin

text \<open>
  The framing of messages between the debugger and the examiner, \<^verbatim>\<open>examine/comms.c\<close>: \<^verbatim>\<open>send_message\<close>
  writes a header with the length and then the message, \<^verbatim>\<open>read_message\<close> reads it back from a descriptor
  that delivers bytes in chunks of its own choosing.  \<^verbatim>\<open>init_comms\<close> only sets up the listening socket
  and is not modelled.
\<close>

section \<open>Decimal numbers\<close>

text \<open>\<^verbatim>\<open>sprintf\<close> of \<^verbatim>\<open>%zu\<close>.\<close>

definition digit_char :: "nat \<Rightarrow> char" where
  "digit_char d = char_of (48 + d)"

fun dec_of_nat :: "nat \<Rightarrow> string" where
  "dec_of_nat n = (if n < 10 then [digit_char n] else dec_of_nat (n div 10) @ [digit_char (n mod 10)])"

declare dec_of_nat.simps [simp del]

definition dec_of_int :: "int \<Rightarrow> string" where
  "dec_of_int i = (if i < 0 then CHR ''-'' # dec_of_nat (nat (- i)) else dec_of_nat (nat i))"

definition is_digit :: "char \<Rightarrow> bool" where
  "is_digit c \<longleftrightarrow> 48 \<le> (of_char c :: nat) \<and> (of_char c :: nat) \<le> 57"

definition digit_val :: "char \<Rightarrow> nat" where
  "digit_val c = of_char c - 48"

section \<open>Reading from a descriptor\<close>

text \<open>
  What successive calls of \<^verbatim>\<open>read\<close> find: available bytes, of which a call takes as many as it asked for, or
  an error (the call returns -1).  At the end of the list the peer has closed the connection and
  \<^verbatim>\<open>read\<close> returns 0.
\<close>

datatype rd_chunk = Data string | Rd_Error

fun sys_read :: "nat \<Rightarrow> rd_chunk list \<Rightarrow> string option \<times> rd_chunk list" where
  "sys_read n [] = (Some [], [])"
| "sys_read n (Rd_Error # cs) = (None, cs)"
| "sys_read n (Data c # cs) = (Some (take n c), if length c \<le> n then cs else Data (drop n c) # cs)"

fun chunk_size :: "rd_chunk \<Rightarrow> nat" where
  "chunk_size (Data c) = Suc (length c)"
| "chunk_size Rd_Error = 1"

definition stream_size :: "rd_chunk list \<Rightarrow> nat" where
  "stream_size cs = sum_list (map chunk_size cs)"

lemma stream_size_error: "(None, cs') = sys_read n cs \<Longrightarrow> stream_size cs' < stream_size cs"
  by (cases "(n, cs)" rule: sys_read.cases) (auto simp: stream_size_def)

lemma stream_size_read: "(Some got, cs') = sys_read n cs \<Longrightarrow> got \<noteq> [] \<Longrightarrow> stream_size cs' < stream_size cs"
  by (cases "(n, cs)" rule: sys_read.cases) (auto simp: stream_size_def split: if_splits)

section \<open>The loops of read\_message\<close>

text \<open>
  The loop that fills a buffer of \<open>n\<close> bytes (the prefix and the body): \<open>buf\<close> are the bytes received so far.
  Since \<^verbatim>\<open>got\<close> has the unsigned type \<^verbatim>\<open>size_t\<close>, an error is the value \<^verbatim>\<open>SIZE_MAX\<close>: it is not taken for a
  failure, and adding it to \<^verbatim>\<open>received\<close> subtracts one.  At \<^verbatim>\<open>received == 0\<close> the sum is huge and the loop
  ends with a buffer that was never written.
\<close>

datatype fill_result = Filled string "rd_chunk list" | End_Of_File | Unwritten

function fill :: "nat \<Rightarrow> string \<Rightarrow> rd_chunk list \<Rightarrow> fill_result" where
  "fill n buf cs =
     (if n \<le> length buf then Filled buf cs
      else case sys_read (n - length buf) cs of
        (None, cs') \<Rightarrow> if buf = [] then Unwritten else fill n (butlast buf) cs'
      | (Some got, cs') \<Rightarrow> if got = [] then End_Of_File else fill n (buf @ got) cs')"
  by auto

termination
  by (relation "measure (\<lambda>(n, buf, cs). stream_size cs)") (auto intro: stream_size_error stream_size_read)

declare fill.simps [simp del]

text \<open>
  The digits of the length, one byte at a time; \<open>c\<close> is what \<^verbatim>\<open>buf[0]\<close> holds, which an undetected error leaves
  as it was.  The length wraps around at 64 bits.  The loop yields the length and the byte that ended it.
\<close>

function read_len :: "u64 \<Rightarrow> char \<Rightarrow> rd_chunk list \<Rightarrow> (u64 \<times> char \<times> rd_chunk list) option" where
  "read_len len c cs =
     (case sys_read 1 cs of
        (None, cs') \<Rightarrow>
          if is_digit c then read_len (len * 10 + word_of_nat (digit_val c)) c cs' else Some (len, c, cs')
      | (Some [], cs') \<Rightarrow> None
      | (Some (d # _), cs') \<Rightarrow>
          if is_digit d then read_len (len * 10 + word_of_nat (digit_val d)) d cs' else Some (len, d, cs'))"
  by auto

termination
  by (relation "measure (\<lambda>(len, c, cs). stream_size cs)") (auto intro: stream_size_error stream_size_read)

declare read_len.simps [simp del]

section \<open>read\_message and send\_message\<close>

definition PREFIX :: string where
  "PREFIX = ''Content-Length: ''"

definition CRLF :: string where
  "CRLF = [CHR 0x0D, CHR 0x0A]"

text \<open>The outcome of a call, with what is left to read; \<open>Garbage\<close> when it works on memory never written.\<close>

datatype rd_result = Received string "rd_chunk list" | Rd_Failed | Garbage

text \<open>
  After the length, \<open>c\<close> is in \<^verbatim>\<open>buf[0]\<close> and the rest of the buffer still has the prefix; the next \<^verbatim>\<open>read\<close>
  asks for three bytes, and its result is checked for zero only.
\<close>

definition read_terminator :: "char \<Rightarrow> string \<Rightarrow> rd_chunk list \<Rightarrow> (string \<times> rd_chunk list) option" where
  "read_terminator c buf cs =
     (case sys_read 3 cs of
        (None, cs') \<Rightarrow> Some (c # tl buf, cs')
      | (Some [], cs') \<Rightarrow> None
      | (Some got, cs') \<Rightarrow> Some (overwrite (c # tl buf) 1 got, cs'))"

definition read_message :: "bool \<Rightarrow> rd_chunk list \<Rightarrow> rd_result" where
  "read_message mem_ok cs =
     (case fill (length PREFIX) [] cs of
        End_Of_File \<Rightarrow> Rd_Failed
      | Unwritten \<Rightarrow> Garbage
      | Filled buf cs1 \<Rightarrow>
          if buf \<noteq> PREFIX then Rd_Failed
          else case read_len 0 (hd buf) cs1 of
            None \<Rightarrow> Rd_Failed
          | Some (len, c, cs2) \<Rightarrow>
              (case read_terminator c buf cs2 of
                 None \<Rightarrow> Rd_Failed
               | Some (buf', cs3) \<Rightarrow>
                   if take 4 buf' \<noteq> CRLF @ CRLF then Rd_Failed
                   else if len > 65536 then Rd_Failed
                   else if \<not> mem_ok then Rd_Failed
                   else case fill (unat len) [] cs3 of
                     Filled msg cs4 \<Rightarrow> Received msg cs4
                   | End_Of_File \<Rightarrow> Rd_Failed
                   | Unwritten \<Rightarrow> Garbage))"

text \<open>
  \<^verbatim>\<open>send_message\<close>: \<open>wr i n\<close> is the result of the \<open>i\<close>th \<^verbatim>\<open>write\<close>, asked to write \<open>n\<close> bytes.  Like the code, the
  model checks only that it is positive.  The result has the bytes that reached the descriptor.
\<close>

definition written :: "int \<Rightarrow> string \<Rightarrow> string" where
  "written r s = take (nat r) s"

definition send_message :: "(nat \<Rightarrow> nat \<Rightarrow> int) \<Rightarrow> string \<Rightarrow> status \<times> string" where
  "send_message wr message =
     (let buffer = dec_of_nat (length message) @ CRLF @ CRLF;
          r0 = wr 0 (length PREFIX); r1 = wr 1 (length buffer); r2 = wr 2 (length message)
      in if r0 \<le> 0 then (FAILURE, [])
         else if r1 \<le> 0 then (FAILURE, written r0 PREFIX)
         else if r2 \<le> 0 then (FAILURE, written r0 PREFIX @ written r1 buffer)
         else (SUCCESS, written r0 PREFIX @ written r1 buffer @ written r2 message))"

section \<open>Round trip\<close>

text \<open>A stream without errors and end markers, its bytes, and what is left of it after some bytes.\<close>

fun chunk_bytes :: "rd_chunk \<Rightarrow> string" where
  "chunk_bytes (Data c) = c"
| "chunk_bytes Rd_Error = []"

definition bytes :: "rd_chunk list \<Rightarrow> string" where
  "bytes cs = concat (map chunk_bytes cs)"

definition live :: "rd_chunk list \<Rightarrow> bool" where
  "live cs \<longleftrightarrow> (\<forall>c \<in> set cs. c \<noteq> Rd_Error \<and> c \<noteq> Data [])"

fun skip :: "nat \<Rightarrow> rd_chunk list \<Rightarrow> rd_chunk list" where
  "skip n [] = []"
| "skip n (Rd_Error # cs) = Rd_Error # cs"
| "skip n (Data c # cs) = (if length c \<le> n then skip (n - length c) cs else Data (drop n c) # cs)"

lemma skip_0 [simp]: "live cs \<Longrightarrow> skip 0 cs = cs"
  by (cases "(0 :: nat, cs)" rule: skip.cases) (auto simp: live_def)

lemma live_skip [simp]: "live cs \<Longrightarrow> live (skip n cs)"
  by (induction n cs rule: skip.induct) (auto simp: live_def)

lemma bytes_skip [simp]: "live cs \<Longrightarrow> bytes (skip n cs) = drop n (bytes cs)"
  by (induction n cs rule: skip.induct) (auto simp: live_def bytes_def)

lemma skip_skip: "live cs \<Longrightarrow> skip m (skip n cs) = skip (n + m) cs"
proof (induction n cs rule: skip.induct)
  case (3 n c cs)
  then show ?case by (cases "length c \<le> n") (auto simp: live_def add.commute)
qed simp_all

lemma sys_read_live:
  assumes "live cs" "bytes cs \<noteq> []" "0 < n"
  shows "\<exists>got. sys_read n cs = (Some got, skip (length got) cs) \<and> got \<noteq> [] \<and> length got \<le> n \<and>
    got = take (length got) (bytes cs)"
proof (cases "(n, cs)" rule: sys_read.cases)
  case (3 m c cs')
  have "take n c \<noteq> []" "live cs'" using assms(1,3) 3 by (auto simp: live_def)
  then show ?thesis using 3 by (auto simp: bytes_def min_def)
qed (use assms in \<open>auto simp: live_def bytes_def\<close>)

lemma fill_done: "n \<le> length buf \<Longrightarrow> fill n buf cs = Filled buf cs"
  by (subst fill.simps) simp

lemma fill_live:
  assumes "live cs" "n \<le> length buf + length (bytes cs)" "length buf \<le> n"
  shows "fill n buf cs = Filled (buf @ take (n - length buf) (bytes cs)) (skip (n - length buf) cs)"
  using assms
proof (induction n buf cs rule: fill.induct)
  case (1 n buf cs)
  show ?case
  proof (cases "n \<le> length buf")
    case True
    then show ?thesis using 1(3-5) by (simp add: fill_done)
  next
    case False
    then have "bytes cs \<noteq> []" "0 < n - length buf" using 1(4) by auto
    then obtain got where got: "sys_read (n - length buf) cs = (Some got, skip (length got) cs)" "got \<noteq> []"
      "length got \<le> n - length buf" "got = take (length got) (bytes cs)"
      using sys_read_live [OF 1(3)] by blast
    let ?k = "n - length (buf @ got)" and ?rest = "skip (length got) cs"
    have "fill n buf cs = fill n (buf @ got) ?rest" using False got by (simp add: fill.simps [of n buf cs])
    also have "\<dots> = Filled ((buf @ got) @ take ?k (bytes ?rest)) (skip ?k ?rest)"
      using 1(2) [OF False got(1) [symmetric] refl got(2)] got 1(3-5) False by simp
    also have "(buf @ got) @ take ?k (bytes ?rest) = buf @ take (n - length buf) (bytes cs)"
    proof -
      have "take (length got + ?k) (bytes cs) = got @ take ?k (drop (length got) (bytes cs))"
        using take_add [of "length got" ?k "bytes cs"] got(4) by simp
      moreover have "length got + ?k = n - length buf" using got(3) False by simp
      ultimately show ?thesis using 1(3) by simp
    qed
    also have "skip ?k ?rest = skip (n - length buf) cs" using 1(3) got(3) False by (simp add: skip_skip)
    finally show ?thesis .
  qed
qed

definition dec_step :: "u64 \<Rightarrow> char \<Rightarrow> u64" where
  "dec_step len d = len * 10 + word_of_nat (digit_val d)"

lemma sys_read_one:
  assumes "live cs" "bytes cs = d # rest"
  shows "sys_read 1 cs = (Some [d], skip 1 cs)"
proof -
  obtain got where got: "sys_read 1 cs = (Some got, skip (length got) cs)" "got \<noteq> []" "length got \<le> 1"
    "got = take (length got) (bytes cs)" using sys_read_live [of cs 1] assms by auto
  then obtain g where "got = [g]" by (cases got) auto
  then show ?thesis using got assms by simp
qed

lemma read_len_live:
  assumes "live cs" "bytes cs = ds @ c # rest" "\<forall>d \<in> set ds. is_digit d" "\<not> is_digit c"
  shows "read_len len c0 cs = Some (foldl dec_step len ds, c, skip (Suc (length ds)) cs)"
  using assms
proof (induction ds arbitrary: len c0 cs)
  case Nil
  then have "sys_read 1 cs = (Some [c], skip 1 cs)" by (intro sys_read_one) simp_all
  then show ?case using Nil by (simp add: read_len.simps)
next
  case (Cons d ds)
  then have "sys_read 1 cs = (Some [d], skip 1 cs)" by (intro sys_read_one) simp_all
  then have "read_len len c0 cs = read_len (dec_step len d) d (skip 1 cs)"
    using Cons.prems by (simp add: read_len.simps [of len] dec_step_def)
  also have "\<dots> = Some (foldl dec_step (dec_step len d) ds, c, skip (Suc (length ds)) (skip 1 cs))"
    using Cons.prems by (intro Cons.IH) simp_all
  finally show ?case using Cons.prems by (simp add: skip_skip)
qed

lemma digit_char:
  assumes "d < 10"
  shows "is_digit (digit_char d)" "digit_val (digit_char d) = d"
  using assms by (simp_all add: is_digit_def digit_val_def digit_char_def)

lemma dec_of_nat_digits: "\<forall>d \<in> set (dec_of_nat n). is_digit d"
proof (induction n rule: dec_of_nat.induct)
  case (1 n)
  then show ?case by (subst dec_of_nat.simps) (auto simp: digit_char)
qed

lemma length_dec_of_nat: "0 < k \<Longrightarrow> n < 10 ^ k \<Longrightarrow> length (dec_of_nat n) \<le> k"
proof (induction k arbitrary: n)
  case (Suc k)
  show ?case
  proof (cases "n < 10")
    case False
    then have "0 < k" using Suc.prems by (cases k) auto
    moreover have "n div 10 < 10 ^ k" using Suc.prems(2) by (simp add: less_mult_imp_div_less mult.commute)
    ultimately show ?thesis using Suc.IH [of "n div 10"] False by (subst dec_of_nat.simps) simp
  qed (simp add: dec_of_nat.simps)
qed simp

lemma length_dec_of_int: "\<bar>i\<bar> < 10 ^ 20 \<Longrightarrow> length (dec_of_int i) \<le> 21"
  using length_dec_of_nat [of 20 "nat \<bar>i\<bar>"] by (auto simp: dec_of_int_def nat_less_iff)

lemma dec_of_nat_value: "foldl dec_step 0 (dec_of_nat n) = word_of_nat n"
proof (induction n rule: dec_of_nat.induct)
  case (1 n)
  show ?case
  proof (cases "n < 10")
    case True
    then show ?thesis by (simp add: dec_of_nat.simps dec_step_def digit_char)
  next
    case False
    have "word_of_nat n = (word_of_nat (n div 10 * 10 + n mod 10) :: u64)" by simp
    also have "\<dots> = word_of_nat (n div 10) * 10 + word_of_nat (n mod 10)"
      by (simp only: of_nat_add of_nat_mult of_nat_numeral)
    finally show ?thesis using 1 False by (simp add: dec_of_nat.simps [of n] dec_step_def digit_char)
  qed
qed


section \<open>Properties\<close>

text \<open>Three bytes are available at once.\<close>

fun three_ready :: "rd_chunk list \<Rightarrow> bool" where
  "three_ready (Data c # _) \<longleftrightarrow> 3 \<le> length c"
| "three_ready _ \<longleftrightarrow> False"

lemma sys_read_three: "three_ready cs \<Longrightarrow> live cs \<Longrightarrow> sys_read 3 cs = (Some (take 3 (bytes cs)), skip 3 cs)"
  by (cases cs rule: three_ready.cases) (auto simp: bytes_def live_def)

definition full_write :: "nat \<Rightarrow> nat \<Rightarrow> int" where
  "full_write i n = int n"

definition framed :: "string \<Rightarrow> string" where
  "framed m = PREFIX @ dec_of_nat (length m) @ CRLF @ CRLF @ m"

lemma send_full: "m \<noteq> [] \<Longrightarrow> send_message full_write m = (SUCCESS, framed m)"
  by (simp add: send_message_def full_write_def written_def PREFIX_def CRLF_def framed_def)

lemma read_header:
  assumes "live cs" "bytes cs = framed m @ rest"
  shows "fill (length PREFIX) [] cs = Filled PREFIX (skip (length PREFIX) cs)"
    and "read_len 0 (hd PREFIX) (skip (length PREFIX) cs) =
      Some (word_of_nat (length m), CHR 0x0D, skip (length PREFIX + Suc (length (dec_of_nat (length m)))) cs)"
proof -
  have "length PREFIX \<le> length (bytes cs)" "take (length PREFIX) (bytes cs) = PREFIX"
    by (simp_all add: assms(2) framed_def)
  then show "fill (length PREFIX) [] cs = Filled PREFIX (skip (length PREFIX) cs)"
    using fill_live [OF assms(1), of "length PREFIX" "[]"] by simp
  have "bytes (skip (length PREFIX) cs) =
      dec_of_nat (length m) @ CHR 0x0D # CHR 0x0A # CRLF @ m @ rest"
    using assms by (simp add: framed_def CRLF_def)
  from read_len_live [OF _ this dec_of_nat_digits]
  show "read_len 0 (hd PREFIX) (skip (length PREFIX) cs) =
      Some (word_of_nat (length m), CHR 0x0D, skip (length PREFIX + Suc (length (dec_of_nat (length m)))) cs)"
    using assms(1) by (simp add: is_digit_def dec_of_nat_value skip_skip)
qed

text \<open>A message whose header does not end in the middle of a chunk.\<close>

lemma framed_read:
  assumes out: "out = framed m" and len64: "length m < 2 ^ 64" and "live cs" "bytes cs = out @ rest"
    and "three_ready (skip (length out - length m - 3) cs)"
  shows "if length m \<le> 65536 then \<exists>cs'. read_message True cs = Received m cs' \<and> live cs' \<and> bytes cs' = rest
    else read_message True cs = Rd_Failed"
proof -
  let ?k = "length PREFIX + Suc (length (dec_of_nat (length m)))"
  have k: "length out - length m - 3 = ?k" by (simp add: out framed_def CRLF_def)
  have bk: "bytes (skip ?k cs) = CHR 0x0A # CRLF @ m @ rest"
    using assms(3,4) by (simp add: out framed_def CRLF_def)
  have three: "sys_read 3 (skip ?k cs) = (Some (CHR 0x0A # CRLF), skip (?k + 3) cs)"
    using sys_read_three [of "skip ?k cs"] assms(3,5) bk unfolding k by (simp add: skip_skip CRLF_def)
  then have trm: "read_terminator (CHR 0x0D) PREFIX (skip ?k cs) =
      Some (overwrite (CHR 0x0D # tl PREFIX) 1 (CHR 0x0A # CRLF), skip (?k + 3) cs)"
    by (simp add: read_terminator_def)
  have ok: "take 4 (overwrite (CHR 0x0D # tl PREFIX) 1 (CHR 0x0A # CRLF)) = CRLF @ CRLF"
    by (simp add: overwrite_def PREFIX_def CRLF_def)
  have len: "unat (word_of_nat (length m) :: u64) = length m"
    using len64 by (intro unat_word_of_nat_small) simp
  then have small: "(word_of_nat (length m) :: u64) > 65536 \<longleftrightarrow> \<not> length m \<le> 65536" by (simp add: u64_less_unat linorder_not_le)
  have bm: "bytes (skip (?k + 3) cs) = m @ rest"
    using bk bytes_skip [of "skip ?k cs" 3] assms(3) by (simp add: skip_skip CRLF_def)
  then have "fill (length m) [] (skip (?k + 3) cs) = Filled m (skip (length m) (skip (?k + 3) cs))"
    using fill_live [of "skip (?k + 3) cs" "length m" "[]"] assms(3) by simp
  then have "read_message True cs = (if length m \<le> 65536 then Received m (skip (length m) (skip (?k + 3) cs)) else Rd_Failed)"
    using read_header [OF assms(3)] assms(4) trm ok small len by (simp add: read_message_def out)
  then show ?thesis using bm assms(3) bytes_skip [of "skip (?k + 3) cs" "length m"]
    by (auto intro: exI [of _ "skip (length m) (skip (?k + 3) cs)"])
qed

definition sample_stream :: "rd_chunk list" where
  "sample_stream = [Data ''Content'', Data (''-Length: 2'' @ [CHR 0x0D]), Data (CHR 0x0A # CRLF @ ''{''), Data ''}'', Data ''xy'']"

lemma dec_2: "dec_of_nat (Suc (Suc 0)) = ''2''"
  by code_simp

text \<open>
  The end of the header must not be split: when the three bytes after the first carriage return do not
  arrive together, \<open>read_message\<close> refuses a message that \<open>send_message\<close> framed correctly.
\<close>

theorem split_header_rejected:
  assumes "live cs" "bytes cs = framed m @ rest"
    and "\<not> three_ready (skip (length (framed m) - length m - 3) cs)"
  shows "read_message True cs = Rd_Failed"
proof -
  let ?k = "length PREFIX + Suc (length (dec_of_nat (length m)))"
  have k: "length (framed m) - length m - 3 = ?k" by (simp add: framed_def CRLF_def)
  have bk: "bytes (skip ?k cs) = CHR 0x0A # CRLF @ m @ rest" using assms(1,2) by (simp add: framed_def CRLF_def)
  have "live (skip ?k cs)" using assms(1) by simp
  then obtain c cs' where cs': "skip ?k cs = Data c # cs'" "c \<noteq> []"
    using bk by (cases "skip ?k cs" rule: three_ready.cases) (auto simp: live_def bytes_def)
  have "length c < 3" using assms(3) cs'(1) unfolding k by simp
  then have rd: "sys_read 3 (skip ?k cs) = (Some c, cs')" using cs' by simp
  have "c = take (length c) (CHR 0x0A # CRLF @ m @ rest)"
    using bk cs'(1) by (metis append_eq_conv_conj bytes_def chunk_bytes.simps(1) concat.simps(2) list.simps(9))
  moreover from \<open>length c < 3\<close> cs'(2) have "length c = 1 \<or> length c = 2" by (cases c; cases "tl c") auto
  ultimately have "c = [CHR 0x0A] \<or> c = [CHR 0x0A, CHR 0x0D]" by (auto simp: CRLF_def)
  then have "take 4 (overwrite (CHR 0x0D # tl PREFIX) 1 c) \<noteq> CRLF @ CRLF"
    by (auto simp: overwrite_def PREFIX_def CRLF_def)
  moreover have "read_terminator (CHR 0x0D) PREFIX (skip ?k cs) = Some (overwrite (CHR 0x0D # tl PREFIX) 1 c, cs')"
    using rd cs'(2) by (cases c) (simp_all add: read_terminator_def)
  ultimately show ?thesis using read_header [OF assms(1,2)] by (simp add: read_message_def)
qed

theorem split_header_rejected_witness:
  "read_message True [Data (''Content-Length: 2'' @ CRLF), Data (CRLF @ ''{}'')] = Rd_Failed"
  by (rule split_header_rejected [where m = "''{}''" and rest = "[]"])
     (simp_all add: live_def bytes_def framed_def PREFIX_def CRLF_def dec_2)

text \<open>
  C24.  Framing round trip: what \<open>send_message\<close> writes (every \<^verbatim>\<open>write\<close> being complete) is read back by \<open>read_message\<close>
  as the same message and what follows stays unread, exactly when the message has 65536 bytes at most and the last three
  bytes of its header are available at one \<^verbatim>\<open>read\<close>, however the other bytes are split into chunks; otherwise
  \<open>read_message\<close> fails.  So the framing is robust in the prefix, the length and the contents, but not at the end of the header.
\<close>

theorem message_round_trip:
  assumes "send_message full_write m = (SUCCESS, out)" "length m < 2 ^ 64" "live cs" "bytes cs = out @ rest"
  shows "if length m \<le> 65536 \<and> three_ready (skip (length out - length m - 3) cs)
    then \<exists>cs'. read_message True cs = Received m cs' \<and> live cs' \<and> bytes cs' = rest
    else read_message True cs = Rd_Failed"
proof -
  have "m \<noteq> []" using assms(1) by (auto simp: send_message_def full_write_def Let_def split: if_splits)
  then have out: "out = framed m" using assms(1) send_full by simp
  show ?thesis
    using framed_read [OF out assms(2-4)] split_header_rejected [OF assms(3)] assms(4) out
    by (cases "three_ready (skip (length out - length m - 3) cs)") (auto split: if_splits)
qed

theorem message_round_trip_witness:
  "(\<exists>cs'. read_message True sample_stream = Received ''{}'' cs' \<and> live cs' \<and> bytes cs' = ''xy'') \<and>
   read_message True [Data (''Content-Length: 2'' @ CRLF), Data (CRLF @ ''{}'')] = Rd_Failed"
proof -
  have "send_message full_write ''{}'' = (SUCCESS, framed ''{}'')" by (simp add: send_full)
  from message_round_trip [OF this, of sample_stream "''xy''"]
    message_round_trip [OF this, of "[Data (''Content-Length: 2'' @ CRLF), Data (CRLF @ ''{}'')]" "[]"]
  show ?thesis by (simp add: sample_stream_def live_def bytes_def framed_def PREFIX_def CRLF_def dec_2)
qed

end
