(* ===== verification/Jsonapi.thy ===== *)
theory Jsonapi
  imports Complex_Main "HOL-Library.AList" Fr_Prelude
begin

text \<open>
  The JSON interface of \<^verbatim>\<open>jsonapi/jsonapi.h\<close>, macros over the objects of json-c.  A JSON value is a
  \<open>json\<close>; a \<^verbatim>\<open>json_object *\<close> is a \<open>json option\<close>, since json-c represents JSON's null by the pointer
  \<^verbatim>\<open>NULL\<close> (a double is a rational number).  Every getter sets the global \<^verbatim>\<open>json_err\<close>, except that a getter
  applied to \<^verbatim>\<open>NULL\<close> leaves it alone: the getters here take the old \<^verbatim>\<open>json_err\<close> and return the new one with
  the value.
\<close>

section \<open>Values\<close>

datatype json =
    JBool bool
  | JInt int
  | JDbl rat
  | JStr string
  | JArr "json option list"
  | JObj "(string \<times> json option) list"

datatype json_err = JSON_OK | JSON_ERR_INVALID | JSON_ERR_NOTFOUND | JSON_ERR_MISMATCH

section \<open>Getters\<close>

text \<open>\<^verbatim>\<open>json_object_object_get_ex\<close>: no field is found in a value that is not an object.\<close>

fun json_field :: "json \<Rightarrow> string \<Rightarrow> json option option" where
  "json_field (JObj fs) k = map_of fs k"
| "json_field _ k = None"

definition get_field :: "(json option \<Rightarrow> 'a option) \<Rightarrow> 'a \<Rightarrow> json_err \<Rightarrow> json option \<Rightarrow> string \<Rightarrow> json_err \<times> 'a" where
  "get_field conv dflt e jo k =
     (case jo of None \<Rightarrow> (e, dflt)
      | Some j \<Rightarrow> (case json_field j k of None \<Rightarrow> (JSON_ERR_NOTFOUND, dflt)
          | Some v \<Rightarrow> (case conv v of None \<Rightarrow> (JSON_ERR_MISMATCH, dflt) | Some x \<Rightarrow> (JSON_OK, x))))"

text \<open>json-c clamps an integer to the range of the type asked for.\<close>

definition clamp :: "nat \<Rightarrow> int \<Rightarrow> int" where
  "clamp w i = max (- (2 ^ (w - 1))) (min i (2 ^ (w - 1) - 1))"

fun as_string :: "json option \<Rightarrow> string option option" where
  "as_string (Some (JStr s)) = Some (Some s)"
| "as_string _ = None"

fun as_int32 :: "json option \<Rightarrow> 32 word option" where
  "as_int32 (Some (JInt i)) = Some (word_of_int (clamp 32 i))"
| "as_int32 _ = None"

fun as_int64 :: "json option \<Rightarrow> u64 option" where
  "as_int64 (Some (JInt i)) = Some (word_of_int (clamp 64 i))"
| "as_int64 _ = None"

fun as_dbl :: "json option \<Rightarrow> rat option" where
  "as_dbl (Some (JDbl d)) = Some d"
| "as_dbl _ = None"

fun as_bool :: "json option \<Rightarrow> bool option" where
  "as_bool (Some (JBool b)) = Some b"
| "as_bool _ = None"

definition JSON_GET_OBJ :: "json_err \<Rightarrow> json option \<Rightarrow> string \<Rightarrow> json_err \<times> json option" where
  "JSON_GET_OBJ e jo k = get_field Some None e jo k"

text \<open>A value that is not an array is returned all the same, with \<^verbatim>\<open>JSON_ERR_MISMATCH\<close>.\<close>

definition JSON_GET_ARRAY :: "json_err \<Rightarrow> json option \<Rightarrow> string \<Rightarrow> json_err \<times> json option" where
  "JSON_GET_ARRAY e jo k =
     (case jo of None \<Rightarrow> (e, None)
      | Some j \<Rightarrow> (case json_field j k of None \<Rightarrow> (JSON_ERR_NOTFOUND, None)
          | Some (Some (JArr xs)) \<Rightarrow> (JSON_OK, Some (JArr xs))
          | Some v \<Rightarrow> (JSON_ERR_MISMATCH, v)))"

definition JSON_GET_STRING_FIELD :: "json_err \<Rightarrow> json option \<Rightarrow> string \<Rightarrow> json_err \<times> string option" where
  "JSON_GET_STRING_FIELD e jo k = get_field as_string None e jo k"

definition JSON_GET_INT32_FIELD :: "json_err \<Rightarrow> json option \<Rightarrow> string \<Rightarrow> json_err \<times> 32 word" where
  "JSON_GET_INT32_FIELD e jo k = get_field as_int32 0 e jo k"

definition JSON_GET_INT64_FIELD :: "json_err \<Rightarrow> json option \<Rightarrow> string \<Rightarrow> json_err \<times> u64" where
  "JSON_GET_INT64_FIELD e jo k = get_field as_int64 0 e jo k"

definition JSON_GET_DBL_FIELD :: "json_err \<Rightarrow> json option \<Rightarrow> string \<Rightarrow> json_err \<times> rat" where
  "JSON_GET_DBL_FIELD e jo k = get_field as_dbl 0 e jo k"

definition JSON_GET_BOOL_FIELD :: "json_err \<Rightarrow> json option \<Rightarrow> string \<Rightarrow> json_err \<times> bool" where
  "JSON_GET_BOOL_FIELD e jo k = get_field as_bool False e jo k"

text \<open>\<^verbatim>\<open>JSON_GET_ITEM\<close>: \<^verbatim>\<open>json_object_array_get_idx\<close> returns \<^verbatim>\<open>NULL\<close> past the end (and for a null item).\<close>

fun JSON_GET_ITEM :: "json \<Rightarrow> nat \<Rightarrow> json option" where
  "JSON_GET_ITEM (JArr xs) i = (if i < length xs then xs ! i else None)"
| "JSON_GET_ITEM _ i = None"

section \<open>Construction\<close>

text \<open>
  Adding a field replaces a field of the same name (\<^verbatim>\<open>json_object_object_add\<close>).  The containers are built
  inside out, so a field that the code creates empty and fills later is added here with its final value.
\<close>

definition json_add :: "string \<Rightarrow> json option \<Rightarrow> json \<Rightarrow> json" where
  "json_add k v j = (case j of JObj fs \<Rightarrow> JObj (AList.update k v fs) | _ \<Rightarrow> j)"

definition JSON_NEW_OBJ :: json where
  "JSON_NEW_OBJ = JObj []"

abbreviation str_field :: "string \<Rightarrow> string \<Rightarrow> json \<Rightarrow> json" where
  "str_field k s \<equiv> json_add k (Some (JStr s))"

abbreviation int_field :: "string \<Rightarrow> int \<Rightarrow> json \<Rightarrow> json" where
  "int_field k i \<equiv> json_add k (Some (JInt i))"

abbreviation dbl_field :: "string \<Rightarrow> rat \<Rightarrow> json \<Rightarrow> json" where
  "dbl_field k d \<equiv> json_add k (Some (JDbl d))"

abbreviation bool_field :: "string \<Rightarrow> bool \<Rightarrow> json \<Rightarrow> json" where
  "bool_field k b \<equiv> json_add k (Some (JBool b))"

lemmas json_get_defs = JSON_GET_OBJ_def JSON_GET_STRING_FIELD_def JSON_GET_INT32_FIELD_def
  JSON_GET_INT64_FIELD_def JSON_GET_DBL_FIELD_def JSON_GET_BOOL_FIELD_def JSON_GET_ARRAY_def get_field_def

section \<open>Reading back what was written\<close>

lemma json_field_add [simp]:
  "json_field (json_add k v (JObj fs)) k' = (if k' = k then Some v else json_field (JObj fs) k')"
  by (simp add: json_add_def update_conv)

lemma json_add_obj: "\<exists>fs'. json_add k v (JObj fs) = JObj fs'"
  by (simp add: json_add_def)

lemma json_field_add' [simp]:
  "\<exists>fs. j = JObj fs \<Longrightarrow> json_field (json_add k v j) k' = (if k' = k then Some v else json_field j k')"
  by auto

lemma clamp_id: "- (2 ^ (w - 1)) \<le> i \<Longrightarrow> i < 2 ^ (w - 1) \<Longrightarrow> clamp w i = i"
  by (simp add: clamp_def)

lemma get_int64_added:
  "JSON_GET_INT64_FIELD e (Some (int_field k (sint (x :: u64)) (JObj fs))) k = (JSON_OK, x)"
proof -
  have "clamp 64 (sint x) = sint x"
    using sint_greater_eq [of x] sint_less [of x] by (intro clamp_id) simp_all
  then show ?thesis by (simp add: json_get_defs)
qed

lemma get_int32_added:
  "JSON_GET_INT32_FIELD e (Some (int_field k (sint (x :: 32 word)) (JObj fs))) k = (JSON_OK, x)"
proof -
  have "clamp 32 (sint x) = sint x"
    using sint_greater_eq [of x] sint_less [of x] by (intro clamp_id) simp_all
  then show ?thesis by (simp add: json_get_defs)
qed

end
