(* ===== verification/Navigation.thy ===== *)
theory Navigation
  imports Db_Workers Comms Jsonapi
begin

text \<open>
  The commands of the examiner that move the current step, \<^verbatim>\<open>examine/requests.c\<close>: \<open>next\<close>, \<open>stepIn\<close>,
  \<open>stepOut\<close>, \<open>stepBack\<close>, \<open>continue\<close> and \<open>reverseContinue\<close>, with the responses and events that they send.
  The file-level variables of \<^verbatim>\<open>requests.c\<close> are the record \<open>session\<close>; the recorded program is the record
  \<open>trace_db\<close>, whose table of steps has the rows that the step worker of \<open>Db_Workers\<close> writes.  An SQL query is
  the list of the rows it yields, in its order; whether SQLite prepares, binds, resets and fetches without an
  error is an input (\<open>query_env\<close>), and so is the outcome of sending the response.
\<close>

section \<open>The recorded program\<close>

record stmt_row =
  sta_file_id :: int
  sta_line :: int
  sta_address :: int
  sta_scope_id :: int

record file_row =
  fl_id :: int
  fl_name :: string
  fl_path :: string

record func_row =
  fn_id :: int
  fn_name :: string

record 'g trace_db =
  td_step :: "'g step_row list"
  td_statement :: "stmt_row list"
  td_file :: "file_row list"
  td_function :: "func_row list"
  td_misc :: "(string \<times> int) list"

text \<open>\<^verbatim>\<open>step s JOIN statement st ON st.address = s.address JOIN file f ON f.id = st.file_id\<close>.\<close>

definition joined :: "'g trace_db \<Rightarrow> ('g step_row \<times> stmt_row \<times> file_row) list" where
  "joined db = [(s, st, f). s \<leftarrow> td_step db, st \<leftarrow> td_statement db, sta_address st = st_address s,
     f \<leftarrow> td_file db, fl_id f = sta_file_id st]"

text \<open>The columns \<^verbatim>\<open>f.name, st.line, s.id, s.depth\<close>, and \<^verbatim>\<open>f.id\<close> for the join with the breakpoints.\<close>

record nav_row =
  nr_file :: string
  nr_file_id :: int
  nr_line :: int
  nr_id :: int
  nr_depth :: int

definition nav_row_of :: "'g step_row \<times> stmt_row \<times> file_row \<Rightarrow> nav_row" where
  "nav_row_of j = (case j of (s, st, f) \<Rightarrow>
     \<lparr>nr_file = fl_name f, nr_file_id = fl_id f, nr_line = sta_line st, nr_id = st_id s, nr_depth = st_depth s\<rparr>)"

definition nav_rows :: "'g trace_db \<Rightarrow> nav_row list" where
  "nav_rows db = map nav_row_of (joined db)"

section \<open>The session\<close>

record frame =
  fr_id :: u64
  fr_scope :: u64
  fr_step :: u64
  fr_file :: u64
  fr_line :: u64

record br_row =
  br_id :: int
  br_file_id :: int
  br_line :: int

datatype cursor = Stack_Cursor | Next_Cursor | Stepin_Cursor | Stepout_Cursor | Stepback_Cursor
  | Filebypath_Cursor | Addbr_Cursor | Continue_Cursor | Revcontinue_Cursor | Local_Vars_Cursor | Global_Vars_Cursor

text \<open>
  \<^verbatim>\<open>cursors\<close> are the prepared statements that exist, \<open>breakpoints\<close> and \<open>br_seq\<close> the table
  \<^verbatim>\<open>local.breakpoint\<close> and the last id that it gave out.
\<close>

record session =
  cur_file :: "string option"
  cur_step :: u64
  cur_line :: u64
  cur_depth :: "32 word"
  signum :: "32 word"
  program_base_addr :: u64
  stop_on_entry :: bool
  source_path :: "string option"
  frame_list :: "frame list"
  cursors :: "cursor list"
  breakpoints :: "br_row list"
  br_seq :: int

section \<open>Queries\<close>

text \<open>\<open>qe_fetch q i\<close>: the \<open>i\<close>th \<^verbatim>\<open>sqlite3_step\<close> of the query does not fail.\<close>

record query_env =
  qe_prepare :: bool
  qe_bind :: bool
  qe_reset :: bool
  qe_fetch :: "nat \<Rightarrow> bool"

text \<open>
  The cursor is opened when it is used for the first time, and reset and bound again afterwards.  A statement
  that was prepared but not bound stays, as \<^verbatim>\<open>dab_cursor_open\<close> does not release it.
\<close>

definition ready :: "cursor \<Rightarrow> string \<Rightarrow> query_env \<Rightarrow> session \<Rightarrow> string option \<times> session" where
  "ready c msg q s =
     (if c \<notin> set (cursors s) then
        if \<not> qe_prepare q then (Some ''Cannot prepare statement'', s)
        else (if qe_bind q then None else Some ''Cannot prepare statement'', s\<lparr>cursors := c # cursors s\<rparr>)
      else (if qe_reset q \<and> qe_bind q then None else Some msg, s))"

datatype 'r fetched = Row 'r | No_Data | Fetch_Error

definition fetch :: "query_env \<Rightarrow> nat \<Rightarrow> 'r list \<Rightarrow> 'r fetched" where
  "fetch q i rows = (if \<not> qe_fetch q i then Fetch_Error else case rows of [] \<Rightarrow> No_Data | r # _ \<Rightarrow> Row r)"

text \<open>\<^verbatim>\<open>ORDER BY s.id\<close> and \<^verbatim>\<open>ORDER BY s.id DESC\<close>.\<close>

definition ascending :: "nav_row list \<Rightarrow> nav_row list" where
  "ascending rows = sort_key nr_id rows"

definition descending :: "nav_row list \<Rightarrow> nav_row list" where
  "descending rows = sort_key (\<lambda>r. - nr_id r) rows"

text \<open>
  \<^verbatim>\<open>NOT (f.name = ? AND st.line = ?)\<close>, bound to the current file and line.  With \<^verbatim>\<open>NULL\<close> for the file the
  comparison is unknown, and so is the condition unless the lines differ.
\<close>

definition elsewhere :: "session \<Rightarrow> nav_row \<Rightarrow> bool" where
  "elsewhere s r =
     (case cur_file s of
        None \<Rightarrow> nr_line r \<noteq> sint (cur_line s)
      | Some f \<Rightarrow> \<not> (nr_file r = f \<and> nr_line r = sint (cur_line s)))"

definition next_rows :: "'g trace_db \<Rightarrow> session \<Rightarrow> nav_row list" where
  "next_rows db s = ascending [r \<leftarrow> nav_rows db.
     nr_id r > sint (cur_step s) \<and> nr_depth r \<le> sint (cur_depth s) \<and> elsewhere s r]"

definition stepin_rows :: "'g trace_db \<Rightarrow> session \<Rightarrow> nav_row list" where
  "stepin_rows db s = [r \<leftarrow> nav_rows db. nr_id r = sint (cur_step s) + 1]"

definition stepout_rows :: "'g trace_db \<Rightarrow> session \<Rightarrow> nav_row list" where
  "stepout_rows db s = ascending [r \<leftarrow> nav_rows db. nr_id r > sint (cur_step s) \<and> nr_depth r < sint (cur_depth s)]"

definition stepback_rows :: "'g trace_db \<Rightarrow> session \<Rightarrow> nav_row list" where
  "stepback_rows db s = descending [r \<leftarrow> nav_rows db.
     nr_id r < sint (cur_step s) \<and> nr_depth r \<le> sint (cur_depth s) \<and> elsewhere s r]"

text \<open>\<^verbatim>\<open>JOIN local.breakpoint br ON br.file_id = f.id AND br.line = st.line\<close>.\<close>

definition at_breakpoint :: "br_row list \<Rightarrow> nav_row list \<Rightarrow> nav_row list" where
  "at_breakpoint brs rows = [r. r \<leftarrow> rows, br \<leftarrow> brs, br_file_id br = nr_file_id r \<and> br_line br = nr_line r]"

definition continue_rows :: "'g trace_db \<Rightarrow> session \<Rightarrow> nav_row list" where
  "continue_rows db s = ascending [r \<leftarrow> at_breakpoint (breakpoints s) (nav_rows db). nr_id r > sint (cur_step s)]"

definition revcontinue_rows :: "'g trace_db \<Rightarrow> session \<Rightarrow> nav_row list" where
  "revcontinue_rows db s = descending [r \<leftarrow> at_breakpoint (breakpoints s) (nav_rows db). nr_id r < sint (cur_step s)]"

text \<open>What \<^verbatim>\<open>DAB_CURSOR_FETCH\<close> of a row stores in the current position.\<close>

definition goto_row :: "nav_row \<Rightarrow> session \<Rightarrow> session" where
  "goto_row r s = s\<lparr>cur_file := Some (nr_file r), cur_line := word_of_int (nr_line r),
     cur_step := word_of_int (nr_id r), cur_depth := word_of_int (nr_depth r)\<rparr>"

section \<open>Responses and events\<close>

definition copied :: "json \<Rightarrow> string \<Rightarrow> json option" where
  "copied req k = snd (JSON_GET_OBJ JSON_OK (Some req) k)"

definition build_response :: "json \<Rightarrow> json \<Rightarrow> status \<Rightarrow> string option \<Rightarrow> json" where
  "build_response req rsp st message =
     (let r = int_field ''seq'' 0 (json_add ''request_seq'' (copied req ''seq'')
               (json_add ''command'' (copied req ''command'') (str_field ''type'' ''response'' rsp)))
      in if st = SUCCESS then bool_field ''success'' True r
         else case message of
           None \<Rightarrow> bool_field ''success'' False r
         | Some m \<Rightarrow> str_field ''message'' m (bool_field ''success'' False r))"

definition send_event :: "json \<Rightarrow> string \<Rightarrow> json" where
  "send_event evt ty = int_field ''seq'' 0 (str_field ''event'' ty (str_field ''type'' ''event'' evt))"

datatype stop_reason = STOP_REASON_STEP | STOP_REASON_BREAK | STOP_REASON_ENTRY | STOP_REASON_SIGNAL | STOP_REASON_EXIT

fun reason_text :: "stop_reason \<Rightarrow> string" where
  "reason_text STOP_REASON_ENTRY = ''entry''"
| "reason_text STOP_REASON_EXIT = ''exit''"
| "reason_text STOP_REASON_BREAK = ''breakpoint''"
| "reason_text STOP_REASON_SIGNAL = ''exception''"
| "reason_text STOP_REASON_STEP = ''step''"

text \<open>The text is cut to the 64 bytes of its buffer, the terminating zero included.\<close>

definition signal_text :: "(32 word \<Rightarrow> string) \<Rightarrow> 32 word \<Rightarrow> string" where
  "signal_text strsignal sig =
     take 63 (''Caught signal '' @ strsignal sig @ '' ('' @ dec_of_int (sint sig) @ '')'')"

definition event_stopped :: "(32 word \<Rightarrow> string) \<Rightarrow> stop_reason \<Rightarrow> session \<Rightarrow> json" where
  "event_stopped strsignal reason s =
     (let body = int_field ''threadId'' 1 (str_field ''reason'' (reason_text reason) JSON_NEW_OBJ);
          text = signal_text strsignal (signum s);
          body' = (if reason = STOP_REASON_SIGNAL \<and> signum s \<noteq> 0
                   then str_field ''text'' text (str_field ''description'' text body) else body)
      in send_event (json_add ''body'' (Some body') JSON_NEW_OBJ) ''stopped'')"

definition event_inited :: json where
  "event_inited = send_event JSON_NEW_OBJ ''initialized''"

definition event_terminated :: json where
  "event_terminated = send_event JSON_NEW_OBJ ''terminated''"

text \<open>
  The end that the handlers share: the response is sent; when that fails the handler fails and sends no event,
  otherwise the events follow.  The result has the messages passed to \<^verbatim>\<open>send_message\<close>, in order.
\<close>

definition reply :: "bool \<Rightarrow> json \<Rightarrow> json \<Rightarrow> status \<Rightarrow> string option \<Rightarrow> json list \<Rightarrow> status \<times> json list" where
  "reply ok req rsp ret error events =
     (let response = build_response req rsp ret (if ret = SUCCESS then None else error)
      in if ok then (ret, response # events) else (FAILURE, [response]))"

section \<open>The environment of a request\<close>

record exam_env =
  xe_strsignal :: "32 word \<Rightarrow> string"
  xe_query :: "cursor \<Rightarrow> query_env"
  xe_first :: query_env
  xe_last :: query_env
  xe_sent :: bool

section \<open>Stepping\<close>

text \<open>What \<open>next\<close>, \<open>stepIn\<close> and \<open>stepOut\<close> do once their cursor is ready.\<close>

definition step_forward :: "exam_env \<Rightarrow> query_env \<Rightarrow> json \<Rightarrow> nav_row list \<Rightarrow> session \<Rightarrow> session \<times> status \<times> json list" where
  "step_forward env q req rows s =
     (case fetch q 0 rows of
        No_Data \<Rightarrow>
          if signum s \<noteq> 0
          then (s, reply (xe_sent env) req JSON_NEW_OBJ SUCCESS None [event_stopped (xe_strsignal env) STOP_REASON_SIGNAL s])
          else (s, reply (xe_sent env) req JSON_NEW_OBJ SUCCESS None [event_terminated])
      | Fetch_Error \<Rightarrow> (s, reply (xe_sent env) req JSON_NEW_OBJ FAILURE None [])
      | Row r \<Rightarrow>
          let s' = goto_row r s
          in (s', reply (xe_sent env) req JSON_NEW_OBJ SUCCESS None [event_stopped (xe_strsignal env) STOP_REASON_STEP s']))"

definition process_next :: "'g trace_db \<Rightarrow> exam_env \<Rightarrow> json \<Rightarrow> session \<Rightarrow> session \<times> status \<times> json list" where
  "process_next db env req s =
     (let q = xe_query env Next_Cursor
      in case ready Next_Cursor ''Cannot query next step'' q s of
           (Some e, s') \<Rightarrow> (s', reply (xe_sent env) req JSON_NEW_OBJ FAILURE (Some e) [])
         | (None, s') \<Rightarrow> step_forward env q req (take 1 (next_rows db s')) s')"

definition process_stepin :: "'g trace_db \<Rightarrow> exam_env \<Rightarrow> json \<Rightarrow> session \<Rightarrow> session \<times> status \<times> json list" where
  "process_stepin db env req s =
     (let q = xe_query env Stepin_Cursor
      in case ready Stepin_Cursor ''Cannot query next step'' q s of
           (Some e, s') \<Rightarrow> (s', reply (xe_sent env) req JSON_NEW_OBJ FAILURE (Some e) [])
         | (None, s') \<Rightarrow> step_forward env q req (stepin_rows db s') s')"

definition process_stepout :: "'g trace_db \<Rightarrow> exam_env \<Rightarrow> json \<Rightarrow> session \<Rightarrow> session \<times> status \<times> json list" where
  "process_stepout db env req s =
     (if sint (cur_depth s) \<le> 1 then (s, reply (xe_sent env) req JSON_NEW_OBJ SUCCESS None [])
      else let q = xe_query env Stepout_Cursor
           in case ready Stepout_Cursor ''Cannot query next step'' q s of
                (Some e, s') \<Rightarrow> (s', reply (xe_sent env) req JSON_NEW_OBJ FAILURE (Some e) [])
              | (None, s') \<Rightarrow> step_forward env q req (take 1 (stepout_rows db s')) s')"

definition process_stepback :: "'g trace_db \<Rightarrow> exam_env \<Rightarrow> json \<Rightarrow> session \<Rightarrow> session \<times> status \<times> json list" where
  "process_stepback db env req s =
     (if cur_step s \<le> 1 then (s, reply (xe_sent env) req JSON_NEW_OBJ SUCCESS None [event_terminated])
      else let q = xe_query env Stepback_Cursor
           in case ready Stepback_Cursor ''Cannot query next step'' q s of
                (Some e, s') \<Rightarrow> (s', reply (xe_sent env) req JSON_NEW_OBJ FAILURE (Some e) [])
              | (None, s') \<Rightarrow>
                  (case fetch q 0 (take 1 (stepback_rows db s')) of
                     Row r \<Rightarrow>
                       let s'' = goto_row r s'
                       in (s'', reply (xe_sent env) req JSON_NEW_OBJ SUCCESS None
                                  [event_stopped (xe_strsignal env) STOP_REASON_STEP s''])
                   | _ \<Rightarrow> (s', reply (xe_sent env) req JSON_NEW_OBJ FAILURE None [])))"

section \<open>Running to a breakpoint\<close>

definition set_first_step :: "'g trace_db \<Rightarrow> query_env \<Rightarrow> session \<Rightarrow> string option \<times> session" where
  "set_first_step db q s =
     (if \<not> (qe_prepare q \<and> qe_bind q) then (Some ''Cannot query database'', s)
      else case fetch q 0 [r \<leftarrow> nav_rows db. nr_id r = 1] of
        No_Data \<Rightarrow> (Some ''DB doesn't contain execution info'', s)
      | Fetch_Error \<Rightarrow> (Some ''Cannot get step info from DB'', s)
      | Row r \<Rightarrow> (None, s\<lparr>cur_file := Some (nr_file r), cur_line := word_of_int (nr_line r), cur_step := 1, cur_depth := 1\<rparr>))"

text \<open>\<^verbatim>\<open>s.id = (SELECT MAX(id) FROM step)\<close>.\<close>

definition last_rows :: "'g trace_db \<Rightarrow> nav_row list" where
  "last_rows db = [r \<leftarrow> nav_rows db. td_step db \<noteq> [] \<and> nr_id r = Max (set (map st_id (td_step db)))]"

definition set_last_step :: "'g trace_db \<Rightarrow> query_env \<Rightarrow> session \<Rightarrow> string option \<times> session" where
  "set_last_step db q s =
     (if \<not> (qe_prepare q \<and> qe_bind q) then (Some ''Cannot query database'', s)
      else case fetch q 0 (last_rows db) of
        No_Data \<Rightarrow> (Some ''DB doesn't contain execution info'', s)
      | Fetch_Error \<Rightarrow> (Some ''Cannot get step info from DB'', s)
      | Row r \<Rightarrow> (None, s\<lparr>cur_file := Some (nr_file r), cur_line := word_of_int (nr_line r),
                          cur_step := word_of_int (nr_id r), cur_depth := 1\<rparr>))"

text \<open>
  The loop over the fetched breakpoints, \<open>d\<close> being 1 for \<open>continue\<close> and -1 for \<open>reverseContinue\<close>: a row of the
  adjacent step on the current line only moves the current step.  Every fetched row overwrites the depth.
  (No recorded line has the number 0, so \<^verbatim>\<open>strcmp\<close> is not reached before a first position is set.)
\<close>

definition same_line :: "u64 \<Rightarrow> session \<Rightarrow> nav_row \<Rightarrow> bool" where
  "same_line d s r \<longleftrightarrow> word_of_int (nr_id r) = cur_step s + d \<and> word_of_int (nr_line r) = cur_line s \<and>
     cur_file s = Some (nr_file r)"

fun seek :: "query_env \<Rightarrow> nat \<Rightarrow> u64 \<Rightarrow> nav_row list \<Rightarrow> session \<Rightarrow> unit fetched \<times> session" where
  "seek q i d [] s = (if qe_fetch q i then No_Data else Fetch_Error, s)"
| "seek q i d (r # rows) s =
     (if \<not> qe_fetch q i then (Fetch_Error, s)
      else if same_line d s r
      then seek q (Suc i) d rows (s\<lparr>cur_depth := word_of_int (nr_depth r), cur_step := word_of_int (nr_id r)\<rparr>)
      else (Row (), goto_row r s))"

definition status_of :: "string option \<Rightarrow> status" where
  "status_of e = (if e = None then SUCCESS else FAILURE)"

definition process_continue :: "'g trace_db \<Rightarrow> exam_env \<Rightarrow> json \<Rightarrow> session \<Rightarrow> session \<times> status \<times> json list" where
  "process_continue db env req s =
     (let q = xe_query env Continue_Cursor
      in case ready Continue_Cursor ''Cannot query next breakpoint'' q s of
           (Some e, s') \<Rightarrow> (s', reply (xe_sent env) req JSON_NEW_OBJ FAILURE (Some e) [])
         | (None, s') \<Rightarrow>
             (case seek q 0 1 (continue_rows db s') s' of
                (No_Data, s1) \<Rightarrow>
                  let (e, s2) = set_last_step db (xe_last env) s1;
                      reason = (if signum s2 \<noteq> 0 then STOP_REASON_SIGNAL else STOP_REASON_EXIT)
                  in (s2, reply (xe_sent env) req JSON_NEW_OBJ (status_of e) e
                            (if e = None then [event_stopped (xe_strsignal env) reason s2] else []))
              | (Fetch_Error, s1) \<Rightarrow> (s1, reply (xe_sent env) req JSON_NEW_OBJ FAILURE None [])
              | (Row _, s1) \<Rightarrow>
                  (s1, reply (xe_sent env) req JSON_NEW_OBJ SUCCESS None
                         [event_stopped (xe_strsignal env) STOP_REASON_BREAK s1])))"

definition process_revcontinue :: "'g trace_db \<Rightarrow> exam_env \<Rightarrow> json \<Rightarrow> session \<Rightarrow> session \<times> status \<times> json list" where
  "process_revcontinue db env req s =
     (let q = xe_query env Revcontinue_Cursor
      in case ready Revcontinue_Cursor ''Cannot query next breakpoint'' q s of
           (Some e, s') \<Rightarrow> (s', reply (xe_sent env) req JSON_NEW_OBJ FAILURE (Some e) [])
         | (None, s') \<Rightarrow>
             (case seek q 0 (- 1) (revcontinue_rows db s') s' of
                (No_Data, s1) \<Rightarrow>
                  let (e, s2) = set_first_step db (xe_first env) s1
                  in (s2, reply (xe_sent env) req JSON_NEW_OBJ (status_of e) e
                            (if e = None then [event_stopped (xe_strsignal env) STOP_REASON_ENTRY s2] else []))
              | (Fetch_Error, s1) \<Rightarrow> (s1, reply (xe_sent env) req JSON_NEW_OBJ FAILURE None [])
              | (Row _, s1) \<Rightarrow>
                  (s1, reply (xe_sent env) req JSON_NEW_OBJ SUCCESS None
                         [event_stopped (xe_strsignal env) STOP_REASON_BREAK s1])))"

section \<open>Lemmas on queries\<close>

named_theorems nav_simps

lemma ready_position:
  "ready c msg q s = (e, s') \<Longrightarrow> \<exists>cs. s' = s\<lparr>cursors := cs\<rparr>"
  by (auto simp: ready_def split: if_splits intro: exI [of _ "cursors s"])

definition healthy_query :: "query_env \<Rightarrow> bool" where
  "healthy_query q \<longleftrightarrow> qe_prepare q \<and> qe_bind q \<and> qe_reset q \<and> (\<forall>i. qe_fetch q i)"

lemma ready_healthy:
  assumes "healthy_query q"
  shows "\<exists>cs. ready c msg q s = (None, s\<lparr>cursors := cs\<rparr>)"
  using assms by (auto simp: ready_def healthy_query_def intro: exI [of _ "cursors s"])

lemma elsewhere_cursors [nav_simps]: "elsewhere (s\<lparr>cursors := cs\<rparr>) = elsewhere s"
  by (cases "cur_file s") (simp_all add: elsewhere_def fun_eq_iff)

lemma rows_cursors [nav_simps]:
  "next_rows db (s\<lparr>cursors := cs\<rparr>) = next_rows db s"
  "stepin_rows db (s\<lparr>cursors := cs\<rparr>) = stepin_rows db s"
  "stepout_rows db (s\<lparr>cursors := cs\<rparr>) = stepout_rows db s"
  "stepback_rows db (s\<lparr>cursors := cs\<rparr>) = stepback_rows db s"
  "continue_rows db (s\<lparr>cursors := cs\<rparr>) = continue_rows db s"
  "revcontinue_rows db (s\<lparr>cursors := cs\<rparr>) = revcontinue_rows db s"
  by (simp_all add: next_rows_def stepin_rows_def stepout_rows_def stepback_rows_def continue_rows_def
      revcontinue_rows_def elsewhere_cursors)

text \<open>The head of a sorted list is the least element.\<close>

lemma sort_key_hd:
  assumes "sort_key k xs = y # ys"
  shows "y \<in> set xs" "\<And>x. x \<in> set xs \<Longrightarrow> k y \<le> k x"
proof -
  have sets: "set (y # ys) = set xs" using assms by (metis set_sort)
  then show "y \<in> set xs" by auto
  have "sorted (map k (y # ys))" using assms by (metis sorted_sort_key)
  then show "k y \<le> k x" if "x \<in> set xs" for x using that sets by (auto simp flip: sets)
qed

lemma sort_key_Nil: "sort_key k xs = [] \<longleftrightarrow> xs = []"
  by (metis length_0_conv length_sort)

lemma set_ascending [nav_simps]: "set (ascending rows) = set rows"
  by (simp add: ascending_def)

lemma set_descending [nav_simps]: "set (descending rows) = set rows"
  by (simp add: descending_def)

section \<open>Commands that move forward\<close>

text \<open>
  The contract that \<open>next\<close>, \<open>stepIn\<close> and \<open>stepOut\<close> share: on a working database and connection the command
  moves to the first of its rows, which are later than the current step.
\<close>

text \<open>Ids and lines fit into 64 bits and depths into 32, as the columns of the tables do.\<close>

definition trace_ok :: "'g trace_db \<Rightarrow> bool" where
  "trace_ok db \<longleftrightarrow> (\<forall>r \<in> set (nav_rows db). 1 \<le> nr_id r \<and> nr_id r < 2 ^ 63 \<and> 1 \<le> nr_line r \<and> nr_line r < 2 ^ 63 \<and>
     0 \<le> nr_depth r \<and> nr_depth r < 2 ^ 31)"

lemma sint_of_int64: "- (2 ^ 63) \<le> i \<Longrightarrow> i < 2 ^ 63 \<Longrightarrow> sint (word_of_int i :: u64) = i"
  by (simp add: signed_of_int signed_take_bit_int_eq_self)

lemma sint_of_int32: "- (2 ^ 31) \<le> i \<Longrightarrow> i < 2 ^ 31 \<Longrightarrow> sint (word_of_int i :: 32 word) = i"
  by (simp add: signed_of_int signed_take_bit_int_eq_self)

lemma goto_row_position:
  assumes "trace_ok db" "r \<in> set (nav_rows db)"
  shows "sint (cur_step (goto_row r s)) = nr_id r" "sint (cur_line (goto_row r s)) = nr_line r"
    "sint (cur_depth (goto_row r s)) = nr_depth r" "cur_file (goto_row r s) = Some (nr_file r)"
proof -
  have r: "1 \<le> nr_id r" "nr_id r < 2 ^ 63" "1 \<le> nr_line r" "nr_line r < 2 ^ 63" "0 \<le> nr_depth r" "nr_depth r < 2 ^ 31"
    using assms unfolding trace_ok_def by blast+
  then show "sint (cur_step (goto_row r s)) = nr_id r" "sint (cur_line (goto_row r s)) = nr_line r"
    using sint_of_int64 [of "nr_id r"] sint_of_int64 [of "nr_line r"] by (simp_all add: goto_row_def)
  show "sint (cur_depth (goto_row r s)) = nr_depth r"
    using r sint_of_int32 [of "nr_depth r"] by (simp add: goto_row_def)
qed (simp add: goto_row_def)

definition ends_replay :: "exam_env \<Rightarrow> json \<Rightarrow> session \<Rightarrow> json list" where
  "ends_replay env req s = [build_response req JSON_NEW_OBJ SUCCESS None,
     if signum s \<noteq> 0 then event_stopped (xe_strsignal env) STOP_REASON_SIGNAL s else event_terminated]"

definition stops_at :: "exam_env \<Rightarrow> json \<Rightarrow> stop_reason \<Rightarrow> session \<Rightarrow> json list" where
  "stops_at env req reason s =
     [build_response req JSON_NEW_OBJ SUCCESS None, event_stopped (xe_strsignal env) reason s]"

lemma step_forward_take: "step_forward env q req (take 1 rows) s = step_forward env q req rows s"
  by (cases rows) (simp_all add: step_forward_def fetch_def)

locale forward_command =
  fixes cmd :: "'g trace_db \<Rightarrow> exam_env \<Rightarrow> json \<Rightarrow> session \<Rightarrow> session \<times> status \<times> json list"
    and curs :: cursor
    and rows :: "'g trace_db \<Rightarrow> session \<Rightarrow> nav_row list"
    and active :: "session \<Rightarrow> bool"
  assumes cmd_forward: "healthy_query (xe_query env curs) \<Longrightarrow> active s \<Longrightarrow>
      \<exists>cs. cmd db env req s = step_forward env (xe_query env curs) req (take 1 (rows db s)) (s\<lparr>cursors := cs\<rparr>)"
    and rows_later: "r \<in> set (rows db s) \<Longrightarrow> r \<in> set (nav_rows db) \<and> sint (cur_step s) < nr_id r"
begin

lemma no_row:
  assumes "healthy_query (xe_query env curs)" "xe_sent env" "active s" "rows db s = []"
  shows "\<exists>cs. cmd db env req s = (s\<lparr>cursors := cs\<rparr>, SUCCESS, ends_replay env req (s\<lparr>cursors := cs\<rparr>))"
proof -
  obtain cs where "cmd db env req s = step_forward env (xe_query env curs) req (take 1 (rows db s)) (s\<lparr>cursors := cs\<rparr>)"
    using cmd_forward [OF assms(1,3)] by blast
  then show ?thesis
    using assms by (intro exI [of _ cs]) (simp add: step_forward_def fetch_def healthy_query_def reply_def ends_replay_def)
qed

lemma first_row:
  assumes "healthy_query (xe_query env curs)" "xe_sent env" "active s" "rows db s = r # rs"
  shows "\<exists>cs. cmd db env req s =
    (goto_row r (s\<lparr>cursors := cs\<rparr>), SUCCESS, stops_at env req STOP_REASON_STEP (goto_row r (s\<lparr>cursors := cs\<rparr>)))"
proof -
  obtain cs where "cmd db env req s = step_forward env (xe_query env curs) req (take 1 (rows db s)) (s\<lparr>cursors := cs\<rparr>)"
    using cmd_forward [OF assms(1,3)] by blast
  then show ?thesis
    using assms by (intro exI [of _ cs]) (simp add: step_forward_def fetch_def healthy_query_def reply_def stops_at_def Let_def)
qed

end

interpretation next_cmd: forward_command process_next Next_Cursor next_rows "\<lambda>s. True"
proof
  show "\<exists>cs. process_next db env req s = step_forward env (xe_query env Next_Cursor) req (take 1 (next_rows db s)) (s\<lparr>cursors := cs\<rparr>)"
    if "healthy_query (xe_query env Next_Cursor)" for env s and db :: "'a trace_db" and req
    using ready_healthy [OF that, of Next_Cursor "''Cannot query next step''" s]
    by (auto simp: process_next_def nav_simps)
qed (auto simp: next_rows_def nav_simps)

interpretation stepin_cmd: forward_command process_stepin Stepin_Cursor stepin_rows "\<lambda>s. True"
proof
  show "\<exists>cs. process_stepin db env req s = step_forward env (xe_query env Stepin_Cursor) req (take 1 (stepin_rows db s)) (s\<lparr>cursors := cs\<rparr>)"
    if "healthy_query (xe_query env Stepin_Cursor)" for env s and db :: "'a trace_db" and req
    using ready_healthy [OF that, of Stepin_Cursor "''Cannot query next step''" s]
    unfolding step_forward_take by (auto simp: process_stepin_def nav_simps)
qed (auto simp: stepin_rows_def nav_simps)

interpretation stepout_cmd: forward_command process_stepout Stepout_Cursor stepout_rows "\<lambda>s. 1 < sint (cur_depth s)"
proof
  show "\<exists>cs. process_stepout db env req s = step_forward env (xe_query env Stepout_Cursor) req (take 1 (stepout_rows db s)) (s\<lparr>cursors := cs\<rparr>)"
    if "healthy_query (xe_query env Stepout_Cursor)" "1 < sint (cur_depth s)" for env s and db :: "'a trace_db" and req
    using ready_healthy [OF that(1), of Stepout_Cursor "''Cannot query next step''" s] that(2)
    by (auto simp: process_stepout_def nav_simps)
qed (auto simp: stepout_rows_def nav_simps)

text \<open>
  A command that is always active can be repeated: every repetition leaves fewer steps ahead, so the replay ends.
\<close>

definition ahead :: "'g trace_db \<Rightarrow> session \<Rightarrow> nav_row list" where
  "ahead db s = [r \<leftarrow> nav_rows db. sint (cur_step s) < nr_id r]"

lemma ahead_goto:
  assumes "trace_ok db" "r \<in> set (ahead db s)"
  shows "length (ahead db (goto_row r s')) < length (ahead db s)"
proof -
  have r: "r \<in> set (nav_rows db)" "sint (cur_step s) < nr_id r" using assms(2) by (auto simp: ahead_def)
  have pos: "sint (cur_step (goto_row r s')) = nr_id r" using goto_row_position [OF assms(1) r(1)] by blast
  have sub: "ahead db (goto_row r s') = filter (\<lambda>x. nr_id r < nr_id x) (ahead db s)"
    unfolding ahead_def filter_filter pos by (rule filter_cong) (use r(2) in auto)
  have "length (filter (\<lambda>x. nr_id r < nr_id x) (ahead db s)) < length (ahead db s)"
    using assms(2) by (rule length_filter_less) simp
  then show ?thesis by (simp only: sub)
qed

locale repeatable_command = forward_command cmd curs rows "\<lambda>s. True"
  for cmd :: "'g trace_db \<Rightarrow> exam_env \<Rightarrow> json \<Rightarrow> session \<Rightarrow> session \<times> status \<times> json list"
    and curs rows +
  assumes rows_same: "rows db (s\<lparr>cursors := cs\<rparr>) = rows db s"
begin

lemma repeat_exhausts:
  assumes "healthy_query (xe_query env curs)" "xe_sent env" "trace_ok db" "length (ahead db s) \<le> n"
  shows "\<exists>s'. ((\<lambda>s. fst (cmd db env req s)) ^^ n) s = s' \<and> rows db s' = [] \<and> signum s' = signum s"
  using assms(4)
proof (induction n arbitrary: s)
  case 0
  then have "ahead db s = []" by simp
  then have "r \<notin> set (rows db s)" for r using rows_later [of r db s] by (auto simp: ahead_def filter_empty_conv)
  then have "rows db s = []" by (metis list.set_intros(1) neq_Nil_conv)
  then show ?case by simp
next
  case (Suc n)
  let ?f = "\<lambda>s. fst (cmd db env req s)"
  have "length (ahead db (?f s)) \<le> n \<and> signum (?f s) = signum s \<or> rows db (?f s) = [] \<and> rows db s = [] \<and> (\<exists>cs. ?f s = s\<lparr>cursors := cs\<rparr>)"
  proof (cases "rows db s")
    case Nil
    then show ?thesis using no_row [OF assms(1,2)] rows_same by (metis TrueI fst_conv)
  next
    case (Cons r rs)
    then obtain cs where cs: "?f s = goto_row r (s\<lparr>cursors := cs\<rparr>)"
      using first_row [OF assms(1,2)] by (metis TrueI fst_conv)
    have "r \<in> set (ahead db s)" using rows_later [of r db s] Cons by (simp add: ahead_def)
    from ahead_goto [OF assms(3) this, of "s\<lparr>cursors := cs\<rparr>"] have "length (ahead db (?f s)) \<le> n"
      using Suc.prems cs by simp
    then show ?thesis by (simp add: cs goto_row_def)
  qed
  then show ?case
  proof
    assume "length (ahead db (?f s)) \<le> n \<and> signum (?f s) = signum s"
    then show ?thesis using Suc.IH [of "?f s"] by (simp only: funpow_Suc_right o_apply)
  next
    assume a: "rows db (?f s) = [] \<and> rows db s = [] \<and> (\<exists>cs. ?f s = s\<lparr>cursors := cs\<rparr>)"
    have "rows db ((?f ^^ m) s) = [] \<and> signum ((?f ^^ m) s) = signum s" for m
    proof (induction m)
      case (Suc m)
      then obtain cs where "?f ((?f ^^ m) s) = (?f ^^ m) s\<lparr>cursors := cs\<rparr>"
        using no_row [OF assms(1,2)] by (metis TrueI fst_conv)
      then show ?case using Suc rows_same by simp
    qed (use a in simp)
    then show ?thesis by blast
  qed
qed

lemma replay_ends:
  assumes "healthy_query (xe_query env curs)" "xe_sent env" "trace_ok db" "length (ahead db s) \<le> n" "signum s = 0"
  shows "\<exists>s'. cmd db env req (((\<lambda>s. fst (cmd db env req s)) ^^ n) s) =
    (s', SUCCESS, [build_response req JSON_NEW_OBJ SUCCESS None, event_terminated])"
proof -
  obtain s' where s': "((\<lambda>s. fst (cmd db env req s)) ^^ n) s = s'" "rows db s' = []" "signum s' = 0"
    using repeat_exhausts [OF assms(1-4)] assms(5) by auto
  then show ?thesis using no_row [OF assms(1,2) TrueI s'(2)] by (auto simp: ends_replay_def)
qed

end

interpretation next_cmd: repeatable_command process_next Next_Cursor next_rows
  by unfold_locales (simp add: nav_simps)

interpretation stepin_cmd: repeatable_command process_stepin Stepin_Cursor stepin_rows
  by unfold_locales (simp add: nav_simps)

section \<open>Properties of stepping\<close>

text \<open>A database of three steps on two lines, and the session at its first step.\<close>

definition sample_db :: "unit trace_db" where
  "sample_db = \<lparr>td_step = [\<lparr>st_id = 1, st_address = 16, st_depth = 1, st_function_id = 1, st_regs = ()\<rparr>,
       \<lparr>st_id = 2, st_address = 20, st_depth = 2, st_function_id = 2, st_regs = ()\<rparr>,
       \<lparr>st_id = 3, st_address = 24, st_depth = 1, st_function_id = 1, st_regs = ()\<rparr>],
     td_statement = [\<lparr>sta_file_id = 1, sta_line = 5, sta_address = 16, sta_scope_id = 1\<rparr>,
       \<lparr>sta_file_id = 1, sta_line = 9, sta_address = 20, sta_scope_id = 2\<rparr>,
       \<lparr>sta_file_id = 1, sta_line = 6, sta_address = 24, sta_scope_id = 1\<rparr>],
     td_file = [\<lparr>fl_id = 1, fl_name = ''a.c'', fl_path = ''src''\<rparr>],
     td_function = [\<lparr>fn_id = 1, fn_name = ''main''\<rparr>, \<lparr>fn_id = 2, fn_name = ''f''\<rparr>], td_misc = []\<rparr>"

definition good_query :: query_env where
  "good_query = \<lparr>qe_prepare = True, qe_bind = True, qe_reset = True, qe_fetch = (\<lambda>i. True)\<rparr>"

definition good_env :: exam_env where
  "good_env = \<lparr>xe_strsignal = (\<lambda>n. ''signal''), xe_query = (\<lambda>c. good_query), xe_first = good_query, xe_last = good_query,
     xe_sent = True\<rparr>"

definition sample_session :: session where
  "sample_session = \<lparr>cur_file = Some ''a.c'', cur_step = 1, cur_line = 5, cur_depth = 1, signum = 0, program_base_addr = 0,
     stop_on_entry = True, source_path = Some ''/p'', frame_list = [], cursors = [], breakpoints = [], br_seq = 0\<rparr>"

lemma healthy_good [simp]: "healthy_query good_query"
  by (simp add: healthy_query_def good_query_def)

lemma good_env_sel [simp]: "xe_query good_env c = good_query" "xe_first good_env = good_query"
  "xe_last good_env = good_query" "xe_sent good_env"
  by (simp_all add: good_env_def)

abbreviation sample_row :: "int \<Rightarrow> int \<Rightarrow> int \<Rightarrow> nav_row" where
  "sample_row l i d \<equiv> \<lparr>nr_file = ''a.c'', nr_file_id = 1, nr_line = l, nr_id = i, nr_depth = d\<rparr>"

lemma sample_rows: "nav_rows sample_db = [sample_row 5 1 1, sample_row 9 2 2, sample_row 6 3 1]"
  by (simp add: nav_rows_def joined_def sample_db_def nav_row_of_def)

lemma sample_trace_ok: "trace_ok sample_db"
  by (simp add: trace_ok_def sample_rows)

text \<open>The rows that \<open>next\<close> may stop at: later, not deeper, on another line.\<close>

definition next_target :: "session \<Rightarrow> nav_row \<Rightarrow> bool" where
  "next_target s r \<longleftrightarrow> sint (cur_step s) < nr_id r \<and> nr_depth r \<le> sint (cur_depth s) \<and>
     \<not> (cur_file s = Some (nr_file r) \<and> nr_line r = sint (cur_line s))"

lemma next_rows_target:
  "cur_file s \<noteq> None \<Longrightarrow> set (next_rows db s) = {r \<in> set (nav_rows db). next_target s r}"
  by (auto simp: next_rows_def nav_simps next_target_def elsewhere_def)

lemma next_none:
  assumes "healthy_query (xe_query env Next_Cursor)" "xe_sent env" "cur_file s \<noteq> None"
    and "\<not> (\<exists>r \<in> set (nav_rows db). next_target s r)"
  shows "\<exists>cs. process_next db env req s = (s\<lparr>cursors := cs\<rparr>, SUCCESS, ends_replay env req (s\<lparr>cursors := cs\<rparr>))"
proof -
  have "set (next_rows db s) = {}" using assms(4) next_rows_target [OF assms(3), of db] by auto
  then show ?thesis using next_cmd.no_row [OF assms(1,2) TrueI] by simp
qed

lemma next_some:
  assumes "healthy_query (xe_query env Next_Cursor)" "xe_sent env" "cur_file s \<noteq> None"
    and "\<exists>r \<in> set (nav_rows db). next_target s r"
  shows "\<exists>r \<in> set (nav_rows db). next_target s r \<and> (\<forall>r' \<in> set (nav_rows db). next_target s r' \<longrightarrow> nr_id r \<le> nr_id r') \<and>
    (\<exists>cs. process_next db env req s =
      (goto_row r (s\<lparr>cursors := cs\<rparr>), SUCCESS, stops_at env req STOP_REASON_STEP (goto_row r (s\<lparr>cursors := cs\<rparr>))))"
proof -
  have sets: "set (next_rows db s) = {r \<in> set (nav_rows db). next_target s r}" by (rule next_rows_target [OF assms(3)])
  then obtain r rs where rows: "next_rows db s = r # rs" using assms(4) by (cases "next_rows db s") auto
  note head = sort_key_hd [OF rows [unfolded next_rows_def ascending_def]]
  have "r \<in> set (nav_rows db)" "next_target s r" using rows sets by auto
  moreover have "nr_id r \<le> nr_id r'" if "r' \<in> set (nav_rows db)" "next_target s r'" for r'
  proof -
    have "r' \<in> set (next_rows db s)" using that sets by blast
    then show ?thesis using head(2) by (simp add: next_rows_def nav_simps)
  qed
  ultimately show ?thesis using next_cmd.first_row [OF assms(1,2) TrueI rows] by blast
qed

text \<open>
  C25.  \<open>next\<close> goes to the earliest later step of the function or of a caller of it that is on another line:
  every recorded step that it jumps over is deeper or on the line it left.  It reports success and a stop; when there is no such step it
  stays and reports the end of the program, or the signal that ended it.
\<close>

theorem process_next_exact:
  assumes "healthy_query (xe_query env Next_Cursor)" "xe_sent env" "cur_file s \<noteq> None"
  shows "\<exists>cs s'. if \<exists>r \<in> set (nav_rows db). next_target s r
    then (\<exists>r \<in> set (nav_rows db). next_target s r \<and> (\<forall>r' \<in> set (nav_rows db). next_target s r' \<longrightarrow> nr_id r \<le> nr_id r') \<and>
        s' = goto_row r (s\<lparr>cursors := cs\<rparr>) \<and>
        process_next db env req s = (s', SUCCESS, stops_at env req STOP_REASON_STEP s'))
    else s' = s\<lparr>cursors := cs\<rparr> \<and> process_next db env req s = (s', SUCCESS, ends_replay env req s')"
  using next_none [OF assms, of db req] next_some [OF assms, of db req]
  by (cases "\<exists>r \<in> set (nav_rows db). next_target s r") (simp only: if_True if_False, blast)+

theorem process_next_exact_witness:
  "\<exists>cs s'. s' = goto_row (sample_row 6 3 1) (sample_session\<lparr>cursors := cs\<rparr>) \<and>
     process_next sample_db good_env (JObj []) sample_session = (s', SUCCESS, stops_at good_env (JObj []) STOP_REASON_STEP s')"
  using process_next_exact [of good_env sample_session sample_db "JObj []"]
  by (auto simp: sample_rows next_target_def sample_session_def)

text \<open>
  C32.  The replay ends: when the program exited normally, repeating \<open>next\<close> as often as there are recorded steps
  ahead makes the following \<open>next\<close> report the end of the program.
\<close>

theorem repeated_next_terminates:
  assumes "trace_ok db" "healthy_query (xe_query env Next_Cursor)" "xe_sent env" "signum s = 0"
    and "length [r \<leftarrow> nav_rows db. sint (cur_step s) < nr_id r] \<le> n"
  shows "\<exists>s'. process_next db env req (((\<lambda>s. fst (process_next db env req s)) ^^ n) s) =
    (s', SUCCESS, [build_response req JSON_NEW_OBJ SUCCESS None, event_terminated])"
  using next_cmd.replay_ends [OF assms(2,3,1)] assms(4,5) by (simp add: ahead_def)

theorem repeated_next_terminates_witness:
  "\<exists>s'. process_next sample_db good_env (JObj []) (((\<lambda>s. fst (process_next sample_db good_env (JObj []) s)) ^^ 2) sample_session) =
    (s', SUCCESS, [build_response (JObj []) JSON_NEW_OBJ SUCCESS None, event_terminated])"
  by (rule repeated_next_terminates [OF sample_trace_ok]) (simp_all add: sample_rows sample_session_def)

text \<open>Stepping in visits the steps one by one, when every step has exactly one statement.\<close>

definition one_row_per_step :: "'g trace_db \<Rightarrow> nat \<Rightarrow> bool" where
  "one_row_per_step db n \<longleftrightarrow> map nr_id (nav_rows db) = map int [1..<Suc n]"

lemma rows_with_id:
  assumes "one_row_per_step db n" "k < n"
  shows "[r \<leftarrow> nav_rows db. nr_id r = int k + 1] = [nav_rows db ! k]"
proof -
  let ?rs = "nav_rows db"
  have len: "length ?rs = n" using assms(1) by (metis length_map length_upt diff_Suc_1 one_row_per_step_def)
  have ids: "nr_id (?rs ! i) = int i + 1" if "i < n" for i
  proof -
    have "nr_id (?rs ! i) = map nr_id ?rs ! i" using that len by simp
    also have "\<dots> = map int [1..<Suc n] ! i" using assms(1) by (simp only: one_row_per_step_def)
    also have "\<dots> = int i + 1" using that by (simp del: upt_Suc)
    finally show ?thesis .
  qed
  have "[r \<leftarrow> ?rs. nr_id r = int k + 1] = map (\<lambda>i. ?rs ! i) [i \<leftarrow> [0..<n]. nr_id (?rs ! i) = int k + 1]"
    using filter_map [of "\<lambda>r. nr_id r = int k + 1" "(!) ?rs" "[0..<n]"] map_nth [of ?rs] by (simp add: len comp_def)
  also have "[i \<leftarrow> [0..<n]. nr_id (?rs ! i) = int k + 1] = [i \<leftarrow> [0..<n]. i = k]"
    by (rule filter_cong) (auto simp: ids)
  also have "\<dots> = [k]"
  proof -
    have "[i \<leftarrow> [0..<m]. i = k] = (if k < m then [k] else [])" for m
      by (induction m) auto
    then show ?thesis using assms(2) by simp
  qed
  finally show ?thesis by simp
qed

text \<open>
  Stepping in replays the recording step by step: from the first step, \<open>k\<close> repetitions of \<open>stepIn\<close> lead to the
  position of step \<open>k + 1\<close>.
\<close>

theorem stepin_replays:
  assumes "trace_ok db" "one_row_per_step db n" "k < n" "0 < k"
    and "healthy_query (xe_query env Stepin_Cursor)" "xe_sent env" "cur_step s = 1"
  shows "\<exists>s0. ((\<lambda>s. fst (process_stepin db env req s)) ^^ k) s = goto_row (nav_rows db ! k) s0"
proof -
  let ?f = "\<lambda>s. fst (process_stepin db env req s)"
  have row: "nav_rows db ! i \<in> set (nav_rows db) \<and> nr_id (nav_rows db ! i) = int i + 1" if "i < n" for i
  proof -
    have "nav_rows db ! i \<in> set [r \<leftarrow> nav_rows db. nr_id r = int i + 1]" by (simp add: rows_with_id [OF assms(2) that])
    then show ?thesis by simp
  qed
  have small: "int n < 2 ^ 63"
    using row [of "n - 1"] assms(1,3) unfolding trace_ok_def by force
  have one: "\<exists>s0. ?f s' = goto_row (nav_rows db ! Suc i) s0" if "sint (cur_step s') = int i + 1" "Suc i < n" for i s'
  proof -
    have "stepin_rows db s' = [nav_rows db ! Suc i]"
      using rows_with_id [OF assms(2) that(2)] that(1) by (simp add: stepin_rows_def algebra_simps)
    from stepin_cmd.first_row [OF assms(5,6) TrueI this] show ?thesis by (metis fst_conv)
  qed
  have "Suc i < n \<Longrightarrow> \<exists>s0. (?f ^^ Suc i) s = goto_row (nav_rows db ! Suc i) s0" for i
  proof (induction i)
    case 0
    then show ?case using one [of s 0] assms(7) by simp
  next
    case (Suc i)
    then obtain s0 where s0: "(?f ^^ Suc i) s = goto_row (nav_rows db ! Suc i) s0" by auto
    have "sint (cur_step (goto_row (nav_rows db ! Suc i) s0)) = int (Suc i) + 1"
      using goto_row_position(1) [OF assms(1)] row [of "Suc i"] Suc.prems by simp
    from one [OF this Suc.prems] show ?case using s0 by (simp only: funpow.simps(2) o_apply)
  qed
  from this [of "k - 1"] show ?thesis using assms(3,4) by simp
qed

theorem stepin_replays_witness:
  "\<exists>s0. ((\<lambda>s. fst (process_stepin sample_db good_env (JObj []) s)) ^^ 2) sample_session = goto_row (nav_rows sample_db ! 2) s0"
  by (rule stepin_replays [OF sample_trace_ok, where n = 3])
     (simp_all add: one_row_per_step_def sample_rows sample_session_def upt_rec numeral_eq_Suc)

section \<open>Stepping back\<close>

text \<open>The session stands at a recorded step.\<close>

definition at_row :: "session \<Rightarrow> nav_row \<Rightarrow> bool" where
  "at_row s r \<longleftrightarrow> cur_file s = Some (nr_file r) \<and> sint (cur_line s) = nr_line r \<and> sint (cur_step s) = nr_id r \<and>
     sint (cur_depth s) = nr_depth r"

lemma at_row_goto: "trace_ok db \<Longrightarrow> r \<in> set (nav_rows db) \<Longrightarrow> at_row (goto_row r s) r"
  using goto_row_position [of db r s] by (simp add: at_row_def)

definition back_target :: "session \<Rightarrow> nav_row \<Rightarrow> bool" where
  "back_target s r \<longleftrightarrow> nr_id r < sint (cur_step s) \<and> nr_depth r \<le> sint (cur_depth s) \<and>
     \<not> (cur_file s = Some (nr_file r) \<and> nr_line r = sint (cur_line s))"

lemma sint_le_1:
  assumes "w \<le> (1 :: u64)"
  shows "sint w \<le> 1"
proof -
  have "unat w = 0 \<or> unat w = unat (1 :: u64)" using assms by (auto simp: u64_le_unat)
  then have "w = 0 \<or> w = 1" by (metis word_unat_eq_iff unsigned_0)
  then show ?thesis by auto
qed

lemma stepback_some:
  assumes "healthy_query (xe_query env Stepback_Cursor)" "xe_sent env" "cur_file s \<noteq> None" "1 < cur_step s"
    and "\<exists>r \<in> set (nav_rows db). back_target s r"
  shows "\<exists>r \<in> set (nav_rows db). back_target s r \<and> (\<forall>r' \<in> set (nav_rows db). back_target s r' \<longrightarrow> nr_id r' \<le> nr_id r) \<and>
    (\<exists>cs. process_stepback db env req s =
      (goto_row r (s\<lparr>cursors := cs\<rparr>), SUCCESS, stops_at env req STOP_REASON_STEP (goto_row r (s\<lparr>cursors := cs\<rparr>))))"
proof -
  have sets: "set (stepback_rows db s) = {r \<in> set (nav_rows db). back_target s r}"
    using assms(3) by (auto simp: stepback_rows_def nav_simps back_target_def elsewhere_def)
  then obtain r rs where rows: "stepback_rows db s = r # rs" using assms(5) by (cases "stepback_rows db s") auto
  note head = sort_key_hd [OF rows [unfolded stepback_rows_def descending_def]]
  have target: "r \<in> set (nav_rows db)" "back_target s r" using rows sets by auto
  have least: "nr_id r' \<le> nr_id r" if "r' \<in> set (nav_rows db)" "back_target s r'" for r'
  proof -
    have "r' \<in> set (stepback_rows db s)" using that sets by blast
    then show ?thesis using head(2) [of r'] by (simp add: stepback_rows_def nav_simps)
  qed
  obtain cs where "ready Stepback_Cursor ''Cannot query next step'' (xe_query env Stepback_Cursor) s = (None, s\<lparr>cursors := cs\<rparr>)"
    using ready_healthy [OF assms(1)] by blast
  moreover have "\<not> cur_step s \<le> 1" using assms(4) by simp
  ultimately have "process_stepback db env req s =
      (goto_row r (s\<lparr>cursors := cs\<rparr>), SUCCESS, stops_at env req STOP_REASON_STEP (goto_row r (s\<lparr>cursors := cs\<rparr>)))"
    using assms(1,2) rows
    by (simp add: process_stepback_def nav_simps fetch_def healthy_query_def reply_def stops_at_def Let_def)
  with target least show ?thesis by blast
qed

text \<open>
  C31.  \<open>stepBack\<close> undoes \<open>next\<close>: after a \<open>next\<close> that stayed in the same function call, \<open>stepBack\<close> returns to
  the line that \<open>next\<close> left.
\<close>

theorem stepback_undoes_next:
  assumes "trace_ok db" "distinct (map nr_id (nav_rows db))"
    and "healthy_query (xe_query env Next_Cursor)" "healthy_query (xe_query env Stepback_Cursor)" "xe_sent env"
    and "a \<in> set (nav_rows db)" "at_row s a" "\<exists>r \<in> set (nav_rows db). next_target s r"
    and "cur_depth (fst (process_next db env req s)) = cur_depth s"
  shows "\<exists>c \<in> set (nav_rows db). at_row (fst (process_stepback db env req (fst (process_next db env req s)))) c \<and>
    nr_file c = nr_file a \<and> nr_line c = nr_line a \<and> nr_id a \<le> nr_id c"
proof -
  have "cur_file s \<noteq> None" using assms(7) by (simp add: at_row_def)
  from next_some [OF assms(3,5) this assms(8), of req]
  obtain r cs where r: "r \<in> set (nav_rows db)" "next_target s r"
    "\<forall>r' \<in> set (nav_rows db). next_target s r' \<longrightarrow> nr_id r \<le> nr_id r'"
    and mv: "process_next db env req s =
      (goto_row r (s\<lparr>cursors := cs\<rparr>), SUCCESS, stops_at env req STOP_REASON_STEP (goto_row r (s\<lparr>cursors := cs\<rparr>)))"
    by blast
  define s1 where "s1 = fst (process_next db env req s)"
  have s1: "at_row s1 r" unfolding s1_def mv fst_conv by (rule at_row_goto [OF assms(1) r(1)])
  have depth: "nr_depth r = nr_depth a" using assms(7,9) s1 by (simp add: at_row_def flip: s1_def)
  have ra: "nr_id a < nr_id r" using r(2) assms(7) by (simp add: next_target_def at_row_def)
  have "back_target s1 a" using r(2) s1 assms(7) depth by (auto simp: back_target_def next_target_def at_row_def)
  moreover have "1 < cur_step s1"
  proof -
    have "1 \<le> nr_id a" using assms(1,6) by (simp add: trace_ok_def)
    then have "1 < sint (cur_step s1)" using ra s1 by (simp add: at_row_def)
    then show ?thesis using sint_le_1 [of "cur_step s1"] by force
  qed
  moreover have "cur_file s1 \<noteq> None" using s1 by (simp add: at_row_def)
  ultimately obtain c cs' where c: "c \<in> set (nav_rows db)" "back_target s1 c" "nr_id a \<le> nr_id c"
    "process_stepback db env req s1 =
      (goto_row c (s1\<lparr>cursors := cs'\<rparr>), SUCCESS, stops_at env req STOP_REASON_STEP (goto_row c (s1\<lparr>cursors := cs'\<rparr>)))"
    using stepback_some [OF assms(4,5), of s1 db req] assms(6) by blast
  have "nr_file c = nr_file a \<and> nr_line c = nr_line a"
  proof (cases "nr_id c = nr_id a")
    case True
    then have "c = a" using assms(2,6) c(1) by (meson eq_key_imp_eq_value distinct_map inj_onD)
    then show ?thesis by simp
  next
    case False
    then have "\<not> next_target s c" using r(3) c(1,2) s1 by (force simp: back_target_def at_row_def)
    moreover have "nr_depth c \<le> nr_depth a" using c(2) s1 depth by (simp add: back_target_def at_row_def)
    ultimately show ?thesis using False c(3) assms(7) by (auto simp: next_target_def at_row_def)
  qed
  then show ?thesis using c at_row_goto [OF assms(1) c(1)] by (auto simp flip: s1_def)
qed

theorem stepback_undoes_next_witness:
  "\<exists>c \<in> set (nav_rows sample_db). at_row (fst (process_stepback sample_db good_env (JObj [])
      (fst (process_next sample_db good_env (JObj []) sample_session)))) c \<and> nr_file c = ''a.c'' \<and> nr_line c = 5 \<and> 1 \<le> nr_id c"
proof -
  have row: "next_rows sample_db sample_session = [sample_row 6 3 1]"
    by (simp add: next_rows_def sample_rows sample_session_def elsewhere_def ascending_def)
  have "\<exists>c \<in> set (nav_rows sample_db). at_row (fst (process_stepback sample_db good_env (JObj [])
      (fst (process_next sample_db good_env (JObj []) sample_session)))) c \<and> nr_file c = nr_file (sample_row 5 1 1) \<and>
      nr_line c = nr_line (sample_row 5 1 1) \<and> nr_id (sample_row 5 1 1) \<le> nr_id c"
  proof (rule stepback_undoes_next [OF sample_trace_ok])
    obtain cs where "fst (process_next sample_db good_env (JObj []) sample_session) =
        goto_row (sample_row 6 3 1) (sample_session\<lparr>cursors := cs\<rparr>)"
      using next_cmd.first_row [OF _ _ TrueI row, of good_env "JObj []"] by auto
    then show "cur_depth (fst (process_next sample_db good_env (JObj []) sample_session)) = cur_depth sample_session"
      by (simp add: goto_row_def sample_session_def)
  qed (simp_all add: sample_rows at_row_def sample_session_def next_target_def)
  then show ?thesis by simp
qed

section \<open>Running to a breakpoint\<close>

text \<open>
  \<open>runs_on a d rs\<close>: from the step \<open>a\<close>, the rows \<open>rs\<close> are the adjacent steps (in direction \<open>d\<close>), all on the line of \<open>a\<close>.
\<close>

fun runs_on :: "nav_row \<Rightarrow> int \<Rightarrow> nav_row list \<Rightarrow> bool" where
  "runs_on a d [] \<longleftrightarrow> True"
| "runs_on a d (r # rs) \<longleftrightarrow>
     nr_id r = nr_id a + d \<and> nr_line r = nr_line a \<and> nr_file r = nr_file a \<and> runs_on r d rs"

lemma same_line_iff:
  assumes "trace_ok db" "a \<in> set (nav_rows db)" "r \<in> set (nav_rows db)" "at_row s a" "d = 1 \<or> d = - 1"
  shows "same_line (word_of_int d) s r \<longleftrightarrow> nr_id r = nr_id a + d \<and> nr_line r = nr_line a \<and> nr_file r = nr_file a"
proof -
  have rng: "1 \<le> nr_id x \<and> nr_id x < 2 ^ 63 \<and> 1 \<le> nr_line x \<and> nr_line x < 2 ^ 63" if "x \<in> set (nav_rows db)" for x
    using that assms(1) unfolding trace_ok_def by blast
  have inj: "(word_of_int i :: u64) = word_of_int j \<longleftrightarrow> i = j" if "0 \<le> i" "i \<le> 2 ^ 63" "0 \<le> j" "j \<le> 2 ^ 63" for i j
  proof -
    have "take_bit 64 i = i" "take_bit 64 j = j" using that by (simp_all add: take_bit_int_eq_self)
    then show ?thesis by (simp add: word_of_int_eq_iff)
  qed
  have pos: "cur_step s = word_of_int (nr_id a)" "cur_line s = word_of_int (nr_line a)" "cur_file s = Some (nr_file a)"
    using assms(4) by (simp_all add: at_row_def) (metis word_of_sint)+
  have "(word_of_int (nr_id r) :: u64) = cur_step s + word_of_int d \<longleftrightarrow> nr_id r = nr_id a + d"
    using rng [OF assms(2)] rng [OF assms(3)] assms(5) inj [of "nr_id r" "nr_id a + d"] by (auto simp: pos)
  moreover have "(word_of_int (nr_line r) :: u64) = cur_line s \<longleftrightarrow> nr_line r = nr_line a"
    using rng [OF assms(2)] rng [OF assms(3)] by (simp add: pos inj)
  ultimately show ?thesis by (auto simp: same_line_def pos)
qed

lemma seek_spec:
  assumes "trace_ok db" "healthy_query q" "d = 1 \<or> d = - 1"
    and "a \<in> set (nav_rows db)" "at_row s a" "set rows \<subseteq> set (nav_rows db)"
  shows "\<exists>pre post s0. rows = pre @ post \<and> runs_on a d pre \<and> signum s0 = signum s \<and>
    (case post of [] \<Rightarrow> seek q i (word_of_int d) rows s = (No_Data, s0)
     | r # _ \<Rightarrow> \<not> runs_on a d (pre @ [r]) \<and> seek q i (word_of_int d) rows s = (Row (), goto_row r s0))"
  using assms(4-6)
proof (induction rows arbitrary: i s a)
  case Nil
  have "seek q i (word_of_int d) [] s = (No_Data, s)" using assms(2) by (simp add: healthy_query_def)
  then show ?case by (intro exI [of _ "[]"] exI [of _ s]) simp
next
  case (Cons r rows)
  have r: "r \<in> set (nav_rows db)" using Cons.prems(3) by simp
  have fetch: "qe_fetch q i" using assms(2) by (simp add: healthy_query_def)
  note same = same_line_iff [OF assms(1) Cons.prems(1) r Cons.prems(2) assms(3)]
  show ?case
  proof (cases "same_line (word_of_int d) s r")
    case False
    then have "\<not> runs_on a d ([] @ [r])" using same by simp
    moreover have "seek q i (word_of_int d) (r # rows) s = (Row (), goto_row r s)" using False fetch by simp
    ultimately show ?thesis by (intro exI [of _ "[]"] exI [of _ "r # rows"] exI [of _ s]) simp
  next
    case True
    let ?s = "s\<lparr>cur_depth := word_of_int (nr_depth r), cur_step := word_of_int (nr_id r)\<rparr>"
    have "at_row ?s r"
      using goto_row_position [OF assms(1) r, of s] True [unfolded same] Cons.prems(2) by (simp add: at_row_def goto_row_def)
    from Cons.IH [OF r this, of "Suc i"] Cons.prems(3)
    obtain pre post s0 where ih: "rows = pre @ post" "runs_on r d pre" "signum s0 = signum s"
      "case post of [] \<Rightarrow> seek q (Suc i) (word_of_int d) rows ?s = (No_Data, s0)
       | r' # _ \<Rightarrow> \<not> runs_on r d (pre @ [r']) \<and> seek q (Suc i) (word_of_int d) rows ?s = (Row (), goto_row r' s0)"
      by auto
    have e: "seek q i (word_of_int d) (r # rows) s = seek q (Suc i) (word_of_int d) rows ?s" using True fetch by simp
    have "runs_on a d (r # pre)" using ih(2) True [unfolded same] by simp
    moreover have "case post of [] \<Rightarrow> seek q i (word_of_int d) (r # rows) s = (No_Data, s0)
       | r' # _ \<Rightarrow> \<not> runs_on a d ((r # pre) @ [r']) \<and> seek q i (word_of_int d) (r # rows) s = (Row (), goto_row r' s0)"
      unfolding e using ih(4) by (cases post) auto
    ultimately show ?thesis using ih(1,3) by (intro exI [of _ "r # pre"] exI [of _ post] exI [of _ s0]) simp
  qed
qed

lemma breakpoint_rows [nav_simps]: "set (at_breakpoint brs rows) \<subseteq> set rows"
  by (auto simp: at_breakpoint_def)

text \<open>
  C26.  \<open>continue\<close> stops at the next breakpoint: of the recorded steps ahead with a breakpoint on their line, in
  order, it passes over those that merely continue the current line without leaving it, and stops at the first other one; without one it
  goes to the last recorded step and reports the exit or the signal.
\<close>

theorem process_continue_exact:
  assumes "trace_ok db" "healthy_query (xe_query env Continue_Cursor)" "healthy_query (xe_last env)" "xe_sent env"
    and "a \<in> set (nav_rows db)" "at_row s a" "last_rows db = l # ls"
  shows "\<exists>pre post s'. continue_rows db s = pre @ post \<and> runs_on a 1 pre \<and>
    (case post of
       [] \<Rightarrow> process_continue db env req s =
               (s', SUCCESS, stops_at env req (if signum s \<noteq> 0 then STOP_REASON_SIGNAL else STOP_REASON_EXIT) s') \<and>
             sint (cur_step s') = Max (set (map st_id (td_step db)))
     | r # _ \<Rightarrow> \<not> runs_on a 1 (pre @ [r]) \<and> at_row s' r \<and>
             process_continue db env req s = (s', SUCCESS, stops_at env req STOP_REASON_BREAK s'))"
proof -
  let ?q = "xe_query env Continue_Cursor"
  obtain cs where rdy: "ready Continue_Cursor ''Cannot query next breakpoint'' ?q s = (None, s\<lparr>cursors := cs\<rparr>)"
    using ready_healthy [OF assms(2)] by blast
  have at: "at_row (s\<lparr>cursors := cs\<rparr>) a" using assms(6) by (simp add: at_row_def)
  have sub: "set (continue_rows db s) \<subseteq> set (nav_rows db)"
    using breakpoint_rows by (fastforce simp: continue_rows_def nav_simps)
  obtain pre post s0 where sk: "continue_rows db s = pre @ post" "runs_on a 1 pre" "signum s0 = signum s"
    "case post of [] \<Rightarrow> seek ?q 0 1 (continue_rows db s) (s\<lparr>cursors := cs\<rparr>) = (No_Data, s0)
     | r # _ \<Rightarrow> \<not> runs_on a 1 (pre @ [r]) \<and> seek ?q 0 1 (continue_rows db s) (s\<lparr>cursors := cs\<rparr>) = (Row (), goto_row r s0)"
    using seek_spec [OF assms(1,2) disjI1 [OF refl] assms(5) at sub, of 0] unfolding of_int_1 by auto
  show ?thesis
  proof (cases post)
    case Nil
    have l: "l \<in> set (last_rows db)" by (simp add: assms(7))
    then have lid: "l \<in> set (nav_rows db)" "nr_id l = Max (set (map st_id (td_step db)))" by (auto simp: last_rows_def)
    let ?s = "s0\<lparr>cur_file := Some (nr_file l), cur_line := word_of_int (nr_line l), cur_step := word_of_int (nr_id l), cur_depth := 1\<rparr>"
    have "set_last_step db (xe_last env) s0 = (None, ?s)"
      using assms(3,7) by (simp add: set_last_step_def fetch_def healthy_query_def)
    then have "process_continue db env req s =
        (?s, SUCCESS, stops_at env req (if signum s \<noteq> 0 then STOP_REASON_SIGNAL else STOP_REASON_EXIT) ?s)"
      using sk rdy Nil assms(4)
      by (simp add: process_continue_def nav_simps reply_def stops_at_def status_of_def)
    moreover have "sint (cur_step ?s) = nr_id l"
      using goto_row_position(1) [OF assms(1) lid(1), of s0] by (simp add: goto_row_def)
    ultimately show ?thesis
      using sk(1,2) Nil lid(2) by (intro exI [of _ pre] exI [of _ post] exI [of _ ?s]) (simp only: list.case simp_thms)
  next
    case (Cons r rest)
    have "r \<in> set (nav_rows db)" using sub sk(1) Cons by auto
    then have "at_row (goto_row r s0) r" by (rule at_row_goto [OF assms(1)])
    moreover have "process_continue db env req s =
        (goto_row r s0, SUCCESS, stops_at env req STOP_REASON_BREAK (goto_row r s0))"
      using sk rdy Cons assms(4) by (simp add: process_continue_def nav_simps reply_def stops_at_def)
    ultimately show ?thesis
      using sk Cons by (intro exI [of _ pre] exI [of _ post] exI [of _ "goto_row r s0"]) simp
  qed
qed

definition break_session :: session where
  "break_session = sample_session\<lparr>breakpoints := [\<lparr>br_id = 1, br_file_id = 1, br_line = 6\<rparr>]\<rparr>"

lemma sample_last: "last_rows sample_db = [sample_row 6 3 1]"
  unfolding last_rows_def sample_rows by (simp add: sample_db_def)

theorem process_continue_exact_witness:
  "\<exists>s'. at_row s' (sample_row 6 3 1) \<and>
     process_continue sample_db good_env (JObj []) break_session = (s', SUCCESS, stops_at good_env (JObj []) STOP_REASON_BREAK s')"
proof -
  have "continue_rows sample_db break_session = [sample_row 6 3 1]"
    by (simp add: continue_rows_def sample_rows break_session_def sample_session_def at_breakpoint_def ascending_def)
  then show ?thesis
    using process_continue_exact [OF sample_trace_ok, of good_env "sample_row 5 1 1" break_session _ _ "JObj []"] sample_last
    by (auto simp: sample_rows at_row_def break_session_def sample_session_def append_eq_Cons_conv Cons_eq_append_conv
        split: list.splits)
qed

text \<open>
  \<open>reverseContinue\<close> stops at the previous breakpoint, passing over the steps that merely precede the current one on
  its line, and at the first step when there is none.
\<close>

theorem process_revcontinue_exact:
  assumes "trace_ok db" "healthy_query (xe_query env Revcontinue_Cursor)" "healthy_query (xe_first env)" "xe_sent env"
    and "a \<in> set (nav_rows db)" "at_row s a" "[r \<leftarrow> nav_rows db. nr_id r = 1] = l # ls"
  shows "\<exists>pre post s'. revcontinue_rows db s = pre @ post \<and> runs_on a (- 1) pre \<and>
    (case post of
       [] \<Rightarrow> process_revcontinue db env req s = (s', SUCCESS, stops_at env req STOP_REASON_ENTRY s') \<and> cur_step s' = 1
     | r # _ \<Rightarrow> \<not> runs_on a (- 1) (pre @ [r]) \<and> at_row s' r \<and>
             process_revcontinue db env req s = (s', SUCCESS, stops_at env req STOP_REASON_BREAK s'))"
proof -
  let ?q = "xe_query env Revcontinue_Cursor"
  obtain cs where rdy: "ready Revcontinue_Cursor ''Cannot query next breakpoint'' ?q s = (None, s\<lparr>cursors := cs\<rparr>)"
    using ready_healthy [OF assms(2)] by blast
  have at: "at_row (s\<lparr>cursors := cs\<rparr>) a" using assms(6) by (simp add: at_row_def)
  have sub: "set (revcontinue_rows db s) \<subseteq> set (nav_rows db)"
    using breakpoint_rows by (fastforce simp: revcontinue_rows_def nav_simps)
  obtain pre post s0 where sk: "revcontinue_rows db s = pre @ post" "runs_on a (- 1) pre"
    "case post of [] \<Rightarrow> seek ?q 0 (- 1) (revcontinue_rows db s) (s\<lparr>cursors := cs\<rparr>) = (No_Data, s0)
     | r # _ \<Rightarrow> \<not> runs_on a (- 1) (pre @ [r]) \<and>
         seek ?q 0 (- 1) (revcontinue_rows db s) (s\<lparr>cursors := cs\<rparr>) = (Row (), goto_row r s0)"
    using seek_spec [OF assms(1,2) disjI2 [OF refl] assms(5) at sub, of 0] unfolding of_int_minus of_int_1 by auto
  show ?thesis
  proof (cases post)
    case Nil
    let ?s = "s0\<lparr>cur_file := Some (nr_file l), cur_line := word_of_int (nr_line l), cur_step := 1, cur_depth := 1\<rparr>"
    have "set_first_step db (xe_first env) s0 = (None, ?s)"
      using assms(3,7) by (simp add: set_first_step_def fetch_def healthy_query_def)
    then have "process_revcontinue db env req s = (?s, SUCCESS, stops_at env req STOP_REASON_ENTRY ?s)"
      using sk rdy Nil assms(4) by (simp add: process_revcontinue_def nav_simps reply_def stops_at_def status_of_def)
    then show ?thesis using sk(1,2) Nil by (intro exI [of _ pre] exI [of _ post] exI [of _ ?s]) simp
  next
    case (Cons r rest)
    have "r \<in> set (nav_rows db)" using sub sk(1) Cons by auto
    then have "at_row (goto_row r s0) r" by (rule at_row_goto [OF assms(1)])
    moreover have "process_revcontinue db env req s =
        (goto_row r s0, SUCCESS, stops_at env req STOP_REASON_BREAK (goto_row r s0))"
      using sk rdy Cons assms(4) by (simp add: process_revcontinue_def nav_simps reply_def stops_at_def)
    ultimately show ?thesis
      using sk Cons by (intro exI [of _ pre] exI [of _ post] exI [of _ "goto_row r s0"]) simp
  qed
qed

definition late_session :: session where
  "late_session = goto_row (sample_row 6 3 1) break_session\<lparr>breakpoints := [\<lparr>br_id = 1, br_file_id = 1, br_line = 9\<rparr>]\<rparr>"

theorem process_revcontinue_exact_witness:
  "\<exists>s'. at_row s' (sample_row 9 2 2) \<and>
     process_revcontinue sample_db good_env (JObj []) late_session = (s', SUCCESS, stops_at good_env (JObj []) STOP_REASON_BREAK s')"
proof -
  have "revcontinue_rows sample_db late_session = [sample_row 9 2 2]"
    by (simp add: revcontinue_rows_def sample_rows late_session_def goto_row_def at_breakpoint_def descending_def)
  then show ?thesis
    using process_revcontinue_exact [OF sample_trace_ok, of good_env "sample_row 6 3 1" late_session _ _ "JObj []"]
    by (auto simp: sample_rows at_row_def late_session_def goto_row_def append_eq_Cons_conv Cons_eq_append_conv
        split: list.splits)
qed

text \<open>
  Running to the end loses the call depth: without a breakpoint ahead, \<open>continue\<close> stands at the last
  recorded step with the depth 1, whatever depth was recorded for that step.
\<close>

theorem continue_loses_depth:
  assumes "healthy_query (xe_query env Continue_Cursor)" "healthy_query (xe_last env)"
    and "continue_rows db s = []" "last_rows db = l # ls"
  shows "cur_step (fst (process_continue db env req s)) = word_of_int (nr_id l) \<and>
    cur_depth (fst (process_continue db env req s)) = 1"
proof -
  obtain cs where "ready Continue_Cursor ''Cannot query next breakpoint'' (xe_query env Continue_Cursor) s = (None, s\<lparr>cursors := cs\<rparr>)"
    using ready_healthy [OF assms(1)] by blast
  then show ?thesis
    using assms by (simp add: process_continue_def nav_simps healthy_query_def set_last_step_def fetch_def)
qed

definition deep_db :: "unit trace_db" where
  "deep_db = sample_db\<lparr>td_step := butlast (td_step sample_db)\<rparr>"

theorem continue_loses_depth_witness:
  "last_rows deep_db = [sample_row 9 2 2] \<and>
   cur_step (fst (process_continue deep_db good_env (JObj []) sample_session)) = 2 \<and>
   cur_depth (fst (process_continue deep_db good_env (JObj []) sample_session)) = 1"
proof -
  have rows: "nav_rows deep_db = [sample_row 5 1 1, sample_row 9 2 2]"
    by (simp add: nav_rows_def joined_def deep_db_def sample_db_def nav_row_of_def)
  have "last_rows deep_db = [sample_row 9 2 2]"
    unfolding last_rows_def rows by (simp add: deep_db_def sample_db_def)
  moreover have "continue_rows deep_db sample_session = []"
    by (simp add: continue_rows_def at_breakpoint_def sample_session_def ascending_def rows)
  ultimately show ?thesis using continue_loses_depth [of good_env deep_db sample_session] by simp
qed

end
