(* ===== verification/Requests.thy ===== *)
theory Requests
  imports Navigation
begin

text \<open>
  The remaining handlers of \<^verbatim>\<open>examine/requests.c\<close> that do not inspect variables: \<open>initialize\<close>, \<open>launch\<close>,
  \<open>threads\<close>, \<open>stackTrace\<close>, \<open>scopes\<close>, \<open>setBreakpoints\<close>, \<open>configurationDone\<close> and the plain
  acknowledgement.  Handlers that can be brought to pass a null pointer on yield \<open>None\<close> there: the process
  dies of a segmentation fault.
\<close>

section \<open>Starting a session\<close>

definition capabilities :: "(string \<times> bool) list" where
  "capabilities =
     [(''supportsConfigurationDoneRequest'', True), (''supportsStepBack'', True), (''supportsGotoTargetsRequest'', True),
      (''supportsStepInTargetsRequest'', True), (''supportsRestartFrame'', False), (''supportsConditionalBreakpoints'', False),
      (''supportsHitConditionalBreakpoints'', False), (''supportsDataBreakpoints'', False),
      (''supportsFunctionBreakpoints'', False), (''supportsEvaluateForHovers'', False), (''supportsSetVariable'', False),
      (''supportsCompletionsRequest'', False), (''supportsModulesRequest'', False), (''supportsRestartRequest'', False),
      (''supportsExceptionOptions'', False), (''supportsValueFormattingOptions'', False),
      (''supportsExceptionInfoRequest'', False), (''supportTerminateDebuggee'', False),
      (''supportsDelayedStackTraceLoading'', False), (''supportsLoadedSourcesRequest'', False), (''supportsLogPoints'', False),
      (''supportsTerminateThreadsRequest'', False), (''supportsSetExpression'', False), (''supportsTerminateRequest'', False),
      (''supportsReadMemoryRequest'', False), (''supportsDisassembleRequest'', False)]"

definition with_body :: "json \<Rightarrow> json" where
  "with_body body = json_add ''body'' (Some body) JSON_NEW_OBJ"

definition process_init :: "exam_env \<Rightarrow> json \<Rightarrow> session \<Rightarrow> session \<times> status \<times> json list" where
  "process_init env req s =
     (s\<lparr>cur_file := None, cur_step := 0, cur_line := 0, cur_depth := 0, signum := 0, program_base_addr := 0, stop_on_entry := False\<rparr>,
      reply (xe_sent env) req
        (with_body (fold (\<lambda>(c, b) body. bool_field c b body) capabilities JSON_NEW_OBJ)) SUCCESS None [event_inited])"

text \<open>
  What \<open>launch\<close> finds: whether the debug information of the program can be read, the recorded databases by file
  name (\<open>None\<close> when one cannot be opened), the outcomes of the three statements that create the breakpoint table,
  and the two queries of the table \<^verbatim>\<open>misc\<close>.
\<close>

record 'g launch_env =
  le_dbginfo :: "string \<Rightarrow> status"
  le_db :: "string \<Rightarrow> 'g trace_db option"
  le_attach :: bool
  le_table :: bool
  le_index :: bool
  le_signal :: query_env
  le_base :: query_env

definition misc_value :: "query_env \<Rightarrow> string \<Rightarrow> 'g trace_db \<Rightarrow> int \<Rightarrow> int" where
  "misc_value q key db old =
     (if \<not> (qe_prepare q \<and> qe_bind q) then old
      else case fetch q 0 [v. (k, v) \<leftarrow> td_misc db, k = key] of Row v \<Rightarrow> v | _ \<Rightarrow> 0)"

text \<open>
  The part of \<^verbatim>\<open>process_launch\<close> after the parameters are read; the database is the one opened, if any.  A new connection
  has no breakpoints.
\<close>

definition launch_open :: "'g launch_env \<Rightarrow> exam_env \<Rightarrow> string \<Rightarrow> session \<Rightarrow> 'g trace_db option \<times> session \<times> status \<times> string option" where
  "launch_open le env db_name s =
     (case le_db le db_name of
        None \<Rightarrow> (None, s, FAILURE, Some ''Cannot open database file'')
      | Some db \<Rightarrow>
          let s1 = s\<lparr>breakpoints := [], br_seq := 0\<rparr>
          in if \<not> le_attach le then (Some db, s1, FAILURE, Some ''Cannot create local cache'')
             else if \<not> le_table le then (Some db, s1, FAILURE, Some ''Cannot create breakpoint table'')
             else if \<not> le_index le then (Some db, s1, FAILURE, Some ''Cannot create breakpoint index'')
               else
                 let (e, s2) = set_first_step db (xe_first env) s1;
                     s3 = s2\<lparr>signum := word_of_int (misc_value (le_signal le) ''exit_signal'' db (sint (signum s2))),
                             program_base_addr := word_of_int (misc_value (le_base le) ''base_address'' db (sint (program_base_addr s2)))\<rparr>
                 in (Some db, s3, status_of e, e))"

definition process_launch ::
  "'g launch_env \<Rightarrow> exam_env \<Rightarrow> json \<Rightarrow> session \<Rightarrow> ('g trace_db option \<times> session \<times> status \<times> json list) option" where
  "process_launch le env req s =
     (let fail = (\<lambda>s e. Some (None, s, reply (xe_sent env) req JSON_NEW_OBJ FAILURE (Some e) []));
          (e1, args) = JSON_GET_OBJ JSON_OK (Some req) ''arguments''
      in if e1 \<noteq> JSON_OK then fail s ''Cannot get 'arguments' param in 'launch' request''
         else
           let (e2, program) = JSON_GET_STRING_FIELD e1 args ''program''
           in if e2 \<noteq> JSON_OK then fail s ''Cannot get 'program' param in 'launch' request''
              else
                let (e3, path) = JSON_GET_STRING_FIELD e2 args ''sourcePath''
                in if e3 \<noteq> JSON_OK
                   then fail (s\<lparr>source_path := None\<rparr>) ''Cannot get 'sourcePath' param in 'launch' request''
                   else case (program, path) of
                     (Some prog, Some sp) \<Rightarrow>
                       let (e4, entry) = JSON_GET_BOOL_FIELD e3 args ''stopOnEntry'';
                           s1 = s\<lparr>source_path := Some sp, stop_on_entry := (e4 = JSON_OK \<and> entry)\<rparr>
                       in if le_dbginfo le prog \<noteq> SUCCESS then fail s1 ''Cannot read debug info''
                          else
                            let (e5, data) = JSON_GET_STRING_FIELD e4 args ''collectedData'';
                                db_name = (if e5 = JSON_OK then the data else prog @ ''.fr'');
                                (db, s2, ret, e) = launch_open le env db_name s1
                            in Some (db, s2, reply (xe_sent env) req JSON_NEW_OBJ ret e
                                 (if ret = SUCCESS \<and> stop_on_entry s2
                                  then [event_stopped (xe_strsignal env) STOP_REASON_ENTRY s2] else []))
                   | _ \<Rightarrow> None)"

definition process_threads :: "exam_env \<Rightarrow> json \<Rightarrow> session \<Rightarrow> session \<times> status \<times> json list" where
  "process_threads env req s =
     (s, reply (xe_sent env) req
           (with_body (json_add ''threads''
              (Some (JArr [Some (int_field ''id'' 1 (str_field ''name'' ''thread 1'' JSON_NEW_OBJ))])) JSON_NEW_OBJ))
           SUCCESS None [])"

definition just_ack :: "exam_env \<Rightarrow> json \<Rightarrow> session \<Rightarrow> session \<times> status \<times> json list" where
  "just_ack env req s = (s, reply (xe_sent env) req JSON_NEW_OBJ SUCCESS None [])"

definition process_config_done :: "'g trace_db \<Rightarrow> exam_env \<Rightarrow> json \<Rightarrow> session \<Rightarrow> session \<times> status \<times> json list" where
  "process_config_done db env req s = (if \<not> stop_on_entry s then process_continue db env req s else just_ack env req s)"

section \<open>The call stack\<close>

record stack_row =
  sk_file_id :: int
  sk_name :: string
  sk_path :: string
  sk_line :: int
  sk_fun :: string
  sk_scope :: int
  sk_step :: int
  sk_depth :: int

definition stack_join :: "'g trace_db \<Rightarrow> stack_row list" where
  "stack_join db = [\<lparr>sk_file_id = fl_id f, sk_name = fl_name f, sk_path = fl_path f, sk_line = sta_line st, sk_fun = fn_name fn,
       sk_scope = sta_scope_id st, sk_step = st_id s, sk_depth = st_depth s\<rparr>.
     s \<leftarrow> td_step db, st \<leftarrow> td_statement db, sta_address st = st_address s,
     f \<leftarrow> td_file db, fl_id f = sta_file_id st, fn \<leftarrow> td_function db, fn_id fn = st_function_id s]"

text \<open>\<^verbatim>\<open>SELECT MAX(id) FROM step WHERE id <= ? AND depth <= ? GROUP BY depth\<close>.\<close>

definition latest_of_depth :: "'g trace_db \<Rightarrow> int \<Rightarrow> int \<Rightarrow> int \<Rightarrow> bool" where
  "latest_of_depth db step depth i \<longleftrightarrow>
     (\<exists>s \<in> set (td_step db). st_id s = i \<and> st_id s \<le> step \<and> st_depth s \<le> depth \<and>
       (\<forall>s' \<in> set (td_step db). st_id s' \<le> step \<longrightarrow> st_depth s' = st_depth s \<longrightarrow> st_id s' \<le> i))"

text \<open>The depth belongs to the step, so it does not matter that \<^verbatim>\<open>DISTINCT\<close> does not see it.\<close>

definition stack_rows :: "'g trace_db \<Rightarrow> session \<Rightarrow> stack_row list" where
  "stack_rows db s = sort_key (\<lambda>r. - sk_depth r)
     (remdups [r \<leftarrow> stack_join db. latest_of_depth db (sint (cur_step s)) (sint (cur_depth s)) (sk_step r)])"

definition frame_of :: "u64 \<Rightarrow> stack_row \<Rightarrow> frame" where
  "frame_of i r = \<lparr>fr_id = i, fr_scope = word_of_int (sk_scope r), fr_step = word_of_int (sk_step r),
     fr_file = word_of_int (sk_file_id r), fr_line = word_of_int (sk_line r)\<rparr>"

definition frame_item :: "string \<Rightarrow> u64 \<Rightarrow> stack_row \<Rightarrow> json" where
  "frame_item sp i r =
     json_add ''source''
       (Some (int_field ''sourceReference'' 0 (str_field ''path'' (sp @ ''/'' @ sk_path r) (str_field ''name'' (sk_name r) JSON_NEW_OBJ))))
       (int_field ''column'' 0 (int_field ''line'' (sint (word_of_int (sk_line r) :: u64)) (int_field ''id'' (sint i)
         (str_field ''name'' (sk_fun r) JSON_NEW_OBJ))))"

text \<open>
  The loop over the frames: the frames written to the list, the frames reported, the next id, and whether the
  rows came to their end.  A frame is written to the list before the limit is checked.
\<close>

fun stack_loop :: "query_env \<Rightarrow> nat \<Rightarrow> u64 \<Rightarrow> u64 \<Rightarrow> string \<Rightarrow> stack_row list \<Rightarrow> u64 \<Rightarrow> frame list \<times> json list \<times> u64 \<times> bool" where
  "stack_loop q n skp mx sp [] i = ([], [], i, qe_fetch q n)"
| "stack_loop q n skp mx sp (r # rows) i =
     (if \<not> qe_fetch q n then ([], [], i, False)
      else if i < skp then
        let (fs, js, i', e) = stack_loop q (Suc n) skp mx sp rows (i + 1) in (frame_of i r # fs, js, i', e)
      else if i - skp \<ge> mx then ([frame_of i r], [], i, False)
      else let (fs, js, i', e) = stack_loop q (Suc n) skp mx sp rows (i + 1)
           in (frame_of i r # fs, frame_item sp i r # js, i', e))"

text \<open>The list keeps its old items behind the frames written to it.\<close>

definition rewrite_frames :: "frame list \<Rightarrow> frame list \<Rightarrow> frame list" where
  "rewrite_frames old new = new @ drop (length new) old"

definition process_stack :: "'g trace_db \<Rightarrow> exam_env \<Rightarrow> json \<Rightarrow> session \<Rightarrow> (session \<times> status \<times> json list) option" where
  "process_stack db env req s =
     (let fail = (\<lambda>s e. Some (s, reply (xe_sent env) req JSON_NEW_OBJ FAILURE (Some e) []));
          q = xe_query env Stack_Cursor;
          (e1, args) = JSON_GET_OBJ JSON_OK (Some req) ''arguments''
      in if e1 \<noteq> JSON_OK then fail s ''Missing 'arguments' param in 'stackTrace' request''
         else
           let (e2, skp) = JSON_GET_INT32_FIELD e1 args ''startFrame''
           in if e2 \<noteq> JSON_OK then fail s ''Invalid 'startFrame' param in 'stackTrace' request''
              else
                let (e3, mx) = JSON_GET_INT32_FIELD e2 args ''levels''
                in if e3 \<noteq> JSON_OK then fail s ''Invalid 'levels' param in 'stackTrace' request''
                   else case ready Stack_Cursor ''Cannot query stack trace'' q s of
                     (Some e, s1) \<Rightarrow> fail s1 e
                   | (None, s1) \<Rightarrow>
                       let (fs, js, i, done_all) =
                             stack_loop q 0 (ucast skp) (ucast mx) (case source_path s1 of None \<Rightarrow> [] | Some sp \<Rightarrow> sp)
                               (stack_rows db s1) 0;
                           s2 = s1\<lparr>frame_list := rewrite_frames (frame_list s1) fs\<rparr>;
                           body = int_field ''totalFrames'' (sint (i - ucast skp))
                                    (json_add ''stackFrames'' (Some (JArr (map Some js))) JSON_NEW_OBJ)
                       in if source_path s1 = None \<and> js \<noteq> [] then None
                          else Some (s2, if done_all then reply (xe_sent env) req (with_body body) SUCCESS None []
                                else reply (xe_sent env) req (with_body body) FAILURE (Some ''Error fetching frames'') []))"

text \<open>\<open>scopes\<close>: the frame is looked up by the 32 bits of its number.\<close>

definition GLOBAL_SCOPE :: u64 where
  "GLOBAL_SCOPE = 0"

definition scope_ref :: "u64 \<Rightarrow> rat" where
  "scope_ref scope = of_nat (unat scope) + 1 / 2"

definition scope_item :: "string \<Rightarrow> string \<Rightarrow> u64 \<Rightarrow> json" where
  "scope_item name hint scope = dbl_field ''variablesReference'' (scope_ref scope)
     (str_field ''presentationHint'' hint (str_field ''name'' name JSON_NEW_OBJ))"

definition process_scopes :: "exam_env \<Rightarrow> json \<Rightarrow> session \<Rightarrow> session \<times> status \<times> json list" where
  "process_scopes env req s =
     (let (e1, args) = JSON_GET_OBJ JSON_OK (Some req) ''arguments'';
          (e2, frame_id) = JSON_GET_INT32_FIELD e1 args ''frameId''
      in if e2 \<noteq> JSON_OK
         then (s, reply (xe_sent env) req JSON_NEW_OBJ FAILURE (Some ''Cannot find 'arguments/frameId' param in 'scopes' request'') [])
         else case List.find (\<lambda>f. fr_id f = ucast frame_id) (frame_list s) of
           None \<Rightarrow> (s, reply (xe_sent env) req (with_body (json_add ''scopes'' (Some (JArr [])) JSON_NEW_OBJ)) FAILURE
                       (Some ''Unknown frame in 'scopes' request'') [])
         | Some f \<Rightarrow> (s, reply (xe_sent env) req
              (with_body (json_add ''scopes''
                 (Some (JArr [Some (scope_item ''Globals'' ''globals'' GLOBAL_SCOPE), Some (scope_item ''Locals'' ''locals'' (fr_scope f))]))
                 JSON_NEW_OBJ)) SUCCESS None []))"

section \<open>Breakpoints\<close>

text \<open>
  The \<^verbatim>\<open>INSERT ... SELECT ... LIMIT 1\<close> adds a row when some recorded step is on the line; the unique index on file and
  line makes it fail when the row is there already.
\<close>

definition stoppable :: "'g trace_db \<Rightarrow> int \<Rightarrow> int \<Rightarrow> bool" where
  "stoppable db fid line \<longleftrightarrow>
     (\<exists>s \<in> set (td_step db). \<exists>st \<in> set (td_statement db).
        sta_address st = st_address s \<and> sta_file_id st = fid \<and> sta_line st = line)"

definition has_br :: "br_row list \<Rightarrow> int \<Rightarrow> int \<Rightarrow> bool" where
  "has_br brs fid line \<longleftrightarrow> (\<exists>b \<in> set brs. br_file_id b = fid \<and> br_line b = line)"

definition insert_br :: "int \<Rightarrow> int \<Rightarrow> session \<Rightarrow> session" where
  "insert_br fid line s =
     s\<lparr>breakpoints := breakpoints s @ [\<lparr>br_id = br_seq s + 1, br_file_id = fid, br_line = line\<rparr>], br_seq := br_seq s + 1\<rparr>"

definition verified_item :: "int option \<Rightarrow> json" where
  "verified_item v = (case v of None \<Rightarrow> bool_field ''verified'' False JSON_NEW_OBJ
     | Some i \<Rightarrow> int_field ''id'' (sint (word_of_int i :: 32 word)) (bool_field ''verified'' True JSON_NEW_OBJ))"

text \<open>
  The loop over the lines.  It yields the error (with its text, if it has one), the items of the answer and the
  session; \<open>n\<close> counts the executions of the insertion.  A null item ends the loop, as \<^verbatim>\<open>JSON_GET_ITEM\<close> yields
  \<^verbatim>\<open>NULL\<close> for it.
\<close>

fun add_brs :: "'g trace_db \<Rightarrow> query_env \<Rightarrow> nat \<Rightarrow> int \<Rightarrow> json option list \<Rightarrow> session \<Rightarrow> string option option \<times> json list \<times> session" where
  "add_brs db q n fid [] s = (None, [], s)"
| "add_brs db q n fid (None # items) s = (None, [], s)"
| "add_brs db q n fid (Some item # items) s =
     (let (e, line) = JSON_GET_INT32_FIELD JSON_OK (Some item) ''line''
      in if e \<noteq> JSON_OK then (Some None, [], s)
         else if \<not> (qe_reset q \<and> qe_bind q) then (Some (Some ''Cannot cache breakpoint''), [], s)
         else if \<not> qe_fetch q n then (Some (Some ''Cannot cache breakpoint''), [], s)
         else if \<not> stoppable db fid (sint line) then
           let (e', js, s') = add_brs db q (Suc n) fid items s in (e', verified_item None # js, s')
         else if has_br (breakpoints s) fid (sint line) then (Some (Some ''Cannot cache breakpoint''), [], s)
         else let s1 = insert_br fid (sint line) s;
                  (e', js, s') = add_brs db q (Suc n) fid items s1
              in (e', verified_item (Some (br_seq s1)) # js, s'))"

text \<open>\<open>delete_ok\<close>: the \<^verbatim>\<open>DELETE\<close> of the old breakpoints of the file works.\<close>

definition process_breakpoints :: "'g trace_db \<Rightarrow> exam_env \<Rightarrow> bool \<Rightarrow> json \<Rightarrow> session \<Rightarrow> session \<times> status \<times> json list" where
  "process_breakpoints db env delete_ok req s =
     (let fail = (\<lambda>s e. (s, reply (xe_sent env) req JSON_NEW_OBJ FAILURE (Some e) []));
          qf = xe_query env Filebypath_Cursor; qa = xe_query env Addbr_Cursor;
          (e1, args) = JSON_GET_OBJ JSON_OK (Some req) ''arguments''
      in if e1 \<noteq> JSON_OK then fail s ''Cannot find 'arguments' param in 'setBreakpoints' request''
         else
           let (e2, src) = JSON_GET_OBJ e1 args ''source''; (e3, fname) = JSON_GET_STRING_FIELD e2 src ''name''
           in if e3 \<noteq> JSON_OK then fail s ''Cannot get 'source/name' param in 'setBreakpoints' request''
              else case ready Filebypath_Cursor ''Cannot query file'' qf s of
                (Some e, s1) \<Rightarrow> fail s1 e
              | (None, s1) \<Rightarrow>
                  (case fetch qf 0 [f \<leftarrow> td_file db. fname = Some (fl_name f)] of
                     Row f \<Rightarrow>
                       if \<not> delete_ok then fail s1 ''Cannot clear old breakpoints''
                       else
                         let s2 = s1\<lparr>breakpoints := [b \<leftarrow> breakpoints s1. br_file_id b \<noteq> fl_id f]\<rparr>;
                             (e4, br) = JSON_GET_ARRAY e3 args ''breakpoints''
                         in if e4 \<noteq> JSON_OK then fail s2 ''Cannot find 'breakpoints' param in 'setBreakpoints' request''
                            else if Addbr_Cursor \<notin> set (cursors s2) \<and> \<not> qe_prepare qa then fail s2 ''Cannot prepare statement''
                            else
                              let s3 = (if Addbr_Cursor \<in> set (cursors s2) then s2 else s2\<lparr>cursors := Addbr_Cursor # cursors s2\<rparr>);
                                  items = (case br of Some (JArr xs) \<Rightarrow> xs | _ \<Rightarrow> []);
                                  (err, js, s4) = add_brs db qa 0 (fl_id f) items s3;
                                  rsp = with_body (json_add ''breakpoints'' (Some (JArr (map Some js))) JSON_NEW_OBJ)
                              in (s4, case err of
                                    None \<Rightarrow> reply (xe_sent env) req rsp SUCCESS None []
                                  | Some e \<Rightarrow> reply (xe_sent env) req rsp FAILURE e [])
                   | _ \<Rightarrow> fail s1 ''Cannot query file''))"

section \<open>Properties of breakpoints\<close>

text \<open>A request to set breakpoints on the lines \<open>ls\<close> of a file, and the answer to it.\<close>

definition break_request :: "string \<Rightarrow> int list \<Rightarrow> json" where
  "break_request fname ls = JObj [(''command'', Some (JStr ''setBreakpoints'')), (''seq'', Some (JInt 1)),
     (''arguments'', Some (JObj [(''source'', Some (JObj [(''name'', Some (JStr fname))])),
        (''breakpoints'', Some (JArr (map (\<lambda>l. Some (JObj [(''line'', Some (JInt l))])) ls)))]))]"

definition break_answer :: "json list \<Rightarrow> json" where
  "break_answer js = with_body (json_add ''breakpoints'' (Some (JArr (map Some js))) JSON_NEW_OBJ)"

lemma has_br_insert: "has_br (breakpoints (insert_br fid l s)) fid' l' \<longleftrightarrow> has_br (breakpoints s) fid' l' \<or> fid' = fid \<and> l' = l"
  by (auto simp: has_br_def insert_br_def)

lemma verified_field: "json_field (verified_item v) ''verified'' = Some (Some (JBool (v \<noteq> None)))"
  by (cases v) (simp_all add: verified_item_def json_add_def JSON_NEW_OBJ_def)

lemma add_brs_spec:
  assumes "healthy_query q" "distinct ls" "\<forall>l \<in> set ls. - (2 ^ 31) \<le> l \<and> l < 2 ^ 31 \<and> \<not> has_br (breakpoints s) fid l"
  shows "\<exists>js s'. add_brs db q n fid (map (\<lambda>l. Some (JObj [(''line'', Some (JInt l))])) ls) s = (None, js, s') \<and>
    length js = length ls \<and>
    (\<forall>i < length ls. json_field (js ! i) ''verified'' = Some (Some (JBool (stoppable db fid (ls ! i))))) \<and>
    (\<forall>fid' l. has_br (breakpoints s') fid' l \<longleftrightarrow>
      has_br (breakpoints s) fid' l \<or> fid' = fid \<and> l \<in> set ls \<and> stoppable db fid l)"
  using assms(2,3)
proof (induction ls arbitrary: n s)
  case Nil
  then show ?case by simp
next
  case (Cons l ls)
  have q: "qe_reset q" "qe_bind q" "qe_fetch q n" using assms(1) by (simp_all add: healthy_query_def)
  have line: "JSON_GET_INT32_FIELD JSON_OK (Some (JObj [(''line'', Some (JInt l))])) ''line'' = (JSON_OK, word_of_int l)"
    using Cons.prems(2) by (simp add: json_get_defs clamp_id)
  have sl: "sint (word_of_int l :: 32 word) = l" using Cons.prems(2) by (intro sint_of_int32) simp_all
  let ?rec = "\<lambda>s. add_brs db q (Suc n) fid (map (\<lambda>l. Some (JObj [(''line'', Some (JInt l))])) ls) s"
  show ?case
  proof (cases "stoppable db fid l")
    case False
    obtain js s' where ih: "?rec s = (None, js, s')" "length js = length ls"
      "\<forall>i < length ls. json_field (js ! i) ''verified'' = Some (Some (JBool (stoppable db fid (ls ! i))))"
      "\<forall>fid' l. has_br (breakpoints s') fid' l \<longleftrightarrow> has_br (breakpoints s) fid' l \<or> fid' = fid \<and> l \<in> set ls \<and> stoppable db fid l"
      using Cons.IH [of s "Suc n"] Cons.prems by auto
    then have "add_brs db q n fid (map (\<lambda>l. Some (JObj [(''line'', Some (JInt l))])) (l # ls)) s =
        (None, verified_item None # js, s')"
      using False q line by (simp add: sl)
    moreover have "json_field ((verified_item None # js) ! i) ''verified'' = Some (Some (JBool (stoppable db fid ((l # ls) ! i))))"
      if "i < length (l # ls)" for i
      using that ih(3) False by (cases i) (simp_all add: verified_field)
    ultimately show ?thesis using ih(2,4) False by (intro exI conjI) auto
  next
    case True
    let ?s = "insert_br fid l s"
    have "\<forall>x \<in> set ls. - (2 ^ 31) \<le> x \<and> x < 2 ^ 31 \<and> \<not> has_br (breakpoints ?s) fid x"
      using Cons.prems by (auto simp: has_br_insert)
    then obtain js s' where ih: "?rec ?s = (None, js, s')" "length js = length ls"
      "\<forall>i < length ls. json_field (js ! i) ''verified'' = Some (Some (JBool (stoppable db fid (ls ! i))))"
      "\<forall>fid' l. has_br (breakpoints s') fid' l \<longleftrightarrow> has_br (breakpoints ?s) fid' l \<or> fid' = fid \<and> l \<in> set ls \<and> stoppable db fid l"
      using Cons.IH [of ?s "Suc n"] Cons.prems(1) by auto
    then have "add_brs db q n fid (map (\<lambda>l. Some (JObj [(''line'', Some (JInt l))])) (l # ls)) s =
        (None, verified_item (Some (br_seq ?s)) # js, s')"
      using True q line Cons.prems(2) by (simp add: sl)
    moreover have "json_field ((verified_item (Some (br_seq ?s)) # js) ! i) ''verified'' =
        Some (Some (JBool (stoppable db fid ((l # ls) ! i))))" if "i < length (l # ls)" for i
      using that ih(3) True by (cases i) (simp_all add: verified_field)
    ultimately show ?thesis using ih(2,4) True by (intro exI conjI) (auto simp: has_br_insert)
  qed
qed

text \<open>
  C27.  Setting the breakpoints of a file replaces exactly those of that file: afterwards a line of it has a breakpoint
  iff it was asked for and some recorded step is on it, other files keep theirs, and the answer marks a line as
  verified iff it has one.
\<close>

theorem process_breakpoints_exact:
  assumes "healthy_query (xe_query env Filebypath_Cursor)" "healthy_query (xe_query env Addbr_Cursor)" "xe_sent env"
    and "[f \<leftarrow> td_file db. fname = fl_name f] = f # fs"
    and "distinct ls" "\<forall>l \<in> set ls. - (2 ^ 31) \<le> l \<and> l < 2 ^ 31"
  shows "\<exists>s' js. process_breakpoints db env True (break_request fname ls) s =
      (s', SUCCESS, [build_response (break_request fname ls) (break_answer js) SUCCESS None]) \<and> length js = length ls \<and>
    (\<forall>i < length ls. json_field (js ! i) ''verified'' = Some (Some (JBool (stoppable db (fl_id f) (ls ! i))))) \<and>
    (\<forall>fid l. has_br (breakpoints s') fid l \<longleftrightarrow>
      (if fid = fl_id f then l \<in> set ls \<and> stoppable db fid l else has_br (breakpoints s) fid l))"
proof -
  let ?req = "break_request fname ls"
  obtain cs where rdy: "ready Filebypath_Cursor ''Cannot query file'' (xe_query env Filebypath_Cursor) s = (None, s\<lparr>cursors := cs\<rparr>)"
    using ready_healthy [OF assms(1)] by blast
  define s2 where "s2 = (let brs = [b \<leftarrow> breakpoints s. br_file_id b \<noteq> fl_id f]
    in if Addbr_Cursor \<in> set cs then s\<lparr>cursors := cs, breakpoints := brs\<rparr> else s\<lparr>breakpoints := brs, cursors := Addbr_Cursor # cs\<rparr>)"
  have old: "has_br (breakpoints s2) fid l \<longleftrightarrow> fid \<noteq> fl_id f \<and> has_br (breakpoints s) fid l" for fid l
    by (auto simp: s2_def has_br_def Let_def)
  obtain js s' where add: "add_brs db (xe_query env Addbr_Cursor) 0 (fl_id f) (map (\<lambda>l. Some (JObj [(''line'', Some (JInt l))])) ls) s2 =
      (None, js, s')" "length js = length ls"
    "\<forall>i < length ls. json_field (js ! i) ''verified'' = Some (Some (JBool (stoppable db (fl_id f) (ls ! i))))"
    "\<forall>fid l. has_br (breakpoints s') fid l \<longleftrightarrow> has_br (breakpoints s2) fid l \<or> fid = fl_id f \<and> l \<in> set ls \<and> stoppable db (fl_id f) l"
    using add_brs_spec [OF assms(2,5), of s2 "fl_id f" db 0] assms(6) old by auto
  have row: "fetch (xe_query env Filebypath_Cursor) 0 [f \<leftarrow> td_file db. Some fname = Some (fl_name f)] = Row f"
    using assms(1,4) by (simp add: fetch_def healthy_query_def)
  have "process_breakpoints db env True ?req s = (s', SUCCESS, [build_response ?req (break_answer js) SUCCESS None])"
    unfolding process_breakpoints_def
    using assms(2,3) rdy row add(1)
    by (cases "Addbr_Cursor \<in> set cs")
       (simp_all add: json_get_defs break_request_def reply_def break_answer_def healthy_query_def s2_def)
  then show ?thesis using add(2-4) old by (intro exI [of _ s'] exI [of _ js]) auto
qed

theorem process_breakpoints_exact_witness:
  "\<exists>s' js. process_breakpoints sample_db good_env True (break_request ''a.c'' [6, 7]) sample_session =
      (s', SUCCESS, [build_response (break_request ''a.c'' [6, 7]) (break_answer js) SUCCESS None]) \<and>
    json_field (js ! 0) ''verified'' = Some (Some (JBool True)) \<and> json_field (js ! 1) ''verified'' = Some (Some (JBool False)) \<and>
    has_br (breakpoints s') 1 6 \<and> \<not> has_br (breakpoints s') 1 7"
proof -
  let ?f = "\<lparr>fl_id = 1, fl_name = ''a.c'', fl_path = ''src''\<rparr>"
  have one: "[f \<leftarrow> td_file sample_db. ''a.c'' = fl_name f] = [?f]" by (simp add: sample_db_def)
  have st: "stoppable sample_db 1 6" "\<not> stoppable sample_db 1 7" by (auto simp: stoppable_def sample_db_def)
  obtain s' js where r: "process_breakpoints sample_db good_env True (break_request ''a.c'' [6, 7]) sample_session =
      (s', SUCCESS, [build_response (break_request ''a.c'' [6, 7]) (break_answer js) SUCCESS None])"
    "\<forall>i < length [6, 7 :: int]. json_field (js ! i) ''verified'' = Some (Some (JBool (stoppable sample_db (fl_id ?f) ([6, 7] ! i))))"
    "\<forall>fid l. has_br (breakpoints s') fid l \<longleftrightarrow>
      (if fid = fl_id ?f then l \<in> set [6, 7] \<and> stoppable sample_db fid l else has_br (breakpoints sample_session) fid l)"
    using process_breakpoints_exact [OF _ _ _ one, of good_env "[6, 7]" sample_session] by auto
  have "json_field (js ! 0) ''verified'' = Some (Some (JBool True))" "json_field (js ! 1) ''verified'' = Some (Some (JBool False))"
    using r(2) [rule_format, of 0] r(2) [rule_format, of 1] st by simp_all
  moreover have "has_br (breakpoints s') 1 6" "\<not> has_br (breakpoints s') 1 7" using r(3) st by simp_all
  ultimately show ?thesis using r(1) by blast
qed

section \<open>Properties of the call stack\<close>

definition stack_request :: "int \<Rightarrow> int \<Rightarrow> json" where
  "stack_request skp mx = JObj [(''command'', Some (JStr ''stackTrace'')), (''seq'', Some (JInt 1)),
     (''arguments'', Some (JObj [(''startFrame'', Some (JInt skp)), (''levels'', Some (JInt mx))]))]"

definition stack_answer :: "u64 \<Rightarrow> json list \<Rightarrow> json" where
  "stack_answer n js = with_body (int_field ''totalFrames'' (sint n)
     (json_add ''stackFrames'' (Some (JArr (map Some js))) JSON_NEW_OBJ))"

lemma stack_loop_all:
  assumes "healthy_query q" "length rows + unat i \<le> unat mx"
  shows "\<exists>js. stack_loop q n 0 mx sp rows i =
    (map (\<lambda>k. frame_of (i + word_of_nat k) (rows ! k)) [0..<length rows], js, i + word_of_nat (length rows), True) \<and>
    length js = length rows"
  using assms(2)
proof (induction rows arbitrary: i n)
  case Nil
  then show ?case using assms(1) by (simp add: healthy_query_def)
next
  case (Cons r rows)
  have i1: "unat (i + 1) = unat i + 1"
    using unat_add_offset [of i 1] Cons.prems unat_u64_bound [of mx] by simp
  then obtain js where js: "stack_loop q (Suc n) 0 mx sp rows (i + 1) =
      (map (\<lambda>k. frame_of (i + 1 + word_of_nat k) (rows ! k)) [0..<length rows], js, i + 1 + word_of_nat (length rows), True)"
    "length js = length rows"
    using Cons.IH [of "i + 1" "Suc n"] Cons.prems by auto
  have "\<not> mx \<le> i" using Cons.prems by (simp add: u64_le_unat)
  then have "stack_loop q n 0 mx sp (r # rows) i =
      (frame_of i r # map (\<lambda>k. frame_of (i + 1 + word_of_nat k) (rows ! k)) [0..<length rows], frame_item sp i r # js,
       i + 1 + word_of_nat (length rows), True)"
    using js assms(1) by (simp add: healthy_query_def)
  moreover have "map (\<lambda>k. frame_of (i + word_of_nat k) ((r # rows) ! k)) [0..<length (r # rows)] =
      frame_of i r # map (\<lambda>k. frame_of (i + 1 + word_of_nat k) (rows ! k)) [0..<length rows]"
    by (simp add: upt_conv_Cons map_Suc_upt [symmetric] comp_def add.assoc del: upt_Suc)
  ultimately show ?case using js(2) by (intro exI [of _ "frame_item sp i r # js"]) (simp add: add.assoc)
qed

lemma stack_loop_cut:
  assumes "healthy_query q" "unat mx < length rows + unat i" "i \<le> mx"
  shows "\<exists>fs js j. stack_loop q n 0 mx sp rows i = (fs, js, j, False)"
  using assms(2,3)
proof (induction rows arbitrary: i n)
  case Nil
  then show ?case by (simp add: u64_le_unat)
next
  case (Cons r rows)
  show ?case
  proof (cases "mx \<le> i")
    case True
    then show ?thesis using assms(1) by (simp add: healthy_query_def)
  next
    case False
    then have lt: "unat i < unat mx" by (simp add: u64_le_unat)
    then have i1: "unat (i + 1) = unat i + 1" using unat_add_offset [of i 1] unat_u64_bound [of mx] by simp
    then obtain fs js j where "stack_loop q (Suc n) 0 mx sp rows (i + 1) = (fs, js, j, False)"
      using Cons.IH [of "i + 1" "Suc n"] Cons.prems lt by (auto simp: u64_le_unat)
    then show ?thesis using False by simp
  qed
qed

text \<open>A session that is inside \<open>n\<close> calls, in a recording where every step has one row of the join.\<close>

definition stack_ok :: "'g trace_db \<Rightarrow> session \<Rightarrow> nat \<Rightarrow> bool" where
  "stack_ok db s n \<longleftrightarrow> map sk_step (stack_join db) = map st_id (td_step db) \<and> distinct (map st_id (td_step db)) \<and>
     sint (cur_depth s) = int n \<and> (\<forall>x \<in> set (td_step db). 1 \<le> st_depth x) \<and>
     (\<forall>d \<in> {1..int n}. \<exists>x \<in> set (td_step db). st_id x \<le> sint (cur_step s) \<and> st_depth x = d)"

definition last_at_depth :: "'g trace_db \<Rightarrow> session \<Rightarrow> int \<Rightarrow> int" where
  "last_at_depth db s d = Max (st_id ` {x \<in> set (td_step db). st_id x \<le> sint (cur_step s) \<and> st_depth x = d})"

lemma stack_join_step: "r \<in> set (stack_join db) \<Longrightarrow> \<exists>x \<in> set (td_step db). st_id x = sk_step r \<and> st_depth x = sk_depth r"
  by (auto simp: stack_join_def)

lemma stack_rows_exact:
  assumes "stack_ok db s n"
  shows "length (stack_rows db s) = n"
    and "\<And>k. k < n \<Longrightarrow> sk_step (stack_rows db s ! k) = last_at_depth db s (int (n - k))"
proof -
  let ?rows = "stack_rows db s" and ?cur = "sint (cur_step s)"
  have ok: "map sk_step (stack_join db) = map st_id (td_step db)" "distinct (map st_id (td_step db))"
    "sint (cur_depth s) = int n" "\<And>x. x \<in> set (td_step db) \<Longrightarrow> 1 \<le> st_depth x"
    "\<And>d. 1 \<le> d \<Longrightarrow> d \<le> int n \<Longrightarrow> \<exists>x \<in> set (td_step db). st_id x \<le> ?cur \<and> st_depth x = d"
    using assms by (auto simp: stack_ok_def)
  have same: "x = y" if "x \<in> set (td_step db)" "y \<in> set (td_step db)" "st_id x = st_id y" for x y
    using ok(2) that by (meson distinct_map inj_onD)
  have sets: "set ?rows = {r \<in> set (stack_join db). latest_of_depth db ?cur (int n) (sk_step r)}"
    by (auto simp: stack_rows_def ok(3))
  have lasts: "sk_step r = last_at_depth db s (sk_depth r) \<and> 1 \<le> sk_depth r \<and> sk_depth r \<le> int n" if "r \<in> set ?rows" for r
  proof -
    have "r \<in> set (stack_join db)" "latest_of_depth db ?cur (int n) (sk_step r)" using that sets by auto
    then obtain x y where x: "x \<in> set (td_step db)" "st_id x = sk_step r" "st_depth x = sk_depth r"
      and y: "y \<in> set (td_step db)" "st_id y = sk_step r" "st_id y \<le> ?cur" "st_depth y \<le> int n"
        "\<forall>z \<in> set (td_step db). st_id z \<le> ?cur \<longrightarrow> st_depth z = st_depth y \<longrightarrow> st_id z \<le> sk_step r"
      using stack_join_step unfolding latest_of_depth_def by blast
    have "x = y" using same x y by simp
    then have "Max (st_id ` {z \<in> set (td_step db). st_id z \<le> ?cur \<and> st_depth z = sk_depth r}) = sk_step r"
      using x y by (intro Max_eqI) (auto intro: rev_image_eqI)
    moreover have "1 \<le> sk_depth r" using ok(4) [OF x(1)] x(3) by simp
    ultimately show ?thesis using x y \<open>x = y\<close> by (simp add: last_at_depth_def)
  qed
  have inj: "inj_on sk_depth (set ?rows)"
  proof (rule inj_onI)
    fix r r' assume r: "r \<in> set ?rows" "r' \<in> set ?rows" "sk_depth r = sk_depth r'"
    then have "sk_step r = sk_step r'" using lasts by metis
    moreover have "distinct (map sk_step (stack_join db))" using ok(1,2) by simp
    ultimately show "r = r'" using r sets by (auto simp: distinct_map inj_on_def)
  qed
  have onto: "sk_depth ` set ?rows = {1..int n}"
  proof (rule set_eqI)
    fix d
    show "d \<in> sk_depth ` set ?rows \<longleftrightarrow> d \<in> {1..int n}"
    proof
      assume d: "d \<in> {1..int n}"
      let ?A = "{x \<in> set (td_step db). st_id x \<le> ?cur \<and> st_depth x = d}"
      have "?A \<noteq> {}" using ok(5) [of d] d by auto
      then have "Max (st_id ` ?A) \<in> st_id ` ?A" by (intro Max_in) auto
      then obtain x where x: "x \<in> set (td_step db)" "st_id x \<le> ?cur" "st_depth x = d" "st_id x = Max (st_id ` ?A)" by auto
      obtain r where r: "r \<in> set (stack_join db)" "sk_step r = st_id x" using x(1) ok(1) by (metis imageE imageI set_map)
      then have "sk_depth r = d" using stack_join_step [OF r(1)] same x by metis
      moreover have "latest_of_depth db ?cur (int n) (sk_step r)"
        unfolding latest_of_depth_def using x r(2) d by (intro bexI [of _ x]) auto
      ultimately show "d \<in> sk_depth ` set ?rows" using r(1) sets by auto
    qed (use lasts in auto)
  qed
  have "distinct ?rows" by (simp add: stack_rows_def)
  then have dist: "distinct (map (\<lambda>r. - sk_depth r) ?rows)" using inj by (auto simp: distinct_map inj_on_def)
  moreover have "sorted (map (\<lambda>r. - sk_depth r) ?rows)" by (simp add: stack_rows_def)
  moreover have "set (map (\<lambda>r. - sk_depth r) ?rows) = set [- int n..- 1]"
    using onto by (auto simp: image_image [symmetric] simp flip: image_uminus_atLeastAtMost)
  ultimately have depths: "map (\<lambda>r. - sk_depth r) ?rows = [- int n..- 1]"
    by (metis sorted_distinct_set_unique sorted_upto distinct_upto)
  from arg_cong [OF this, of length] show len: "length ?rows = n" by simp
  show "sk_step (?rows ! k) = last_at_depth db s (int (n - k))" if "k < n" for k
  proof -
    have "- sk_depth (?rows ! k) = [- int n..- 1] ! k" using that len by (simp flip: depths)
    then have "sk_depth (?rows ! k) = int (n - k)" using that by (simp add: nth_upto)
    then show ?thesis using lasts [of "?rows ! k"] that len by simp
  qed
qed

lemma process_stack_reply:
  assumes "healthy_query (xe_query env Stack_Cursor)" "xe_sent env" "source_path s = Some sp" "0 \<le> mx" "mx < 2 ^ 31"
    and "stack_loop (xe_query env Stack_Cursor) 0 0 (word_of_int mx) sp (stack_rows db s) 0 = (fs, js, i, done_all)"
  shows "\<exists>s'. frame_list s' = rewrite_frames (frame_list s) fs \<and>
    process_stack db env (stack_request 0 mx) s =
      (if done_all then Some (s', SUCCESS, [build_response (stack_request 0 mx) (stack_answer i js) SUCCESS None])
       else Some (s', FAILURE, [build_response (stack_request 0 mx) (stack_answer i js) FAILURE (Some ''Error fetching frames'')]))"
proof -
  obtain cs where rdy: "ready Stack_Cursor ''Cannot query stack trace'' (xe_query env Stack_Cursor) s = (None, s\<lparr>cursors := cs\<rparr>)"
    using ready_healthy [OF assms(1)] by blast
  have rows: "stack_rows db (s\<lparr>cursors := cs\<rparr>) = stack_rows db s" by (simp add: stack_rows_def)
  have "unat (word_of_int mx :: 32 word) = nat mx" using assms(4,5) by (intro unat_word_of_int_small) simp_all
  then have "ucast (word_of_int mx :: 32 word) = (word_of_int mx :: u64)" using assms(4)
    by (metis nat_0_le of_int_of_nat_eq ucast_word_of_nat_unat)
  then show ?thesis
    using assms rdy rows
    by (intro exI [of _ "s\<lparr>cursors := cs, frame_list := rewrite_frames (frame_list s) fs\<rparr>"])
       (simp add: process_stack_def stack_request_def json_get_defs clamp_id reply_def stack_answer_def)
qed

text \<open>
  C30.  The stack trace has one frame for every call the current step is in, innermost first: frame \<open>k\<close> of \<open>n\<close> is the last
  step recorded at depth \<open>n - k\<close>, and it is at position \<open>k\<close> of the frame list, where \<open>scopes\<close> and \<open>evaluate\<close> look it up.
\<close>

theorem process_stack_exact:
  assumes "healthy_query (xe_query env Stack_Cursor)" "xe_sent env" "source_path s = Some sp"
    and "stack_ok db s n" "int n \<le> mx" "mx < 2 ^ 31"
  shows "\<exists>s' js. process_stack db env (stack_request 0 mx) s =
      Some (s', SUCCESS, [build_response (stack_request 0 mx) (stack_answer (word_of_nat n) js) SUCCESS None]) \<and> length js = n \<and>
    (\<forall>k < n. fr_id (frame_list s' ! k) = word_of_nat k \<and>
      fr_step (frame_list s' ! k) = word_of_int (last_at_depth db s (int (n - k))))"
proof -
  note rows = stack_rows_exact [OF assms(4)]
  have "unat (word_of_int mx :: u64) = nat mx" using assms(5,6) by (intro unat_word_of_int_small) simp_all
  then obtain js where lp: "stack_loop (xe_query env Stack_Cursor) 0 0 (word_of_int mx) sp (stack_rows db s) 0 =
      (map (\<lambda>k. frame_of (word_of_nat k) (stack_rows db s ! k)) [0..<n], js, word_of_nat n, True)" "length js = n"
    using stack_loop_all [OF assms(1), of "stack_rows db s" 0 "word_of_int mx" 0 sp] rows(1) assms(5)
    by (auto simp: le_nat_iff)
  obtain s' where s': "frame_list s' = rewrite_frames (frame_list s) (map (\<lambda>k. frame_of (word_of_nat k) (stack_rows db s ! k)) [0..<n])"
    "process_stack db env (stack_request 0 mx) s =
      Some (s', SUCCESS, [build_response (stack_request 0 mx) (stack_answer (word_of_nat n) js) SUCCESS None])"
    using process_stack_reply [OF assms(1-3) _ assms(6) lp(1)] assms(5) by auto
  have "frame_list s' ! k = frame_of (word_of_nat k) (stack_rows db s ! k)" if "k < n" for k
    using that by (simp add: s'(1) rewrite_frames_def nth_append)
  then show ?thesis using s'(2) lp(2) rows(2) by (intro exI [of _ s'] exI [of _ js]) (simp add: frame_of_def)
qed

definition inner_session :: session where
  "inner_session = goto_row (sample_row 9 2 2) sample_session"

lemma sample_stack_ok: "stack_ok sample_db inner_session 2"
proof -
  have "{1..int 2} = {1, 2 :: int}" by auto
  then show ?thesis by (simp add: stack_ok_def inner_session_def goto_row_def stack_join_def sample_db_def)
qed

theorem process_stack_exact_witness:
  "\<exists>s' js. process_stack sample_db good_env (stack_request 0 20) inner_session =
      Some (s', SUCCESS, [build_response (stack_request 0 20) (stack_answer 2 js) SUCCESS None]) \<and> length js = 2 \<and>
    (\<forall>k < 2. fr_id (frame_list s' ! k) = word_of_nat k \<and>
      fr_step (frame_list s' ! k) = word_of_int (last_at_depth sample_db inner_session (int (2 - k))))"
  using process_stack_exact [of good_env inner_session "''/p''" sample_db 2 20] sample_stack_ok
  by (simp add: inner_session_def goto_row_def sample_session_def)

text \<open>
  A stack trace that is limited to fewer frames than there are is reported as an error: the loop that stops at the
  limit leaves the status of the last fetch, which is not the end of the data.
\<close>

theorem limited_stack_fails:
  assumes "healthy_query (xe_query env Stack_Cursor)" "xe_sent env" "source_path s = Some sp"
    and "0 \<le> mx" "mx < 2 ^ 31" "mx < int (length (stack_rows db s))"
  shows "\<exists>s' rsp. process_stack db env (stack_request 0 mx) s =
    Some (s', FAILURE, [build_response (stack_request 0 mx) rsp FAILURE (Some ''Error fetching frames'')])"
proof -
  have "unat (word_of_int mx :: u64) = nat mx" using assms(4,5) by (intro unat_word_of_int_small) simp_all
  then obtain fs js i where lp: "stack_loop (xe_query env Stack_Cursor) 0 0 (word_of_int mx) sp (stack_rows db s) 0 = (fs, js, i, False)"
    using stack_loop_cut [OF assms(1), of "word_of_int mx" "stack_rows db s" 0 0 sp] assms(4,6)
    by (auto simp: nat_less_iff)
  from process_stack_reply [OF assms(1-5) lp] show ?thesis by auto
qed

theorem limited_stack_fails_witness:
  "\<exists>s' rsp. process_stack sample_db good_env (stack_request 0 1) inner_session =
    Some (s', FAILURE, [build_response (stack_request 0 1) rsp FAILURE (Some ''Error fetching frames'')])"
proof (rule limited_stack_fails)
  show "source_path inner_session = Some ''/p''" by (simp add: inner_session_def goto_row_def sample_session_def)
qed (use stack_rows_exact(1) [OF sample_stack_ok] in simp_all)

end
