(* ===== verification/Inspect.thy ===== *)
theory Inspect
  imports Vars Navigation
begin

text \<open>
  How the examiner shows variables, \<^verbatim>\<open>examine/vars.c\<close>: types and their names, the table of references that
  lets the debugger ask for the items and fields of a variable, and the entry that a variable gets in the answer.
  The outcome of using a cursor is an input (\<open>ie_ready\<close>: it is opened or reset, and bound; \<open>ie_fetch\<close>: the fetch
  does not fail), for each value that is bound.  \<open>None\<close> stands for undefined behaviour: a buffer on the stack is
  overrun, memory behind a buffer is read, a null pointer is used, or an endless loop.
\<close>

section \<open>Type information\<close>

record type_row =
  ty_offset :: int
  ty_name :: string
  ty_size :: int
  ty_dim :: int
  ty_parent :: "int option"
  ty_flags :: int

record member_row =
  mb_offset :: int
  mb_name :: string
  mb_type :: int
  mb_start :: int
  mb_value :: int

text \<open>\<open>vd_fun\<close> is the join of \<^verbatim>\<open>statement\<close> and \<^verbatim>\<open>function\<close>: addresses with function names.\<close>

record var_db =
  vd_type :: "type_row list"
  vd_member :: "member_row list"
  vd_mem :: "mem_row list"
  vd_heap :: "heap_row list"
  vd_fun :: "(int \<times> string) list"

datatype icursor = Array_Cursor | Struct_Cursor | Member_Cursor | Mem_Cursor | Type_Cursor | Ref_Cursor | Ref_Insert
  | Ref_Update | Heap_Cursor | Func_Cursor | Type_Name_Cursor | Enum_Cursor

record insp_env =
  ie_ready :: "icursor \<Rightarrow> u64 \<Rightarrow> bool"
  ie_fetch :: "icursor \<Rightarrow> u64 \<Rightarrow> bool"
  ie_float :: "byte list \<Rightarrow> string"

definition dab_of :: "bool \<Rightarrow> dab_status" where
  "dab_of b = (if b then DAB_OK else DAB_FAIL)"

datatype tkind = TKIND_NONE | TKIND_SIGNED | TKIND_UNSIGNED | TKIND_FLOAT | TKIND_POINTER | TKIND_STRUCT | TKIND_UNION
  | TKIND_ARRAY | TKIND_FUNC | TKIND_CLASS | TKIND_ENUM | TKIND_ALIAS | TKIND_OTHER

text \<open>\<^verbatim>\<open>flags & TKIND_TYPE\<close>.\<close>

definition tkind_codes :: "tkind list" where
  "tkind_codes = [TKIND_NONE, TKIND_SIGNED, TKIND_UNSIGNED, TKIND_FLOAT, TKIND_POINTER, TKIND_STRUCT, TKIND_UNION,
     TKIND_ARRAY, TKIND_FUNC, TKIND_CLASS, TKIND_ENUM, TKIND_ALIAS]"

definition kind_of :: "u64 \<Rightarrow> tkind" where
  "kind_of flags = (let k = unat flags mod 65536 in if k < length tkind_codes then tkind_codes ! k else TKIND_OTHER)"

lemma kind_of_codes [simp]:
  "kind_of 1 = TKIND_SIGNED" "kind_of 2 = TKIND_UNSIGNED" "kind_of 4 = TKIND_POINTER" "kind_of 5 = TKIND_STRUCT" "kind_of 7 = TKIND_ARRAY"
  by (simp_all add: kind_of_def tkind_codes_def)

definition ALIAS_FLAGS :: u64 where
  "ALIAS_FLAGS = 11"

record type_info =
  ti_size :: u64
  ti_dim :: u64
  ti_flags :: u64
  ti_base :: u64

definition type_info_of :: "type_row \<Rightarrow> type_info" where
  "type_info_of t = \<lparr>ti_size = word_of_int (ty_size t), ti_dim = word_of_int (ty_dim t), ti_flags = word_of_int (ty_flags t),
     ti_base = (case ty_parent t of None \<Rightarrow> 0 | Some p \<Rightarrow> word_of_int p)\<rparr>"

definition get_type_size :: "insp_env \<Rightarrow> var_db \<Rightarrow> u64 \<Rightarrow> type_info option" where
  "get_type_size ie db offset =
     (if \<not> ie_ready ie Type_Cursor offset \<or> \<not> ie_fetch ie Type_Cursor offset then None
      else case [t \<leftarrow> vd_type db. ty_offset t = sint offset] of [] \<Rightarrow> None | t # _ \<Rightarrow> Some (type_info_of t))"

definition func_name :: "insp_env \<Rightarrow> var_db \<Rightarrow> u64 \<Rightarrow> u64 \<Rightarrow> string option" where
  "func_name ie db base address =
     (let a = address - base
      in if \<not> ie_ready ie Func_Cursor a \<or> \<not> ie_fetch ie Func_Cursor a then None
         else case [n. (x, n) \<leftarrow> vd_fun db, x = sint a] of [] \<Rightarrow> None | n # _ \<Rightarrow> Some n)"

text \<open>
  The recursive query of \<^verbatim>\<open>type_name\<close>: a type, its parent and so on, until a type without a parent or an alias
  (a condition on the whole flags).  Every type has one parent at most and no type is its own ancestor, so as many
  levels as there are types are enough.
\<close>

fun parent_of :: "nat \<Rightarrow> type_row list \<Rightarrow> int \<Rightarrow> type_row list" where
  "parent_of 0 ts offset = []"
| "parent_of (Suc n) ts offset =
     (case [t \<leftarrow> ts. ty_offset t = offset] of
        [] \<Rightarrow> []
      | t # _ \<Rightarrow> t # (case ty_parent t of
          None \<Rightarrow> []
        | Some p \<Rightarrow> if word_of_int (ty_flags t) = ALIAS_FLAGS then [] else parent_of n ts p))"

definition name_part :: "type_row \<Rightarrow> string" where
  "name_part t = (case kind_of (word_of_int (ty_flags t)) of
     TKIND_POINTER \<Rightarrow> ''*''
   | TKIND_STRUCT \<Rightarrow> ''struct '' @ ty_name t
   | TKIND_UNION \<Rightarrow> ''union '' @ ty_name t
   | TKIND_ARRAY \<Rightarrow> ''[]''
   | TKIND_SIGNED \<Rightarrow> ty_name t
   | TKIND_UNSIGNED \<Rightarrow> ty_name t
   | TKIND_FLOAT \<Rightarrow> ty_name t
   | TKIND_ALIAS \<Rightarrow> ty_name t
   | _ \<Rightarrow> [])"

definition type_name :: "insp_env \<Rightarrow> var_db \<Rightarrow> u64 \<Rightarrow> int \<Rightarrow> string option" where
  "type_name ie db offset indirect =
     (if \<not> ie_ready ie Type_Name_Cursor offset then None
      else if \<not> ie_fetch ie Type_Name_Cursor offset then Some (replicate (nat indirect) CHR ''*'')
      else Some (concat (map name_part (rev (parent_of (length (vd_type db)) (vd_type db) (sint offset)))) @
             replicate (nat indirect) CHR ''*''))"

section \<open>References\<close>

record ref_row =
  rr_id :: int
  rr_parent_type :: int
  rr_parent :: int
  rr_child :: string
  rr_address :: int
  rr_type :: int
  rr_indirect :: int

record ref_table =
  rt_rows :: "ref_row list"
  rt_seq :: int

definition PTYPE_SCOPE :: int where "PTYPE_SCOPE = 1"

definition PTYPE_REF :: int where "PTYPE_REF = 2"

definition PTYPE_EXPR :: int where "PTYPE_EXPR = 3"

definition ref_key :: "ref_row \<Rightarrow> int \<times> int \<times> string" where
  "ref_key r = (rr_parent_type r, rr_parent r, rr_child r)"

definition get_var_ref :: "insp_env \<Rightarrow> int \<Rightarrow> u64 \<Rightarrow> string \<Rightarrow> u64 \<Rightarrow> u64 \<Rightarrow> int \<Rightarrow> ref_table \<Rightarrow> u64 option \<times> ref_table" where
  "get_var_ref ie parent_type parent child address ty indirect refs =
     (if \<not> ie_ready ie Ref_Cursor parent \<or> \<not> ie_fetch ie Ref_Cursor parent then (None, refs)
      else case List.find (\<lambda>r. ref_key r = (parent_type, sint parent, child)) (rt_rows refs) of
        Some r \<Rightarrow>
          if \<not> ie_ready ie Ref_Update address \<or> \<not> ie_fetch ie Ref_Update address then (None, refs)
          else (Some (word_of_int (rr_id r)),
            refs\<lparr>rt_rows := map (\<lambda>x. if rr_id x = rr_id r
                                  then x\<lparr>rr_address := sint address, rr_type := sint ty, rr_indirect := indirect\<rparr> else x) (rt_rows refs)\<rparr>)
      | None \<Rightarrow>
          if \<not> ie_ready ie Ref_Insert address \<or> \<not> ie_fetch ie Ref_Insert address then (None, refs)
          else let i = rt_seq refs + 1
               in (Some (word_of_int i),
                   refs\<lparr>rt_rows := rt_rows refs @ [\<lparr>rr_id = i, rr_parent_type = parent_type, rr_parent = sint parent, rr_child = child,
                          rr_address = sint address, rr_type = sint ty, rr_indirect = indirect\<rparr>], rt_seq := i\<rparr>))"

section \<open>Formatting\<close>

definition hex_digit :: "nat \<Rightarrow> char" where
  "hex_digit d = char_of (if d < 10 then 48 + d else 87 + d)"

fun hex_of_nat :: "nat \<Rightarrow> string" where
  "hex_of_nat n = (if n < 16 then [hex_digit n] else hex_of_nat (n div 16) @ [hex_digit (n mod 16)])"

declare hex_of_nat.simps [simp del]

definition hex :: "u64 \<Rightarrow> string" where
  "hex a = ''0x'' @ hex_of_nat (unat a)"

text \<open>\<^verbatim>\<open>sprintf\<close> into a buffer of \<open>n\<close> bytes, the terminating zero included.\<close>

definition sprintf :: "nat \<Rightarrow> string \<Rightarrow> string option" where
  "sprintf n s = (if length s < n then Some s else None)"

definition le_uint :: "byte list \<Rightarrow> nat \<Rightarrow> nat" where
  "le_uint buf n = le_val (take n buf)"

definition le_sint :: "byte list \<Rightarrow> nat \<Rightarrow> int" where
  "le_sint buf n = signed_take_bit (8 * n - 1) (int (le_uint buf n))"

definition isprint :: "int \<Rightarrow> bool" where
  "isprint c \<longleftrightarrow> 32 \<le> c \<and> c \<le> 126"

definition unsupported :: string where
  "unsupported = ''unsupported''"

definition quoted_char :: "int \<Rightarrow> string" where
  "quoted_char c = [CHR '' '', CHR 0x27, char_of (nat (c mod 256)), CHR 0x27]"

definition show_signed :: "u64 \<Rightarrow> byte list \<Rightarrow> string" where
  "show_signed sz mem =
     (if sz = 1 then let c = le_sint mem 1 in dec_of_int c @ (if isprint c then quoted_char c else [])
      else if sz = 2 then dec_of_int (le_sint mem 2)
      else if sz = 4 then dec_of_int (le_sint mem 4)
      else if sz = 8 then dec_of_int (le_sint mem 8)
      else unsupported)"

definition show_unsigned :: "u64 \<Rightarrow> byte list \<Rightarrow> string" where
  "show_unsigned sz mem =
     (if sz = 1 then let c = int (le_uint mem 1) in dec_of_int c @ (if isprint c then quoted_char c else [])
      else if sz = 2 then dec_of_nat (le_uint mem 2)
      else if sz = 4 then dec_of_nat (le_uint mem 4)
      else if sz = 8 then dec_of_nat (le_uint mem 8)
      else unsupported)"

definition show_float :: "insp_env \<Rightarrow> u64 \<Rightarrow> byte list \<Rightarrow> string" where
  "show_float ie sz mem = (if sz = 4 \<or> sz = 8 \<or> sz = 16 then ie_float ie (take (unat sz) mem) else unsupported)"

text \<open>An enumeration value, of 32 bits at most, with the name of its item when there is one.\<close>

definition enum_value :: "u64 \<Rightarrow> byte list \<Rightarrow> nat option" where
  "enum_value sz mem = (if sz = 1 then Some (le_uint mem 1) else if sz = 2 then Some (le_uint mem 2)
     else if sz = 4 then Some (le_uint mem 4) else None)"

definition show_enum :: "insp_env \<Rightarrow> var_db \<Rightarrow> u64 \<Rightarrow> nat \<Rightarrow> string" where
  "show_enum ie db ty value =
     (case [mb_name m. m \<leftarrow> vd_member db, mb_offset m = sint ty \<and> mb_value m = sint (word_of_nat value :: 32 word)] of
        n # _ \<Rightarrow> if ie_fetch ie Enum_Cursor ty then n @ '' ('' @ dec_of_nat value @ '')'' else dec_of_nat value
      | [] \<Rightarrow> dec_of_nat value)"

text \<open>A string in memory: up to the zero, or all \<open>n\<close> bytes followed by an ellipsis (in UTF-8).\<close>

definition c_string :: "byte list \<Rightarrow> string" where
  "c_string mem = map (\<lambda>b. char_of (unat b)) (takeWhile (\<lambda>b. b \<noteq> 0) mem)"

definition show_string :: "u64 \<Rightarrow> nat \<Rightarrow> byte list \<Rightarrow> string" where
  "show_string addr n mem =
     (let s = c_string (take n mem)
      in hex addr @ [CHR '' '', CHR 0x22] @ s @ (if length s = n then [CHR 0xE2, CHR 0x80, CHR 0xA6] else []) @ [CHR 0x22])"

section \<open>The entry of a variable\<close>

text \<open>The status, the item that is added to the container, and the table of references.\<close>

type_synonym entry_result = "(status \<times> json \<times> ref_table) option"

definition var_mem :: "insp_env \<Rightarrow> var_db \<Rightarrow> u64 \<Rightarrow> u64 \<Rightarrow> u64 \<Rightarrow> byte list option option" where
  "var_mem ie db step addr sz =
     get_var_value (dab_of (ie_ready ie Mem_Cursor addr)) (if ie_fetch ie Mem_Cursor addr then DAB_NO_DATA else DAB_FAIL)
       (vd_mem db) addr sz step"

text \<open>A failed fetch from the heap table has the same effect as an address that is not there.\<close>

definition pointer_size_of :: "insp_env \<Rightarrow> var_db \<Rightarrow> u64 \<Rightarrow> u64 \<Rightarrow> ptr_status \<times> u64 option" where
  "pointer_size_of ie db step a =
     get_pointer_size (dab_of (ie_ready ie Heap_Cursor a)) (dab_of (ie_ready ie Mem_Cursor a))
       (if ie_fetch ie Heap_Cursor a then vd_heap db else []) (vd_mem db) a step"

text \<open>\<^verbatim>\<open>*(ULONG *)mem\<close>.\<close>

definition load_ulong :: "byte list \<Rightarrow> u64 option" where
  "load_ulong buf = (if length buf < 8 then None else Some (word_of_nat (le_uint buf 8)))"

text \<open>The loop over aliases, which does not end when an alias is its own ancestor.  \<open>Inl\<close>: a type is missing.\<close>

partial_function (option) resolve_alias :: "insp_env \<Rightarrow> var_db \<Rightarrow> u64 \<Rightarrow> type_info \<Rightarrow> (unit + u64 \<times> type_info) option" where
  "resolve_alias ie db ty ti =
     (if ti_flags ti = ALIAS_FLAGS
      then (case get_type_size ie db (ti_base ti) of
              None \<Rightarrow> Some (Inl ())
            | Some ti' \<Rightarrow> resolve_alias ie db (ti_base ti) ti')
      else Some (Inr (ty, ti)))"

definition final_fields :: "string \<Rightarrow> json \<Rightarrow> json" where
  "final_fields val item = str_field ''value'' val (int_field ''variablesReference'' 0 item)"

definition value_fields :: "string \<Rightarrow> json \<Rightarrow> json" where
  "value_fields val item = int_field ''variablesReference'' 0 (str_field ''value'' val item)"

text \<open>Structures and unions.\<close>

definition entry_compound ::
    "insp_env \<Rightarrow> int \<Rightarrow> u64 \<Rightarrow> string \<Rightarrow> u64 \<Rightarrow> u64 \<Rightarrow> type_info \<Rightarrow> string option \<Rightarrow> json \<Rightarrow> ref_table \<Rightarrow> entry_result" where
  "entry_compound ie parent_type parent name addr ty ti tname item refs =
     (case get_var_ref ie parent_type parent name addr ty 0 refs of
        (None, refs') \<Rightarrow> Some (FAILURE, item, refs')
      | (Some ref, refs') \<Rightarrow>
          (case tname of None \<Rightarrow> None
           | Some n \<Rightarrow> Some (SUCCESS, str_field ''value'' n (int_field ''namedVariables'' (sint (ti_dim ti))
                         (int_field ''variablesReference'' (sint ref) item)), refs')))"

text \<open>
  Arrays, and pointers after their value is known.  \<open>ti\<close> is the type of the variable with the dimension that the
  pointer code may have set, \<open>value_added\<close> whether that code has added the value.  In this part of the switch
  \<^verbatim>\<open>RETCLEAN(FAILURE)\<close> sets the \<^verbatim>\<open>ret\<close> that is declared in the pointer case, so the function returns its own \<^verbatim>\<open>ret\<close>,
  which is \<open>SUCCESS\<close>.
\<close>

definition func_value :: "insp_env \<Rightarrow> var_db \<Rightarrow> u64 \<Rightarrow> u64 \<Rightarrow> string option" where
  "func_value ie db base addr =
     (case func_name ie db base addr of
        None \<Rightarrow> sprintf 32 (hex addr @ '' (invalid)'')
      | Some n \<Rightarrow> sprintf (length n + 32) (hex addr @ '' <'' @ n @ ''>''))"

definition entry_string ::
    "insp_env \<Rightarrow> var_db \<Rightarrow> u64 \<Rightarrow> u64 \<Rightarrow> u64 \<Rightarrow> json \<Rightarrow> ref_table \<Rightarrow> entry_result" where
  "entry_string ie db step addr n item refs =
     (case var_mem ie db step addr n of
        None \<Rightarrow> None
      | Some None \<Rightarrow> Some (SUCCESS, item, refs)
      | Some (Some mem) \<Rightarrow>
          (case sprintf (length (c_string (take (unat n) mem)) + 32) (show_string addr (unat n) mem) of
             None \<Rightarrow> None
           | Some v \<Rightarrow> Some (SUCCESS, value_fields v item, refs)))"

definition entry_ref ::
    "insp_env \<Rightarrow> int \<Rightarrow> u64 \<Rightarrow> string \<Rightarrow> u64 \<Rightarrow> u64 \<Rightarrow> u64 \<Rightarrow> u64 \<Rightarrow> tkind \<Rightarrow> int \<Rightarrow> bool \<Rightarrow> string option \<Rightarrow> json \<Rightarrow> ref_table \<Rightarrow> entry_result" where
  "entry_ref ie parent_type parent name addr ty base_type n kind indirect value_added tname item refs =
     (let single = (n = 1 \<and> (kind = TKIND_STRUCT \<or> kind = TKIND_UNION))
      in case get_var_ref ie parent_type parent name addr (if single then base_type else ty) indirect refs of
           (None, refs') \<Rightarrow> Some (SUCCESS, item, refs')
         | (Some ref, refs') \<Rightarrow>
             (let item1 = (if single then item else int_field ''indexedVariables'' (sint n) item)
              in case (if value_added then Some item1 else map_option (\<lambda>t. str_field ''value'' t item1) tname) of
                   None \<Rightarrow> None
                 | Some item2 \<Rightarrow> Some (SUCCESS, int_field ''variablesReference'' (sint ref) item2, refs')))"

definition entry_array ::
    "insp_env \<Rightarrow> var_db \<Rightarrow> u64 \<Rightarrow> u64 \<Rightarrow> int \<Rightarrow> u64 \<Rightarrow> string \<Rightarrow> u64 \<Rightarrow> u64 \<Rightarrow> type_info \<Rightarrow> int \<Rightarrow> u64 \<Rightarrow> bool \<Rightarrow> string option \<Rightarrow> json \<Rightarrow> ref_table \<Rightarrow> entry_result" where
  "entry_array ie db base step parent_type parent name addr ty ti indirect pointer_size value_added tname item refs =
     (case (if indirect \<noteq> 0 then Some (ti_size ti, ti_flags ti)
            else map_option (\<lambda>b. (ti_size b, ti_flags b)) (get_type_size ie db (ti_base ti))) of
        None \<Rightarrow> Some (FAILURE, item, refs)
      | Some (sz, flags) \<Rightarrow>
          if pointer_size \<noteq> 0 \<and> sz = 0 then None
          else let n = (if pointer_size \<noteq> 0 then pointer_size div sz else ti_dim ti);
                   kind = kind_of flags
               in if kind = TKIND_FUNC
                  then (case func_value ie db base addr of None \<Rightarrow> None | Some v \<Rightarrow> Some (SUCCESS, value_fields v item, refs))
                  else if sz = 1 \<and> (kind = TKIND_SIGNED \<or> kind = TKIND_UNSIGNED)
                  then entry_string ie db step addr (if pointer_size = 0 then 32 else n) item refs
                  else entry_ref ie parent_type parent name addr ty (ti_base ti) n kind indirect value_added tname item refs)"

text \<open>Pointers.  Up to the call of \<^verbatim>\<open>get_pointer_size\<close> \<^verbatim>\<open>ret\<close> is the one of the function.\<close>

definition pointer_text :: "string option \<Rightarrow> u64 \<Rightarrow> string \<Rightarrow> string option" where
  "pointer_text tname addr note = (case tname of None \<Rightarrow> None | Some t \<Rightarrow> sprintf 32 (''('' @ t @ '')'' @ hex addr @ note))"

definition entry_pointer ::
    "insp_env \<Rightarrow> var_db \<Rightarrow> u64 \<Rightarrow> u64 \<Rightarrow> int \<Rightarrow> u64 \<Rightarrow> string \<Rightarrow> u64 \<Rightarrow> u64 \<Rightarrow> type_info \<Rightarrow> int \<Rightarrow> string option \<Rightarrow> json \<Rightarrow> ref_table \<Rightarrow> entry_result" where
  "entry_pointer ie db base step parent_type parent name addr ty ti indirect tname item refs =
     (case var_mem ie db step addr (ti_size ti) of
        None \<Rightarrow> None
      | Some None \<Rightarrow> Some (FAILURE, item, refs)
      | Some (Some mem) \<Rightarrow>
          (case load_ulong mem of
             None \<Rightarrow> None
           | Some a \<Rightarrow>
               if a = 0 then Some (SUCCESS, value_fields ''NULL'' item, refs)
               else (case pointer_size_of ie db step a of
                       (MEM_RELEASED, _) \<Rightarrow> map_option (\<lambda>v. (SUCCESS, value_fields v item, refs)) (pointer_text tname a '' (dangling)'')
                     | (MEM_NOTFOUND, _) \<Rightarrow> map_option (\<lambda>v. (SUCCESS, value_fields v item, refs)) (pointer_text tname a '' (invalid)'')
                     | (PTR_FAILURE, _) \<Rightarrow> Some (SUCCESS, item, refs)
                     | (PTR_SUCCESS, psz) \<Rightarrow>
                         (case pointer_text tname a [] of
                            None \<Rightarrow> None
                          | Some v \<Rightarrow>
                              let pointer_size = (case psz of None \<Rightarrow> 0 | Some p \<Rightarrow> p);
                                  ti' = (if pointer_size = 0 then ti\<lparr>ti_dim := 1\<rparr> else ti)
                              in entry_array ie db base step parent_type parent name a ty ti' indirect pointer_size True tname
                                   (str_field ''value'' v item) refs))))"

text \<open>The basic types; \<^verbatim>\<open>RETCLEAN(FAILURE)\<close> is again lost.\<close>

definition entry_enum :: "insp_env \<Rightarrow> var_db \<Rightarrow> u64 \<Rightarrow> u64 \<Rightarrow> byte list \<Rightarrow> json \<Rightarrow> ref_table \<Rightarrow> entry_result" where
  "entry_enum ie db ty sz mem item refs =
     (case enum_value sz mem of
        None \<Rightarrow> Some (SUCCESS, final_fields unsupported item, refs)
      | Some v \<Rightarrow>
          if \<not> ie_ready ie Enum_Cursor ty then Some (SUCCESS, item, refs)
          else (case sprintf 64 (show_enum ie db ty v) of
                  None \<Rightarrow> None
                | Some t \<Rightarrow> Some (SUCCESS, final_fields t item, refs)))"

definition basic_text :: "insp_env \<Rightarrow> tkind \<Rightarrow> u64 \<Rightarrow> byte list \<Rightarrow> string" where
  "basic_text ie kind sz mem =
     (if kind = TKIND_SIGNED then show_signed sz mem
      else if kind = TKIND_UNSIGNED then show_unsigned sz mem
      else show_float ie sz mem)"

definition entry_basic ::
    "insp_env \<Rightarrow> var_db \<Rightarrow> u64 \<Rightarrow> u64 \<Rightarrow> u64 \<Rightarrow> type_info \<Rightarrow> json \<Rightarrow> ref_table \<Rightarrow> entry_result" where
  "entry_basic ie db step addr ty ti item refs =
     (case var_mem ie db step addr (ti_size ti) of
        None \<Rightarrow> None
      | Some None \<Rightarrow> Some (SUCCESS, item, refs)
      | Some (Some mem) \<Rightarrow>
          if kind_of (ti_flags ti) = TKIND_ENUM then entry_enum ie db ty (ti_size ti) mem item refs
          else (case sprintf 64 (basic_text ie (kind_of (ti_flags ti)) (ti_size ti) mem) of
                  None \<Rightarrow> None
                | Some t \<Rightarrow> Some (SUCCESS, final_fields t item, refs)))"

definition var_item ::
    "insp_env \<Rightarrow> var_db \<Rightarrow> u64 \<Rightarrow> u64 \<Rightarrow> int \<Rightarrow> u64 \<Rightarrow> string \<Rightarrow> u64 \<Rightarrow> u64 \<Rightarrow> type_info \<Rightarrow> int \<Rightarrow> string option \<Rightarrow> ref_table \<Rightarrow> entry_result" where
  "var_item ie db base step parent_type parent name addr ty ti indirect tname refs =
     (let item = str_field ''name'' name JSON_NEW_OBJ
      in case (if indirect \<noteq> 0 then TKIND_POINTER else kind_of (ti_flags ti)) of
           TKIND_STRUCT \<Rightarrow> entry_compound ie parent_type parent name addr ty ti tname item refs
         | TKIND_UNION \<Rightarrow> entry_compound ie parent_type parent name addr ty ti tname item refs
         | TKIND_POINTER \<Rightarrow> entry_pointer ie db base step parent_type parent name addr ty ti indirect tname item refs
         | TKIND_ARRAY \<Rightarrow> entry_array ie db base step parent_type parent name addr ty ti indirect 0 False tname item refs
         | TKIND_SIGNED \<Rightarrow> entry_basic ie db step addr ty ti item refs
         | TKIND_UNSIGNED \<Rightarrow> entry_basic ie db step addr ty ti item refs
         | TKIND_FLOAT \<Rightarrow> entry_basic ie db step addr ty ti item refs
         | TKIND_ENUM \<Rightarrow> entry_basic ie db step addr ty ti item refs
         | _ \<Rightarrow> Some (SUCCESS, final_fields unsupported item, refs))"

text \<open>\<open>items\<close> is the array of entries that the function adds to.\<close>

definition add_var_entry ::
    "insp_env \<Rightarrow> var_db \<Rightarrow> u64 \<Rightarrow> u64 \<Rightarrow> int \<Rightarrow> u64 \<Rightarrow> string \<Rightarrow> u64 \<Rightarrow> u64 \<Rightarrow> int \<Rightarrow> json list \<Rightarrow> ref_table \<Rightarrow> (status \<times> json list \<times> ref_table) option" where
  "add_var_entry ie db base step parent_type parent name addr ty indirect items refs =
     (case get_type_size ie db ty of
        None \<Rightarrow> Some (FAILURE, items, refs)
      | Some ti \<Rightarrow>
          (case resolve_alias ie db ty ti of
             None \<Rightarrow> None
           | Some (Inl _) \<Rightarrow> Some (FAILURE, items, refs)
           | Some (Inr (ty', ti')) \<Rightarrow>
               map_option (\<lambda>(st, item, refs'). (st, items @ [item], refs'))
                 (var_item ie db base step parent_type parent name addr ty' ti' indirect (type_name ie db ty indirect) refs)))"

section \<open>Lengths of numbers\<close>

lemma length_hex_of_nat: "0 < k \<Longrightarrow> n < 16 ^ k \<Longrightarrow> length (hex_of_nat n) \<le> k"
proof (induction k arbitrary: n)
  case (Suc k)
  show ?case
  proof (cases "n < 16")
    case False
    then have "0 < k" using Suc.prems by (cases k) auto
    moreover have "n div 16 < 16 ^ k" using Suc.prems(2) by (simp add: less_mult_imp_div_less mult.commute)
    ultimately show ?thesis using Suc.IH [of "n div 16"] False by (subst hex_of_nat.simps) simp
  qed (simp add: hex_of_nat.simps)
qed simp

lemma length_hex_of_nat_ge: "16 ^ k \<le> n \<Longrightarrow> k < length (hex_of_nat n)"
proof (induction k arbitrary: n)
  case 0
  then show ?case by (subst hex_of_nat.simps) simp
next
  case (Suc k)
  then have "16 ^ k \<le> n div 16" by (simp add: less_eq_div_iff_mult_less_eq mult.commute)
  moreover have "1 \<le> n div 16" using calculation one_le_power [of "16 :: nat" k] by linarith
  then have "\<not> n < 16" by auto
  ultimately show ?case using Suc.IH [of "n div 16"] by (subst hex_of_nat.simps) simp
qed

lemma length_hex: "length (hex a) \<le> 18"
  using length_hex_of_nat [of 16 "unat a"] unsigned_less [of a] by (simp add: hex_def)

section \<open>The contract of references\<close>

text \<open>
  A store that numbers keys: \<open>put\<close> registers a key with a value and returns the number of the key, \<open>look\<close> reads the
  key and the value of a number.
\<close>

locale reference_store =
  fixes inv :: "nat \<Rightarrow> 's \<Rightarrow> bool"
    and put :: "'k \<Rightarrow> 'v \<Rightarrow> 's \<Rightarrow> 'i \<times> 's"
    and look :: "'s \<Rightarrow> 'i \<Rightarrow> ('k \<times> 'v) option"
  assumes put_inv: "inv (Suc n) s \<Longrightarrow> inv n (snd (put k v s))"
    and look_put: "inv (Suc n) s \<Longrightarrow> look (snd (put k v s)) (fst (put k v s)) = Some (k, v)"
    and look_other: "inv (Suc n) s \<Longrightarrow> j \<noteq> fst (put k v s) \<Longrightarrow> look (snd (put k v s)) j = look s j"
    and put_known: "inv (Suc n) s \<Longrightarrow> look s j = Some (k, w) \<Longrightarrow> fst (put k v s) = j"
    and put_fresh: "inv (Suc n) s \<Longrightarrow> \<forall>j w. look s j \<noteq> Some (k, w) \<Longrightarrow> look s (fst (put k v s)) = None"
begin

text \<open>The numbers that a sequence of registrations returns, and the final store.\<close>

fun puts :: "('k \<times> 'v) list \<Rightarrow> 's \<Rightarrow> 'i list \<times> 's" where
  "puts [] s = ([], s)"
| "puts ((k, v) # kvs) s = (let (i, s1) = put k v s; (is, s2) = puts kvs s1 in (i # is, s2))"

lemma puts_Cons [simp]:
  "puts (kv # kvs) s =
    (fst (put (fst kv) (snd kv) s) # fst (puts kvs (snd (put (fst kv) (snd kv) s))), snd (puts kvs (snd (put (fst kv) (snd kv) s))))"
  by (cases kv) (simp split: prod.splits)

declare puts.simps(2) [simp del]

lemma look_keeps_key:
  assumes "inv (Suc n) s" "look s j = Some (k, w)"
  shows "\<exists>w'. look (snd (put k' v s)) j = Some (k, w')"
proof (cases "j = fst (put k' v s)")
  case True
  have "k' = k"
  proof (rule ccontr)
    assume ne: "k' \<noteq> k"
    show False
    proof (cases "\<exists>i w. look s i = Some (k', w)")
      case True
      then obtain i w where "look s i = Some (k', w)" by blast
      then show False using put_known [OF assms(1)] ne assms(2) \<open>j = fst (put k' v s)\<close> by force
    next
      case False
      then show False using put_fresh [OF assms(1), of k' v] assms(2) \<open>j = fst (put k' v s)\<close> by simp
    qed
  qed
  then show ?thesis using True look_put [OF assms(1)] by blast
qed (use look_other [OF assms(1)] assms(2) in auto)

lemma puts_length [simp]: "length (fst (puts kvs s)) = length kvs"
  by (induction kvs arbitrary: s) simp_all

lemma puts_keep:
  "inv (length kvs) s \<Longrightarrow> look s j = Some (k, w) \<Longrightarrow> \<exists>w'. look (snd (puts kvs s)) j = Some (k, w')"
proof (induction kvs arbitrary: s w)
  case (Cons kv kvs)
  obtain k' v where kv: "kv = (k', v)" by fastforce
  obtain w' where "look (snd (put k' v s)) j = Some (k, w')"
    using look_keeps_key [of "length kvs" s j k w] Cons.prems by auto
  then show ?case using Cons.IH put_inv [of "length kvs" s k' v] Cons.prems(1) by (simp add: kv)
qed auto

text \<open>A number keeps naming its key.\<close>

lemma puts_named:
  "inv (length kvs) s \<Longrightarrow> i < length kvs \<Longrightarrow> \<exists>w. look (snd (puts kvs s)) (fst (puts kvs s) ! i) = Some (fst (kvs ! i), w)"
proof (induction kvs arbitrary: s i)
  case (Cons kv kvs)
  obtain k v where kv: "kv = (k, v)" by fastforce
  let ?s = "snd (put k v s)"
  have inv: "inv (length kvs) ?s" using Cons.prems(1) by (simp add: put_inv)
  show ?case
  proof (cases i)
    case 0
    then show ?thesis using puts_keep [OF inv look_put [of "length kvs" s k v]] Cons.prems(1)
      by (simp add: kv)
  next
    case (Suc m)
    then show ?thesis using Cons.IH [OF inv, of m] Cons.prems(2) by (simp add: kv)
  qed
qed simp

lemma puts_known:
  "inv (length kvs) s \<Longrightarrow> look s j = Some (k, w) \<Longrightarrow> i < length kvs \<Longrightarrow> fst (kvs ! i) = k \<Longrightarrow> fst (puts kvs s) ! i = j"
proof (induction kvs arbitrary: s i w)
  case (Cons kv kvs)
  obtain k' v where kv: "kv = (k', v)" by fastforce
  have s: "inv (Suc (length kvs)) s" using Cons.prems(1) by simp
  obtain w' where w': "look (snd (put k' v s)) j = Some (k, w')"
    using look_keeps_key [OF s] Cons.prems(2) by blast
  show ?case
  proof (cases i)
    case 0
    then show ?thesis using put_known [OF s Cons.prems(2), of v] Cons.prems(4) by (simp add: kv)
  next
    case (Suc m)
    then show ?thesis using Cons.IH [OF put_inv [OF s] w', of m] Cons.prems by (simp add: kv)
  qed
qed simp

lemma puts_same_key:
  "inv (length kvs) s \<Longrightarrow> i \<le> j \<Longrightarrow> j < length kvs \<Longrightarrow> fst (kvs ! i) = fst (kvs ! j) \<Longrightarrow> fst (puts kvs s) ! i = fst (puts kvs s) ! j"
proof (induction kvs arbitrary: s i j)
  case (Cons kv kvs)
  obtain k v where kv: "kv = (k, v)" by fastforce
  have s: "inv (Suc (length kvs)) s" using Cons.prems(1) by simp
  show ?case
  proof (cases i)
    case 0
    show ?thesis
    proof (cases j)
      case (Suc m)
      then have "fst (puts kvs (snd (put k v s))) ! m = fst (put k v s)"
        using puts_known [OF put_inv [OF s] look_put [OF s], of m k v] 0 Cons.prems by (simp add: kv)
      then show ?thesis using 0 Suc by (simp add: kv)
    qed (simp add: 0)
  next
    case (Suc m)
    then obtain l where "j = Suc l" using Cons.prems(2) by (cases j) auto
    then show ?thesis using Cons.IH [OF put_inv [OF s], of m l] Cons.prems Suc by (simp add: kv)
  qed
qed simp

text \<open>Numbers are equal exactly when their keys are.\<close>

lemma puts_same_iff:
  assumes "inv (length kvs) s" "i < length kvs" "j < length kvs"
  shows "fst (puts kvs s) ! i = fst (puts kvs s) ! j \<longleftrightarrow> fst (kvs ! i) = fst (kvs ! j)"
proof
  assume "fst (puts kvs s) ! i = fst (puts kvs s) ! j"
  then show "fst (kvs ! i) = fst (kvs ! j)" using puts_named [OF assms(1,2)] puts_named [OF assms(1,3)] by auto
next
  assume eq: "fst (kvs ! i) = fst (kvs ! j)"
  show "fst (puts kvs s) ! i = fst (puts kvs s) ! j"
  proof (cases "i \<le> j")
    case False
    then show ?thesis using puts_same_key [OF assms(1), of j i] eq assms(2) by simp
  qed (use puts_same_key [OF assms(1)] eq assms(3) in blast)
qed

lemma puts_foreign:
  "inv (length kvs) s \<Longrightarrow> look s r = Some (k, w) \<Longrightarrow> \<forall>j < length kvs. fst (kvs ! j) \<noteq> k \<Longrightarrow> look (snd (puts kvs s)) r = look s r"
proof (induction kvs arbitrary: s)
  case (Cons kv kvs)
  obtain k' v where kv: "kv = (k', v)" by fastforce
  have s: "inv (Suc (length kvs)) s" using Cons.prems(1) by simp
  have "r \<noteq> fst (put k' v s)"
  proof
    assume r: "r = fst (put k' v s)"
    have "look (snd (put k' v s)) r = Some (k', v)" using look_put [OF s] r by simp
    moreover obtain w' where "look (snd (put k' v s)) r = Some (k, w')" using look_keeps_key [OF s Cons.prems(2)] by blast
    ultimately show False using Cons.prems(3) by (force simp: kv)
  qed
  then have "look (snd (put k' v s)) r = look s r" by (rule look_other [OF s])
  then show ?case using Cons.IH [OF put_inv [OF s], of k' v] Cons.prems by (force simp: kv)
qed simp

text \<open>The value of a number is the last value that was registered for its key.\<close>

lemma puts_last:
  "inv (length kvs) s \<Longrightarrow> i < length kvs \<Longrightarrow> \<forall>j < length kvs. i < j \<longrightarrow> fst (kvs ! j) \<noteq> fst (kvs ! i) \<Longrightarrow>
    look (snd (puts kvs s)) (fst (puts kvs s) ! i) = Some (kvs ! i)"
proof (induction kvs arbitrary: s i)
  case (Cons kv kvs)
  obtain k v where kv: "kv = (k, v)" by fastforce
  let ?s = "snd (put k v s)" and ?r = "fst (put k v s)"
  have s: "inv (Suc (length kvs)) s" using Cons.prems(1) by simp
  show ?case
  proof (cases i)
    case 0
    have "\<forall>j < length kvs. fst (kvs ! j) \<noteq> k" using Cons.prems(3) by (auto simp: 0 kv)
    then have "look (snd (puts kvs ?s)) ?r = look ?s ?r"
      using puts_foreign [OF put_inv [OF s] look_put [OF s], of k v] by blast
    then show ?thesis using look_put [OF s] 0 by (simp add: kv)
  next
    case (Suc m)
    have "\<forall>j < length kvs. m < j \<longrightarrow> fst (kvs ! j) \<noteq> fst (kvs ! m)" using Cons.prems(3) by (auto simp: Suc)
    then show ?thesis using Cons.IH [OF put_inv [OF s], of m] Cons.prems(2) Suc by (simp add: kv)
  qed
qed simp

end

section \<open>The table of references meets its contract\<close>

text \<open>An environment in which SQLite never fails.\<close>

definition all_ok :: "(byte list \<Rightarrow> string) \<Rightarrow> insp_env" where
  "all_ok fl = \<lparr>ie_ready = (\<lambda>_ _. True), ie_fetch = (\<lambda>_ _. True), ie_float = fl\<rparr>"

lemma all_ok_simps [simp]: "ie_ready (all_ok fl) c x" "ie_fetch (all_ok fl) c x" "ie_float (all_ok fl) = fl"
  by (simp_all add: all_ok_def)

type_synonym vkey = "int \<times> u64 \<times> string"
type_synonym vref = "u64 \<times> u64 \<times> int"

definition ref_put :: "insp_env \<Rightarrow> vkey \<Rightarrow> vref \<Rightarrow> ref_table \<Rightarrow> u64 \<times> ref_table" where
  "ref_put ie k v refs = (case (k, v) of ((pt, p, c), (a, ty, ind)) \<Rightarrow>
     (case get_var_ref ie pt p c a ty ind refs of (r, refs') \<Rightarrow> (the r, refs')))"

definition row_key :: "ref_row \<Rightarrow> vkey" where
  "row_key r = (rr_parent_type r, word_of_int (rr_parent r), rr_child r)"

definition row_ref :: "ref_row \<Rightarrow> vref" where
  "row_ref r = (word_of_int (rr_address r), word_of_int (rr_type r), rr_indirect r)"

text \<open>What \<open>add_var_items\<close> and \<open>add_var_fields\<close> find for a reference.\<close>

definition ref_look :: "ref_table \<Rightarrow> u64 \<Rightarrow> (vkey \<times> vref) option" where
  "ref_look refs i = map_option (\<lambda>r. (row_key r, row_ref r)) (List.find (\<lambda>r. rr_id r = sint i) (rt_rows refs))"

text \<open>Ids and keys are unique, ids are the numbers given out so far, and \<open>n\<close> more are left.\<close>

definition refs_ok :: "nat \<Rightarrow> ref_table \<Rightarrow> bool" where
  "refs_ok n t \<longleftrightarrow> distinct (map rr_id (rt_rows t)) \<and> distinct (map ref_key (rt_rows t)) \<and>
     (\<forall>r \<in> set (rt_rows t). 1 \<le> rr_id r \<and> rr_id r \<le> rt_seq t \<and> sint (word_of_int (rr_parent r) :: u64) = rr_parent r) \<and>
     0 \<le> rt_seq t \<and> rt_seq t + int n < 2 ^ 63"

lemma find_map_image: "List.find P (map f xs) = map_option f (List.find (\<lambda>x. P (f x)) xs)"
  by (induction xs) auto

lemma find_append: "List.find P (xs @ ys) = (case List.find P xs of None \<Rightarrow> List.find P ys | Some x \<Rightarrow> Some x)"
  by (induction xs) auto

lemma find_key: "distinct (map f xs) \<Longrightarrow> x \<in> set xs \<Longrightarrow> List.find (\<lambda>y. f y = f x) xs = Some x"
  by (induction xs) (auto simp: image_iff)

lemma find_SomeD: "List.find P xs = Some x \<Longrightarrow> x \<in> set xs \<and> P x"
  by (auto simp: find_Some_iff)

lemma sint_of_id: "0 \<le> i \<Longrightarrow> i < 2 ^ 63 \<Longrightarrow> sint (word_of_int i :: u64) = i"
  by (simp add: sint_uint signed_take_bit_int_eq_self_iff unsigned_of_int take_bit_int_eq_self)

text \<open>The two outcomes of \<open>get_var_ref\<close>.\<close>

lemma get_var_ref_known:
  assumes "refs_ok n t" "r \<in> set (rt_rows t)" "ref_key r = (pt, sint p, c)"
  shows "get_var_ref (all_ok fl) pt p c a ty ind t = (Some (word_of_int (rr_id r)),
    t\<lparr>rt_rows := map (\<lambda>x. if x = r then x\<lparr>rr_address := sint a, rr_type := sint ty, rr_indirect := ind\<rparr> else x) (rt_rows t)\<rparr>)"
proof -
  have "List.find (\<lambda>x. ref_key x = (pt, sint p, c)) (rt_rows t) = Some r"
    using find_key [of ref_key "rt_rows t" r] assms by (simp add: refs_ok_def)
  moreover have "x = r" if "x \<in> set (rt_rows t)" "rr_id x = rr_id r" for x
    using that assms(1,2) by (auto simp: refs_ok_def distinct_map inj_on_def)
  ultimately show ?thesis by (auto simp: get_var_ref_def intro!: map_cong)
qed

lemma get_var_ref_fresh:
  assumes "\<forall>r \<in> set (rt_rows t). ref_key r \<noteq> (pt, sint p, c)"
  shows "get_var_ref (all_ok fl) pt p c a ty ind t = (Some (word_of_int (rt_seq t + 1)),
    t\<lparr>rt_rows := rt_rows t @ [\<lparr>rr_id = rt_seq t + 1, rr_parent_type = pt, rr_parent = sint p, rr_child = c,
        rr_address = sint a, rr_type = sint ty, rr_indirect = ind\<rparr>], rt_seq := rt_seq t + 1\<rparr>)"
proof -
  have "List.find (\<lambda>x. ref_key x = (pt, sint p, c)) (rt_rows t) = None"
    using assms by (auto simp: find_None_iff)
  then show ?thesis by (simp add: get_var_ref_def Let_def)
qed

lemma ref_key_row: "refs_ok n t \<Longrightarrow> r \<in> set (rt_rows t) \<Longrightarrow> ref_key r = (pt, sint p, c) \<longleftrightarrow> row_key r = (pt, p, c)"
  by (auto simp: refs_ok_def ref_key_def row_key_def)

lemma ref_look_row:
  assumes "refs_ok n t" "r \<in> set (rt_rows t)"
  shows "ref_look t (word_of_int (rr_id r)) = Some (row_key r, row_ref r)"
proof -
  have "sint (word_of_int (rr_id r) :: u64) = rr_id r" using assms by (intro sint_of_id) (auto simp: refs_ok_def)
  then show ?thesis using find_key [of rr_id "rt_rows t" r] assms by (simp add: ref_look_def refs_ok_def)
qed

lemma ref_look_Some:
  assumes "ref_look t j = Some (k, w)"
  shows "\<exists>r \<in> set (rt_rows t). rr_id r = sint j \<and> row_key r = k"
  using assms find_SomeD by (fastforce simp: ref_look_def)

text \<open>The table with the value of a row replaced.\<close>

definition ref_set :: "ref_row \<Rightarrow> vref \<Rightarrow> ref_row" where
  "ref_set x v = (case v of (a, ty, ind) \<Rightarrow> x\<lparr>rr_address := sint a, rr_type := sint ty, rr_indirect := ind\<rparr>)"

lemma ref_set_simps [simp]:
  "rr_id (ref_set x v) = rr_id x" "ref_key (ref_set x v) = ref_key x" "row_key (ref_set x v) = row_key x"
  "row_ref (ref_set x v) = v" "rr_parent (ref_set x v) = rr_parent x"
  by (auto simp: ref_set_def ref_key_def row_key_def row_ref_def split: prod.splits)

definition ref_upd :: "ref_row \<Rightarrow> vref \<Rightarrow> ref_row \<Rightarrow> ref_row" where
  "ref_upd r v x = (if x = r then ref_set x v else x)"

lemma ref_upd_simps [simp]:
  "rr_id (ref_upd r v x) = rr_id x" "ref_key (ref_upd r v x) = ref_key x" "rr_parent (ref_upd r v x) = rr_parent x"
  "ref_upd r v r = ref_set r v" "x \<noteq> r \<Longrightarrow> ref_upd r v x = x"
  by (simp_all add: ref_upd_def)

lemma ref_put_known:
  assumes "refs_ok n t" "r \<in> set (rt_rows t)" "row_key r = k"
  shows "ref_put (all_ok fl) k v t =
    (word_of_int (rr_id r), t\<lparr>rt_rows := map (ref_upd r v) (rt_rows t)\<rparr>)"
proof -
  obtain pt p c a ty ind where kv: "k = (pt, p, c)" "v = (a, ty, ind)" by (metis prod_cases3)
  then have "ref_key r = (pt, sint p, c)" using assms ref_key_row by blast
  from get_var_ref_known [OF assms(1,2) this] show ?thesis by (simp add: ref_put_def kv ref_set_def ref_upd_def [abs_def])
qed

lemma ref_put_fresh:
  assumes "refs_ok n t" "\<forall>r \<in> set (rt_rows t). row_key r \<noteq> k"
  shows "\<exists>r. rr_id r = rt_seq t + 1 \<and> row_key r = k \<and> row_ref r = v \<and> sint (word_of_int (rr_parent r) :: u64) = rr_parent r \<and>
    ref_put (all_ok fl) k v t = (word_of_int (rr_id r), t\<lparr>rt_rows := rt_rows t @ [r], rt_seq := rt_seq t + 1\<rparr>)"
proof -
  obtain pt p c a ty ind where kv: "k = (pt, p, c)" "v = (a, ty, ind)" by (metis prod_cases3)
  let ?r = "\<lparr>rr_id = rt_seq t + 1, rr_parent_type = pt, rr_parent = sint p, rr_child = c,
        rr_address = sint a, rr_type = sint ty, rr_indirect = ind\<rparr>"
  have "\<forall>r \<in> set (rt_rows t). ref_key r \<noteq> (pt, sint p, c)"
    using assms ref_key_row [OF assms(1)] unfolding kv by blast
  from get_var_ref_fresh [OF this] show ?thesis
    by (intro exI [of _ ?r]) (simp add: ref_put_def kv row_key_def row_ref_def)
qed

lemma refs_ok_update:
  assumes "refs_ok n t"
  shows "refs_ok n (t\<lparr>rt_rows := map (ref_upd r v) (rt_rows t)\<rparr>)"
  using assms by (auto simp: refs_ok_def comp_def)

lemma refs_ok_insert:
  assumes "refs_ok (Suc n) t" "rr_id r = rt_seq t + 1" "\<forall>x \<in> set (rt_rows t). row_key x \<noteq> row_key r"
    and "sint (word_of_int (rr_parent r) :: u64) = rr_parent r"
  shows "refs_ok n (t\<lparr>rt_rows := rt_rows t @ [r], rt_seq := rt_seq t + 1\<rparr>)"
proof -
  have "ref_key x \<noteq> ref_key r" if "x \<in> set (rt_rows t)" for x
    using that assms(1,3,4) by (fastforce simp: refs_ok_def ref_key_def row_key_def)
  then have "ref_key r \<notin> ref_key ` set (rt_rows t)" by (metis imageE)
  moreover have "rr_id r \<notin> rr_id ` set (rt_rows t)" using assms(1,2) by (fastforce simp: refs_ok_def)
  ultimately show ?thesis using assms(1,2,4) by (auto simp: refs_ok_def)
qed

lemma ref_look_update:
  "refs_ok n t \<Longrightarrow> r \<in> set (rt_rows t) \<Longrightarrow>
    ref_look (t\<lparr>rt_rows := map (ref_upd r v) (rt_rows t)\<rparr>) j =
      (if j = word_of_int (rr_id r) then Some (row_key r, v) else ref_look t j)"
  (is "_ \<Longrightarrow> _ \<Longrightarrow> ref_look ?t j = _")
proof -
  assume ok: "refs_ok n t" and r: "r \<in> set (rt_rows t)"
  show ?thesis
  proof (cases "j = word_of_int (rr_id r)")
    case True
    have "ref_set r v \<in> set (rt_rows ?t)" using r by force
    from ref_look_row [OF refs_ok_update [OF ok] this] show ?thesis using True by simp
  next
    case False
    then have ne: "sint j \<noteq> rr_id r" by (metis word_of_sint)
    have "ref_upd r v x = x" if "List.find (\<lambda>x. rr_id x = sint j) (rt_rows t) = Some x" for x
      using find_SomeD [OF that] ne by (auto simp: ref_upd_def)
    then have "List.find (\<lambda>x. rr_id x = sint j) (rt_rows ?t) = List.find (\<lambda>x. rr_id x = sint j) (rt_rows t)"
      by (cases "List.find (\<lambda>x. rr_id x = sint j) (rt_rows t)") (simp_all add: find_map_image)
    then show ?thesis using False by (simp add: ref_look_def)
  qed
qed

lemma ref_look_insert:
  assumes "refs_ok (Suc n) t" "rr_id r = rt_seq t + 1"
  shows "ref_look (t\<lparr>rt_rows := rt_rows t @ [r], rt_seq := rt_seq t + 1\<rparr>) j =
    (if j = word_of_int (rr_id r) then Some (row_key r, row_ref r) else ref_look t j)"
proof -
  have i: "sint (word_of_int (rt_seq t + 1) :: u64) = rt_seq t + 1" using assms(1) by (intro sint_of_id) (auto simp: refs_ok_def)
  have "List.find (\<lambda>x. rr_id x = rt_seq t + 1) (rt_rows t) = None"
    using assms(1) by (fastforce simp: find_None_iff refs_ok_def)
  moreover have "j = word_of_int (rt_seq t + 1) \<longleftrightarrow> sint j = rt_seq t + 1" using i by (metis word_of_sint)
  ultimately show ?thesis
    using assms(2) by (simp only: ref_look_def) (auto simp: find_append simp del: of_int_add split: option.splits)
qed

lemma ref_look_fresh:
  assumes "refs_ok (Suc n) t"
  shows "ref_look t (word_of_int (rt_seq t + 1)) = None"
proof -
  have "sint (word_of_int (rt_seq t + 1) :: u64) = rt_seq t + 1" using assms by (intro sint_of_id) (auto simp: refs_ok_def)
  then show ?thesis using assms by (fastforce simp: ref_look_def find_None_iff refs_ok_def)
qed

text \<open>Either the key has a row, or none of the references has the key.\<close>

lemma ref_put_cases:
  assumes "refs_ok (Suc n) t"
  obtains (known) r where "r \<in> set (rt_rows t)" "row_key r = k" "ref_look t (word_of_int (rr_id r)) = Some (k, row_ref r)"
      "ref_put (all_ok fl) k v t = (word_of_int (rr_id r), t\<lparr>rt_rows := map (ref_upd r v) (rt_rows t)\<rparr>)"
  | (fresh) r where "rr_id r = rt_seq t + 1" "row_key r = k" "row_ref r = v" "\<forall>x \<in> set (rt_rows t). row_key x \<noteq> k"
      "sint (word_of_int (rr_parent r) :: u64) = rr_parent r"
      "ref_put (all_ok fl) k v t = (word_of_int (rr_id r), t\<lparr>rt_rows := rt_rows t @ [r], rt_seq := rt_seq t + 1\<rparr>)"
proof (cases "\<exists>r \<in> set (rt_rows t). row_key r = k")
  case True
  then obtain r where "r \<in> set (rt_rows t)" "row_key r = k" by blast
  then show thesis using known ref_look_row [OF assms] ref_put_known [OF assms] by simp
next
  case False
  then show thesis using fresh ref_put_fresh [OF assms] by blast
qed

lemma refs_ok_mono: "refs_ok (Suc n) t \<Longrightarrow> refs_ok n t"
  by (auto simp: refs_ok_def)

interpretation rs: reference_store refs_ok "ref_put (all_ok fl)" ref_look for fl
proof
  fix n t k v
  assume ok: "refs_ok (Suc n) t"
  show "refs_ok n (snd (ref_put (all_ok fl) k v t))"
    using ok by (cases rule: ref_put_cases [OF ok, where k = k and v = v and fl = fl])
      (auto intro: refs_ok_update refs_ok_insert refs_ok_mono)
  show "ref_look (snd (ref_put (all_ok fl) k v t)) (fst (ref_put (all_ok fl) k v t)) = Some (k, v)"
    using ok by (cases rule: ref_put_cases [OF ok, where k = k and v = v and fl = fl])
      (simp_all add: ref_look_update ref_look_insert)
  show "ref_look (snd (ref_put (all_ok fl) k v t)) j = ref_look t j" if "j \<noteq> fst (ref_put (all_ok fl) k v t)" for j
    using ok that by (cases rule: ref_put_cases [OF ok, where k = k and v = v and fl = fl])
      (simp_all add: ref_look_update ref_look_insert)
  show "fst (ref_put (all_ok fl) k v t) = j" if "ref_look t j = Some (k, w)" for j w
  proof -
    obtain r where r: "r \<in> set (rt_rows t)" "rr_id r = sint j" "row_key r = k" using ref_look_Some [OF \<open>ref_look t j = Some (k, w)\<close>] by blast
    then show ?thesis using ref_put_known [OF ok r(1,3)] by simp
  qed
  show "ref_look t (fst (ref_put (all_ok fl) k v t)) = None" if "\<forall>j w. ref_look t j \<noteq> Some (k, w)"
    using that ref_look_fresh [OF ok] by (cases rule: ref_put_cases [OF ok, where k = k and v = v and fl = fl]) (fastforce, simp)
qed

section \<open>Entries\<close>

definition no_refs :: ref_table where
  "no_refs = \<lparr>rt_rows = [], rt_seq = 0\<rparr>"

lemma no_refs_ok: "int n < 2 ^ 63 \<Longrightarrow> refs_ok n no_refs"
  by (simp add: refs_ok_def no_refs_def)

lemma type_name_ok: "\<exists>s. type_name (all_ok fl) db ty ind = Some s"
  by (simp add: type_name_def)

lemma alias_kind: "kind_of (ti_flags ti) \<noteq> TKIND_ALIAS \<Longrightarrow> ti_flags ti \<noteq> ALIAS_FLAGS"
  by (auto simp: ALIAS_FLAGS_def kind_of_def tkind_codes_def)

lemma resolve_plain: "kind_of (ti_flags ti) \<noteq> TKIND_ALIAS \<Longrightarrow> resolve_alias ie db ty ti = Some (Inr (ty, ti))"
  using alias_kind [of ti] by (subst resolve_alias.simps) simp

lemma get_var_ref_some: "\<exists>r t'. get_var_ref (all_ok fl) pt p c a ty ind t = (Some r, t')"
  by (simp add: get_var_ref_def Let_def split: option.splits)

text \<open>A structure gets the reference of its name.\<close>

definition struct_item :: "string \<Rightarrow> string \<Rightarrow> type_info \<Rightarrow> u64 \<Rightarrow> json" where
  "struct_item n tname ti ref = str_field ''value'' tname (int_field ''namedVariables'' (sint (ti_dim ti))
     (int_field ''variablesReference'' (sint ref) (str_field ''name'' n JSON_NEW_OBJ)))"

lemma struct_item_reference [simp]: "json_field (struct_item n tname ti ref) ''variablesReference'' = Some (Some (JInt (sint ref)))"
  by (simp add: struct_item_def JSON_NEW_OBJ_def json_add_def)

lemma add_var_entry_struct:
  assumes "get_type_size (all_ok fl) db ty = Some ti" "kind_of (ti_flags ti) = TKIND_STRUCT"
  shows "\<exists>tname. add_var_entry (all_ok fl) db base step pt p n a ty 0 items t =
    Some (SUCCESS, items @ [struct_item n tname ti (fst (ref_put (all_ok fl) (pt, p, n) (a, ty, 0) t))],
      snd (ref_put (all_ok fl) (pt, p, n) (a, ty, 0) t))"
proof -
  obtain tname where tname: "type_name (all_ok fl) db ty 0 = Some tname" using type_name_ok by blast
  obtain r t' where g: "get_var_ref (all_ok fl) pt p n a ty 0 t = (Some r, t')"
    using get_var_ref_some by blast
  have "resolve_alias (all_ok fl) db ty ti = Some (Inr (ty, ti))" using assms(2) by (intro resolve_plain) simp
  then show ?thesis
    using assms(1,2) tname g by (intro exI [of _ tname]) (simp add: add_var_entry_def var_item_def entry_compound_def ref_put_def struct_item_def)
qed

text \<open>The text of an integer fits its buffer.\<close>

lemma le_sint_bound: "0 < n \<Longrightarrow> n \<le> 8 \<Longrightarrow> \<bar>le_sint mem n\<bar> \<le> 2 ^ 63"
proof -
  assume n: "0 < n" "n \<le> 8"
  let ?i = "le_sint mem n"
  have "- (2 ^ (8 * n - 1)) \<le> ?i" "?i < 2 ^ (8 * n - 1)"
    unfolding le_sint_def by (rule signed_take_bit_int_greater_eq_minus_exp signed_take_bit_int_less_exp)+
  moreover have "(2 :: int) ^ (8 * n - 1) \<le> 2 ^ 63" using n by (intro power_increasing) auto
  ultimately show ?thesis by linarith
qed

lemma le_uint_bound: "n \<le> 8 \<Longrightarrow> le_uint mem n < 2 ^ 64"
proof -
  assume n: "n \<le> 8"
  have "le_uint mem n < 256 ^ length (take n mem)" unfolding le_uint_def by (rule le_val_bound)
  also have "\<dots> \<le> 256 ^ 8" using n by (intro power_increasing) auto
  finally show ?thesis by simp
qed

lemma length_show_signed: "length (show_signed sz mem) < 64"
proof -
  have "length (dec_of_int (le_sint mem n)) \<le> 21" if "0 < n" "n \<le> 8" for n
    using le_sint_bound [OF that, of mem] by (intro length_dec_of_int) simp
  from this [of 1] this [of 2] this [of 4] this [of 8] show ?thesis
    by (auto simp: show_signed_def unsupported_def quoted_char_def Let_def)
qed

lemma length_show_unsigned: "length (show_unsigned sz mem) < 64"
proof -
  have u: "length (dec_of_nat (le_uint mem n)) \<le> 20" if "n \<le> 8" for n
    using le_uint_bound [OF that, of mem] by (intro length_dec_of_nat) simp_all
  have "length (dec_of_int (int (le_uint mem 1))) \<le> 20" using u [of 1] by (simp add: dec_of_int_def)
  with u [of 2] u [of 4] u [of 8] show ?thesis
    by (auto simp: show_unsigned_def unsupported_def quoted_char_def Let_def)
qed

lemma sprintf_fits: "length s < n \<Longrightarrow> sprintf n s = Some s"
  by (simp add: sprintf_def)

lemma var_mem_ok: "var_mem (all_ok fl) db step addr sz = get_var_value DAB_OK DAB_NO_DATA (vd_mem db) addr sz step"
  by (simp add: var_mem_def dab_of_def)

lemma add_var_entry_resolved:
  assumes "get_type_size (all_ok fl) db ty = Some t" "resolve_alias (all_ok fl) db ty t = Some (Inr (ty', ti))"
    and "kind_of (ti_flags ti) = TKIND_SIGNED \<or> kind_of (ti_flags ti) = TKIND_UNSIGNED"
    and "get_var_value DAB_OK DAB_NO_DATA (vd_mem db) addr (ti_size ti) step = Some (Some mem)"
  shows "add_var_entry (all_ok fl) db base step pt p n addr ty 0 items refs =
    Some (SUCCESS, items @ [final_fields (basic_text (all_ok fl) (kind_of (ti_flags ti)) (ti_size ti) mem) (str_field ''name'' n JSON_NEW_OBJ)], refs)"
proof -
  have "sprintf 64 (basic_text (all_ok fl) (kind_of (ti_flags ti)) (ti_size ti) mem) =
      Some (basic_text (all_ok fl) (kind_of (ti_flags ti)) (ti_size ti) mem)"
    using assms(3) length_show_signed length_show_unsigned by (intro sprintf_fits) (auto simp: basic_text_def)
  then show ?thesis
    using assms by (auto simp: add_var_entry_def var_item_def entry_basic_def var_mem_ok Let_def)
qed

text \<open>
  C33.  References: in any sequence of registrations of variables, two variables get the same reference exactly when they
  have the same parent and name, a reference keeps naming its variable, and it leads to the address, type and
  indirection that were registered for the variable last.
\<close>

theorem references_exact:
  fixes fl :: "byte list \<Rightarrow> string" and kvs :: "(vkey \<times> vref) list"
  assumes "length kvs < 2 ^ 63" "i < length kvs" "j < length kvs"
  defines "run \<equiv> rs.puts fl kvs no_refs"
  shows "(fst run ! i = fst run ! j \<longleftrightarrow> fst (kvs ! i) = fst (kvs ! j)) \<and>
    (\<exists>v. ref_look (snd run) (fst run ! i) = Some (fst (kvs ! i), v)) \<and>
    ((\<forall>m < length kvs. i < m \<longrightarrow> fst (kvs ! m) \<noteq> fst (kvs ! i)) \<longrightarrow> ref_look (snd run) (fst run ! i) = Some (kvs ! i))"
proof -
  have ok: "refs_ok (length kvs) no_refs" using assms(1) by (intro no_refs_ok) simp
  show ?thesis
    unfolding run_def using rs.puts_same_iff [OF ok assms(2,3)] rs.puts_named [OF ok assms(2)] rs.puts_last [OF ok assms(2)] by simp
qed

definition sample_regs :: "(vkey \<times> vref) list" where
  "sample_regs = [((1, 5, ''a''), (0x1000, 7, 0)), ((1, 5, ''b''), (0x2000, 7, 0)), ((1, 5, ''a''), (0x3000, 9, 1))]"

theorem references_exact_witness:
  "ref_look (snd (rs.puts (\<lambda>_. []) sample_regs no_refs)) (fst (rs.puts (\<lambda>_. []) sample_regs no_refs) ! 0) =
    Some ((1, 5, ''a''), (0x3000, 9, 1))"
proof -
  have "fst (rs.puts (\<lambda>_. []) sample_regs no_refs) ! 0 = fst (rs.puts (\<lambda>_. []) sample_regs no_refs) ! 2"
    using references_exact [of sample_regs 0 2 "\<lambda>_. []"] by (simp add: sample_regs_def)
  then show ?thesis using references_exact [of sample_regs 2 0 "\<lambda>_. []"] by (simp add: sample_regs_def)
qed

end
