(* ===== verification/Location.thy ===== *)
theory Location
  imports Run Inspect
begin

text \<open>
  Where a variable is, \<^verbatim>\<open>examine/vars.c\<close>: the location expressions of the debug information (\<^verbatim>\<open>get_location\<close>), the address
  of a variable at a step (\<^verbatim>\<open>get_var_address\<close>), and the functions that add variables, array items and structure fields to
  a response (\<^verbatim>\<open>add_var\<close>, \<^verbatim>\<open>add_var_items\<close>, \<^verbatim>\<open>add_var_fields\<close>).  libdwarf is the input \<open>dwarf\<close>: for the offset of an entry
  whether the entry is found, and for each attribute the list of locations that libdwarf decodes.
\<close>

section \<open>Debug information\<close>

datatype dw_result = DW_DLV_OK | DW_DLV_ERROR | DW_DLV_NO_ENTRY

datatype dw_at = DW_AT_location | DW_AT_frame_base

text \<open>An entry of a location list with its first operation and the operand; \<open>None\<close> where libdwarf reports an error.\<close>

record loc_entry =
  le_lle_value :: nat
  le_lo_pc :: u64
  le_hi_pc :: u64
  le_source :: nat
  le_op :: "(nat \<times> u64) option"

record dwarf =
  dw_offdie :: "u64 \<Rightarrow> dw_result"
  dw_attr :: "u64 \<Rightarrow> dw_at \<Rightarrow> dw_result"
  dw_loclist :: "u64 \<Rightarrow> dw_at \<Rightarrow> loc_entry option list option"

definition DW_LLEX_offset_pair_entry :: nat where "DW_LLEX_offset_pair_entry = 4"

definition DW_OP_addr :: nat where "DW_OP_addr = 0x03"

definition DW_OP_breg0 :: nat where "DW_OP_breg0 = 0x70"

definition DW_OP_breg15 :: nat where "DW_OP_breg15 = 0x7f"

definition DW_OP_fbreg :: nat where "DW_OP_fbreg = 0x91"

lemmas dw_defs = DW_LLEX_offset_pair_entry_def DW_OP_addr_def DW_OP_breg0_def DW_OP_breg15_def DW_OP_fbreg_def

section \<open>Locations\<close>

text \<open>
  The address of an operation, as a signed number in 64 bits; \<open>None\<close> for an operation that is not supported.
  \<open>reg_gpr\<close> holds the registers that \<^verbatim>\<open>dwarf_registers\<close> selects, in its order.
\<close>

definition op_address :: "u64 \<Rightarrow> user_regs \<Rightarrow> nat \<Rightarrow> u64 \<Rightarrow> u64 option" where
  "op_address base regs opc opd1 =
     (if opc = DW_OP_addr then Some (opd1 + base)
      else if opc = DW_OP_fbreg then Some opd1
      else if DW_OP_breg0 \<le> opc \<and> opc \<le> DW_OP_breg15 then Some (reg_gpr regs ! (opc - DW_OP_breg0) + opd1)
      else None)"

text \<open>The loop over the locations.  The address stays unset (\<open>None\<close>) as long as no location applies.\<close>

fun location_loop :: "u64 \<Rightarrow> u64 \<Rightarrow> u64 \<Rightarrow> user_regs \<Rightarrow> loc_entry option list \<Rightarrow> u64 option \<Rightarrow> status \<times> u64 option" where
  "location_loop base pc base_addr regs [] address = (SUCCESS, address)"
| "location_loop base pc base_addr regs (None # es) address = (FAILURE, address)"
| "location_loop base pc base_addr regs (Some e # es) address =
     (let shift = (if le_lle_value e = DW_LLEX_offset_pair_entry then base_addr + base else 0);
          lo_pc = le_lo_pc e + shift;
          hi_pc = le_hi_pc e + shift
      in if le_source e = 1 \<and> (pc < lo_pc \<or> hi_pc \<le> pc) then location_loop base pc base_addr regs es address
         else if le_source e = 0 \<or> le_source e = 1
         then (case le_op e of
                 None \<Rightarrow> (FAILURE, address)
               | Some (opc, opd1) \<Rightarrow>
                   (case op_address base regs opc opd1 of
                      None \<Rightarrow> (FAILURE, address)
                    | Some a \<Rightarrow> location_loop base pc base_addr regs es (Some a)))
         else location_loop base pc base_addr regs es address)"

definition get_location :: "u64 \<Rightarrow> u64 \<Rightarrow> u64 \<Rightarrow> user_regs \<Rightarrow> loc_entry option list option \<Rightarrow> status \<times> u64 option" where
  "get_location base pc base_addr regs attrib =
     (case attrib of None \<Rightarrow> (FAILURE, None) | Some es \<Rightarrow> location_loop base pc base_addr regs es None)"

section \<open>The address of a variable\<close>

text \<open>The join of \<^verbatim>\<open>var\<close>, \<^verbatim>\<open>unit\<close> and \<^verbatim>\<open>func_for_scope\<close>; a global variable has no function.\<close>

record var_row =
  vr_id :: int
  vr_name :: string
  vr_offset :: int
  vr_func_offset :: "int option"
  vr_base_addr :: int
  vr_type :: int
  vr_scope_id :: int
  vr_file_id :: int
  vr_line :: int

record loc_env =
  lo_insp :: insp_env
  lo_dwarf :: dwarf
  lo_var :: "u64 \<Rightarrow> bool"
  lo_step_ready :: "u64 \<Rightarrow> bool"
  lo_step_fetch :: "u64 \<Rightarrow> bool"

text \<open>
  A location of an entry: \<open>None\<close> when the code goes on with an attribute that libdwarf did not set or with an address
  that no location set, \<open>Some None\<close> when it fails.
\<close>

definition die_location :: "dwarf \<Rightarrow> u64 \<Rightarrow> u64 \<Rightarrow> u64 \<Rightarrow> user_regs \<Rightarrow> u64 \<Rightarrow> dw_at \<Rightarrow> u64 option option" where
  "die_location dw base pc base_addr regs off att =
     (if dw_offdie dw off \<noteq> DW_DLV_OK then Some None
      else case dw_attr dw off att of
        DW_DLV_ERROR \<Rightarrow> Some None
      | DW_DLV_NO_ENTRY \<Rightarrow> None
      | DW_DLV_OK \<Rightarrow>
          (case get_location base pc base_addr regs (dw_loclist dw off att) of
             (FAILURE, _) \<Rightarrow> Some None
           | (SUCCESS, Some a) \<Rightarrow> Some (Some a)
           | (SUCCESS, None) \<Rightarrow> None))"

definition address_from_regs :: "dwarf \<Rightarrow> u64 \<Rightarrow> user_regs \<Rightarrow> var_row \<Rightarrow> u64 option option" where
  "address_from_regs dw base regs v =
     (let loc = die_location dw base (reg_ip regs) (word_of_int (vr_base_addr v)) regs
      in case loc (word_of_int (vr_offset v)) DW_AT_location of
           None \<Rightarrow> None
         | Some None \<Rightarrow> Some None
         | Some (Some addr) \<Rightarrow>
             if sint addr < 0
             then map_option (map_option (\<lambda>frame_base. addr + frame_base))
                    (loc (word_of_int (case vr_func_offset v of None \<Rightarrow> 0 | Some f \<Rightarrow> f)) DW_AT_frame_base)
             else Some (Some addr))"

definition get_var_address ::
    "loc_env \<Rightarrow> u64 \<Rightarrow> user_regs step_row list \<Rightarrow> var_row list \<Rightarrow> u64 \<Rightarrow> u64 \<Rightarrow> (string \<times> u64 \<times> u64) option option" where
  "get_var_address le base steps vars var_id step =
     (if \<not> lo_var le var_id then Some None
      else case [v \<leftarrow> vars. vr_id v = sint var_id] of
        [] \<Rightarrow> Some None
      | v # _ \<Rightarrow>
          if \<not> lo_step_ready le step \<or> \<not> lo_step_fetch le step then Some None
          else case [s \<leftarrow> steps. st_id s = sint step] of
            [] \<Rightarrow> Some None
          | s # _ \<Rightarrow>
              map_option (map_option (\<lambda>a. (vr_name v, a, word_of_int (vr_type v))))
                (address_from_regs (lo_dwarf le) base (st_regs s) v))"

section \<open>Adding variables to a response\<close>

definition add_var ::
    "loc_env \<Rightarrow> var_db \<Rightarrow> u64 \<Rightarrow> u64 \<Rightarrow> user_regs step_row list \<Rightarrow> var_row list \<Rightarrow> u64 \<Rightarrow> u64 \<Rightarrow> u64 \<Rightarrow> json list \<Rightarrow> ref_table \<Rightarrow> (status \<times> json list \<times> ref_table) option" where
  "add_var le db base now steps vars scope var_id step items refs =
     (case get_var_address le base steps vars var_id step of
        None \<Rightarrow> None
      | Some None \<Rightarrow> Some (FAILURE, items, refs)
      | Some (Some (name, addr, type_offset)) \<Rightarrow>
          add_var_entry (lo_insp le) db base now PTYPE_SCOPE scope name addr type_offset 0 items refs)"

text \<open>The entries of a list of elements \<^verbatim>\<open>(name, address, type)\<close>, until the first failure.\<close>

fun add_entries ::
    "insp_env \<Rightarrow> var_db \<Rightarrow> u64 \<Rightarrow> u64 \<Rightarrow> u64 \<Rightarrow> int \<Rightarrow> (string \<times> u64 \<times> u64) list \<Rightarrow> json list \<Rightarrow> ref_table \<Rightarrow> (status \<times> json list \<times> ref_table) option" where
  "add_entries ie db base step ref_id indirect [] items refs = Some (SUCCESS, items, refs)"
| "add_entries ie db base step ref_id indirect ((name, a, ty) # es) items refs =
     (case add_var_entry ie db base step 1 ref_id name a ty indirect items refs of
        None \<Rightarrow> None
      | Some (FAILURE, items', refs') \<Rightarrow> Some (FAILURE, items', refs')
      | Some (SUCCESS, items', refs') \<Rightarrow> add_entries ie db base step ref_id indirect es items' refs')"

text \<open>
  The row of the query for array items: address, type and size of an item, the dimension, and the number of
  indirections.
\<close>

definition array_rows :: "var_db \<Rightarrow> ref_table \<Rightarrow> u64 \<Rightarrow> (u64 \<times> u64 \<times> u64 \<times> u64 \<times> int) list" where
  "array_rows db refs ref_id =
     [(word_of_int (rr_address r), word_of_int (ty_offset b), word_of_int (ty_size b), word_of_int (ty_dim t), rr_indirect r).
        r \<leftarrow> rt_rows refs, rr_id r = sint ref_id, t \<leftarrow> vd_type db, ty_offset t = rr_type r,
        b \<leftarrow> (case [b \<leftarrow> vd_type db. ty_parent t = Some (ty_offset b)] of [] \<Rightarrow> [t] | bs \<Rightarrow> bs)]"

text \<open>The number of items: a pointer's is the size of the block it points to over the size of an item.\<close>

definition item_count :: "insp_env \<Rightarrow> var_db \<Rightarrow> u64 \<Rightarrow> u64 \<Rightarrow> u64 \<Rightarrow> u64 \<Rightarrow> int \<Rightarrow> u64 option option" where
  "item_count ie db step address item_size n indirect =
     (if n = 0 \<or> indirect \<noteq> 0
      then (case pointer_size_of ie db step address of
              (PTR_SUCCESS, psz) \<Rightarrow>
                (let pointer_size = (case psz of None \<Rightarrow> 0 | Some p \<Rightarrow> p)
                 in if pointer_size = 0 then Some (Some 1)
                    else if item_size = 0 then None else Some (Some (pointer_size div item_size)))
            | _ \<Rightarrow> Some None)
      else Some (Some n))"

definition item_name :: "nat \<Rightarrow> string" where
  "item_name i = ''['' @ dec_of_int (sint (word_of_nat i :: 32 word)) @ '']''"

definition add_var_items ::
    "insp_env \<Rightarrow> var_db \<Rightarrow> u64 \<Rightarrow> u64 \<Rightarrow> u64 \<Rightarrow> 32 word \<Rightarrow> 32 word \<Rightarrow> json list \<Rightarrow> ref_table \<Rightarrow> (status \<times> json list \<times> ref_table) option" where
  "add_var_items ie db base step ref_id start count items refs =
     (if \<not> ie_ready ie Array_Cursor ref_id \<or> \<not> ie_fetch ie Array_Cursor ref_id then Some (FAILURE, items, refs)
      else case array_rows db refs ref_id of
        [] \<Rightarrow> Some (FAILURE, items, refs)
      | (address, base_type, item_size, n, indirect) # _ \<Rightarrow>
          (case item_count ie db step address item_size n indirect of
             None \<Rightarrow> None
           | Some None \<Rightarrow> Some (FAILURE, items, refs)
           | Some (Some d) \<Rightarrow>
               add_entries ie db base step ref_id (if indirect \<noteq> 0 then indirect - 1 else 0)
                 [(item_name i, address + word_of_nat i * item_size, base_type). i \<leftarrow> [unat start..<min (unat count) (unat d)]]
                 items refs))"

text \<open>The members of a type, ordered by their offset.\<close>

definition member_rows :: "var_db \<Rightarrow> u64 \<Rightarrow> member_row list" where
  "member_rows db ty = sort_key mb_start [m \<leftarrow> vd_member db. mb_offset m = sint ty]"

definition add_var_fields ::
    "insp_env \<Rightarrow> var_db \<Rightarrow> u64 \<Rightarrow> u64 \<Rightarrow> u64 \<Rightarrow> json list \<Rightarrow> ref_table \<Rightarrow> (status \<times> json list \<times> ref_table) option" where
  "add_var_fields ie db base step ref_id items refs =
     (if \<not> ie_ready ie Struct_Cursor ref_id \<or> \<not> ie_fetch ie Struct_Cursor ref_id then Some (FAILURE, items, refs)
      else case [r \<leftarrow> rt_rows refs. rr_id r = sint ref_id] of
        [] \<Rightarrow> Some (FAILURE, items, refs)
      | r # _ \<Rightarrow>
          let ty = word_of_int (rr_type r)
          in if \<not> ie_ready ie Member_Cursor ty then Some (FAILURE, items, refs)
             else add_entries ie db base step ref_id 0
                    [(mb_name m, word_of_int (rr_address r) + word_of_int (mb_start m), word_of_int (mb_type m)).
                       m \<leftarrow> (if ie_fetch ie Member_Cursor ty then member_rows db ty else [])]
                    items refs)"

section \<open>Locations that are a single expression\<close>

definition single_expr :: "dwarf \<Rightarrow> u64 \<Rightarrow> dw_at \<Rightarrow> nat \<Rightarrow> u64 \<Rightarrow> bool" where
  "single_expr dw off att opc opd \<longleftrightarrow>
     dw_offdie dw off = DW_DLV_OK \<and> dw_attr dw off att = DW_DLV_OK \<and>
     (\<exists>e. dw_loclist dw off att = Some [Some e] \<and> le_source e = 0 \<and> le_op e = Some (opc, opd))"

lemma die_location_single:
  assumes "single_expr dw off att opc opd"
  shows "die_location dw base pc base_addr regs off att = Some (op_address base regs opc opd)"
proof -
  obtain e where "dw_loclist dw off att = Some [Some e]" "le_source e = 0" "le_op e = Some (opc, opd)"
    using assms by (auto simp: single_expr_def)
  then show ?thesis
    using assms by (simp add: single_expr_def die_location_def get_location_def Let_def split: option.split)
qed

lemma address_global:
  assumes "single_expr dw (word_of_int (vr_offset v)) DW_AT_location DW_OP_addr opd" "0 \<le> sint (opd + base)"
  shows "address_from_regs dw base regs v = Some (Some (opd + base))"
  using die_location_single [OF assms(1)] assms(2) by (simp add: address_from_regs_def op_address_def)

text \<open>
  The location that applies at an address of the code: a single expression, or the one entry of a location list whose range
  holds the address.  \<open>gcc -gdwarf-2\<close> describes the frame base by such a list, with an entry for each part of the prologue.
\<close>

definition entry_applies :: "u64 \<Rightarrow> u64 \<Rightarrow> u64 \<Rightarrow> loc_entry \<Rightarrow> bool" where
  "entry_applies base pc base_addr e \<longleftrightarrow>
     (let shift = (if le_lle_value e = DW_LLEX_offset_pair_entry then base_addr + base else 0)
      in le_source e = 0 \<or> le_source e = 1 \<and> le_lo_pc e + shift \<le> pc \<and> pc < le_hi_pc e + shift)"

definition one_expr :: "dwarf \<Rightarrow> u64 \<Rightarrow> u64 \<Rightarrow> u64 \<Rightarrow> u64 \<Rightarrow> dw_at \<Rightarrow> nat \<Rightarrow> u64 \<Rightarrow> bool" where
  "one_expr dw base pc base_addr off att opc opd \<longleftrightarrow>
     dw_offdie dw off = DW_DLV_OK \<and> dw_attr dw off att = DW_DLV_OK \<and>
     (\<exists>ls e. dw_loclist dw off att = Some (map Some ls) \<and> filter (entry_applies base pc base_addr) ls = [e] \<and>
        le_op e = Some (opc, opd))"

lemma one_exprI:
  "dw_offdie dw off = DW_DLV_OK \<Longrightarrow> dw_attr dw off att = DW_DLV_OK \<Longrightarrow> dw_loclist dw off att = Some (map Some ls) \<Longrightarrow>
    filter (entry_applies base pc base_addr) ls = [e] \<Longrightarrow> le_op e = Some (opc, opd) \<Longrightarrow> one_expr dw base pc base_addr off att opc opd"
  unfolding one_expr_def by blast

lemma location_loop_skips:
  "filter (entry_applies base pc base_addr) ls = [] \<Longrightarrow>
    location_loop base pc base_addr regs (map Some ls) address = (SUCCESS, address)"
  by (induction ls) (auto simp: entry_applies_def Let_def linorder_not_le linorder_not_less split: if_splits)

lemma location_loop_one:
  assumes "le_op e = Some (opc, opd)" "op_address base regs opc opd = Some a"
  shows "filter (entry_applies base pc base_addr) ls = [e] \<Longrightarrow>
    location_loop base pc base_addr regs (map Some ls) address = (SUCCESS, Some a)"
proof (induction ls)
  case (Cons l ls)
  show ?case
  proof (cases "entry_applies base pc base_addr l")
    case True
    then have "l = e" "filter (entry_applies base pc base_addr) ls = []" using Cons.prems by simp_all
    then show ?thesis
      using True assms location_loop_skips [of base pc base_addr ls regs] by (auto simp: entry_applies_def Let_def)
  next
    case False
    then show ?thesis using Cons by (auto simp: entry_applies_def Let_def)
  qed
qed simp

lemma die_location_one:
  assumes "one_expr dw base pc base_addr off att opc opd" "op_address base regs opc opd = Some a"
  shows "die_location dw base pc base_addr regs off att = Some (Some a)"
  using assms location_loop_one [OF _ assms(2)] by (auto simp: one_expr_def die_location_def get_location_def)

lemma address_local:
  assumes "one_expr dw base (reg_ip regs) (word_of_int (vr_base_addr v)) (word_of_int (vr_offset v)) DW_AT_location DW_OP_fbreg off"
    and "sint off < 0" "vr_func_offset v = Some f"
    and "one_expr dw base (reg_ip regs) (word_of_int (vr_base_addr v)) (word_of_int f) DW_AT_frame_base (DW_OP_breg0 + r) d" "r < 16"
  shows "address_from_regs dw base regs v = Some (Some (off + (reg_gpr regs ! r + d)))"
  using die_location_one [OF assms(1)] die_location_one [OF assms(4)] assms(2,3,5)
  by (simp add: address_from_regs_def op_address_def dw_defs)

definition loc_ok :: "(byte list \<Rightarrow> string) \<Rightarrow> dwarf \<Rightarrow> loc_env" where
  "loc_ok fl dw = \<lparr>lo_insp = all_ok fl, lo_dwarf = dw, lo_var = (\<lambda>_. True), lo_step_ready = (\<lambda>_. True), lo_step_fetch = (\<lambda>_. True)\<rparr>"

lemma loc_ok_simps [simp]:
  "lo_insp (loc_ok fl dw) = all_ok fl" "lo_dwarf (loc_ok fl dw) = dw"
  "lo_var (loc_ok fl dw) x" "lo_step_ready (loc_ok fl dw) x" "lo_step_fetch (loc_ok fl dw) x"
  by (simp_all add: loc_ok_def)

text \<open>The row of a key, when there is just one.\<close>

definition the_row :: "('r \<Rightarrow> int) \<Rightarrow> 'r list \<Rightarrow> int \<Rightarrow> 'r \<Rightarrow> bool" where
  "the_row key rows k r \<longleftrightarrow> filter (\<lambda>x. key x = k) rows = [r]"

lemma get_var_address_rows:
  assumes "the_row vr_id vars (sint var_id) v" "the_row st_id steps (sint step) s"
    and "address_from_regs dw base (st_regs s) v = Some (Some a)"
  shows "get_var_address (loc_ok fl dw) base steps vars var_id step = Some (Some (vr_name v, a, word_of_int (vr_type v)))"
  using assms by (simp add: get_var_address_def the_row_def)

section \<open>Properties\<close>

text \<open>The type behind a chain of typedefs.\<close>

fun alias_chain :: "insp_env \<Rightarrow> var_db \<Rightarrow> u64 \<Rightarrow> u64 list \<Rightarrow> type_info \<Rightarrow> bool" where
  "alias_chain ie db ty [] ti \<longleftrightarrow> get_type_size ie db ty = Some ti"
| "alias_chain ie db ty (b # bs) ti \<longleftrightarrow>
     (case get_type_size ie db ty of None \<Rightarrow> False | Some t \<Rightarrow> ti_flags t = ALIAS_FLAGS \<and> ti_base t = b \<and> alias_chain ie db b bs ti)"

lemma alias_chain_resolves:
  assumes "alias_chain ie db ty bs ti" "kind_of (ti_flags ti) \<noteq> TKIND_ALIAS"
  shows "\<exists>t. get_type_size ie db ty = Some t \<and> resolve_alias ie db ty t = Some (Inr (last (ty # bs), ti))"
  using assms(1)
proof (induction bs arbitrary: ty)
  case Nil
  then show ?case using resolve_plain [OF assms(2)] by simp
next
  case (Cons b bs)
  then obtain t where t: "get_type_size ie db ty = Some t" "ti_flags t = ALIAS_FLAGS" "ti_base t = b" "alias_chain ie db b bs ti"
    by (auto split: option.splits)
  then obtain t' where "get_type_size ie db b = Some t'" "resolve_alias ie db b t' = Some (Inr (last (b # bs), ti))"
    using Cons.IH by blast
  then show ?case using t by (subst resolve_alias.simps) simp
qed

text \<open>
  C34.  A local variable of an integer type, signed or unsigned and behind any chain of typedefs, is shown with its value
  at the current step (a size other than 1, 2, 4 and 8 as unsupported): its address is the frame base, computed from the registers of the step of its frame, plus
  its offset, and its bytes are those that the recording has for the current step, however many chunks they are spread over.
  The location of the variable is an offset from the frame base and the frame base an offset from a register, each a single
  expression or the one entry of a location list that holds the address of the step; the sources that libdwarf can report
  otherwise, and frame bases given by \<open>DW_OP_call_frame_cfa\<close>, are not supported by the code.
\<close>

theorem local_integer_shown:
  assumes "the_row vr_id vars (sint var_id) v" "the_row st_id steps (sint step) s"
    and "one_expr dw base (reg_ip (st_regs s)) (word_of_int (vr_base_addr v)) (word_of_int (vr_offset v)) DW_AT_location
      DW_OP_fbreg off" "sint off < 0" "vr_func_offset v = Some f"
    and "one_expr dw base (reg_ip (st_regs s)) (word_of_int (vr_base_addr v)) (word_of_int f) DW_AT_frame_base
      (DW_OP_breg0 + r) d" "r < 16"
    and "a = off + (reg_gpr (st_regs s) ! r + d)"
    and "alias_chain (all_ok fl) db (word_of_int (vr_type v)) bs ti"
    and "kind_of (ti_flags ti) = TKIND_SIGNED \<or> kind_of (ti_flags ti) = TKIND_UNSIGNED"
    and "vd_mem db = map mem_row_of ms" "log_ok ms" "unat now < 2 ^ 63" "32 \<le> unat a" "unat a + unat (ti_size ti) < 2 ^ 63"
    and "\<And>i. i < unat (ti_size ti) \<Longrightarrow> recorded (upto_step now ms) (a + word_of_nat i) \<noteq> None"
    and "mem = map (\<lambda>i. the (recorded (upto_step now ms) (a + word_of_nat i))) [0..<unat (ti_size ti)] @ [0]"
  shows "add_var (loc_ok fl dw) db base now steps vars scope var_id step items refs =
    Some (SUCCESS, items @ [final_fields
      (if kind_of (ti_flags ti) = TKIND_SIGNED then show_signed (ti_size ti) mem else show_unsigned (ti_size ti) mem)
      (str_field ''name'' (vr_name v) JSON_NEW_OBJ)], refs)"
proof -
  have adr: "get_var_address (loc_ok fl dw) base steps vars var_id step = Some (Some (vr_name v, a, word_of_int (vr_type v)))"
    unfolding assms(8) using assms(1,2) address_local [OF assms(3-7)] by (rule get_var_address_rows)
  have m: "get_var_value DAB_OK DAB_NO_DATA (vd_mem db) a (ti_size ti) now = Some (Some mem)"
    unfolding assms(11,17) using assms(12-16) by (rule get_var_value_reads)
  obtain t where t: "get_type_size (all_ok fl) db (word_of_int (vr_type v)) = Some t"
    "resolve_alias (all_ok fl) db (word_of_int (vr_type v)) t = Some (Inr (last (word_of_int (vr_type v) # bs), ti))"
    using alias_chain_resolves [OF assms(9)] assms(10) by auto
  show ?thesis
    using adr add_var_entry_resolved [OF t assms(10) m] assms(10) by (auto simp: add_var_def basic_text_def)
qed

text \<open>
  A sample: the variable \<open>x\<close> of a type that is \<open>int\<close> behind a typedef.  The frame base is a list of three entries, for the two
  instructions of the prologue and the body of the function, where it is 16 bytes above the address in register 6 (\<open>rbp\<close>).
\<close>

definition list_entry :: "u64 \<Rightarrow> u64 \<Rightarrow> nat \<Rightarrow> u64 \<Rightarrow> loc_entry" where
  "list_entry lo hi opc opd = \<lparr>le_lle_value = DW_LLEX_offset_pair_entry, le_lo_pc = lo, le_hi_pc = hi, le_source = 1,
     le_op = Some (opc, opd)\<rparr>"

definition sample_frame_base :: "loc_entry list" where
  "sample_frame_base = [list_entry 0 1 (DW_OP_breg0 + 7) 8, list_entry 1 4 (DW_OP_breg0 + 7) 16,
     list_entry 4 64 (DW_OP_breg0 + 6) 16]"

definition sample_dwarf :: dwarf where
  "sample_dwarf = \<lparr>dw_offdie = (\<lambda>_. DW_DLV_OK), dw_attr = (\<lambda>_ _. DW_DLV_OK),
     dw_loclist = (\<lambda>_ att. if att = DW_AT_location
       then Some [Some \<lparr>le_lle_value = 0, le_lo_pc = 0, le_hi_pc = 0, le_source = 0, le_op = Some (DW_OP_fbreg, - 20)\<rparr>]
       else Some (map Some sample_frame_base))\<rparr>"

definition sample_var :: var_row where
  "sample_var = \<lparr>vr_id = 1, vr_name = ''x'', vr_offset = 50, vr_func_offset = Some 40, vr_base_addr = 0x400, vr_type = 7,
     vr_scope_id = 3, vr_file_id = 1, vr_line = 2\<rparr>"

definition sample_step :: "user_regs step_row" where
  "sample_step = \<lparr>st_id = 1, st_address = 0, st_depth = 1, st_function_id = 1,
     st_regs = \<lparr>reg_gpr = [0, 0, 0, 0, 0, 0, 100, 0], reg_ip = 0x408\<rparr>\<rparr>"

definition int_type :: type_row where
  "int_type = \<lparr>ty_offset = 7, ty_name = ''int'', ty_size = 4, ty_dim = 0, ty_parent = None, ty_flags = 1\<rparr>"

definition int_alias :: type_row where
  "int_alias = \<lparr>ty_offset = 9, ty_name = ''number'', ty_size = 0, ty_dim = 0, ty_parent = Some 7, ty_flags = 11\<rparr>"

definition int_db :: var_db where
  "int_db = \<lparr>vd_type = [int_type, int_alias], vd_member = [], vd_mem = map mem_row_of sample_mem_msgs, vd_heap = [], vd_fun = []\<rparr>"

lemma sample_locations:
  "one_expr sample_dwarf 0 (reg_ip (st_regs sample_step)) 0x400 x DW_AT_location DW_OP_fbreg (- 20)"
  "one_expr sample_dwarf 0 (reg_ip (st_regs sample_step)) 0x400 x DW_AT_frame_base (DW_OP_breg0 + 6) 16"
proof -
  let ?e = "\<lparr>le_lle_value = 0, le_lo_pc = 0, le_hi_pc = 0, le_source = 0, le_op = Some (DW_OP_fbreg, - 20)\<rparr>"
  show "one_expr sample_dwarf 0 (reg_ip (st_regs sample_step)) 0x400 x DW_AT_location DW_OP_fbreg (- 20)"
    by (rule one_exprI [where ls = "[?e]" and e = ?e]) (simp_all add: sample_dwarf_def entry_applies_def)
  show "one_expr sample_dwarf 0 (reg_ip (st_regs sample_step)) 0x400 x DW_AT_frame_base (DW_OP_breg0 + 6) 16"
    by (rule one_exprI [where ls = sample_frame_base and e = "list_entry 4 64 (DW_OP_breg0 + 6) 16"])
      (simp_all add: sample_dwarf_def sample_frame_base_def entry_applies_def list_entry_def sample_step_def)
qed

theorem local_integer_shown_witness:
  "add_var (loc_ok (\<lambda>_. []) sample_dwarf) int_db 0 1 [sample_step] [sample_var\<lparr>vr_type := 9\<rparr>] 3 1 1 [] no_refs =
    Some (SUCCESS, [final_fields
      (show_signed 4 (map (\<lambda>i. the (recorded (upto_step 1 sample_mem_msgs) (96 + word_of_nat i))) [0..<unat (4 :: u64)] @ [0]))
      (str_field ''name'' ''x'' JSON_NEW_OBJ)], no_refs)"
proof -
  define v where "v = sample_var\<lparr>vr_type := 9\<rparr>"
  define ti where "ti = type_info_of int_type"
  have sz: "ti_size ti = 4" by (simp add: ti_def type_info_of_def int_type_def)
  have rec: "recorded (upto_step 1 sample_mem_msgs) (96 + word_of_nat i) \<noteq> None" if "i < unat (ti_size ti)" for i
  proof -
    have "unat (96 + word_of_nat i :: u64) = 96 + i" using unat_add_offset [of 96 i] that sz by simp
    then show ?thesis using that sz by (simp add: upto_step_def sample_mem_msgs_def recorded_def replay_def covers_def)
  qed
  have v: "vr_base_addr v = 0x400" "vr_func_offset v = Some 40" "vr_name v = ''x''" by (simp_all add: v_def sample_var_def)
  have t: "alias_chain (all_ok (\<lambda>_. [])) int_db (word_of_int (vr_type v)) [7] ti"
    by (simp add: get_type_size_def int_db_def ti_def v_def int_type_def int_alias_def type_info_of_def ALIAS_FLAGS_def)
  have k: "kind_of (ti_flags ti) = TKIND_SIGNED"
    by (simp add: ti_def type_info_of_def int_type_def)
  have row: "the_row vr_id [v] (sint (1 :: u64)) v" "the_row st_id [sample_step] (sint (1 :: u64)) sample_step"
    by (simp_all add: the_row_def v_def sample_var_def sample_step_def)
  have m: "vd_mem int_db = map mem_row_of sample_mem_msgs" by (simp add: int_db_def)
  have lg: "log_ok sample_mem_msgs" by (simp add: log_ok_def sample_mem_msgs_def)
  have l: "one_expr sample_dwarf 0 (reg_ip (st_regs sample_step)) (word_of_int (vr_base_addr v)) x DW_AT_location DW_OP_fbreg (- 20)"
    "one_expr sample_dwarf 0 (reg_ip (st_regs sample_step)) (word_of_int (vr_base_addr v)) x DW_AT_frame_base (DW_OP_breg0 + 6) 16" for x
    using sample_locations v(1) by simp_all
  have a: "(96 :: u64) = - 20 + (reg_gpr (st_regs sample_step) ! 6 + 16)" by (simp add: sample_step_def)
  show ?thesis
    using local_integer_shown [OF row l(1) _ v(2) l(2) _ a t _ m lg _ _ _ rec refl, of 3 "[]" no_refs] sz k v
    by (simp add: v_def)
qed

text \<open>
  A field of an expanded structure and a variable of a scope can share a reference: \<open>add_var_fields\<close> and
  \<open>add_var_items\<close> register the parts of the variable with reference \<open>r\<close> under the parent type of a scope, so a part
  named \<open>n\<close> has the key of the variable \<open>n\<close> of scope number \<open>r\<close>.  Showing both gives them the same reference, which
  leads from the variable to the part.
\<close>

theorem field_takes_over_reference:
  assumes "get_type_size (all_ok fl) db ty = Some ti" "kind_of (ti_flags ti) = TKIND_STRUCT"
    and "get_type_size (all_ok fl) db ty' = Some ti'" "kind_of (ti_flags ti') = TKIND_STRUCT" "refs_ok 2 t"
  shows "\<exists>item item' ref t1 t2.
    add_var_entry (all_ok fl) db base step PTYPE_SCOPE r n a ty 0 [] t = Some (SUCCESS, [item], t1) \<and>
    ref_look t1 ref = Some ((PTYPE_SCOPE, r, n), (a, ty, 0)) \<and>
    add_entries (all_ok fl) db base step r 0 [(n, a', ty')] [] t1 = Some (SUCCESS, [item'], t2) \<and>
    ref_look t2 ref = Some ((PTYPE_SCOPE, r, n), (a', ty', 0)) \<and>
    json_field item ''variablesReference'' = Some (Some (JInt (sint ref))) \<and>
    json_field item' ''variablesReference'' = Some (Some (JInt (sint ref)))"
proof -
  let ?k = "(PTYPE_SCOPE, r, n)"
  define t1 ref where "t1 = snd (ref_put (all_ok fl) ?k (a, ty, 0) t)" and "ref = fst (ref_put (all_ok fl) ?k (a, ty, 0) t)"
  have ok: "refs_ok (Suc 1) t" using assms(5) by (simp add: numeral_2_eq_2)
  have ok1: "refs_ok (Suc 0) t1" using rs.put_inv [OF ok] by (simp add: t1_def)
  have l1: "ref_look t1 ref = Some (?k, (a, ty, 0))" unfolding t1_def ref_def by (rule rs.look_put [OF ok])
  define t2 where "t2 = snd (ref_put (all_ok fl) ?k (a', ty', 0) t1)"
  have same: "fst (ref_put (all_ok fl) ?k (a', ty', 0) t1) = ref" by (rule rs.put_known [OF ok1 l1])
  have l2: "ref_look t2 ref = Some (?k, (a', ty', 0))" using rs.look_put [OF ok1, of fl ?k "(a', ty', 0)"] same by (simp add: t2_def)
  obtain tn where "add_var_entry (all_ok fl) db base step PTYPE_SCOPE r n a ty 0 [] t = Some (SUCCESS, [struct_item n tn ti ref], t1)"
    using add_var_entry_struct [OF assms(1,2), of base step PTYPE_SCOPE r n a "[]" t] by (auto simp: t1_def ref_def)
  moreover obtain tn' where
    "add_var_entry (all_ok fl) db base step PTYPE_SCOPE r n a' ty' 0 [] t1 = Some (SUCCESS, [struct_item n tn' ti' ref], t2)"
    using add_var_entry_struct [OF assms(3,4), of base step PTYPE_SCOPE r n a' "[]" t1] same by (auto simp: t2_def)
  ultimately show ?thesis
    using l1 l2 by (intro exI [of _ "struct_item n tn ti ref"] exI [of _ "struct_item n tn' ti' ref"] exI [of _ ref] exI [of _ t1]
        exI [of _ t2]) (simp add: PTYPE_SCOPE_def)
qed

definition struct_db :: var_db where
  "struct_db = \<lparr>vd_type = [\<lparr>ty_offset = 7, ty_name = ''s'', ty_size = 4, ty_dim = 1, ty_parent = None, ty_flags = 5\<rparr>,
       \<lparr>ty_offset = 8, ty_name = ''u'', ty_size = 4, ty_dim = 1, ty_parent = None, ty_flags = 5\<rparr>],
     vd_member = [], vd_mem = [], vd_heap = [], vd_fun = []\<rparr>"

theorem field_takes_over_reference_witness:
  "\<exists>item item' ref t1 t2.
    add_var_entry (all_ok (\<lambda>_. [])) struct_db 0 1 PTYPE_SCOPE 3 ''x'' 0x1000 7 0 [] no_refs = Some (SUCCESS, [item], t1) \<and>
    ref_look t1 ref = Some ((PTYPE_SCOPE, 3, ''x''), (0x1000, 7, 0)) \<and>
    add_entries (all_ok (\<lambda>_. [])) struct_db 0 1 3 0 [(''x'', 0x2000, 8)] [] t1 = Some (SUCCESS, [item'], t2) \<and>
    ref_look t2 ref = Some ((PTYPE_SCOPE, 3, ''x''), (0x2000, 8, 0)) \<and>
    json_field item ''variablesReference'' = Some (Some (JInt (sint ref))) \<and>
    json_field item' ''variablesReference'' = Some (Some (JInt (sint ref)))"
proof -
  let ?ti = "\<lparr>ti_size = 4, ti_dim = 1, ti_flags = 5, ti_base = 0\<rparr>"
  have "get_type_size (all_ok (\<lambda>_. [])) struct_db 7 = Some ?ti" "get_type_size (all_ok (\<lambda>_. [])) struct_db 8 = Some ?ti"
    by (simp_all add: struct_db_def get_type_size_def type_info_of_def)
  moreover have "kind_of (ti_flags ?ti) = TKIND_STRUCT" "refs_ok 2 no_refs" by (simp_all add: no_refs_ok)
  ultimately show ?thesis by (intro field_takes_over_reference)
qed

text \<open>
  Showing a pointer to a freed block overruns a buffer when the name of the type has five characters, as \<open>char*\<close>
  has, and the address has twelve hexadecimal digits, as addresses on a heap usually have.
\<close>

theorem dangling_pointer_overruns:
  assumes "get_type_size (all_ok fl) db ty = Some ti" "kind_of (ti_flags ti) = TKIND_POINTER"
    and "get_var_value DAB_OK DAB_NO_DATA (vd_mem db) addr (ti_size ti) step = Some (Some mem)"
    and "load_ulong mem = Some p" "16 ^ 11 \<le> unat p"
    and "fst (get_pointer_size DAB_OK DAB_OK (vd_heap db) (vd_mem db) p step) = MEM_RELEASED"
    and "type_name (all_ok fl) db ty 0 = Some tname" "5 \<le> length tname"
  shows "add_var_entry (all_ok fl) db base step pt parent n addr ty 0 items refs = None"
proof -
  have "p \<noteq> 0" using assms(5) by auto
  moreover have "12 \<le> length (hex_of_nat (unat p))" using length_hex_of_nat_ge [OF assms(5)] by simp
  then have "pointer_text (Some tname) p '' (dangling)'' = None"
    using assms(8) by (simp add: pointer_text_def sprintf_def hex_def)
  moreover obtain q where "pointer_size_of (all_ok fl) db step p = (MEM_RELEASED, q)"
    using assms(6) by (cases "pointer_size_of (all_ok fl) db step p") (simp add: pointer_size_of_def dab_of_def)
  moreover have "resolve_alias (all_ok fl) db ty ti = Some (Inr (ty, ti))" using assms(2) by (intro resolve_plain) auto
  ultimately show ?thesis
    using assms by (simp add: add_var_entry_def var_item_def entry_pointer_def var_mem_ok Let_def)
qed

definition char_ptr_db :: var_db where
  "char_ptr_db = \<lparr>vd_type = [\<lparr>ty_offset = 7, ty_name = ''char'', ty_size = 1, ty_dim = 0, ty_parent = None, ty_flags = 1\<rparr>,
       \<lparr>ty_offset = 8, ty_name = [], ty_size = 8, ty_dim = 0, ty_parent = Some 7, ty_flags = 4\<rparr>],
     vd_member = [],
     vd_mem = [\<lparr>mr_address = 96, mr_step_id = 1, mr_content = [0x60, 0x92, 0x55, 0x55, 0x55, 0x55, 0, 0] @ replicate 24 0\<rparr>],
     vd_heap = [\<lparr>hr_address = 0x555555559260, hr_size = 16, hr_allocated_at = 1, hr_freed_at = 2\<rparr>], vd_fun = []\<rparr>"

theorem dangling_pointer_overruns_witness:
  "add_var_entry (all_ok (\<lambda>_. [])) char_ptr_db 0 3 PTYPE_SCOPE 3 ''p'' 96 8 0 [] no_refs = None"
proof -
  let ?ti = "\<lparr>ti_size = 8, ti_dim = 0, ti_flags = 4, ti_base = 7\<rparr>"
  have "get_type_size (all_ok (\<lambda>_. [])) char_ptr_db 8 = Some ?ti" by code_simp
  moreover have "kind_of (ti_flags ?ti) = TKIND_POINTER" by simp
  moreover have "get_var_value DAB_OK DAB_NO_DATA (vd_mem char_ptr_db) 96 (ti_size ?ti) 3 =
      Some (Some [0x60, 0x92, 0x55, 0x55, 0x55, 0x55, 0, 0, 0])" by code_simp
  moreover have "load_ulong [0x60, 0x92, 0x55, 0x55, 0x55, 0x55, 0, 0, 0] = Some 0x555555559260"
    by (simp add: load_ulong_def le_uint_def)
  moreover have "16 ^ 11 \<le> unat (0x555555559260 :: u64)" by simp
  moreover have "fst (get_pointer_size DAB_OK DAB_OK (vd_heap char_ptr_db) (vd_mem char_ptr_db) 0x555555559260 3) = MEM_RELEASED"
    by code_simp
  moreover have "type_name (all_ok (\<lambda>_. [])) char_ptr_db 8 0 = Some ''char*''"
    by (simp add: type_name_def char_ptr_db_def ALIAS_FLAGS_def name_part_def)
  ultimately show ?thesis by (rule dangling_pointer_overruns) simp
qed

end
