(* ===== verification/Expression.thy ===== *)
theory Expression
  imports Location "HOL-Library.Signed_Division" "HOL-Library.Monad_Syntax" "HOL-Library.Multiset"
begin

unbundle bit_operations_syntax

text \<open>
  Evaluation of expressions, \<^verbatim>\<open>examine/expressions/expression.c\<close>: the tree that the parser builds, its evaluation at a step,
  the presentation of the result, the lookups that the parser uses, and the cache of expressions.  From the grammar
  \<^verbatim>\<open>expr.y\<close> the construction of operator nodes is modelled, not the recognition of the text.

  A \<^verbatim>\<open>union node_value\<close> is its 64 bits.  Floating-point operations are the input \<open>float_ops\<close>.  The results are optional:
  \<open>None\<close> is undefined behaviour (signed overflow, division by zero, a shift by 64 or more, reading behind a buffer, an
  overrun of a buffer on the stack).  \<^verbatim>\<open>*error\<close> is threaded through as a \<open>string option\<close>.
\<close>

section \<open>Trees\<close>

datatype unary_op = OP_ADDR | OP_DEREF | OP_NEG | OP_INV | OP_NOT

datatype binary_op = OP_MUL | OP_DIV | OP_MOD | OP_ADD | OP_SUB | OP_BIT_AND | OP_XOR | OP_BIT_OR | OP_LEFT | OP_RIGHT
  | OP_AND | OP_OR | OP_LT | OP_GT | OP_LE | OP_GE | OP_EQ | OP_NEQ

record attrs =
  at_type_offset :: u64
  at_type_kind :: tkind
  at_size :: u64
  at_indirect :: int

datatype ast =
    Int_Node attrs u64
  | Float_Node attrs u64
  | String_Node attrs u64
  | Var_Node attrs u64
  | Field_Node attrs ast ast u64
  | Item_Node attrs ast ast
  | Unary_Node attrs unary_op ast
  | Binary_Node attrs binary_op ast ast
  | Type_Node attrs ast

fun node_attrs :: "ast \<Rightarrow> attrs" where
  "node_attrs (Int_Node a _) = a"
| "node_attrs (Float_Node a _) = a"
| "node_attrs (String_Node a _) = a"
| "node_attrs (Var_Node a _) = a"
| "node_attrs (Field_Node a _ _ _) = a"
| "node_attrs (Item_Node a _ _) = a"
| "node_attrs (Unary_Node a _ _) = a"
| "node_attrs (Binary_Node a _ _ _) = a"
| "node_attrs (Type_Node a _) = a"

abbreviation type_kind :: "ast \<Rightarrow> tkind" where "type_kind t \<equiv> at_type_kind (node_attrs t)"
abbreviation type_offset :: "ast \<Rightarrow> u64" where "type_offset t \<equiv> at_type_offset (node_attrs t)"
abbreviation node_size :: "ast \<Rightarrow> u64" where "node_size t \<equiv> at_size (node_attrs t)"
abbreviation indirect :: "ast \<Rightarrow> int" where "indirect t \<equiv> at_indirect (node_attrs t)"

section \<open>Building operator nodes\<close>

text \<open>Attributes of a number: the fields that \<^verbatim>\<open>calloc\<close> leaves zero, and the kind and the size.\<close>

definition number_attrs :: "tkind \<Rightarrow> attrs" where
  "number_attrs k = \<lparr>at_type_offset = 0, at_type_kind = k, at_size = 8, at_indirect = 0\<rparr>"

definition CAST_TO_DOUBLE :: "ast \<Rightarrow> ast" where
  "CAST_TO_DOUBLE t = Type_Node (number_attrs TKIND_FLOAT) t"

definition CAST_TO_SIGNED :: "ast \<Rightarrow> ast" where
  "CAST_TO_SIGNED t = Type_Node (number_attrs TKIND_SIGNED) t"

definition promote_operands_to_double :: "ast \<Rightarrow> ast \<Rightarrow> ast \<times> ast" where
  "promote_operands_to_double l r =
     (if type_kind l \<noteq> TKIND_FLOAT then (CAST_TO_DOUBLE l, r)
      else if type_kind r \<noteq> TKIND_FLOAT then (l, CAST_TO_DOUBLE r)
      else (l, r))"

definition promote_operands_to_signed :: "ast \<Rightarrow> ast \<Rightarrow> ast \<times> ast" where
  "promote_operands_to_signed l r =
     (if type_kind l \<noteq> TKIND_SIGNED then (CAST_TO_SIGNED l, r)
      else if type_kind r \<noteq> TKIND_SIGNED then (l, CAST_TO_SIGNED r)
      else (l, r))"

definition binary_op :: "ast \<Rightarrow> ast \<Rightarrow> binary_op \<Rightarrow> ast" where
  "binary_op l r opc =
     (if type_kind l = TKIND_FLOAT \<or> type_kind r = TKIND_FLOAT
      then (let (l', r') = promote_operands_to_double l r in Binary_Node (number_attrs TKIND_FLOAT) opc l' r')
      else if type_kind l = TKIND_SIGNED \<or> type_kind r = TKIND_SIGNED
      then (let (l', r') = promote_operands_to_signed l r in Binary_Node (number_attrs TKIND_SIGNED) opc l' r')
      else Binary_Node (number_attrs (if opc = OP_SUB then TKIND_SIGNED else TKIND_UNSIGNED)) opc l r)"

text \<open>The actions for \<open>%\<close>, for comparisons, and for \<open>&&\<close> and \<open>||\<close>, on operands that pass their checks.\<close>

definition mod_op :: "ast \<Rightarrow> ast \<Rightarrow> ast" where
  "mod_op l r = Binary_Node (number_attrs TKIND_SIGNED) OP_MOD
     (if type_kind l = TKIND_UNSIGNED then CAST_TO_SIGNED l else l)
     (if type_kind r = TKIND_UNSIGNED then CAST_TO_SIGNED r else r)"

definition relational_op :: "ast \<Rightarrow> ast \<Rightarrow> binary_op \<Rightarrow> ast" where
  "relational_op l r opc =
     (let (l', r') = (if type_kind l = TKIND_FLOAT \<or> type_kind r = TKIND_FLOAT then promote_operands_to_double l r
                      else if type_kind l = TKIND_SIGNED \<or> type_kind r = TKIND_SIGNED then promote_operands_to_signed l r
                      else (l, r))
      in Binary_Node (number_attrs TKIND_UNSIGNED) opc l' r')"

definition logical_op :: "ast \<Rightarrow> ast \<Rightarrow> binary_op \<Rightarrow> ast" where
  "logical_op l r opc = Binary_Node (number_attrs TKIND_UNSIGNED) opc l r"

definition unary_minus :: "ast \<Rightarrow> ast" where
  "unary_minus t = Unary_Node (number_attrs (if type_kind t = TKIND_FLOAT then TKIND_FLOAT else TKIND_SIGNED)) OP_NEG t"

definition logical_not :: "ast \<Rightarrow> ast" where
  "logical_not t = Unary_Node (number_attrs TKIND_UNSIGNED) OP_NOT t"

section \<open>Operators\<close>

record float_ops =
  fo_arith :: "binary_op \<Rightarrow> u64 \<Rightarrow> u64 \<Rightarrow> u64"
  fo_less :: "u64 \<Rightarrow> u64 \<Rightarrow> bool"
  fo_eq :: "u64 \<Rightarrow> u64 \<Rightarrow> bool"
  fo_of_int :: "int \<Rightarrow> u64"
  fo_to_signed :: "u64 \<Rightarrow> u64 option"
  fo_to_unsigned :: "u64 \<Rightarrow> u64 option"
  fo_of_single :: "byte list \<Rightarrow> u64"
  fo_of_long :: "byte list \<Rightarrow> u64"
  fo_print :: "u64 \<Rightarrow> string"

type_synonym node_result = "(u64 \<times> string option) option"

definition give :: "u64 \<Rightarrow> node_result" where "give v = Some (v, None)"

definition raise :: "string \<Rightarrow> node_result" where "raise e = Some (0, Some e)"

definition truth :: "bool \<Rightarrow> u64" where "truth b = (if b then 1 else 0)"

text \<open>An arithmetic result of type \<^verbatim>\<open>int64_t\<close>.\<close>

definition int64 :: "int \<Rightarrow> node_result" where
  "int64 i = (if - (2 ^ 63) \<le> i \<and> i < 2 ^ 63 then give (word_of_int i) else None)"

fun float_bin_op :: "float_ops \<Rightarrow> binary_op \<Rightarrow> u64 \<Rightarrow> u64 \<Rightarrow> node_result" where
  "float_bin_op fo OP_MUL x y = give (fo_arith fo OP_MUL x y)"
| "float_bin_op fo OP_DIV x y = give (fo_arith fo OP_DIV x y)"
| "float_bin_op fo OP_ADD x y = give (fo_arith fo OP_ADD x y)"
| "float_bin_op fo OP_SUB x y = give (fo_arith fo OP_SUB x y)"
| "float_bin_op fo OP_LT x y = give (truth (fo_less fo x y))"
| "float_bin_op fo OP_GT x y = give (truth (fo_less fo y x))"
| "float_bin_op fo OP_LE x y = give (truth (fo_less fo x y \<or> fo_eq fo x y))"
| "float_bin_op fo OP_GE x y = give (truth (fo_less fo y x \<or> fo_eq fo x y))"
| "float_bin_op fo OP_EQ x y = give (truth (fo_eq fo x y))"
| "float_bin_op fo OP_NEQ x y = give (truth (\<not> fo_eq fo x y))"
| "float_bin_op fo _ x y = raise ''internal error''"

fun signed_bin_op :: "binary_op \<Rightarrow> u64 \<Rightarrow> u64 \<Rightarrow> node_result" where
  "signed_bin_op OP_MUL x y = int64 (sint x * sint y)"
| "signed_bin_op OP_DIV x y = (if y = 0 then None else int64 (sint x sdiv sint y))"
| "signed_bin_op OP_ADD x y = int64 (sint x + sint y)"
| "signed_bin_op OP_SUB x y = int64 (sint x - sint y)"
| "signed_bin_op OP_MOD x y =
     (if y = 0 \<or> sint x sdiv sint y = 2 ^ 63 then None else int64 (sint x smod sint y))"
| "signed_bin_op OP_LT x y = give (truth (sint x < sint y))"
| "signed_bin_op OP_GT x y = give (truth (sint x > sint y))"
| "signed_bin_op OP_LE x y = give (truth (sint x \<le> sint y))"
| "signed_bin_op OP_GE x y = give (truth (sint x \<ge> sint y))"
| "signed_bin_op OP_EQ x y = give (truth (sint x = sint y))"
| "signed_bin_op OP_NEQ x y = give (truth (sint x \<noteq> sint y))"
| "signed_bin_op _ x y = raise ''internal error''"

fun unsigned_bin_op :: "binary_op \<Rightarrow> u64 \<Rightarrow> u64 \<Rightarrow> node_result" where
  "unsigned_bin_op OP_MUL x y = give (x * y)"
| "unsigned_bin_op OP_DIV x y = (if y = 0 then None else give (x div y))"
| "unsigned_bin_op OP_ADD x y = give (x + y)"
| "unsigned_bin_op OP_SUB x y = give (x - y)"
| "unsigned_bin_op OP_LT x y = give (truth (x < y))"
| "unsigned_bin_op OP_GT x y = give (truth (x > y))"
| "unsigned_bin_op OP_LE x y = give (truth (x \<le> y))"
| "unsigned_bin_op OP_GE x y = give (truth (x \<ge> y))"
| "unsigned_bin_op OP_EQ x y = give (truth (x = y))"
| "unsigned_bin_op OP_NEQ x y = give (truth (x \<noteq> y))"
| "unsigned_bin_op OP_BIT_AND x y = give (x AND y)"
| "unsigned_bin_op OP_BIT_OR x y = give (x OR y)"
| "unsigned_bin_op OP_XOR x y = give (x XOR y)"
| "unsigned_bin_op OP_LEFT x y = (if y < 64 then give (push_bit (unat y) x) else None)"
| "unsigned_bin_op OP_RIGHT x y = (if y < 64 then give (drop_bit (unat y) x) else None)"
| "unsigned_bin_op OP_MOD x y = raise ''internal error''"
| "unsigned_bin_op OP_AND x y = raise ''internal error''"
| "unsigned_bin_op OP_OR x y = raise ''internal error''"

section \<open>Evaluation\<close>

record eval_env =
  ev_loc :: loc_env
  ev_db :: var_db
  ev_vars :: "var_row list"
  ev_steps :: "user_regs step_row list"
  ev_base :: u64
  ev_cur_step :: u64
  ev_float :: float_ops

abbreviation ev_insp :: "eval_env \<Rightarrow> insp_env" where "ev_insp env \<equiv> lo_insp (ev_loc env)"

datatype eflags = NO_FLAGS | FLAG_ADDR

text \<open>The conversion of the bytes of a variable to a node value; \<open>Inl\<close> is the error for the size or the kind.\<close>

definition var_bits :: "float_ops \<Rightarrow> attrs \<Rightarrow> byte list \<Rightarrow> string + u64" where
  "var_bits fo ats value =
     (let sz = at_size ats
      in case at_type_kind ats of
           TKIND_SIGNED \<Rightarrow>
             if sz = 1 \<or> sz = 2 \<or> sz = 4 \<or> sz = 8 then Inr (word_of_int (le_sint value (unat sz)))
             else Inl ''Unsupported size for signed type''
         | TKIND_UNSIGNED \<Rightarrow>
             if sz = 1 \<or> sz = 2 \<or> sz = 4 \<or> sz = 8 then Inr (word_of_nat (le_uint value (unat sz)))
             else Inl ''Unsupported size for unsigned type''
         | TKIND_FLOAT \<Rightarrow>
             if sz = 4 then Inr (fo_of_single fo (take 4 value))
             else if sz = 8 then Inr (word_of_nat (le_uint value 8))
             else if sz = 16 then Inr (fo_of_long fo (take 16 value))
             else Inl ''Unsupported size for float type''
         | _ \<Rightarrow> Inl ''Unsupported type for variable'')"

definition var_value :: "eval_env \<Rightarrow> attrs \<Rightarrow> u64 \<Rightarrow> u64 \<Rightarrow> string option \<Rightarrow> node_result" where
  "var_value env ats addr step error =
     (case var_mem (ev_insp env) (ev_db env) step addr (at_size ats) of
        None \<Rightarrow> None
      | Some None \<Rightarrow> raise ''Cannot get variable value''
      | Some (Some value) \<Rightarrow>
          if at_indirect ats \<noteq> 0 then map_option (\<lambda>v. (v, error)) (load_ulong value)
          else (case var_bits (ev_float env) ats value of
                  Inl e \<Rightarrow> raise e
                | Inr v \<Rightarrow> (case error of None \<Rightarrow> give v | Some e \<Rightarrow> raise e)))"

text \<open>The check of an index: the new \<^verbatim>\<open>*error\<close>; \<open>None\<close> for a division by the size zero.\<close>

definition check_index :: "eval_env \<Rightarrow> ast \<Rightarrow> u64 \<Rightarrow> u64 \<Rightarrow> string option \<Rightarrow> string option option" where
  "check_index env object addr index error =
     (case get_type_size (ev_insp env) (ev_db env) (type_offset object) of
        None \<Rightarrow> Some (Some ''Error getting array size'')
      | Some ti \<Rightarrow>
          if ti_dim ti = 0 \<or> indirect object \<noteq> 0
          then (case pointer_size_of (ev_insp env) (ev_db env) (ev_cur_step env) addr of
                  (PTR_SUCCESS, d) \<Rightarrow>
                    (let n = (case d of None \<Rightarrow> 0 | Some n \<Rightarrow> n)
                     in if n = 0 then Some error
                        else if ti_size ti = 0 then None
                        else Some (if index \<ge> n div ti_size ti then Some ''Pointer access out of bounds'' else error))
                | (MEM_RELEASED, _) \<Rightarrow> Some (Some ''Memory has been already released'')
                | _ \<Rightarrow> Some error)
          else Some (if index \<ge> ti_dim ti then Some ''Array access out of bounds'' else error))"

text \<open>The guard of pointer arithmetic, with the double negation of its second part.\<close>

definition pointer_math_invalid :: "binary_op \<Rightarrow> ast \<Rightarrow> bool" where
  "pointer_math_invalid opc r \<longleftrightarrow>
     \<not> (opc = OP_ADD \<and> type_kind r = TKIND_SIGNED) \<and> (opc = OP_SUB \<and> (type_kind r = TKIND_SIGNED \<or> indirect r \<noteq> 0))"

text \<open>The difference of pointers: the division is unsigned, because the size is.\<close>

definition pointer_diff :: "u64 \<Rightarrow> u64 \<Rightarrow> u64 \<Rightarrow> node_result" where
  "pointer_diff left right sz =
     (if sz = 0 then None
      else if (left - right) mod sz \<noteq> 0 then raise ''Pointer difference isn't divisible by pointer size''
      else give ((left - right) div sz))"

definition cast_value :: "float_ops \<Rightarrow> attrs \<Rightarrow> ast \<Rightarrow> u64 \<Rightarrow> node_result" where
  "cast_value fo ats operand v =
     (if at_indirect ats \<noteq> 0 then give v
      else case at_type_kind ats of
        TKIND_UNSIGNED \<Rightarrow>
          if indirect operand = 0 \<and> type_kind operand = TKIND_FLOAT then map_option (\<lambda>i. (i, None)) (fo_to_unsigned fo v) else give v
      | TKIND_SIGNED \<Rightarrow>
          if indirect operand = 0 \<and> type_kind operand = TKIND_FLOAT then map_option (\<lambda>i. (i, None)) (fo_to_signed fo v) else give v
      | TKIND_FLOAT \<Rightarrow>
          if type_kind operand = TKIND_UNSIGNED then give (fo_of_int fo (uint v))
          else if type_kind operand = TKIND_SIGNED then give (fo_of_int fo (sint v))
          else give v
      | _ \<Rightarrow> raise ''internal error'')"

definition nonzero :: "float_ops \<Rightarrow> ast \<Rightarrow> u64 \<Rightarrow> bool" where
  "nonzero fo t v = (if type_kind t = TKIND_FLOAT then \<not> fo_eq fo 0 v else v \<noteq> 0)"

text \<open>The choice among the three routines for operators.\<close>

definition apply_bin_op :: "float_ops \<Rightarrow> attrs \<Rightarrow> binary_op \<Rightarrow> ast \<Rightarrow> ast \<Rightarrow> u64 \<Rightarrow> u64 \<Rightarrow> node_result" where
  "apply_bin_op fo ats opc l r x y =
     (if at_type_kind ats = TKIND_FLOAT then float_bin_op fo opc x y
      else if type_kind l = TKIND_SIGNED \<or> type_kind r = TKIND_SIGNED then signed_bin_op opc x y
      else unsigned_bin_op opc x y)"

fun evaluate_node :: "eval_env \<Rightarrow> ast \<Rightarrow> u64 \<Rightarrow> eflags \<Rightarrow> string option \<Rightarrow> node_result" where
  "evaluate_node env (Int_Node ats v) step flags error = Some (v, error)"
| "evaluate_node env (Float_Node ats v) step flags error = Some (v, error)"
| "evaluate_node env (String_Node ats v) step flags error = Some (v, error)"
| "evaluate_node env (Var_Node ats var_id) step flags error =
     (case get_var_address (ev_loc env) (ev_base env) (ev_steps env) (ev_vars env) var_id step of
        None \<Rightarrow> None
      | Some None \<Rightarrow> raise ''Cannot get variable address''
      | Some (Some (_, addr, _)) \<Rightarrow> if flags = FLAG_ADDR then Some (addr, error) else var_value env ats addr step error)"
| "evaluate_node env (Field_Node ats object member start) step flags error =
     do { (addr, e) \<leftarrow> evaluate_node env object step FLAG_ADDR error;
          if e \<noteq> None then Some (0, e)
          else if flags = FLAG_ADDR then Some (addr + start, e)
          else var_value env ats (addr + start) step e }"
| "evaluate_node env (Item_Node ats object member) step flags error =
     do { (addr, e) \<leftarrow> evaluate_node env object step (if indirect object \<noteq> 0 then NO_FLAGS else FLAG_ADDR) error;
          if e \<noteq> None then Some (0, e)
          else do { (index, e1) \<leftarrow> evaluate_node env member step NO_FLAGS e;
                    e2 \<leftarrow> check_index env object addr index e1;
                    if flags = FLAG_ADDR then Some (addr + index * at_size ats, e2)
                    else var_value env ats (addr + index * at_size ats) step e2 } }"
| "evaluate_node env (Unary_Node ats opc t) step flags error =
     (case opc of
        OP_ADDR \<Rightarrow> evaluate_node env t step FLAG_ADDR error
      | OP_DEREF \<Rightarrow>
          do { (addr, e) \<leftarrow> evaluate_node env t step NO_FLAGS error;
               if flags = FLAG_ADDR then Some (addr, e) else var_value env ats addr step e }
      | OP_NEG \<Rightarrow>
          do { (v, e) \<leftarrow> evaluate_node env t step NO_FLAGS error;
               if sint v = - (2 ^ 63) then None else Some (- v, e) }
      | OP_INV \<Rightarrow> do { (v, e) \<leftarrow> evaluate_node env t step NO_FLAGS error; Some (NOT v, e) }
      | OP_NOT \<Rightarrow> do { (v, e) \<leftarrow> evaluate_node env t step NO_FLAGS error; Some (truth (v = 0), e) })"
| "evaluate_node env (Binary_Node ats opc l r) step flags error =
     (if indirect l \<noteq> 0
      then (if pointer_math_invalid opc r then raise ''Invalid operator or second operand type for pointer math''
            else do { (left, e) \<leftarrow> evaluate_node env l step NO_FLAGS error;
                      if e \<noteq> None then Some (0, e)
                      else do { (right, e1) \<leftarrow> evaluate_node env r step NO_FLAGS e;
                                if e1 \<noteq> None then Some (0, e1)
                                else if type_kind r = TKIND_SIGNED
                                then give (if opc = OP_ADD then left + right * node_size l else left - right * node_size l)
                                else pointer_diff left right (node_size l) } })
      else do { (x, e) \<leftarrow> evaluate_node env l step NO_FLAGS error;
                if e \<noteq> None then Some (0, e)
                else if opc = OP_AND \<and> \<not> nonzero (ev_float env) l x then give 0
                else if opc = OP_OR \<and> nonzero (ev_float env) l x then give 1
                else do { (y, e1) \<leftarrow> evaluate_node env r step NO_FLAGS e;
                          if e1 \<noteq> None then Some (0, e1)
                          else if opc = OP_AND \<or> opc = OP_OR then give (truth (nonzero (ev_float env) r y))
                          else apply_bin_op (ev_float env) ats opc l r x y } })"
| "evaluate_node env (Type_Node ats operand) step flags error =
     do { (v, e) \<leftarrow> evaluate_node env operand step
            (if type_kind operand = TKIND_ARRAY \<or> type_kind operand = TKIND_STRUCT \<or> type_kind operand = TKIND_UNION
             then FLAG_ADDR else NO_FLAGS) error;
          if e \<noteq> None then Some (0, e) else cast_value (ev_float env) ats operand v }"

section \<open>Showing the result\<close>

text \<open>The row of \<^verbatim>\<open>type_details\<close>: without a parent type the size takes the place of the kind.\<close>

definition type_details :: "bool \<Rightarrow> var_db \<Rightarrow> u64 \<Rightarrow> (u64 \<times> u64) option" where
  "type_details ok db offset =
     (if \<not> ok then None
      else case [t \<leftarrow> vd_type db. ty_offset t = sint offset] of
        [] \<Rightarrow> None
      | t # _ \<Rightarrow> Some (word_of_int (ty_dim t),
          (case [p \<leftarrow> vd_type db. ty_parent t = Some (ty_offset p)] of
             [] \<Rightarrow> word_of_int (ty_size t)
           | p # _ \<Rightarrow> word_of_int (ty_flags p) AND 0xFFFF)))"

text \<open>A text ends at its first zero character.\<close>

definition c_text :: "string \<Rightarrow> string" where
  "c_text s = takeWhile (\<lambda>c. c \<noteq> CHR 0x00) s"

definition basic_result :: "float_ops \<Rightarrow> attrs \<Rightarrow> u64 \<Rightarrow> string option" where
  "basic_result fo ats v =
     (case at_type_kind ats of
        TKIND_SIGNED \<Rightarrow> sprintf 32 (dec_of_int (sint v) @ (if at_size ats = 1 then quoted_char (sint v) else []))
      | TKIND_UNSIGNED \<Rightarrow> sprintf 32 (dec_of_nat (unat v) @ (if at_size ats = 1 then quoted_char (uint v) else []))
      | _ \<Rightarrow> sprintf 32 (fo_print fo v))"

text \<open>The status, the body of the response, the references and the error.\<close>

type_synonym eval_result = "(status \<times> json \<times> ref_table \<times> string option) option"

text \<open>The common end for pointers and arrays.  \<open>kind\<close> is unset when the node has no type offset.\<close>

definition show_elements ::
    "eval_env \<Rightarrow> u64 \<Rightarrow> attrs \<Rightarrow> u64 \<Rightarrow> u64 option \<Rightarrow> u64 option \<Rightarrow> u64 \<Rightarrow> bool \<Rightarrow> string option \<Rightarrow> json \<Rightarrow> ref_table \<Rightarrow> eval_result" where
  "show_elements env eid ats addr n kind pointer_size value_added tname body refs =
     (if at_size ats = 1 \<and> kind = None then None
      else if at_size ats = 1 \<and> (kind = Some 1 \<or> kind = Some 2)
      then (case (if pointer_size = 0 then Some 32 else n) of
              None \<Rightarrow> None
            | Some d \<Rightarrow>
                (case var_mem (ev_insp env) (ev_db env) (ev_cur_step env) addr d of
                   None \<Rightarrow> None
                 | Some None \<Rightarrow> Some (FAILURE, body, refs, None)
                 | Some (Some mem) \<Rightarrow>
                     (case sprintf (length (c_string (take (unat d) mem)) + 32) (show_string addr (unat d) mem) of
                        None \<Rightarrow> None
                      | Some v \<Rightarrow> Some (SUCCESS, int_field ''variablesReference'' 0 (str_field ''result'' v body), refs, None))))
      else (case get_var_ref (ev_insp env) PTYPE_EXPR eid [] addr (at_type_offset ats) (at_indirect ats) refs of
              (None, refs') \<Rightarrow> Some (FAILURE, body, refs', None)
            | (Some ref, refs') \<Rightarrow>
                (case (if value_added then Some body else map_option (\<lambda>t. str_field ''result'' t body) tname) of
                   None \<Rightarrow> None
                 | Some body' \<Rightarrow>
                     map_option (\<lambda>d. (SUCCESS, int_field ''indexedVariables'' (sint d)
                        (int_field ''variablesReference'' (sint ref) body'), refs', None)) n)))"

definition show_struct ::
    "eval_env \<Rightarrow> u64 \<Rightarrow> attrs \<Rightarrow> u64 \<Rightarrow> u64 option \<Rightarrow> string option \<Rightarrow> json \<Rightarrow> ref_table \<Rightarrow> eval_result" where
  "show_struct env eid ats addr n tname body refs =
     (case get_var_ref (ev_insp env) PTYPE_EXPR eid [] addr (at_type_offset ats) 0 refs of
        (None, refs') \<Rightarrow> Some (FAILURE, body, refs', None)
      | (Some ref, refs') \<Rightarrow>
          do { d \<leftarrow> n; t \<leftarrow> tname;
               Some (SUCCESS, str_field ''result'' t (int_field ''namedVariables'' (sint d)
                 (int_field ''variablesReference'' (sint ref) body)), refs', None) })"

text \<open>A pointer; a failure of \<^verbatim>\<open>get_pointer_size\<close> is stored in a variable of the inner block and lost.\<close>

definition show_pointer ::
    "eval_env \<Rightarrow> u64 \<Rightarrow> attrs \<Rightarrow> u64 \<Rightarrow> u64 option \<Rightarrow> string option \<Rightarrow> json \<Rightarrow> ref_table \<Rightarrow> eval_result" where
  "show_pointer env eid ats addr kind tname body refs =
     (let note = (\<lambda>s. map_option (\<lambda>v. (SUCCESS, int_field ''variablesReference'' 0 (str_field ''result'' v body), refs, None))
                        (pointer_text tname addr s))
      in if addr = 0 then Some (SUCCESS, str_field ''result'' ''NULL'' body, refs, None)
         else case pointer_size_of (ev_insp env) (ev_db env) (ev_cur_step env) addr of
           (MEM_RELEASED, _) \<Rightarrow> note '' (dangling)''
         | (MEM_NOTFOUND, _) \<Rightarrow> note '' (invalid)''
         | (PTR_FAILURE, _) \<Rightarrow> Some (SUCCESS, body, refs, None)
         | (PTR_SUCCESS, psz) \<Rightarrow>
             do { v \<leftarrow> pointer_text tname addr [];
                  let pointer_size = (case psz of None \<Rightarrow> 0 | Some p \<Rightarrow> p);
                  if pointer_size \<noteq> 0 \<and> at_size ats = 0 then None
                  else show_elements env eid ats addr (Some (if pointer_size = 0 then 1 else pointer_size div at_size ats))
                         kind pointer_size True tname (str_field ''result'' v body) refs })"

definition get_eval_result ::
    "eval_env \<Rightarrow> bool \<Rightarrow> u64 \<Rightarrow> ast \<Rightarrow> u64 \<Rightarrow> json \<Rightarrow> ref_table \<Rightarrow> eval_result" where
  "get_eval_result env ok eid t step body refs =
     (let ats = node_attrs t; kind = at_type_kind ats;
          tname = type_name (ev_insp env) (ev_db env) (at_type_offset ats) (at_indirect ats);
          flags = (if at_indirect ats \<noteq> 0 \<or> kind = TKIND_SIGNED \<or> kind = TKIND_UNSIGNED \<or> kind = TKIND_FLOAT then NO_FLAGS else FLAG_ADDR);
          details = (if at_type_offset ats = 0 then Some (None, None)
                     else map_option (\<lambda>(d, k). (Some d, Some k)) (type_details ok (ev_db env) (at_type_offset ats)))
      in if at_indirect ats = 0 \<and> (kind = TKIND_SIGNED \<or> kind = TKIND_UNSIGNED \<or> kind = TKIND_FLOAT)
         then do { (v, e) \<leftarrow> evaluate_node env t step flags None;
                   if e \<noteq> None then Some (FAILURE, body, refs, e)
                   else do { s \<leftarrow> basic_result (ev_float env) ats v;
                             Some (SUCCESS, str_field ''result'' (c_text s) body, refs, None) } }
         else (case details of
                 None \<Rightarrow> Some (FAILURE, body, refs, Some ''Cannot get type details'')
               | Some (n, k) \<Rightarrow>
                   do { (addr, e) \<leftarrow> evaluate_node env t step flags None;
                        if e \<noteq> None then Some (FAILURE, body, refs, e)
                        else if at_indirect ats = 0 \<and> kind = TKIND_STRUCT then show_struct env eid ats addr n tname body refs
                        else if at_indirect ats \<noteq> 0 then show_pointer env eid ats addr k tname body refs
                        else show_elements env eid ats addr n k 0 False tname body refs }))"

section \<open>Lookups for the parser\<close>

record xtype_row = type_row +
  xt_indirect :: int

text \<open>\<open>ed_ancestor\<close> has the pairs \<^verbatim>\<open>(id, ancestor)\<close> of the table \<^verbatim>\<open>scope_ancestor\<close>.\<close>

record expr_db =
  ed_type :: "xtype_row list"
  ed_member :: "member_row list"
  ed_var :: "var_row list"
  ed_ancestor :: "(int \<times> int) list"

text \<open>The view \<^verbatim>\<open>type_relation\<close> for a descendant: its ancestors with their depth, itself first.\<close>

fun type_relation :: "nat \<Rightarrow> xtype_row list \<Rightarrow> int \<Rightarrow> int \<Rightarrow> (int \<times> int) list" where
  "type_relation 0 ts offset d = []"
| "type_relation (Suc n) ts offset d =
     (offset, d) # concat (map (\<lambda>t. case ty_parent t of None \<Rightarrow> [] | Some p \<Rightarrow> type_relation n ts p (d + 1))
       [t \<leftarrow> ts. ty_offset t = offset])"

definition relation_of :: "expr_db \<Rightarrow> int \<Rightarrow> (int \<times> int) list" where
  "relation_of db offset = type_relation (Suc (length (ed_type db))) (ed_type db) offset 0"

definition row_kind :: "xtype_row \<Rightarrow> tkind" where
  "row_kind t = kind_of (word_of_int (ty_flags t))"

text \<open>The details of a type: its offset, kind and size.\<close>

type_synonym type_desc = "int \<times> tkind \<times> u64"

definition desc_of :: "xtype_row \<Rightarrow> type_desc" where
  "desc_of t = (ty_offset t, row_kind t, word_of_int (ty_size t))"

definition first_row :: "bool \<Rightarrow> 'r list \<Rightarrow> 'r option" where
  "first_row ok rows = (if ok then (case rows of [] \<Rightarrow> None | r # _ \<Rightarrow> Some r) else None)"

definition get_struct_details :: "bool \<Rightarrow> expr_db \<Rightarrow> string \<Rightarrow> type_desc option" where
  "get_struct_details ok db name =
     first_row ok (map desc_of [t \<leftarrow> ed_type db. (row_kind t = TKIND_STRUCT \<or> row_kind t = TKIND_UNION) \<and> ty_name t = name])"

definition get_type_details :: "bool \<Rightarrow> expr_db \<Rightarrow> string \<Rightarrow> type_desc option" where
  "get_type_details ok db name =
     first_row ok (map desc_of [t \<leftarrow> ed_type db. \<not> (row_kind t = TKIND_STRUCT \<or> row_kind t = TKIND_UNION) \<and> ty_name t = name])"

text \<open>The rows of the query for a variable with the depth they are ordered by.\<close>

definition var_details_rows :: "expr_db \<Rightarrow> string \<Rightarrow> u64 \<Rightarrow> (int \<times> int \<times> type_desc \<times> int) list" where
  "var_details_rows db name scope =
     [(d, vr_id v, desc_of a, xt_indirect t).
        v \<leftarrow> ed_var db, (vr_scope_id v = sint scope \<or> (sint scope, vr_scope_id v) \<in> set (ed_ancestor db)) \<and> vr_name v = name,
        t \<leftarrow> ed_type db, ty_offset t = vr_type v,
        (anc, d) \<leftarrow> relation_of db (ty_offset t),
        a \<leftarrow> ed_type db, ty_offset a = anc \<and> xt_indirect a = 0]"

definition get_var_details :: "bool \<Rightarrow> expr_db \<Rightarrow> string \<Rightarrow> u64 \<Rightarrow> (int \<times> type_desc \<times> int) option" where
  "get_var_details ok db name scope = first_row ok (map snd (sort_key fst (var_details_rows db name scope)))"

definition get_field_details :: "bool \<Rightarrow> expr_db \<Rightarrow> string \<Rightarrow> int \<Rightarrow> (type_desc \<times> u64 \<times> int) option" where
  "get_field_details ok db name ty =
     first_row ok (map snd (sort_key (\<lambda>(d, _). - d)
       [(d, desc_of a, word_of_int (mb_start m), xt_indirect t).
          m \<leftarrow> ed_member db, mb_offset m = ty \<and> mb_name m = name,
          t \<leftarrow> ed_type db, ty_offset t = mb_type m,
          (anc, d) \<leftarrow> relation_of db (ty_offset t),
          a \<leftarrow> ed_type db, ty_offset a = anc]))"

definition get_base_type_details :: "bool \<Rightarrow> expr_db \<Rightarrow> int \<Rightarrow> (type_desc \<times> int) option" where
  "get_base_type_details ok db offset =
     first_row ok (map snd (sort_key (\<lambda>(d, _). - d)
       [(d, desc_of a, xt_indirect t).
          t \<leftarrow> ed_type db, ty_offset t = offset,
          (anc, d) \<leftarrow> relation_of db (ty_offset t), 0 < d,
          a \<leftarrow> ed_type db, ty_offset a = anc]))"

section \<open>The cache of expressions\<close>

text \<open>A row of \<^verbatim>\<open>local.expr\<close>; the address of the tree is null until it is set.\<close>

record expr_row =
  er_id :: int
  er_text :: string
  er_ast :: "int option"

record expr_cache =
  ec_rows :: "expr_row list"
  ec_seq :: int

text \<open>The id and the address of the tree (0 for null), and the cache; \<open>None\<close> for a failure.\<close>

definition query_expr_cache :: "bool \<Rightarrow> bool \<Rightarrow> string \<Rightarrow> expr_cache \<Rightarrow> (u64 \<times> u64) option \<times> expr_cache" where
  "query_expr_cache get_ok add_ok expr_text c =
     (if \<not> get_ok then (None, c)
      else case List.find (\<lambda>r. er_text r = expr_text) (ec_rows c) of
        Some r \<Rightarrow> (Some (word_of_int (er_id r), (case er_ast r of None \<Rightarrow> 0 | Some a \<Rightarrow> word_of_int a)), c)
      | None \<Rightarrow>
          if \<not> add_ok then (None, c)
          else (Some (word_of_int (ec_seq c + 1), 0),
                c\<lparr>ec_rows := ec_rows c @ [\<lparr>er_id = ec_seq c + 1, er_text = expr_text, er_ast = None\<rparr>], ec_seq := ec_seq c + 1\<rparr>))"

text \<open>The statement \<^verbatim>\<open>UPDATE local.expr SET ast = ? WHERE id = ?\<close> is bound with the id first.\<close>

definition update_expr_cache :: "bool \<Rightarrow> u64 \<Rightarrow> u64 \<Rightarrow> expr_cache \<Rightarrow> status \<times> expr_cache" where
  "update_expr_cache ok eid tree c =
     (if \<not> ok then (FAILURE, c)
      else (SUCCESS, c\<lparr>ec_rows := map (\<lambda>r. if er_id r = sint tree then r\<lparr>er_ast := Some (sint eid)\<rparr> else r) (ec_rows c)\<rparr>))"

section \<open>Releasing trees\<close>

fun tree_nodes :: "ast \<Rightarrow> ast list" where
  "tree_nodes (Field_Node a obj m s) = Field_Node a obj m s # tree_nodes obj @ tree_nodes m"
| "tree_nodes (Item_Node a obj m) = Item_Node a obj m # tree_nodes obj @ tree_nodes m"
| "tree_nodes (Unary_Node a opc t) = Unary_Node a opc t # tree_nodes t"
| "tree_nodes (Binary_Node a opc l r) = Binary_Node a opc l r # tree_nodes l @ tree_nodes r"
| "tree_nodes (Type_Node a t) = Type_Node a t # tree_nodes t"
| "tree_nodes t = [t]"

text \<open>The nodes that \<^verbatim>\<open>free_ast_node\<close> frees, in order: of an operator with two operands, the right one only.\<close>

fun free_ast_node :: "ast \<Rightarrow> ast list" where
  "free_ast_node (Field_Node a obj m s) = free_ast_node obj @ free_ast_node m @ [Field_Node a obj m s]"
| "free_ast_node (Item_Node a obj m) = free_ast_node obj @ free_ast_node m @ [Item_Node a obj m]"
| "free_ast_node (Unary_Node a opc t) = free_ast_node t @ [Unary_Node a opc t]"
| "free_ast_node (Binary_Node a opc l r) = free_ast_node r @ [Binary_Node a opc l r]"
| "free_ast_node (Type_Node a t) = free_ast_node t @ [Type_Node a t]"
| "free_ast_node t = [t]"

section \<open>Integer expressions\<close>

text \<open>
  The expressions over integer constants and variables with the arithmetic, relational and logical operators.
\<close>

datatype arith = Mul | Div | Mod | Add | Sub

datatype rel = Lt | Gt | Le | Ge | Eq | Neq

datatype iexp = Lit int | Vari attrs u64 | Arith arith iexp iexp | Rel rel iexp iexp | And iexp iexp | Or iexp iexp
  | Neg iexp | Not iexp

definition in64 :: "int \<Rightarrow> bool" where
  "in64 i \<longleftrightarrow> - (2 ^ 63) \<le> i \<and> i < 2 ^ 63"

definition clip :: "int \<Rightarrow> int option" where
  "clip i = (if in64 i then Some i else None)"

fun arith_val :: "arith \<Rightarrow> int \<Rightarrow> int \<Rightarrow> int option" where
  "arith_val Mul x y = clip (x * y)"
| "arith_val Div x y = (if y = 0 then None else clip (x sdiv y))"
| "arith_val Mod x y = (if y = 0 \<or> \<not> in64 (x sdiv y) then None else clip (x smod y))"
| "arith_val Add x y = clip (x + y)"
| "arith_val Sub x y = clip (x - y)"

fun rel_val :: "rel \<Rightarrow> int \<Rightarrow> int \<Rightarrow> bool" where
  "rel_val Lt x y \<longleftrightarrow> x < y"
| "rel_val Gt x y \<longleftrightarrow> x > y"
| "rel_val Le x y \<longleftrightarrow> x \<le> y"
| "rel_val Ge x y \<longleftrightarrow> x \<ge> y"
| "rel_val Eq x y \<longleftrightarrow> x = y"
| "rel_val Neq x y \<longleftrightarrow> x \<noteq> y"

text \<open>
  Their value in the arithmetic of this debugger: every number has 64 bits; an operation is signed as soon as one of its
  operands is signed, the other one being reinterpreted, and unsigned otherwise; a remainder is always signed, and so is the
  type of a difference.  Unsigned operations wrap; a signed one that leaves the range, and a division by zero, have no value.
  Constants are unsigned.
\<close>

definition to_signed :: "int \<Rightarrow> int" where
  "to_signed i = (i + 2 ^ 63) mod 2 ^ 64 - 2 ^ 63"

fun signed_exp :: "iexp \<Rightarrow> bool" where
  "signed_exp (Lit i) \<longleftrightarrow> False"
| "signed_exp (Vari a x) \<longleftrightarrow> at_type_kind a = TKIND_SIGNED"
| "signed_exp (Arith opr a b) \<longleftrightarrow> opr = Mod \<or> opr = Sub \<or> signed_exp a \<or> signed_exp b"
| "signed_exp (Neg a) \<longleftrightarrow> True"
| "signed_exp _ \<longleftrightarrow> False"

fun unsigned_val :: "arith \<Rightarrow> int \<Rightarrow> int \<Rightarrow> int option" where
  "unsigned_val Mul x y = Some (x * y mod 2 ^ 64)"
| "unsigned_val Div x y = (if y = 0 then None else Some (x div y))"
| "unsigned_val Add x y = Some ((x + y) mod 2 ^ 64)"
| "unsigned_val Sub x y = Some (to_signed (x - y))"
| "unsigned_val Mod x y = None"

fun value_of :: "(u64 \<Rightarrow> int) \<Rightarrow> iexp \<Rightarrow> int option" where
  "value_of \<rho> (Lit i) = Some i"
| "value_of \<rho> (Vari a x) = Some (\<rho> x)"
| "value_of \<rho> (Arith opr a b) = do { x \<leftarrow> value_of \<rho> a; y \<leftarrow> value_of \<rho> b;
     if opr = Mod \<or> signed_exp a \<or> signed_exp b then arith_val opr (to_signed x) (to_signed y) else unsigned_val opr x y }"
| "value_of \<rho> (Rel opr a b) = do { x \<leftarrow> value_of \<rho> a; y \<leftarrow> value_of \<rho> b;
     Some (of_bool (if signed_exp a \<or> signed_exp b then rel_val opr (to_signed x) (to_signed y) else rel_val opr x y)) }"
| "value_of \<rho> (And a b) = do { x \<leftarrow> value_of \<rho> a; if x = 0 then Some 0 else do { y \<leftarrow> value_of \<rho> b; Some (of_bool (y \<noteq> 0)) } }"
| "value_of \<rho> (Or a b) = do { x \<leftarrow> value_of \<rho> a; if x \<noteq> 0 then Some 1 else do { y \<leftarrow> value_of \<rho> b; Some (of_bool (y \<noteq> 0)) } }"
| "value_of \<rho> (Neg a) = do { x \<leftarrow> value_of \<rho> a; clip (- to_signed x) }"
| "value_of \<rho> (Not a) = do { x \<leftarrow> value_of \<rho> a; Some (of_bool (x = 0)) }"

text \<open>
  Their value in unbounded integers, where all numbers are below \<open>2 ^ 63\<close>: division truncates, \<open>&&\<close> and \<open>||\<close> evaluate their
  second operand when it matters only, and an expression has no value when it divides by zero or when a subexpression leaves
  the range of signed 64-bit integers.
\<close>

fun ieval :: "(u64 \<Rightarrow> int) \<Rightarrow> iexp \<Rightarrow> int option" where
  "ieval \<rho> (Lit i) = clip i"
| "ieval \<rho> (Vari a x) = clip (\<rho> x)"
| "ieval \<rho> (Arith opr a b) = do { x \<leftarrow> ieval \<rho> a; y \<leftarrow> ieval \<rho> b; arith_val opr x y }"
| "ieval \<rho> (Rel opr a b) = do { x \<leftarrow> ieval \<rho> a; y \<leftarrow> ieval \<rho> b; Some (of_bool (rel_val opr x y)) }"
| "ieval \<rho> (And a b) = do { x \<leftarrow> ieval \<rho> a; if x = 0 then Some 0 else do { y \<leftarrow> ieval \<rho> b; Some (of_bool (y \<noteq> 0)) } }"
| "ieval \<rho> (Or a b) = do { x \<leftarrow> ieval \<rho> a; if x \<noteq> 0 then Some 1 else do { y \<leftarrow> ieval \<rho> b; Some (of_bool (y \<noteq> 0)) } }"
| "ieval \<rho> (Neg a) = do { x \<leftarrow> ieval \<rho> a; clip (- x) }"
| "ieval \<rho> (Not a) = do { x \<leftarrow> ieval \<rho> a; Some (of_bool (x = 0)) }"

text \<open>The tree that the parser builds.\<close>

fun arith_code :: "arith \<Rightarrow> binary_op" where
  "arith_code Mul = OP_MUL"
| "arith_code Div = OP_DIV"
| "arith_code Mod = OP_MOD"
| "arith_code Add = OP_ADD"
| "arith_code Sub = OP_SUB"

fun rel_code :: "rel \<Rightarrow> binary_op" where
  "rel_code Lt = OP_LT"
| "rel_code Gt = OP_GT"
| "rel_code Le = OP_LE"
| "rel_code Ge = OP_GE"
| "rel_code Eq = OP_EQ"
| "rel_code Neq = OP_NEQ"

fun tree_of :: "iexp \<Rightarrow> ast" where
  "tree_of (Lit i) = Int_Node (number_attrs TKIND_UNSIGNED) (word_of_int i)"
| "tree_of (Vari a x) = Var_Node a x"
| "tree_of (Arith opr a b) = (if opr = Mod then mod_op (tree_of a) (tree_of b) else binary_op (tree_of a) (tree_of b) (arith_code opr))"
| "tree_of (Rel opr a b) = relational_op (tree_of a) (tree_of b) (rel_code opr)"
| "tree_of (And a b) = logical_op (tree_of a) (tree_of b) OP_AND"
| "tree_of (Or a b) = logical_op (tree_of a) (tree_of b) OP_OR"
| "tree_of (Neg a) = unary_minus (tree_of a)"
| "tree_of (Not a) = logical_not (tree_of a)"

text \<open>Constants are in range, and variables are integers with the value that \<open>\<rho>\<close> gives.\<close>

definition in_range :: "bool \<Rightarrow> int \<Rightarrow> bool" where
  "in_range s i \<longleftrightarrow> (if s then in64 i else 0 \<le> i \<and> i < 2 ^ 64)"

fun known :: "eval_env \<Rightarrow> u64 \<Rightarrow> (u64 \<Rightarrow> int) \<Rightarrow> iexp \<Rightarrow> bool" where
  "known env step \<rho> (Lit i) \<longleftrightarrow> 0 \<le> i \<and> i < 2 ^ 63"
| "known env step \<rho> (Vari a x) \<longleftrightarrow>
     evaluate_node env (Var_Node a x) step NO_FLAGS None = give (word_of_int (\<rho> x)) \<and> at_indirect a = 0 \<and>
     (at_type_kind a = TKIND_SIGNED \<or> at_type_kind a = TKIND_UNSIGNED) \<and> in_range (at_type_kind a = TKIND_SIGNED) (\<rho> x)"
| "known env step \<rho> (Arith opr a b) \<longleftrightarrow> known env step \<rho> a \<and> known env step \<rho> b"
| "known env step \<rho> (Rel opr a b) \<longleftrightarrow> known env step \<rho> a \<and> known env step \<rho> b"
| "known env step \<rho> (And a b) \<longleftrightarrow> known env step \<rho> a \<and> known env step \<rho> b"
| "known env step \<rho> (Or a b) \<longleftrightarrow> known env step \<rho> a \<and> known env step \<rho> b"
| "known env step \<rho> (Neg a) \<longleftrightarrow> known env step \<rho> a"
| "known env step \<rho> (Not a) \<longleftrightarrow> known env step \<rho> a"

text \<open>The type of a tree does not depend on values.\<close>

definition node_sign :: "ast \<Rightarrow> bool \<Rightarrow> bool" where
  "node_sign t s \<longleftrightarrow> indirect t = 0 \<and> type_kind t = (if s then TKIND_SIGNED else TKIND_UNSIGNED)"

lemma number_attrs_simps [simp]:
  "at_type_kind (number_attrs k) = k" "at_indirect (number_attrs k) = 0" "at_size (number_attrs k) = 8"
  by (simp_all add: number_attrs_def)

lemma tree_sign: "known env step \<rho> e \<Longrightarrow> node_sign (tree_of e) (signed_exp e)"
proof (induction e)
  case (Arith opr a b)
  then have "node_sign (tree_of a) (signed_exp a)" "node_sign (tree_of b) (signed_exp b)" by simp_all
  then show ?case
    by (cases opr) (auto simp: node_sign_def binary_op_def mod_op_def promote_operands_to_signed_def split: if_splits)
qed (auto simp: node_sign_def relational_op_def logical_op_def unary_minus_def logical_not_def case_prod_beta)

section \<open>Numbers of 64 bits\<close>

lemma to_signed_sint: "sint (word_of_int i :: u64) = to_signed i"
  by (simp add: sint_sbintrunc' signed_take_bit_eq_take_bit_shift take_bit_eq_mod to_signed_def)

lemma word_to_signed [simp]: "(word_of_int (to_signed i) :: u64) = word_of_int i"
  by (metis to_signed_sint word_of_sint)

lemma to_signed_in64 [simp]: "in64 (to_signed i)"
proof -
  have "in64 (m - 2 ^ 63)" if "0 \<le> m" "m < 2 ^ 64" for m using that by (simp add: in64_def)
  then show ?thesis unfolding to_signed_def by simp
qed

lemma to_signed_id: "in64 i \<Longrightarrow> to_signed i = i"
  by (simp add: in64_def to_signed_def)

lemma word_zero_range: "in_range s i \<Longrightarrow> (word_of_int i :: u64) = 0 \<longleftrightarrow> i = 0"
proof -
  assume r: "in_range s i"
  have "i = 0" if z: "(word_of_int i :: u64) = 0"
  proof (cases s)
    case True
    then have "in64 i" using r by (simp add: in_range_def)
    then show ?thesis using to_signed_sint [of i] z to_signed_id by simp
  next
    case False
    then have "uint (word_of_int i :: u64) = i" using r by (simp add: in_range_def unsigned_of_int take_bit_int_eq_self)
    then show ?thesis using z by simp
  qed
  then show ?thesis by auto
qed

lemma uint_range: "in_range False i \<Longrightarrow> uint (word_of_int i :: u64) = i"
  by (simp add: in_range_def unsigned_of_int take_bit_int_eq_self)

lemma in_range_bool [simp]: "in_range s (of_bool b)"
  by (simp add: in_range_def in64_def)

lemma truth_of_bool: "truth b = word_of_int (of_bool b)"
  by (simp add: truth_def)

abbreviation outcome_of :: "int option \<Rightarrow> node_result" where
  "outcome_of v \<equiv> map_option (\<lambda>v. (word_of_int v, None)) v"

lemma int64_clip: "int64 i = outcome_of (clip i)"
  by (simp add: int64_def clip_def in64_def give_def)

lemma sdiv_nonneg: "0 \<le> x \<Longrightarrow> 0 \<le> y \<Longrightarrow> (x :: int) sdiv y = x div y"
  by (auto simp: signed_divide_int_def sgn_if)

lemma sdiv_bound: "\<bar>(x :: int) sdiv y\<bar> \<le> \<bar>x\<bar>"
proof -
  have "\<bar>x\<bar> div \<bar>y\<bar> \<le> \<bar>x\<bar>"
    using zdiv_mono2 [of "\<bar>x\<bar>" 1 "\<bar>y\<bar>"] by (cases "y = 0") simp_all
  moreover have "0 \<le> \<bar>x\<bar> div \<bar>y\<bar>" by (cases "y = 0") (simp_all add: pos_imp_zdiv_nonneg_iff)
  ultimately show ?thesis by (auto simp: signed_divide_int_def abs_mult sgn_if)
qed

lemma signed_arith:
  "signed_bin_op (arith_code opr) (word_of_int x) (word_of_int y) = outcome_of (arith_val opr (to_signed x) (to_signed y))"
proof -
  have z: "(word_of_int y :: u64) = 0 \<longleftrightarrow> to_signed y = 0"
    using word_zero_range [of True "to_signed y"] by (simp add: in_range_def)
  have "to_signed x sdiv to_signed y = 2 ^ 63 \<longleftrightarrow> \<not> in64 (to_signed x sdiv to_signed y)"
    using to_signed_in64 [of x] sdiv_bound [of "to_signed x" "to_signed y"] unfolding in64_def by linarith
  then show ?thesis using z by (cases opr) (auto simp: to_signed_sint int64_clip)
qed

lemma signed_rel:
  "signed_bin_op (rel_code opr) (word_of_int x) (word_of_int y) =
    outcome_of (Some (of_bool (rel_val opr (to_signed x) (to_signed y))))"
  by (cases opr) (simp_all add: to_signed_sint truth_of_bool give_def)

lemma unsigned_arith:
  assumes "in_range False x" "in_range False y" "opr \<noteq> Mod"
  shows "unsigned_bin_op (arith_code opr) (word_of_int x) (word_of_int y) = outcome_of (unsigned_val opr x y)"
proof -
  have "(word_of_int x :: u64) div word_of_int y = word_of_int (x div y)"
    by (simp add: word_div_def uint_range assms)
  moreover have "(word_of_int (i mod 2 ^ 64) :: u64) = word_of_int i" for i
    using wi_bintr [of 64 i, where ?'a = 64] by (simp add: take_bit_eq_mod)
  ultimately show ?thesis
    using assms(3) word_zero_range [OF assms(2)] by (cases opr) (auto simp: give_def)
qed

lemma unsigned_rel:
  assumes "in_range False x" "in_range False y"
  shows "unsigned_bin_op (rel_code opr) (word_of_int x) (word_of_int y) = outcome_of (Some (of_bool (rel_val opr x y)))"
proof -
  have "(word_of_int x :: u64) < word_of_int y \<longleftrightarrow> x < y" "(word_of_int x :: u64) = word_of_int y \<longleftrightarrow> x = y"
    "(word_of_int y :: u64) < word_of_int x \<longleftrightarrow> y < x"
    using assms [THEN uint_range] by (simp_all add: word_less_def) metis
  then show ?thesis by (cases opr) (simp_all add: truth_of_bool give_def linorder_not_less [symmetric])
qed

text \<open>The results stay in the range of their type.\<close>

lemma clip_range: "clip i = Some v \<Longrightarrow> in64 v"
  by (auto simp: clip_def split: if_splits)

lemma arith_range: "arith_val opr x y = Some v \<Longrightarrow> in64 v"
  by (cases opr) (auto simp: clip_range split: if_splits)

lemma unsigned_range:
  assumes "in_range False x" "in_range False y" "unsigned_val opr x y = Some v"
  shows "in_range (opr = Sub) v"
proof (cases opr)
  case Div
  moreover have "0 \<le> x div y \<and> x div y < 2 ^ 64" if "0 < y"
    using assms(1) that zdiv_mono2 [of x 1 y] by (auto simp: in_range_def pos_imp_zdiv_nonneg_iff)
  moreover have "0 < y" if "y \<noteq> 0" using assms(2) that by (simp add: in_range_def)
  ultimately show ?thesis using assms by (auto simp: in_range_def split: if_splits)
qed (use assms in \<open>auto simp: in_range_def\<close>)

section \<open>The trees of integer expressions\<close>

abbreviation evaluates :: "eval_env \<Rightarrow> u64 \<Rightarrow> ast \<Rightarrow> u64 \<Rightarrow> bool" where
  "evaluates env step t v \<equiv> evaluate_node env t step NO_FLAGS None = give v"

lemma eval_binary:
  assumes "evaluates env step l x" "evaluates env step r y" "indirect l = 0" "opc \<noteq> OP_AND" "opc \<noteq> OP_OR"
  shows "evaluate_node env (Binary_Node ats opc l r) step f None = apply_bin_op (ev_float env) ats opc l r x y"
  using assms by (simp add: give_def)

text \<open>A tree has the outcome \<open>w\<close> and the type of sign \<open>s\<close>.\<close>

definition value_node :: "eval_env \<Rightarrow> u64 \<Rightarrow> ast \<Rightarrow> bool \<Rightarrow> int option \<Rightarrow> bool" where
  "value_node env step t s w \<longleftrightarrow> node_sign t s \<and> evaluate_node env t step NO_FLAGS None = outcome_of w \<and>
     (\<forall>v. w = Some v \<longrightarrow> in_range s v)"

lemma cast_attrs [simp]: "type_kind (CAST_TO_SIGNED t) = TKIND_SIGNED" "indirect (CAST_TO_SIGNED t) = 0"
  by (simp_all add: CAST_TO_SIGNED_def)

lemma value_cast: "value_node env step t s w \<Longrightarrow>
    evaluate_node env (CAST_TO_SIGNED t) step NO_FLAGS None = outcome_of w \<and> node_sign (CAST_TO_SIGNED t) True"
  by (cases w) (auto simp: value_node_def CAST_TO_SIGNED_def node_sign_def cast_value_def give_def)

lemma binary_outcome:
  assumes "evaluate_node env l step NO_FLAGS None = outcome_of x" "evaluate_node env r step NO_FLAGS None = outcome_of y"
    and "indirect l = 0" "opc \<noteq> OP_AND" "opc \<noteq> OP_OR"
  shows "evaluate_node env (Binary_Node ats opc l r) step NO_FLAGS None =
    do { x \<leftarrow> x; y \<leftarrow> y; apply_bin_op (ev_float env) ats opc l r (word_of_int x) (word_of_int y) }"
  using assms by (cases x; cases y) simp_all

lemma promoted_operands:
  assumes "value_node env step l s x" "value_node env step r s' y" "s \<or> s'"
  obtains l' r' where "promote_operands_to_signed l r = (l', r')" "node_sign l' True" "node_sign r' True"
    "evaluate_node env l' step NO_FLAGS None = outcome_of x" "evaluate_node env r' step NO_FLAGS None = outcome_of y"
  using assms value_cast [OF assms(1)] value_cast [OF assms(2)]
  by (cases s; cases s') (auto simp: promote_operands_to_signed_def value_node_def node_sign_def)

lemma value_arith:
  assumes l: "value_node env step l s x" and r: "value_node env step r s' y" and opr: "opr \<noteq> Mod"
  shows "value_node env step (binary_op l r (arith_code opr)) (opr = Sub \<or> s \<or> s')
    (do { x \<leftarrow> x; y \<leftarrow> y; if s \<or> s' then arith_val opr (to_signed x) (to_signed y) else unsigned_val opr x y })"
proof (cases "s \<or> s'")
  case True
  obtain l' r' where p: "promote_operands_to_signed l r = (l', r')" "node_sign l' True" "node_sign r' True"
    "evaluate_node env l' step NO_FLAGS None = outcome_of x" "evaluate_node env r' step NO_FLAGS None = outcome_of y"
    using promoted_operands [OF l r True] .
  have "type_kind l \<noteq> TKIND_FLOAT" "type_kind r \<noteq> TKIND_FLOAT" "type_kind l = TKIND_SIGNED \<or> type_kind r = TKIND_SIGNED"
    using l r True by (auto simp: value_node_def node_sign_def)
  then have t: "binary_op l r (arith_code opr) = Binary_Node (number_attrs TKIND_SIGNED) (arith_code opr) l' r'"
    by (simp add: binary_op_def p(1))
  have "arith_code opr \<noteq> OP_AND" "arith_code opr \<noteq> OP_OR" by (cases opr; simp)+
  then have "evaluate_node env (binary_op l r (arith_code opr)) step NO_FLAGS None =
      do { x \<leftarrow> x; y \<leftarrow> y; outcome_of (arith_val opr (to_signed x) (to_signed y)) }"
    unfolding t using binary_outcome [OF p(4,5)] p(2,3) by (simp add: apply_bin_op_def node_sign_def signed_arith)
  then show ?thesis
    using True arith_range by (cases x; cases y) (auto simp: value_node_def node_sign_def t in_range_def)
next
  case False
  then have k: "type_kind l = TKIND_UNSIGNED" "type_kind r = TKIND_UNSIGNED" "indirect l = 0"
    using l r by (auto simp: value_node_def node_sign_def)
  have c: "arith_code opr \<noteq> OP_AND" "arith_code opr \<noteq> OP_OR" "arith_code opr = OP_SUB \<longleftrightarrow> opr = Sub" by (cases opr; simp)+
  have t: "binary_op l r (arith_code opr) =
      Binary_Node (number_attrs (if opr = Sub then TKIND_SIGNED else TKIND_UNSIGNED)) (arith_code opr) l r"
    using k c by (simp add: binary_op_def)
  have "evaluate_node env (binary_op l r (arith_code opr)) step NO_FLAGS None =
      do { x \<leftarrow> x; y \<leftarrow> y; unsigned_bin_op (arith_code opr) (word_of_int x) (word_of_int y) }"
    unfolding t using binary_outcome [of env l step x r y] l r k c by (simp add: apply_bin_op_def value_node_def)
  moreover have "in_range False v" if "x = Some v" for v using l that False by (simp add: value_node_def)
  moreover have "in_range False v" if "y = Some v" for v using r that False by (simp add: value_node_def)
  ultimately show ?thesis
    using False opr unsigned_arith unsigned_range [of _ _ opr]
    by (cases x; cases y) (auto simp: value_node_def node_sign_def t)
qed

lemma signed_cast:
  assumes "value_node env step t s w"
  shows "node_sign (if type_kind t = TKIND_UNSIGNED then CAST_TO_SIGNED t else t) True \<and>
    evaluate_node env (if type_kind t = TKIND_UNSIGNED then CAST_TO_SIGNED t else t) step NO_FLAGS None = outcome_of w"
  using assms value_cast [OF assms] by (cases s) (auto simp: value_node_def node_sign_def)

lemma value_mod:
  assumes l: "value_node env step l s x" and r: "value_node env step r s' y"
  shows "value_node env step (mod_op l r) True (do { x \<leftarrow> x; y \<leftarrow> y; arith_val Mod (to_signed x) (to_signed y) })"
proof -
  obtain l' where l': "l' = (if type_kind l = TKIND_UNSIGNED then CAST_TO_SIGNED l else l)" by simp
  obtain r' where r': "r' = (if type_kind r = TKIND_UNSIGNED then CAST_TO_SIGNED r else r)" by simp
  have t: "mod_op l r = Binary_Node (number_attrs TKIND_SIGNED) OP_MOD l' r'" by (simp add: mod_op_def l' r')
  have "evaluate_node env (mod_op l r) step NO_FLAGS None =
      do { x \<leftarrow> x; y \<leftarrow> y; outcome_of (arith_val Mod (to_signed x) (to_signed y)) }"
    using binary_outcome [of env l' step x r' y OP_MOD "number_attrs TKIND_SIGNED"] signed_arith [of Mod]
      signed_cast [OF l, folded l'] signed_cast [OF r, folded r']
    unfolding t by (simp add: apply_bin_op_def node_sign_def del: evaluate_node.simps signed_bin_op.simps arith_val.simps)
  then show ?thesis
    using arith_range [of Mod] unfolding t
    by (cases x; cases y) (auto simp: value_node_def node_sign_def in_range_def simp del: evaluate_node.simps arith_val.simps)
qed

lemma value_rel:
  assumes l: "value_node env step l s x" and r: "value_node env step r s' y"
  shows "value_node env step (relational_op l r (rel_code opr)) False
    (do { x \<leftarrow> x; y \<leftarrow> y;
          Some (of_bool (if s \<or> s' then rel_val opr (to_signed x) (to_signed y) else rel_val opr x y)) })"
proof (cases "s \<or> s'")
  case True
  obtain l' r' where p: "promote_operands_to_signed l r = (l', r')" "node_sign l' True" "node_sign r' True"
    "evaluate_node env l' step NO_FLAGS None = outcome_of x" "evaluate_node env r' step NO_FLAGS None = outcome_of y"
    using promoted_operands [OF l r True] .
  have "type_kind l \<noteq> TKIND_FLOAT" "type_kind r \<noteq> TKIND_FLOAT" "type_kind l = TKIND_SIGNED \<or> type_kind r = TKIND_SIGNED"
    using l r True by (auto simp: value_node_def node_sign_def)
  then have t: "relational_op l r (rel_code opr) = Binary_Node (number_attrs TKIND_UNSIGNED) (rel_code opr) l' r'"
    by (simp add: relational_op_def p(1))
  have "rel_code opr \<noteq> OP_AND" "rel_code opr \<noteq> OP_OR" by (cases opr; simp)+
  then have "evaluate_node env (relational_op l r (rel_code opr)) step NO_FLAGS None =
      do { x \<leftarrow> x; y \<leftarrow> y; outcome_of (Some (of_bool (rel_val opr (to_signed x) (to_signed y)))) }"
    unfolding t using binary_outcome [OF p(4,5)] p(2,3) by (simp add: apply_bin_op_def node_sign_def signed_rel)
  then show ?thesis using True by (cases x; cases y) (auto simp: value_node_def node_sign_def t)
next
  case False
  then have k: "type_kind l = TKIND_UNSIGNED" "type_kind r = TKIND_UNSIGNED" "indirect l = 0"
    using l r by (auto simp: value_node_def node_sign_def)
  have c: "rel_code opr \<noteq> OP_AND" "rel_code opr \<noteq> OP_OR" by (cases opr; simp)+
  have t: "relational_op l r (rel_code opr) = Binary_Node (number_attrs TKIND_UNSIGNED) (rel_code opr) l r"
    using k by (simp add: relational_op_def)
  have "evaluate_node env (relational_op l r (rel_code opr)) step NO_FLAGS None =
      do { x \<leftarrow> x; y \<leftarrow> y; unsigned_bin_op (rel_code opr) (word_of_int x) (word_of_int y) }"
    unfolding t using binary_outcome [of env l step x r y] l r k c by (simp add: apply_bin_op_def value_node_def)
  moreover have "in_range False v" if "x = Some v" for v using l that False by (simp add: value_node_def)
  moreover have "in_range False v" if "y = Some v" for v using r that False by (simp add: value_node_def)
  ultimately show ?thesis
    using False unsigned_rel by (cases x; cases y) (auto simp: value_node_def node_sign_def t)
qed

lemma nonzero_value: "value_node env step t s (Some v) \<Longrightarrow> nonzero fo t (word_of_int v) \<longleftrightarrow> v \<noteq> 0"
  using word_zero_range by (auto simp: value_node_def node_sign_def nonzero_def)

lemma value_and:
  assumes l: "value_node env step l s x" and r: "value_node env step r s' y"
  shows "value_node env step (logical_op l r OP_AND) False
    (do { x \<leftarrow> x; if x = 0 then Some 0 else do { y \<leftarrow> y; Some (of_bool (y \<noteq> 0)) } })"
  using assms nonzero_value [of env step l s] nonzero_value [of env step r s']
  by (cases x; cases y)
    (auto simp: logical_op_def value_node_def node_sign_def give_def truth_of_bool in_range_def split: if_splits)

lemma value_or:
  assumes l: "value_node env step l s x" and r: "value_node env step r s' y"
  shows "value_node env step (logical_op l r OP_OR) False
    (do { x \<leftarrow> x; if x \<noteq> 0 then Some 1 else do { y \<leftarrow> y; Some (of_bool (y \<noteq> 0)) } })"
  using assms nonzero_value [of env step l s] nonzero_value [of env step r s']
  by (cases x; cases y)
    (auto simp: logical_op_def value_node_def node_sign_def give_def truth_of_bool in_range_def split: if_splits)

lemma value_neg:
  assumes "value_node env step t s x"
  shows "value_node env step (unary_minus t) True (do { x \<leftarrow> x; clip (- to_signed x) })"
proof (cases x)
  case (Some v)
  have "(- word_of_int v :: u64) = word_of_int (- to_signed v)" by (metis word_to_signed wi_hom_neg)
  moreover have "in64 (- to_signed v) \<longleftrightarrow> to_signed v \<noteq> - (2 ^ 63)" using to_signed_in64 [of v] by (auto simp: in64_def)
  ultimately show ?thesis
    using Some assms by (auto simp: value_node_def node_sign_def unary_minus_def to_signed_sint clip_def in_range_def)
qed (use assms in \<open>auto simp: value_node_def node_sign_def unary_minus_def\<close>)

lemma value_not:
  assumes "value_node env step t s x"
  shows "value_node env step (logical_not t) False (do { x \<leftarrow> x; Some (of_bool (x = 0)) })"
proof (cases x)
  case (Some v)
  then have "in_range s v" using assms by (simp add: value_node_def)
  then have "(word_of_int v :: u64) = 0 \<longleftrightarrow> v = 0" by (rule word_zero_range)
  then show ?thesis using Some assms by (simp add: value_node_def node_sign_def logical_not_def truth_of_bool)
qed (use assms in \<open>auto simp: value_node_def node_sign_def logical_not_def\<close>)

lemma tree_value: "known env step \<rho> e \<Longrightarrow> value_node env step (tree_of e) (signed_exp e) (value_of \<rho> e)"
proof (induction e)
  case (Lit i)
  then show ?case by (simp add: value_node_def node_sign_def in_range_def)
next
  case (Vari a x)
  then show ?case by (auto simp: value_node_def node_sign_def give_def simp del: evaluate_node.simps)
next
  case (Arith opr a b)
  then have "value_node env step (tree_of a) (signed_exp a) (value_of \<rho> a)" "value_node env step (tree_of b) (signed_exp b) (value_of \<rho> b)"
    by simp_all
  then show ?case using value_mod value_arith by (cases "opr = Mod") simp_all
qed (simp_all add: value_rel value_and value_or value_neg value_not)

lemma digit_not_nul: "\<forall>c \<in> set s. is_digit c \<or> c = CHR ''-'' \<Longrightarrow> c_text s = s"
  unfolding c_text_def by (rule takeWhile_eq_all_conv [THEN iffD2]) (auto simp: is_digit_def)

lemma c_text_dec: "c_text (dec_of_int i) = dec_of_int i"
  using dec_of_nat_digits by (intro digit_not_nul) (auto simp: dec_of_int_def)

lemma basic_result_int:
  assumes "node_sign t s" "in_range s v" "node_size t \<noteq> 1"
  shows "basic_result fo (node_attrs t) (word_of_int v) = Some (dec_of_int v)"
proof -
  have "\<bar>v\<bar> < 2 ^ 64" using assms(2) by (auto simp: in_range_def in64_def split: if_splits)
  then have fits: "sprintf 32 (dec_of_int v) = Some (dec_of_int v)"
    using length_dec_of_int [of v] by (intro sprintf_fits) simp
  show ?thesis
  proof (cases s)
    case True
    then show ?thesis using assms fits by (simp add: basic_result_def node_sign_def in_range_def to_signed_sint to_signed_id)
  next
    case False
    then have "dec_of_nat (unat (word_of_int v :: u64)) = dec_of_int v"
      using uint_range [of v] assms(2) by (simp add: dec_of_int_def in_range_def unsigned_of_int)
    then show ?thesis using False assms fits by (simp add: basic_result_def node_sign_def)
  qed
qed

text \<open>On small numbers the arithmetic of the debugger is that of the integers.\<close>

lemma in64_of_bool [simp]: "in64 (of_bool b)"
  by (simp add: in64_def)

lemma small_rel: "in64 x \<Longrightarrow> in64 y \<Longrightarrow> (if c then rel_val opr (to_signed x) (to_signed y) else rel_val opr x y) = rel_val opr x y"
  by (simp add: to_signed_id)

lemma ieval_value:
  "known env step \<rho> e \<Longrightarrow> ieval \<rho> e = Some v \<Longrightarrow> value_of \<rho> e = Some v \<and> in64 v \<and> (signed_exp e \<or> 0 \<le> v)"
proof (induction e arbitrary: v)
  case (Vari a x)
  then show ?case by (auto simp: clip_def in_range_def split: if_splits)
next
  case (Arith opr a b)
  then obtain x y where xy: "ieval \<rho> a = Some x" "ieval \<rho> b = Some y" "arith_val opr x y = Some v"
    by (auto split: bind_splits)
  then have "value_of \<rho> a = Some x" "in64 x" "signed_exp a \<or> 0 \<le> x" "value_of \<rho> b = Some y" "in64 y" "signed_exp b \<or> 0 \<le> y"
    using Arith by simp_all
  moreover have "unsigned_val opr x y = Some v \<and> (opr = Sub \<or> 0 \<le> v)" if "0 \<le> x" "0 \<le> y" "opr \<noteq> Mod"
    using that xy(3) by (cases opr) (auto simp: clip_def sdiv_nonneg to_signed_id in64_def div_int_pos_iff split: if_splits)
  ultimately show ?case using xy(3) arith_range [OF xy(3)] by (auto simp: to_signed_id)
next
  case (Rel opr a b)
  then obtain x y where xy: "ieval \<rho> a = Some x" "ieval \<rho> b = Some y" "v = of_bool (rel_val opr x y)"
    by (auto split: bind_splits)
  then have "value_of \<rho> a = Some x" "in64 x" "value_of \<rho> b = Some y" "in64 y" using Rel by simp_all
  then show ?case using small_rel xy(3) by simp
next
  case (And a b)
  then show ?case using in64_of_bool [of True] in64_of_bool [of False] by (auto split: bind_splits if_splits)
next
  case (Or a b)
  then show ?case using in64_of_bool [of True] in64_of_bool [of False] by (auto split: bind_splits if_splits)
next
  case (Not a)
  then show ?case using in64_of_bool [of True] in64_of_bool [of False] by (auto split: bind_splits if_splits)
qed (auto simp: to_signed_id clip_def split: bind_splits if_splits)

text \<open>
  C38.  Integer expressions: for every expression over constants below \<open>2 ^ 63\<close> (a greater one is cut by the scanner) and
  integer variables whose values can be read, with the arithmetic, relational and logical operators, the tree that the
  parser builds evaluates to exactly the value in the arithmetic of the debugger (\<open>value_of\<close>): 64 bits, signed as soon as
  one operand is, wrapping if unsigned, and undefined, where the evaluation is undefined behaviour too, for a division by
  zero or a signed overflow on the path that is evaluated.  The client is shown that value in decimal, unless the type of
  the expression has one byte, when a character is added.  Where no subexpression leaves the range of signed 64-bit
  integers, the value is the one in unbounded integers (\<open>ieval\<close>), that is, the one C gives when it needs no conversion.
\<close>

theorem integer_expression_exact:
  assumes "known env step \<rho> e" "node_size (tree_of e) \<noteq> 1"
  shows "evaluate_node env (tree_of e) step NO_FLAGS None = map_option (\<lambda>v. (word_of_int v, None)) (value_of \<rho> e) \<and>
    get_eval_result env ok eid (tree_of e) step body refs =
      map_option (\<lambda>v. (SUCCESS, str_field ''result'' (dec_of_int v) body, refs, None)) (value_of \<rho> e) \<and>
    (\<forall>v. ieval \<rho> e = Some v \<longrightarrow> value_of \<rho> e = Some v)"
proof -
  have t: "value_node env step (tree_of e) (signed_exp e) (value_of \<rho> e)" using tree_value [OF assms(1)] .
  then have "get_eval_result env ok eid (tree_of e) step body refs =
      map_option (\<lambda>v. (SUCCESS, str_field ''result'' (dec_of_int v) body, refs, None)) (value_of \<rho> e)"
    using basic_result_int [OF _ _ assms(2)]
    by (cases "value_of \<rho> e") (auto simp: value_node_def node_sign_def get_eval_result_def c_text_dec)
  then show ?thesis using t ieval_value [OF assms(1)] by (simp add: value_node_def)
qed

definition no_floats :: float_ops where
  "no_floats = \<lparr>fo_arith = (\<lambda>_ x _. x), fo_less = (\<lambda>_ _. False), fo_eq = (=), fo_of_int = word_of_int, fo_to_signed = Some,
     fo_to_unsigned = Some, fo_of_single = (\<lambda>_. 0), fo_of_long = (\<lambda>_. 0), fo_print = (\<lambda>_. [])\<rparr>"

definition sample_eval :: eval_env where
  "sample_eval = \<lparr>ev_loc = loc_ok (\<lambda>_. []) sample_dwarf, ev_db = int_db, ev_vars = [sample_var], ev_steps = [sample_step],
     ev_base = 0, ev_cur_step = 1, ev_float = no_floats\<rparr>"

definition int_attrs :: attrs where
  "int_attrs = \<lparr>at_type_offset = 7, at_type_kind = TKIND_SIGNED, at_size = 4, at_indirect = 0\<rparr>"

text \<open>\<open>(3 - 5) / x < 4 && !(7 % 2 == 0)\<close>\<close>

definition sample_iexp :: iexp where
  "sample_iexp = And (Rel Lt (Arith Div (Arith Sub (Lit 3) (Lit 5)) (Vari int_attrs 1)) (Lit 4))
     (Not (Rel Eq (Arith Mod (Lit 7) (Lit 2)) (Lit 0)))"

lemma sample_x: "evaluate_node sample_eval (Var_Node int_attrs 1) 1 NO_FLAGS None = give 0x08080808"
proof -
  have "address_from_regs sample_dwarf 0 (st_regs sample_step) sample_var = Some (Some (- 20 + (reg_gpr (st_regs sample_step) ! 6 + 16)))"
    using address_local [of sample_dwarf 0 "st_regs sample_step" sample_var "- 20" 40 6 16] sample_locations by (simp add: sample_var_def)
  then have "get_var_address (loc_ok (\<lambda>_. []) sample_dwarf) 0 [sample_step] [sample_var] 1 1 = Some (Some (''x'', 96, 7))"
    using get_var_address_rows [of "[sample_var]" 1 sample_var "[sample_step]" 1 sample_step sample_dwarf 0 96]
    by (simp add: the_row_def sample_var_def sample_step_def)
  moreover have "get_var_value DAB_OK DAB_NO_DATA (vd_mem int_db) 96 4 1 = Some (Some [8, 8, 8, 8, 0])" by code_simp
  moreover have "le_sint [8, 8, 8, 8, 0] 4 = 0x08080808" by (simp add: le_sint_def le_uint_def signed_take_bit_int_eq_self)
  ultimately show ?thesis
    by (simp add: sample_eval_def int_attrs_def var_value_def var_mem_ok var_bits_def)
qed

theorem integer_expression_exact_witness:
  "get_eval_result sample_eval True 1 (tree_of sample_iexp) 1 JSON_NEW_OBJ no_refs =
    Some (SUCCESS, str_field ''result'' (dec_of_int 1) JSON_NEW_OBJ, no_refs, None)"
proof -
  let ?\<rho> = "\<lambda>_. 0x08080808"
  have "known sample_eval 1 ?\<rho> sample_iexp"
    by (simp add: sample_iexp_def sample_x del: evaluate_node.simps) (simp add: int_attrs_def in_range_def in64_def)
  moreover have "ieval ?\<rho> sample_iexp = Some 1"
    by (simp add: sample_iexp_def clip_def in64_def signed_divide_int_def signed_modulo_int_def)
  moreover have "node_size (tree_of sample_iexp) \<noteq> 1" by (simp add: sample_iexp_def logical_op_def)
  ultimately show ?thesis
    using integer_expression_exact [of sample_eval 1 ?\<rho> sample_iexp True 1 JSON_NEW_OBJ no_refs] by simp
qed

text \<open>
  The signed operand wins, whatever the sizes: \<open>- 1 < x\<close> evaluates to 1 for \<open>x = 1\<close> of an unsigned type, where C converts
  \<open>- 1\<close> to a large number and gives 0 unless the type is narrower than the one of the constant; and the sum of an unsigned
  32-bit operand and an unsigned constant does not wrap at 32 bits.
\<close>

theorem signed_operand_wins:
  assumes "known env step \<rho> (Vari a x)" "at_type_kind a = TKIND_UNSIGNED"
  shows "\<rho> x = 1 \<Longrightarrow> evaluate_node env (tree_of (Rel Lt (Neg (Lit 1)) (Vari a x))) step NO_FLAGS None = Some (1, None)"
    and "\<rho> x = 2 ^ 32 - 1 \<Longrightarrow> evaluate_node env (tree_of (Arith Add (Vari a x) (Lit 1))) step NO_FLAGS None = Some (2 ^ 32, None)"
proof -
  show "evaluate_node env (tree_of (Rel Lt (Neg (Lit 1)) (Vari a x))) step NO_FLAGS None = Some (1, None)" if "\<rho> x = 1"
    using tree_value [of env step \<rho> "Rel Lt (Neg (Lit 1)) (Vari a x)"] assms that
    by (simp add: value_node_def clip_def in64_def to_signed_def del: tree_of.simps evaluate_node.simps)
  show "evaluate_node env (tree_of (Arith Add (Vari a x) (Lit 1))) step NO_FLAGS None = Some (2 ^ 32, None)" if "\<rho> x = 2 ^ 32 - 1"
    using tree_value [of env step \<rho> "Arith Add (Vari a x) (Lit 1)"] assms that
    by (simp add: value_node_def del: tree_of.simps evaluate_node.simps)
qed

text \<open>
  Subtraction from a pointer is never evaluated: for an integer and for a pointer as second operand, the only
  operands that the parser lets through, the evaluation fails with an error, because the guard against invalid operands
  negates its condition for subtraction twice.
\<close>

theorem pointer_subtraction_fails:
  assumes "indirect l \<noteq> 0" "type_kind r = TKIND_SIGNED \<or> indirect r \<noteq> 0"
  shows "evaluate_node env (Binary_Node ats OP_SUB l r) step flags error =
    Some (0, Some ''Invalid operator or second operand type for pointer math'')"
  using assms by (simp add: pointer_math_invalid_def raise_def)

definition sample_pointer :: ast where
  "sample_pointer = Int_Node \<lparr>at_type_offset = 7, at_type_kind = TKIND_SIGNED, at_size = 4, at_indirect = 1\<rparr> 0x1000"

theorem pointer_subtraction_fails_witness:
  "evaluate_node sample_eval (Binary_Node int_attrs OP_SUB sample_pointer (CAST_TO_SIGNED (Int_Node (number_attrs TKIND_UNSIGNED) 1))) 1
     NO_FLAGS None = Some (0, Some ''Invalid operator or second operand type for pointer math'')"
  by (rule pointer_subtraction_fails) (simp_all add: sample_pointer_def)

text \<open>
  Further defects of the operators: a bitwise operator with a signed operand ends with an internal error, since the
  parser does not cast its operands; a comparison of floating-point numbers compares their representations as unsigned
  integers, since the node has an unsigned type; and the negation of a floating-point number negates its representation
  as a signed integer.
\<close>

theorem bitwise_signed_fails:
  assumes "opc \<in> {OP_BIT_AND, OP_XOR, OP_BIT_OR, OP_LEFT, OP_RIGHT}" "type_kind l = TKIND_SIGNED" "indirect l = 0"
    and "evaluates env step l x" "evaluates env step r y"
  shows "evaluate_node env (Binary_Node (number_attrs TKIND_UNSIGNED) opc l r) step flags None = Some (0, Some ''internal error'')"
  using assms eval_binary [OF assms(4,5,3)] by (auto simp: apply_bin_op_def raise_def)

theorem float_comparison_on_bits:
  assumes "type_kind l = TKIND_FLOAT" "type_kind r = TKIND_FLOAT" "indirect l = 0"
    and "evaluates env step l x" "evaluates env step r y"
  shows "evaluate_node env (relational_op l r OP_LT) step flags None = Some (truth (x < y), None)"
  using assms eval_binary [OF assms(4,5,3)]
  by (simp add: relational_op_def promote_operands_to_double_def apply_bin_op_def give_def)

theorem float_negation_on_bits:
  assumes "type_kind t = TKIND_FLOAT" "evaluates env step t x" "sint x \<noteq> - (2 ^ 63)"
  shows "evaluate_node env (unary_minus t) step flags None = Some (- x, None)"
  using assms by (simp add: unary_minus_def give_def)

text \<open>A tree without operators that have two operands is freed completely; of the others the left operand stays.\<close>

fun no_binary :: "ast \<Rightarrow> bool" where
  "no_binary (Field_Node a obj m s) \<longleftrightarrow> no_binary obj \<and> no_binary m"
| "no_binary (Item_Node a obj m) \<longleftrightarrow> no_binary obj \<and> no_binary m"
| "no_binary (Unary_Node a opc t) \<longleftrightarrow> no_binary t"
| "no_binary (Binary_Node a opc l r) \<longleftrightarrow> False"
| "no_binary (Type_Node a t) \<longleftrightarrow> no_binary t"
| "no_binary t \<longleftrightarrow> True"

theorem free_ast_node_complete: "no_binary t \<Longrightarrow> mset (free_ast_node t) = mset (tree_nodes t)"
  by (induction t) auto

theorem free_ast_node_leaks:
  "mset (free_ast_node (Binary_Node a opc l r)) + mset (tree_nodes l) \<subseteq># mset (tree_nodes (Binary_Node a opc l r))"
proof -
  have "mset (free_ast_node t) \<subseteq># mset (tree_nodes t)" for t
  proof (induction t)
    case (Binary_Node a opc l r)
    then show ?case by (simp add: subset_mset.add_increasing)
  qed (auto intro: subset_mset.add_mono)
  from this [of r] show ?thesis by simp
qed

section \<open>The cache never answers\<close>

text \<open>
  What \<^verbatim>\<open>process_evaluate\<close> does with the cache for a list of requests, each an expression and the address at which the
  parser would put its tree: the addresses that the cache returns.
\<close>

fun cache_run :: "(string \<times> u64) list \<Rightarrow> expr_cache \<Rightarrow> u64 list \<times> expr_cache" where
  "cache_run [] c = ([], c)"
| "cache_run ((tx, addr) # rs) c =
     (case query_expr_cache True True tx c of
        (None, c1) \<Rightarrow> cache_run rs c1
      | (Some (eid, tree), c1) \<Rightarrow>
          (let c2 = (if tree = 0 then snd (update_expr_cache True eid addr c1) else c1);
               (ts, c3) = cache_run rs c2
           in (tree # ts, c3)))"

definition no_exprs :: expr_cache where
  "no_exprs = \<lparr>ec_rows = [], ec_seq = 0\<rparr>"

text \<open>No row has a tree, and every id is one of the numbers given out.\<close>

definition cache_empty :: "nat \<Rightarrow> expr_cache \<Rightarrow> bool" where
  "cache_empty n c \<longleftrightarrow> (\<forall>r \<in> set (ec_rows c). er_ast r = None \<and> er_id r \<le> ec_seq c) \<and> ec_seq c \<le> int n"

lemma query_empty:
  assumes "cache_empty n c"
  shows "\<exists>eid c'. query_expr_cache True True tx c = (Some (eid, 0), c') \<and> cache_empty (Suc n) c'"
proof (cases "List.find (\<lambda>r. er_text r = tx) (ec_rows c)")
  case None
  then show ?thesis using assms by (fastforce simp: query_expr_cache_def cache_empty_def)
next
  case (Some r)
  then have "r \<in> set (ec_rows c)" using find_SomeD by fastforce
  then show ?thesis using Some assms by (auto simp: query_expr_cache_def cache_empty_def)
qed

lemma update_empty:
  assumes "cache_empty n c" "int n < sint addr"
  shows "update_expr_cache True eid addr c = (SUCCESS, c)"
proof -
  have "map (\<lambda>r. if er_id r = sint addr then r\<lparr>er_ast := Some (sint eid)\<rparr> else r) (ec_rows c) = ec_rows c"
    using assms by (intro map_idI) (auto simp: cache_empty_def)
  then show ?thesis by (simp add: update_expr_cache_def)
qed

lemma cache_run_empty:
  "cache_empty n c \<Longrightarrow> \<forall>r \<in> set rs. int (n + length rs) < sint (snd r) \<Longrightarrow> fst (cache_run rs c) = replicate (length rs) 0"
proof (induction rs arbitrary: n c)
  case (Cons r rs)
  obtain tx addr where r: "r = (tx, addr)" by fastforce
  obtain eid c1 where q: "query_expr_cache True True tx c = (Some (eid, 0), c1)" "cache_empty (Suc n) c1"
    using query_empty [OF Cons.prems(1)] by blast
  have "update_expr_cache True eid addr c1 = (SUCCESS, c1)" using Cons.prems(2) by (intro update_empty [OF q(2)]) (auto simp: r)
  moreover have "fst (cache_run rs c1) = replicate (length rs) 0" using Cons.prems(2) by (intro Cons.IH [OF q(2)]) auto
  ultimately show ?case using q(1) by (auto simp: r split: prod.splits)
qed simp

text \<open>
  The cache of expressions never returns a tree: the parameters of the statement that stores the address of a tree
  are bound in the wrong order, so no tree is stored under its expression.  As long as trees have addresses above the
  number of requests, every request parses its expression again.
\<close>

theorem expr_cache_never_hits:
  assumes "\<forall>r \<in> set rs. int (length rs) < sint (snd r)"
  shows "fst (cache_run rs no_exprs) = replicate (length rs) 0"
  using assms by (intro cache_run_empty [of 0]) (simp_all add: cache_empty_def no_exprs_def)

theorem expr_cache_never_hits_witness:
  "fst (cache_run [(''x'', 0x1000), (''x'', 0x2000)] no_exprs) = [0, 0]"
  using expr_cache_never_hits [of "[(''x'', 0x1000), (''x'', 0x2000)]"] by simp

end
