(* ===== verification/Examine.thy ===== *)
theory Examine
  imports Requests Expression
begin

text \<open>
  The examiner as a whole: the handlers that inspect variables (\<^verbatim>\<open>process_variables\<close> and \<^verbatim>\<open>process_evaluate\<close> of
  \<^verbatim>\<open>examine/requests.c\<close>), the dispatcher \<^verbatim>\<open>process_request\<close>, and the loop over the requests of a connection in
  \<^verbatim>\<open>examine/examine.c\<close>.  The state joins the variables of \<^verbatim>\<open>requests.c\<close>, the open database, and the tables of references
  and expressions in memory.  \<open>None\<close> stands for a crash or for undefined behaviour, as in the theories below.
\<close>

section \<open>State\<close>

text \<open>
  The tables of a recording that describe variables.  They belong to the same file as the trace, so they are a function
  \<open>info\<close> of it; \<open>ri_ancestor\<close> is the table \<^verbatim>\<open>scope_ancestor\<close>.
\<close>

record rec_info =
  ri_db :: var_db
  ri_vars :: "var_row list"
  ri_ancestor :: "(int \<times> int) list"

type_synonym trace = "user_regs trace_db"

text \<open>
  \<open>ex_trace\<close> is the recording of the connection to the database.  A \<open>launch\<close> while a recording is open makes a new connection
  without closing the first one, and the statements of \<^verbatim>\<open>requests.c\<close> that are prepared stay on the first one: \<open>ex_old\<close> has
  their recordings.  \<open>ex_relaunched\<close> is set after such a launch.
\<close>

record examiner =
  ex_session :: session
  ex_trace :: "trace option"
  ex_old :: "cursor \<Rightarrow> trace option"
  ex_relaunched :: bool
  ex_refs :: ref_table
  ex_exprs :: expr_cache

text \<open>
  The outcomes of everything outside for one request.  \<open>rx_parse\<close> is the parser: an error, or a tree and its address.
\<close>

record req_env =
  rx_exam :: exam_env
  rx_launch :: "user_regs launch_env"
  rx_delete :: bool
  rx_loc :: loc_env
  rx_float :: float_ops
  rx_details :: bool
  rx_get_expr :: bool
  rx_add_expr :: bool
  rx_upd_expr :: bool
  rx_parse :: "string \<Rightarrow> u64 \<Rightarrow> string + u64 \<times> ast"
  rx_info :: "trace \<Rightarrow> rec_info"

section \<open>\<open>variables\<close>\<close>

text \<open>The rows of the query for locals: one for each pair of a variable and an ancestor of the scope that match.\<close>

definition local_var_rows :: "rec_info \<Rightarrow> u64 \<Rightarrow> var_row list" where
  "local_var_rows ri scope =
     [v. v \<leftarrow> ri_vars ri, (i, anc) \<leftarrow> ri_ancestor ri,
        (vr_scope_id v = anc \<or> vr_scope_id v = sint scope) \<and> i = sint scope \<and> vr_scope_id v \<noteq> sint GLOBAL_SCOPE]"

definition global_var_rows :: "rec_info \<Rightarrow> var_row list" where
  "global_var_rows ri = [v \<leftarrow> ri_vars ri. vr_scope_id v = 0]"

text \<open>A variable of the frame's file that is declared on the current line or later is passed over.\<close>

definition declared :: "frame \<Rightarrow> var_row \<Rightarrow> bool" where
  "declared f v \<longleftrightarrow> \<not> (word_of_int (vr_file_id v) = fr_file f \<and> word_of_int (vr_line v) \<ge> fr_line f)"

text \<open>
  The loop over the variables: \<open>n\<close> counts the fetches.  The last component is the error with which the handler fails.
\<close>

fun add_vars ::
    "loc_env \<Rightarrow> var_db \<Rightarrow> u64 \<Rightarrow> u64 \<Rightarrow> user_regs step_row list \<Rightarrow> var_row list \<Rightarrow> query_env \<Rightarrow> nat \<Rightarrow> (var_row \<Rightarrow> bool) \<Rightarrow> u64 \<Rightarrow> u64 \<Rightarrow> var_row list \<Rightarrow> json list \<Rightarrow> ref_table \<Rightarrow> (json list \<times> ref_table \<times> string option) option" where
  "add_vars le db base now steps vars q n shown scope step [] items refs =
     Some (items, refs, if qe_fetch q n then None else Some ''Error fetching variables'')"
| "add_vars le db base now steps vars q n shown scope step (v # vs) items refs =
     (if \<not> qe_fetch q n then Some (items, refs, Some ''Error fetching variables'')
      else if \<not> shown v then add_vars le db base now steps vars q (Suc n) shown scope step vs items refs
      else case add_var le db base now steps vars scope (word_of_int (vr_id v)) step items refs of
        None \<Rightarrow> None
      | Some (FAILURE, items', refs') \<Rightarrow> Some (items', refs', Some ''Error adding variable'')
      | Some (SUCCESS, items', refs') \<Rightarrow> add_vars le db base now steps vars q (Suc n) shown scope step vs items' refs')"

text \<open>The conversion of a double to an integer truncates.\<close>

definition trunc :: "rat \<Rightarrow> int" where
  "trunc r = (if 0 \<le> r then \<lfloor>r\<rfloor> else \<lceil>r\<rceil>)"

text \<open>The result of a part of the handler: the items, the references, and the error.\<close>

definition scope_vars ::
    "req_env \<Rightarrow> trace \<Rightarrow> rat \<Rightarrow> session \<Rightarrow> ref_table \<Rightarrow> (session \<times> json list \<times> ref_table \<times> string option) option" where
  "scope_vars rx db scope s refs =
     (let ri = rx_info rx db; i = trunc scope; env = rx_exam rx;
          run = (\<lambda>c shown sc step rows s1.
             map_option (\<lambda>(items, refs', e). (s1, items, refs', e))
               (add_vars (rx_loc rx) (ri_db ri) (program_base_addr s1) (cur_step s1) (td_step db) (ri_vars ri)
                  (xe_query env c) 0 shown sc step rows [] refs))
      in if i < - (2 ^ 31) \<or> 2 ^ 31 \<le> i then None
         else if i = sint GLOBAL_SCOPE
         then (case ready Global_Vars_Cursor ''Cannot query next breakpoint'' (xe_query env Global_Vars_Cursor) s of
                 (Some e, s1) \<Rightarrow> Some (s1, [], refs, Some e)
               | (None, s1) \<Rightarrow> run Global_Vars_Cursor (\<lambda>_. True) GLOBAL_SCOPE (cur_step s1) (global_var_rows ri) s1)
         else if i < 0 then None
         else case List.find (\<lambda>f. fr_scope f = word_of_int i) (frame_list s) of
           None \<Rightarrow> Some (s, [], refs, Some ''Unknown variablesReference in 'variables' request'')
         | Some f \<Rightarrow>
             (case ready Local_Vars_Cursor ''Cannot query next breakpoint'' (xe_query env Local_Vars_Cursor) s of
                (Some e, s1) \<Rightarrow> Some (s1, [], refs, Some e)
              | (None, s1) \<Rightarrow> run Local_Vars_Cursor (declared f) (word_of_int i) (fr_step f) (local_var_rows ri (fr_scope f)) s1))"

text \<open>A reference to a variable; the results of adding items or fields are not looked at.\<close>

definition element_vars ::
    "req_env \<Rightarrow> trace \<Rightarrow> json_err \<Rightarrow> json option \<Rightarrow> u64 \<Rightarrow> session \<Rightarrow> ref_table \<Rightarrow> (session \<times> json list \<times> ref_table \<times> string option) option" where
  "element_vars rx db je args var_ref s refs =
     (let ri = rx_info rx db; ie = lo_insp (rx_loc rx); base = program_base_addr s;
          (e1, filtr) = JSON_GET_STRING_FIELD je args ''filter''
      in if e1 = JSON_OK \<and> filtr = None then None
         else if e1 = JSON_OK \<and> filtr = Some ''indexed''
         then (let (e2, start) = JSON_GET_INT32_FIELD e1 args ''start''
               in if e2 \<noteq> JSON_OK then Some (s, [], refs, Some ''Invalid 'start' param in 'variables' request'')
                  else let (e3, count) = JSON_GET_INT32_FIELD e2 args ''count''
                       in if e3 \<noteq> JSON_OK then Some (s, [], refs, Some ''Invalid 'start' param in 'variables' request'')
                          else map_option (\<lambda>(_, items, refs'). (s, items, refs', None))
                                 (add_var_items ie (ri_db ri) base (cur_step s) var_ref start count [] refs))
         else map_option (\<lambda>(_, items, refs'). (s, items, refs', None))
                (add_var_fields ie (ri_db ri) base (cur_step s) var_ref [] refs))"

definition process_variables ::
    "req_env \<Rightarrow> trace \<Rightarrow> json \<Rightarrow> session \<Rightarrow> ref_table \<Rightarrow> (session \<times> ref_table \<times> status \<times> json list) option" where
  "process_variables rx db req s refs =
     (let env = rx_exam rx; fail = (\<lambda>e. Some (s, refs, reply (xe_sent env) req JSON_NEW_OBJ FAILURE (Some e) []));
          (e1, args) = JSON_GET_OBJ JSON_OK (Some req) ''arguments''
      in if e1 \<noteq> JSON_OK then fail ''Cannot find 'argument' param in 'variables' request''
         else
           let (e2, scope) = JSON_GET_DBL_FIELD e1 args ''variablesReference'';
               (e3, var_ref) = (if e2 = JSON_ERR_MISMATCH then JSON_GET_INT64_FIELD e2 args ''variablesReference'' else (e2, 0))
           in if e3 \<noteq> JSON_OK then fail ''Invalid 'variablesReference' param in 'variables' request''
              else case (if scope \<noteq> 0 then scope_vars rx db scope s refs else element_vars rx db e3 args var_ref s refs) of
                None \<Rightarrow> None
              | Some (s1, items, refs1, e) \<Rightarrow>
                  Some (s1, refs1, reply (xe_sent env) req
                    (with_body (json_add ''variables'' (Some (JArr (map Some items))) JSON_NEW_OBJ)) (status_of e) e []))"

section \<open>\<open>evaluate\<close>\<close>

definition eval_env_of :: "req_env \<Rightarrow> trace \<Rightarrow> session \<Rightarrow> eval_env" where
  "eval_env_of rx db s = \<lparr>ev_loc = rx_loc rx, ev_db = ri_db (rx_info rx db), ev_vars = ri_vars (rx_info rx db),
     ev_steps = td_step db, ev_base = program_base_addr s, ev_cur_step = cur_step s, ev_float = rx_float rx\<rparr>"

text \<open>
  The tree of an expression, parsed and entered into the cache.  An address that the cache returns is not one of a
  tree, because the cache stores ids in place of addresses, and using it is undefined.
\<close>

definition expr_tree :: "req_env \<Rightarrow> string \<Rightarrow> u64 \<Rightarrow> expr_cache \<Rightarrow> (expr_cache \<times> (string + u64 \<times> ast)) option" where
  "expr_tree rx tx scope c =
     (case query_expr_cache (rx_get_expr rx) (rx_add_expr rx) tx c of
        (None, c1) \<Rightarrow> Some (c1, Inl ''Cannot read expression cache'')
      | (Some (eid, tree), c1) \<Rightarrow>
          if tree \<noteq> 0 then None
          else case rx_parse rx tx scope of
            Inl e \<Rightarrow> Some (c1, Inl e)
          | Inr (addr, t) \<Rightarrow>
              (case update_expr_cache (rx_upd_expr rx) eid addr c1 of
                 (FAILURE, c2) \<Rightarrow> Some (c2, Inl ''Cannot update expression cache'')
               | (SUCCESS, c2) \<Rightarrow> Some (c2, Inr (eid, t))))"

text \<open>A failed evaluation leaves \<^verbatim>\<open>body\<close> in the response, which the earlier errors do not.\<close>

definition process_evaluate ::
    "req_env \<Rightarrow> trace \<Rightarrow> json \<Rightarrow> session \<Rightarrow> ref_table \<Rightarrow> expr_cache \<Rightarrow> (ref_table \<times> expr_cache \<times> status \<times> json list) option" where
  "process_evaluate rx db req s refs c =
     (let env = rx_exam rx; fail = (\<lambda>c e. Some (refs, c, reply (xe_sent env) req JSON_NEW_OBJ FAILURE (Some e) []));
          (e1, args) = JSON_GET_OBJ JSON_OK (Some req) ''arguments''
      in if e1 \<noteq> JSON_OK then fail c ''Cannot find 'argument' param in 'evaluate' request''
         else
           let (e2, tx) = JSON_GET_STRING_FIELD e1 args ''expression''
           in if e2 \<noteq> JSON_OK then fail c ''Cannot get 'expression' param in 'evaluate' request''
              else
                let (e3, frame_id) = JSON_GET_INT64_FIELD e2 args ''frameId''
                in if e3 \<noteq> JSON_OK then fail c ''Cannot get 'frameId' param in 'evaluate' request''
                   else case List.find (\<lambda>f. fr_id f = ucast (ucast frame_id :: 32 word)) (frame_list s) of
                     None \<Rightarrow> fail c ''Unknown 'frameId' specified in 'evaluate' request''
                   | Some f \<Rightarrow>
                       (case tx of
                          None \<Rightarrow> None
                        | Some expr \<Rightarrow>
                            (case expr_tree rx expr (fr_scope f) c of
                               None \<Rightarrow> None
                             | Some (c1, Inl e) \<Rightarrow> fail c1 e
                             | Some (c1, Inr (eid, t)) \<Rightarrow>
                                 (case get_eval_result (eval_env_of rx db s) (rx_details rx) eid t (fr_step f) JSON_NEW_OBJ refs of
                                    None \<Rightarrow> None
                                  | Some (ret, body, refs1, e) \<Rightarrow>
                                      Some (refs1, c1, reply (xe_sent env) req (with_body body) ret e [])))))"

section \<open>Requests and connections\<close>

datatype command = cmd_init | cmd_launch | cmd_threads | cmd_stack | cmd_scopes | cmd_next | cmd_stepin | cmd_stepout
  | cmd_stepback | cmd_exception_br | cmd_config_done | cmd_breakpoints | cmd_continue | cmd_revcontinue | cmd_variables
  | cmd_disconnect | cmd_evaluate

definition commands :: "(string \<times> command) list" where
  "commands = [(''initialize'', cmd_init), (''launch'', cmd_launch), (''threads'', cmd_threads), (''stackTrace'', cmd_stack),
     (''scopes'', cmd_scopes), (''next'', cmd_next), (''stepIn'', cmd_stepin), (''stepOut'', cmd_stepout),
     (''stepBack'', cmd_stepback), (''setExceptionBreakpoints'', cmd_exception_br), (''configurationDone'', cmd_config_done),
     (''setBreakpoints'', cmd_breakpoints), (''continue'', cmd_continue), (''reverseContinue'', cmd_revcontinue),
     (''variables'', cmd_variables), (''disconnect'', cmd_disconnect), (''evaluate'', cmd_evaluate)]"

definition identify :: "string \<Rightarrow> command option" where
  "identify name = map_of commands name"

text \<open>Without an open database SQLite refuses to prepare a statement.\<close>

definition no_trace :: trace where
  "no_trace = \<lparr>td_step = [], td_statement = [], td_file = [], td_function = [], td_misc = []\<rparr>"

definition refused :: query_env where
  "refused = \<lparr>qe_prepare = False, qe_bind = False, qe_reset = False, qe_fetch = (\<lambda>_. False)\<rparr>"

definition offline :: "exam_env \<Rightarrow> exam_env" where
  "offline env = env\<lparr>xe_query := (\<lambda>_. refused), xe_first := refused, xe_last := refused\<rparr>"

definition offline_loc :: "loc_env \<Rightarrow> loc_env" where
  "offline_loc le = le\<lparr>lo_insp := (lo_insp le)\<lparr>ie_ready := (\<lambda>_ _. False), ie_fetch := (\<lambda>_ _. False)\<rparr>, lo_var := (\<lambda>_. False),
     lo_step_ready := (\<lambda>_. False), lo_step_fetch := (\<lambda>_. False)\<rparr>"

definition current :: "req_env \<Rightarrow> examiner \<Rightarrow> req_env \<times> trace" where
  "current rx x = (case ex_trace x of
     Some db \<Rightarrow> (rx, db)
   | None \<Rightarrow> (rx\<lparr>rx_exam := offline (rx_exam rx), rx_loc := offline_loc (rx_loc rx), rx_delete := False, rx_details := False,
       rx_get_expr := False, rx_add_expr := False, rx_upd_expr := False\<rparr>, no_trace))"

text \<open>A handler that changes only the session.\<close>

definition on_session :: "session \<times> status \<times> json list \<Rightarrow> examiner \<Rightarrow> (examiner \<times> json list) option" where
  "on_session r x = (case r of (s, _, out) \<Rightarrow> Some (x\<lparr>ex_session := s\<rparr>, out))"

text \<open>The recording after a \<open>launch\<close>, with the database it has opened, if any.\<close>

definition open_trace :: "trace option \<Rightarrow> examiner \<Rightarrow> examiner" where
  "open_trace opened x =
     (case opened of
        None \<Rightarrow> x
      | Some db \<Rightarrow>
          (case ex_trace x of
             None \<Rightarrow> x\<lparr>ex_trace := Some db\<rparr>
           | Some db0 \<Rightarrow>
               x\<lparr>ex_trace := Some db, ex_relaunched := True,
                 ex_old := (\<lambda>c. if c \<in> set (cursors (ex_session x)) \<and> ex_old x c = None then Some db0 else ex_old x c)\<rparr>))"

text \<open>
  The handler of a command: the new state and the messages sent.  The statuses of the handlers are not looked at.  A
  navigation or a stack trace with a statement of an earlier connection reads the recording of that connection.  The
  handlers that mix statements of two connections, with their tables in memory, are not modelled (\<open>None\<close>): \<open>continue\<close>,
  \<open>reverseContinue\<close> and \<open>setBreakpoints\<close> with a statement of an earlier connection, and \<open>variables\<close> and \<open>evaluate\<close> after
  a \<open>launch\<close> over an open recording.
\<close>

definition handle :: "req_env \<Rightarrow> json \<Rightarrow> command \<Rightarrow> examiner \<Rightarrow> (examiner \<times> json list) option" where
  "handle rx0 req cmd x =
     (let (rx, db) = current rx0 x; env = rx_exam rx; s = ex_session x;
          db_of = (\<lambda>c. case ex_old x c of None \<Rightarrow> db | Some old \<Rightarrow> old);
          old = (\<lambda>c. ex_old x c \<noteq> None)
      in case cmd of
           cmd_init \<Rightarrow> on_session (process_init env req s) x
         | cmd_launch \<Rightarrow>
             (case process_launch (rx_launch rx0) (rx_exam rx0) req s of
                None \<Rightarrow> None
              | Some (opened, s', _, out) \<Rightarrow> Some ((open_trace opened x)\<lparr>ex_session := s'\<rparr>, out))
         | cmd_threads \<Rightarrow> on_session (process_threads env req s) x
         | cmd_stack \<Rightarrow> (case process_stack (db_of Stack_Cursor) env req s of None \<Rightarrow> None | Some r \<Rightarrow> on_session r x)
         | cmd_scopes \<Rightarrow> on_session (process_scopes env req s) x
         | cmd_next \<Rightarrow> on_session (process_next (db_of Next_Cursor) env req s) x
         | cmd_stepin \<Rightarrow> on_session (process_stepin (db_of Stepin_Cursor) env req s) x
         | cmd_stepout \<Rightarrow> on_session (process_stepout (db_of Stepout_Cursor) env req s) x
         | cmd_stepback \<Rightarrow> on_session (process_stepback (db_of Stepback_Cursor) env req s) x
         | cmd_breakpoints \<Rightarrow>
             if old Filebypath_Cursor \<or> old Addbr_Cursor then None
             else on_session (process_breakpoints db env (rx_delete rx) req s) x
         | cmd_continue \<Rightarrow> if old Continue_Cursor then None else on_session (process_continue db env req s) x
         | cmd_revcontinue \<Rightarrow> if old Revcontinue_Cursor then None else on_session (process_revcontinue db env req s) x
         | cmd_variables \<Rightarrow>
             if ex_relaunched x then None
             else (case process_variables rx db req s (ex_refs x) of
                     None \<Rightarrow> None
                   | Some (s', refs, _, out) \<Rightarrow> Some (x\<lparr>ex_session := s', ex_refs := refs\<rparr>, out))
         | cmd_evaluate \<Rightarrow>
             if ex_relaunched x then None
             else (case process_evaluate rx db req s (ex_refs x) (ex_exprs x) of
                     None \<Rightarrow> None
                   | Some (refs, c, _, out) \<Rightarrow> Some (x\<lparr>ex_refs := refs, ex_exprs := c\<rparr>, out))
         | cmd_config_done \<Rightarrow>
             if \<not> stop_on_entry s \<and> old Continue_Cursor then None else on_session (process_config_done db env req s) x
         | cmd_exception_br \<Rightarrow> on_session (just_ack env req s) x
         | cmd_disconnect \<Rightarrow> on_session (just_ack env req s) x)"

definition process_request :: "req_env \<Rightarrow> json \<Rightarrow> examiner \<Rightarrow> (examiner \<times> status \<times> json list) option" where
  "process_request rx req x =
     (case JSON_GET_STRING_FIELD JSON_OK (Some req) ''command'' of
        (JSON_OK, Some name) \<Rightarrow>
          (case identify name of
             None \<Rightarrow> Some (x, FAILURE, [])
           | Some cmd \<Rightarrow>
               map_option (\<lambda>(x', out). (x', if cmd = cmd_disconnect then FAILURE else SUCCESS, out)) (handle rx req cmd x))
      | _ \<Rightarrow> Some (x, FAILURE, []))"

text \<open>
  \<^verbatim>\<open>release_cursors\<close> and closing the database: the tables in memory go with it; the other variables keep their values.
\<close>

definition release_cursors :: "examiner \<Rightarrow> examiner" where
  "release_cursors x = x\<lparr>ex_session := (ex_session x)\<lparr>cursors := [], breakpoints := [], br_seq := 0\<rparr>, ex_trace := None,
     ex_old := (\<lambda>_. None), ex_relaunched := False, ex_refs := no_refs, ex_exprs := no_exprs\<rparr>"

text \<open>
  The requests of a connection, until one fails or cannot be parsed as JSON (\<open>None\<close>).  The messages are collected per
  request.
\<close>

fun serve :: "(req_env \<times> json option) list \<Rightarrow> examiner \<Rightarrow> (examiner \<times> json list list) option" where
  "serve [] x = Some (release_cursors x, [])"
| "serve ((rx, None) # rs) x = Some (release_cursors x, [])"
| "serve ((rx, Some req) # rs) x =
     (case process_request rx req x of
        None \<Rightarrow> None
      | Some (x', FAILURE, out) \<Rightarrow> Some (release_cursors x', [out])
      | Some (x', SUCCESS, out) \<Rightarrow> map_option (\<lambda>(x'', outs). (x'', out # outs)) (serve rs x'))"

section \<open>Answers\<close>

named_theorems answer_intros

definition is_event :: "json \<Rightarrow> bool" where
  "is_event j \<longleftrightarrow> json_field j ''type'' = Some (Some (JStr ''event''))"

text \<open>One response, which repeats the command and the number of the request, and then events.\<close>

definition answers :: "json \<Rightarrow> json list \<Rightarrow> bool" where
  "answers req out \<longleftrightarrow> (\<exists>rsp evs. out = rsp # evs \<and>
     json_field rsp ''type'' = Some (Some (JStr ''response'')) \<and>
     json_field rsp ''command'' = Some (copied req ''command'') \<and>
     json_field rsp ''request_seq'' = Some (copied req ''seq'') \<and> (\<forall>ev \<in> set evs. is_event ev))"

definition is_object :: "json \<Rightarrow> bool" where
  "is_object j \<longleftrightarrow> (\<exists>fs. j = JObj fs)"

lemma object_add [simp, intro]: "is_object j \<Longrightarrow> is_object (json_add k v j)"
  using json_add_obj by (auto simp: is_object_def)

lemma object_new [simp, intro]: "is_object JSON_NEW_OBJ"
  by (simp add: is_object_def JSON_NEW_OBJ_def)

lemma object_body [simp, intro]: "is_object (with_body b)"
  by (simp add: with_body_def)

lemma object_field [simp]:
  "is_object j \<Longrightarrow> json_field (json_add k v j) k' = (if k' = k then Some v else json_field j k')"
  by (simp add: is_object_def)

lemma build_response_answers:
  assumes "is_object rsp" "\<forall>ev \<in> set evs. is_event ev"
  shows "answers req (build_response req rsp st e # evs)"
  using assms by (auto simp: answers_def build_response_def Let_def split: option.splits)

lemma reply_answers [answer_intros]:
  assumes "is_object rsp" "\<forall>ev \<in> set evs. is_event ev"
  shows "answers req (snd (reply ok req rsp ret e evs))"
  using build_response_answers [OF assms] build_response_answers [OF assms(1), of "[]"] by (simp add: reply_def Let_def)

lemma events_are [simp]:
  "is_event event_inited" "is_event event_terminated" "is_event (event_stopped f r s)"
  by (simp_all add: is_event_def event_inited_def event_terminated_def event_stopped_def send_event_def Let_def)

lemmas handler_defs = process_init_def process_threads_def process_scopes_def process_next_def process_stepin_def
  process_stepout_def process_stepback_def step_forward_def process_continue_def process_revcontinue_def
  process_config_done_def just_ack_def

lemma session_handlers_answer:
  "answers req (snd (snd (process_init env req s)))"
  "answers req (snd (snd (process_threads env req s)))"
  "answers req (snd (snd (process_scopes env req s)))"
  "answers req (snd (snd (process_next db env req s)))"
  "answers req (snd (snd (process_stepin db env req s)))"
  "answers req (snd (snd (process_stepout db env req s)))"
  "answers req (snd (snd (process_stepback db env req s)))"
  "answers req (snd (snd (process_continue db env req s)))"
  "answers req (snd (snd (process_revcontinue db env req s)))"
  "answers req (snd (snd (process_config_done db env req s)))"
  "answers req (snd (snd (just_ack env req s)))"
  by (auto simp: handler_defs Let_def intro!: reply_answers split: prod.splits option.splits fetched.splits)

lemma process_stack_answers: "process_stack db env req s = Some r \<Longrightarrow> answers req (snd (snd r))"
  by (auto simp: process_stack_def Let_def intro!: reply_answers split: prod.splits option.splits if_splits)

lemma process_breakpoints_answers: "answers req (snd (snd (process_breakpoints db env d req s)))"
  by (simp add: process_breakpoints_def Let_def case_prod_beta reply_answers split: option.split fetched.split)

lemma process_launch_answers: "process_launch le env req s = Some (db, s', st, out) \<Longrightarrow> answers req out"
  by (auto simp: process_launch_def Let_def prod_eq_iff dest!: sym [of _ out] intro!: reply_answers
      split: prod.splits option.splits if_splits)

lemma process_variables_answers: "process_variables rx db req s refs = Some (s', refs', st, out) \<Longrightarrow> answers req out"
  by (auto simp: process_variables_def Let_def prod_eq_iff dest!: sym [of _ out] intro!: reply_answers
      split: prod.splits option.splits if_splits)

lemma process_evaluate_answers: "process_evaluate rx db req s refs c = Some (refs', c', st, out) \<Longrightarrow> answers req out"
  by (auto simp: process_evaluate_def Let_def prod_eq_iff dest!: sym [of _ out] intro!: reply_answers
      split: prod.splits option.splits sum.splits if_splits)

lemma on_session_answers: "answers req (snd (snd r)) \<Longrightarrow> on_session r x = Some (x', out) \<Longrightarrow> answers req out"
  by (auto simp: on_session_def split: prod.splits)

lemma handle_answers: "handle rx req cmd x = Some (x', out) \<Longrightarrow> answers req out"
  using session_handlers_answer process_breakpoints_answers
  by (auto simp: handle_def Let_def split: command.splits prod.splits option.splits if_splits
      dest: process_stack_answers process_launch_answers process_variables_answers process_evaluate_answers on_session_answers
      elim!: on_session_answers [rotated])

section \<open>The position\<close>

text \<open>The current step is one of the recorded steps.\<close>

definition recorded_pos :: "'g trace_db \<Rightarrow> session \<Rightarrow> bool" where
  "recorded_pos db s \<longleftrightarrow> (\<exists>r \<in> set (nav_rows db). cur_step s = word_of_int (nr_id r))"

lemma recorded_cong: "cur_step s' = cur_step s \<Longrightarrow> recorded_pos db s' = recorded_pos db s"
  by (simp add: recorded_pos_def)

lemma ready_step: "ready c msg q s = (e, s') \<Longrightarrow> cur_step s' = cur_step s"
  using ready_position by fastforce

lemma ready_recorded: "ready c msg q s = (e, s') \<Longrightarrow> recorded_pos db s' = recorded_pos db s"
  using ready_step recorded_cong by blast

lemma recorded_goto: "r \<in> set (nav_rows db) \<Longrightarrow> recorded_pos db (goto_row r s)"
  by (auto simp: recorded_pos_def goto_row_def)

lemma fetch_row: "fetch q i rows = Row r \<Longrightarrow> r \<in> set rows"
  by (auto simp: fetch_def split: if_splits list.splits)

lemma rows_recorded:
  "set (next_rows db s) \<subseteq> set (nav_rows db)" "set (stepin_rows db s) \<subseteq> set (nav_rows db)"
  "set (stepout_rows db s) \<subseteq> set (nav_rows db)" "set (stepback_rows db s) \<subseteq> set (nav_rows db)"
  "set (continue_rows db s) \<subseteq> set (nav_rows db)" "set (revcontinue_rows db s) \<subseteq> set (nav_rows db)"
  by (auto simp: next_rows_def stepin_rows_def stepout_rows_def stepback_rows_def continue_rows_def revcontinue_rows_def
      at_breakpoint_def ascending_def descending_def split: if_splits)

lemma step_forward_recorded:
  assumes "set rows \<subseteq> set (nav_rows db)" "recorded_pos db s"
  shows "recorded_pos db (fst (step_forward env q req rows s))"
  using assms fetch_row [of q 0 rows] recorded_goto by (fastforce simp: step_forward_def Let_def split: fetched.splits)

lemma set_first_recorded:
  assumes "recorded_pos db s"
  shows "recorded_pos db (snd (set_first_step db q s))"
proof (cases "fetch q 0 [r \<leftarrow> nav_rows db. nr_id r = 1]")
  case (Row r)
  then have "r \<in> set (nav_rows db)" "nr_id r = 1" using fetch_row [OF Row] by auto
  then have "recorded_pos db (s\<lparr>cur_file := f, cur_line := l, cur_step := 1, cur_depth := 1\<rparr>)" for f l
    unfolding recorded_pos_def by (intro bexI [of _ r]) simp_all
  then show ?thesis using Row assms by (simp add: set_first_step_def)
qed (use assms in \<open>simp_all add: set_first_step_def\<close>)

lemma set_last_recorded:
  assumes "recorded_pos db s"
  shows "recorded_pos db (snd (set_last_step db q s))"
proof (cases "fetch q 0 (last_rows db)")
  case (Row r)
  then have "r \<in> set (nav_rows db)" using fetch_row [OF Row] by (simp add: last_rows_def)
  then have "recorded_pos db (s\<lparr>cur_file := f, cur_line := l, cur_step := word_of_int (nr_id r), cur_depth := 1\<rparr>)" for f l
    unfolding recorded_pos_def by (intro bexI [of _ r]) simp_all
  then show ?thesis using Row assms by (simp add: set_last_step_def)
qed (use assms in \<open>simp_all add: set_last_step_def\<close>)

lemma seek_recorded: "set rows \<subseteq> set (nav_rows db) \<Longrightarrow> recorded_pos db s \<Longrightarrow> recorded_pos db (snd (seek q i d rows s))"
proof (induction q i d rows s rule: seek.induct)
  case (2 q i d r rows s)
  then show ?case using recorded_goto [of r db] by (auto simp: recorded_pos_def)
qed simp

lemma take1_subset: "set xs \<subseteq> A \<Longrightarrow> set (take 1 xs) \<subseteq> A"
  by (meson order_trans set_take_subset)

text \<open>A handler that fails unless its cursor is ready.\<close>

lemma ready_then_recorded:
  assumes "recorded_pos db s" "\<And>s'. recorded_pos db s' \<Longrightarrow> recorded_pos db (fst (k s'))"
  shows "recorded_pos db (fst (case ready c m q s of (Some e, s') \<Rightarrow> (s', g e) | (None, s') \<Rightarrow> k s'))"
proof -
  obtain e s' where rd: "ready c m q s = (e, s')" by fastforce
  then have "recorded_pos db s'" using ready_recorded [OF rd, of db] assms(1) by simp
  then show ?thesis using assms(2) rd by (cases e) simp_all
qed

lemma seek_then_recorded:
  assumes "set rows \<subseteq> set (nav_rows db)" "recorded_pos db s" "\<And>s'. recorded_pos db s' \<Longrightarrow> recorded_pos db (fst (k s'))"
  shows "recorded_pos db (fst (case seek q i d rows s of (No_Data, s1) \<Rightarrow> k s1 | (Fetch_Error, s1) \<Rightarrow> (s1, f) | (Row _, s1) \<Rightarrow> (s1, h s1)))"
proof -
  obtain e s' where sk: "seek q i d rows s = (e, s')" by fastforce
  then have "recorded_pos db s'" using seek_recorded [OF assms(1,2), of q i d] by simp
  then show ?thesis using assms(3) sk by (cases e) simp_all
qed

lemma process_continue_recorded: "recorded_pos db s \<Longrightarrow> recorded_pos db (fst (process_continue db env req s))"
  unfolding process_continue_def Let_def
  by (intro ready_then_recorded seek_then_recorded rows_recorded) (simp_all add: case_prod_beta set_last_recorded)

lemma process_revcontinue_recorded: "recorded_pos db s \<Longrightarrow> recorded_pos db (fst (process_revcontinue db env req s))"
  unfolding process_revcontinue_def Let_def
  by (intro ready_then_recorded seek_then_recorded rows_recorded) (simp_all add: case_prod_beta set_first_recorded)

lemma stepback_tail_recorded:
  assumes "recorded_pos db s"
  shows "recorded_pos db (fst (case fetch q 0 (take 1 (stepback_rows db s)) of
    Row r \<Rightarrow> (goto_row r s, f r) | No_Data \<Rightarrow> (s, g) | Fetch_Error \<Rightarrow> (s, g)))"
proof (cases "fetch q 0 (take 1 (stepback_rows db s))")
  case (Row r)
  then have "r \<in> set (nav_rows db)" using fetch_row [OF Row] take1_subset [OF rows_recorded(4) [of db s]] by blast
  then show ?thesis using Row recorded_goto [of r db] by simp
qed (use assms in simp_all)

lemma stepping_recorded:
  assumes "recorded_pos db s"
  shows "recorded_pos db (fst (process_next db env req s))" "recorded_pos db (fst (process_stepin db env req s))"
    "recorded_pos db (fst (process_stepout db env req s))" "recorded_pos db (fst (process_stepback db env req s))"
    "recorded_pos db (fst (process_config_done db env req s))"
proof -
  show "recorded_pos db (fst (process_next db env req s))"
    unfolding process_next_def Let_def by (intro ready_then_recorded step_forward_recorded rows_recorded take1_subset assms)
  show "recorded_pos db (fst (process_stepin db env req s))"
    unfolding process_stepin_def Let_def by (intro ready_then_recorded step_forward_recorded rows_recorded assms)
  have "recorded_pos db (fst (case ready c m q s of (Some e, s') \<Rightarrow> (s', g e) | (None, s') \<Rightarrow> step_forward env q' req (take 1 (stepout_rows db s')) s'))"
    for c m q g q' by (intro ready_then_recorded step_forward_recorded rows_recorded take1_subset assms)
  then show "recorded_pos db (fst (process_stepout db env req s))" using assms by (simp add: process_stepout_def Let_def)
  show "recorded_pos db (fst (process_stepback db env req s))"
  proof (cases "cur_step s \<le> 1")
    case False
    then show ?thesis
      unfolding process_stepback_def Let_def if_not_P [OF False] by (intro ready_then_recorded stepback_tail_recorded assms)
  qed (use assms in \<open>simp add: process_stepback_def\<close>)
  show "recorded_pos db (fst (process_config_done db env req s))"
    using process_continue_recorded [OF assms] assms by (simp add: process_config_done_def just_ack_def)
qed

text \<open>The other handlers leave the position alone.\<close>

lemma process_stack_step:
  assumes "process_stack db env req s = Some r"
  shows "cur_step (fst r) = cur_step s"
proof -
  obtain e s' where rd: "ready Stack_Cursor ''Cannot query stack trace'' (xe_query env Stack_Cursor) s = (e, s')" by fastforce
  then show ?thesis
    using assms ready_step [OF rd] by (auto simp: process_stack_def Let_def case_prod_beta split: option.splits if_splits)
qed

lemma add_brs_step: "cur_step (snd (snd (add_brs db q n fid items s))) = cur_step s"
  by (induction db q n fid items s rule: add_brs.induct) (auto simp: Let_def insert_br_def split: prod.splits)

lemma process_breakpoints_step: "cur_step (fst (process_breakpoints db env d req s)) = cur_step s"
proof -
  obtain e s' where rd: "ready Filebypath_Cursor ''Cannot query file'' (xe_query env Filebypath_Cursor) s = (e, s')" by fastforce
  then show ?thesis
    using ready_step [OF rd]
    by (simp add: process_breakpoints_def Let_def case_prod_beta add_brs_step split: option.split fetched.split)
qed

lemma scope_vars_step:
  assumes "scope_vars rx db scope s refs = Some (s', items, refs', e)"
  shows "cur_step s' = cur_step s"
proof -
  obtain e1 s1 where g: "ready Global_Vars_Cursor ''Cannot query next breakpoint'' (xe_query (rx_exam rx) Global_Vars_Cursor) s = (e1, s1)"
    by fastforce
  obtain e2 s2 where l: "ready Local_Vars_Cursor ''Cannot query next breakpoint'' (xe_query (rx_exam rx) Local_Vars_Cursor) s = (e2, s2)"
    by fastforce
  show ?thesis
    using assms ready_step [OF g] ready_step [OF l]
    by (auto simp: scope_vars_def Let_def g l split: option.splits if_splits)
qed

lemma element_vars_step: "element_vars rx db je args r s refs = Some (s', items, refs', e) \<Longrightarrow> s' = s"
  by (auto simp: element_vars_def Let_def case_prod_beta split: if_splits)

lemma process_variables_step:
  "process_variables rx db req s refs = Some (s', refs', st, out) \<Longrightarrow> cur_step s' = cur_step s"
  by (auto simp: process_variables_def Let_def case_prod_beta dest: scope_vars_step element_vars_step split: option.splits if_splits)

text \<open>The response of a request tells whether it succeeded.\<close>

definition accepted :: "json list \<Rightarrow> bool" where
  "accepted out \<longleftrightarrow> (\<exists>rsp evs. out = rsp # evs \<and> json_field rsp ''success'' = Some (Some (JBool True)))"

lemma reply_accepted: "accepted (snd (reply ok req JSON_NEW_OBJ ret e evs)) \<Longrightarrow> ret = SUCCESS"
  by (cases ret) (auto simp: accepted_def reply_def build_response_def Let_def split: option.splits if_splits)

lemma set_first_position:
  assumes "set_first_step d q s = (None, s')"
  shows "recorded_pos d s'"
proof (cases "fetch q 0 [r \<leftarrow> nav_rows d. nr_id r = 1]")
  case (Row r)
  then have "r \<in> set (nav_rows d)" "nr_id r = 1" using fetch_row [OF Row] by simp_all
  moreover have "cur_step s' = 1" using assms Row by (auto simp: set_first_step_def split: if_splits)
  ultimately show ?thesis unfolding recorded_pos_def by (intro bexI [of _ r]) simp_all
qed (use assms in \<open>simp_all add: set_first_step_def split: if_splits\<close>)

lemma launch_open_position:
  assumes "launch_open le env n s = (db, s', SUCCESS, e)"
  shows "\<exists>d. db = Some d \<and> recorded_pos d s'"
proof -
  obtain d e s2 where d: "le_db le n = Some d" "db = Some d" "set_first_step d (xe_first env) (s\<lparr>breakpoints := [], br_seq := 0\<rparr>) = (None, s2)"
    "cur_step s' = cur_step s2"
    using assms by (auto simp: launch_open_def Let_def status_of_def split: option.splits if_splits prod.splits)
  then show ?thesis using set_first_position [OF d(3)] recorded_cong [OF d(4)] by blast
qed

lemma process_launch_position:
  assumes "process_launch le env req s = Some (db, s', st, out)" "accepted out"
  shows "\<exists>d. db = Some d \<and> recorded_pos d s'"
proof -
  have "\<exists>n s1 e. launch_open le env n s1 = (db, s', SUCCESS, e)"
    using assms by (auto simp: process_launch_def Let_def prod_eq_iff dest!: sym [of _ out] reply_accepted
        split: prod.splits option.splits if_splits)
  then show ?thesis using launch_open_position by blast
qed

section \<open>Requests after a launch\<close>

text \<open>The command of a request, when it has one that the examiner knows.\<close>

definition command_of :: "json \<Rightarrow> command option" where
  "command_of req = (case JSON_GET_STRING_FIELD JSON_OK (Some req) ''command'' of
     (JSON_OK, Some name) \<Rightarrow> identify name | _ \<Rightarrow> None)"

lemma process_request_command:
  "process_request rx req x = (case command_of req of
     None \<Rightarrow> Some (x, FAILURE, [])
   | Some cmd \<Rightarrow> map_option (\<lambda>(x', out). (x', if cmd = cmd_disconnect then FAILURE else SUCCESS, out)) (handle rx req cmd x))"
  by (auto simp: process_request_def command_of_def split: prod.splits json_err.splits option.splits)

text \<open>The state after a sequence of requests.\<close>

fun requests_run :: "(req_env \<times> json) list \<Rightarrow> examiner \<Rightarrow> examiner option" where
  "requests_run [] x = Some x"
| "requests_run ((rx, req) # rs) x =
     (case process_request rx req x of None \<Rightarrow> None | Some (x', _, _) \<Rightarrow> requests_run rs x')"

text \<open>No statement is prepared: so it is when a connection starts, and after it, since \<^verbatim>\<open>release_cursors\<close> frees them all.\<close>

definition unprepared :: "examiner \<Rightarrow> bool" where
  "unprepared x \<longleftrightarrow> cursors (ex_session x) = [] \<and> ex_old x = (\<lambda>_. None)"

lemma release_unprepared: "unprepared (release_cursors x)"
  by (simp add: unprepared_def release_cursors_def)

lemma serve_unprepared: "serve rs x = Some (x', outs) \<Longrightarrow> unprepared x'"
  by (induction rs x arbitrary: outs rule: serve.induct) (auto simp: release_unprepared split: option.splits status.splits)

text \<open>The invariant: the position is one of the recording that is open, and every statement is one of its connection.\<close>

definition placed :: "trace \<Rightarrow> examiner \<Rightarrow> bool" where
  "placed db x \<longleftrightarrow> ex_trace x = Some db \<and> ex_old x = (\<lambda>_. None) \<and> recorded_pos db (ex_session x)"

lemma on_session_placed: "placed db x \<Longrightarrow> on_session r x = Some (x', out) \<Longrightarrow> recorded_pos db (fst r) \<Longrightarrow> placed db x'"
  by (auto simp: on_session_def placed_def split: prod.splits)

lemma quiet_handlers:
  "fst (process_threads env req s) = s" "fst (process_scopes env req s) = s" "fst (just_ack env req s) = s"
  by (simp_all add: process_threads_def process_scopes_def just_ack_def Let_def case_prod_beta split: option.split)

text \<open>Every handler but those of \<open>initialize\<close> and \<open>launch\<close> keeps the invariant.\<close>

lemma handle_placed:
  assumes inv: "placed db x" and run: "handle rx req cmd x = Some (x', out)" and "cmd \<noteq> cmd_launch" "cmd \<noteq> cmd_init"
  shows "placed db x'"
proof -
  let ?s = "ex_session x"
  have x: "current rx x = (rx, db)" "ex_old x = (\<lambda>_. None)" "recorded_pos db ?s"
    using inv by (simp_all add: placed_def current_def)
  have move: "on_session r x = Some (x', out) \<Longrightarrow> recorded_pos db (fst r) \<Longrightarrow> placed db x'" for r
    using on_session_placed [OF inv] .
  have keep: "ex_trace x' = ex_trace x \<Longrightarrow> ex_old x' = ex_old x \<Longrightarrow> cur_step (ex_session x') = cur_step ?s \<Longrightarrow> placed db x'"
    using recorded_cong [of "ex_session x'" ?s db] inv by (simp add: placed_def)
  note handlers = quiet_handlers stepping_recorded [OF x(3)]
    process_continue_recorded [OF x(3)] process_revcontinue_recorded [OF x(3)]
  have brk: "recorded_pos db (fst (process_breakpoints db e d req ?s))" for e d
    using recorded_cong [OF process_breakpoints_step] x(3) by blast
  show ?thesis
  proof (cases cmd)
    case cmd_stack
    then obtain r where "process_stack db (rx_exam rx) req ?s = Some r" "on_session r x = Some (x', out)"
      using run x(1,2) by (auto simp: handle_def split: option.splits)
    then show ?thesis using move recorded_cong [OF process_stack_step] x(3) by blast
  next
    case cmd_variables
    then show ?thesis
      using run x(1) by (intro keep) (auto simp: handle_def split: option.splits if_splits dest: process_variables_step)
  next
    case cmd_evaluate
    then show ?thesis using run x(1) by (intro keep) (auto simp: handle_def split: option.splits if_splits)
  qed (use run x assms(3,4) in \<open>auto simp: handle_def handlers brk dest: move split: if_splits\<close>)
qed

lemma requests_placed:
  "placed db x \<Longrightarrow> \<forall>(rx, req) \<in> set rs. command_of req \<notin> {Some cmd_init, Some cmd_launch} \<Longrightarrow> requests_run rs x = Some x' \<Longrightarrow> placed db x'"
proof (induction rs x rule: requests_run.induct)
  case (2 rx req rs x)
  then obtain x1 st out where r: "process_request rx req x = Some (x1, st, out)" "requests_run rs x1 = Some x'"
    by (auto split: option.splits)
  then have "placed db x1"
    using handle_placed [OF "2.prems"(1)] "2.prems" by (auto simp: process_request_command split: option.splits)
  then show ?case using "2.IH" [OF r(1) refl refl] "2.prems" r(2) by simp
qed simp

lemma launch_placed:
  assumes "unprepared x" "command_of req = Some cmd_launch" "process_request rx req x = Some (x1, st, out)" "accepted out"
  shows "\<exists>db. placed db x1"
proof -
  obtain db s' st' where l: "process_launch (rx_launch rx) (rx_exam rx) req (ex_session x) = Some (db, s', st', out)"
    "x1 = (open_trace db x)\<lparr>ex_session := s'\<rparr>"
    using assms(2,3) by (auto simp: process_request_command handle_def Let_def split: option.splits prod.splits)
  then obtain d where "db = Some d" "recorded_pos d s'" using process_launch_position [OF l(1) assms(4)] by blast
  then show ?thesis
    using assms(1) l(2) by (auto simp: placed_def open_trace_def unprepared_def split: option.splits)
qed

text \<open>
  C29. After a \<open>launch\<close> that is answered with success, the current step of the examiner is one of the steps of the recording
  that it opened, whatever the requests after it, up to the next \<open>launch\<close>, an \<open>initialize\<close> (it resets the position) or the
  end of the connection, and whatever the outcomes of the database, the parser and the files.  The \<open>launch\<close> finds no prepared statement, as at the start of every
  connection, from whatever position an earlier connection has left (\<open>release_cursors\<close> keeps it); with statements prepared for
  an earlier recording it does not hold, see \<open>second_launch_leaves_recording\<close>.
\<close>

theorem position_recorded:
  assumes "unprepared x" "command_of req = Some cmd_launch" "process_request rx req x = Some (x1, st, out)" "accepted out"
    and "\<forall>(rx, req) \<in> set rs. command_of req \<notin> {Some cmd_init, Some cmd_launch}" "requests_run rs x1 = Some x2"
  shows "\<exists>db r. ex_trace x1 = Some db \<and> ex_trace x2 = Some db \<and> r \<in> set (nav_rows db) \<and>
    cur_step (ex_session x2) = word_of_int (nr_id r)"
proof -
  obtain db where "placed db x1" using launch_placed [OF assms(1-4)] by blast
  then show ?thesis using requests_placed [OF _ assms(5,6)] by (auto simp: placed_def recorded_pos_def)
qed

text \<open>A connection on which everything outside works, to a recording with one step.\<close>

definition one_step :: trace where
  "one_step = \<lparr>td_step = [sample_step], td_statement = [\<lparr>sta_file_id = 1, sta_line = 5, sta_address = 0, sta_scope_id = 3\<rparr>],
     td_file = [\<lparr>fl_id = 1, fl_name = ''a.c'', fl_path = ''src''\<rparr>], td_function = [\<lparr>fn_id = 1, fn_name = ''main''\<rparr>], td_misc = []\<rparr>"

definition open_launch :: "user_regs launch_env" where
  "open_launch = \<lparr>le_dbginfo = (\<lambda>_. SUCCESS), le_db = (\<lambda>_. Some one_step), le_attach = True, le_table = True, le_index = True,
     le_signal = good_query, le_base = good_query\<rparr>"

definition good_req_env :: req_env where
  "good_req_env = \<lparr>rx_exam = good_env, rx_launch = open_launch, rx_delete = True, rx_loc = loc_ok (\<lambda>_. []) sample_dwarf,
     rx_float = ev_float sample_eval, rx_details = True, rx_get_expr = True, rx_add_expr = True, rx_upd_expr = True,
     rx_parse = (\<lambda>_ _. Inl ''syntax error''), rx_info = (\<lambda>_. \<lparr>ri_db = int_db, ri_vars = [sample_var], ri_ancestor = []\<rparr>)\<rparr>"

definition fresh :: examiner where
  "fresh = \<lparr>ex_session = sample_session\<lparr>cur_step := 0\<rparr>, ex_trace = None, ex_old = (\<lambda>_. None), ex_relaunched = False,
     ex_refs = no_refs, ex_exprs = no_exprs\<rparr>"

definition launch_request :: json where
  "launch_request = JObj [(''command'', Some (JStr ''launch'')), (''seq'', Some (JInt 2)),
     (''arguments'', Some (JObj [(''program'', Some (JStr ''a.out'')), (''sourcePath'', Some (JStr ''/p''))]))]"

lemma launch_opens:
  "\<exists>x out. process_request good_req_env launch_request fresh = Some (x, SUCCESS, out) \<and> cur_step (ex_session x) = 1 \<and>
     ex_trace x = Some one_step \<and> accepted out"
  by (simp add: process_request_def launch_request_def identify_def commands_def handle_def current_def fresh_def
      good_req_env_def open_trace_def process_launch_def open_launch_def launch_open_def set_first_step_def fetch_def nav_rows_def joined_def
      one_step_def sample_step_def nav_row_of_def good_query_def get_field_def JSON_GET_OBJ_def JSON_GET_STRING_FIELD_def
      JSON_GET_BOOL_FIELD_def reply_def accepted_def build_response_def status_of_def JSON_NEW_OBJ_def json_add_def Let_def case_prod_beta)

definition next_request :: json where
  "next_request = JObj [(''command'', Some (JStr ''next'')), (''seq'', Some (JInt 3))]"

lemma known_requests: "command_of launch_request = Some cmd_launch" "command_of next_request = Some cmd_next"
  by (simp_all add: command_of_def launch_request_def next_request_def JSON_GET_STRING_FIELD_def get_field_def
      identify_def commands_def)

theorem position_recorded_witness:
  "\<exists>x1 x2 out db r. process_request good_req_env launch_request fresh = Some (x1, SUCCESS, out) \<and>
     requests_run [(good_req_env, next_request)] x1 = Some x2 \<and>
     ex_trace x1 = Some db \<and> ex_trace x2 = Some db \<and> r \<in> set (nav_rows db) \<and> cur_step (ex_session x2) = word_of_int (nr_id r)"
proof -
  obtain x1 out where x: "process_request good_req_env launch_request fresh = Some (x1, SUCCESS, out)" "accepted out"
    using launch_opens by blast
  obtain x2 where r: "requests_run [(good_req_env, next_request)] x1 = Some x2"
    by (cases "process_next (case ex_old x1 Next_Cursor of None \<Rightarrow> snd (current good_req_env x1) | Some old \<Rightarrow> old)
        (rx_exam (fst (current good_req_env x1))) next_request (ex_session x1)")
      (simp add: process_request_command known_requests handle_def on_session_def case_prod_beta Let_def)
  have "unprepared fresh" by (simp add: unprepared_def fresh_def sample_session_def)
  from position_recorded [OF this known_requests(1) x _ r] show ?thesis using x(1) r known_requests by auto
qed

text \<open>
  A second \<open>launch\<close> on a connection on which \<open>next\<close> was used: the statement of \<open>next\<close> stays on the first recording, here one
  with two steps, so that the next \<open>next\<close> leads to its second step, which the second recording does not have.
\<close>

definition two_steps :: trace where
  "two_steps = one_step\<lparr>td_step := [sample_step, sample_step\<lparr>st_id := 2, st_address := 4\<rparr>],
     td_statement := [\<lparr>sta_file_id = 1, sta_line = 5, sta_address = 0, sta_scope_id = 3\<rparr>,
       \<lparr>sta_file_id = 1, sta_line = 6, sta_address = 4, sta_scope_id = 3\<rparr>]\<rparr>"

definition first_env :: req_env where
  "first_env = good_req_env\<lparr>rx_launch := open_launch\<lparr>le_db := (\<lambda>_. Some two_steps)\<rparr>\<rparr>"

theorem second_launch_leaves_recording:
  "\<exists>x. requests_run [(first_env, launch_request), (first_env, next_request), (good_req_env, launch_request),
       (good_req_env, next_request)] fresh = Some x \<and>
     ex_trace x = Some one_step \<and> cur_step (ex_session x) = 2 \<and> (\<forall>r \<in> set (nav_rows one_step). word_of_int (nr_id r) \<noteq> (2 :: u64))"
proof -
  let ?rs = "[(first_env, launch_request), (first_env, next_request), (good_req_env, launch_request), (good_req_env, next_request)]"
  have "map_option (\<lambda>x. (cur_step (ex_session x), ex_trace x)) (requests_run ?rs fresh) = Some (2, Some one_step)" by code_simp
  moreover have "\<forall>r \<in> set (nav_rows one_step). word_of_int (nr_id r) \<noteq> (2 :: u64)" by code_simp
  ultimately show ?thesis by auto
qed

section \<open>The messages of a connection\<close>

text \<open>What a request gets, and whether the connection goes on after it.\<close>

definition answered :: "json option \<Rightarrow> json list \<Rightarrow> bool" where
  "answered r out \<longleftrightarrow> (\<exists>req. r = Some req \<and> (if command_of req = None then out = [] else answers req out))"

definition goes_on :: "json option \<Rightarrow> bool" where
  "goes_on r \<longleftrightarrow> (\<exists>req cmd. r = Some req \<and> command_of req = Some cmd \<and> cmd \<noteq> cmd_disconnect)"

lemma process_request_answered:
  assumes "process_request rx req x = Some (x', st, out)"
  shows "answered (Some req) out" "st = SUCCESS \<longleftrightarrow> goes_on (Some req)"
  using assms handle_answers
  by (auto simp: process_request_command answered_def goes_on_def split: option.splits if_splits)

text \<open>
  C28. On a connection every request that names a known command gets exactly one response, first of the messages for it
  and repeating its command and sequence number, and then only events; the examiner takes the requests in order until the
  connection closes, a message is not JSON or names no known command (no answer), or a \<open>disconnect\<close> was answered.
\<close>

theorem one_response:
  assumes "serve rs x = Some (x', outs)"
  shows "length outs \<le> length rs \<and>
    (\<forall>i < length outs. answered (snd (rs ! i)) (outs ! i) \<and> (Suc i < length outs \<longrightarrow> goes_on (snd (rs ! i)))) \<and>
    (length outs < length rs \<longrightarrow>
       snd (rs ! length outs) = None \<or> outs \<noteq> [] \<and> \<not> goes_on (snd (rs ! (length outs - 1))))"
  using assms
proof (induction rs x arbitrary: x' outs rule: serve.induct)
  case (3 rx req rs x)
  then obtain x1 st out where r: "process_request rx req x = Some (x1, st, out)"
    by (auto split: option.splits)
  note answer = process_request_answered [OF r]
  show ?case
  proof (cases st)
    case FAILURE
    then show ?thesis using "3.prems" r answer by auto
  next
    case SUCCESS
    then obtain outs' where o: "serve rs x1 = Some (x', outs')" "outs = out # outs'"
      using "3.prems" r by auto
    have go: "goes_on (Some req)" using answer(2) SUCCESS by simp
    note IH = "3.IH" [OF r refl refl SUCCESS o(1)]
    show ?thesis
      using IH answer(1) go o(2) by (cases outs') (auto simp: nth_Cons split: nat.splits)
  qed
qed auto

definition disconnect_request :: json where
  "disconnect_request = JObj [(''command'', Some (JStr ''disconnect'')), (''seq'', Some (JInt 3))]"

theorem one_response_witness:
  "\<exists>x' outs. serve [(good_req_env, Some launch_request), (good_req_env, Some disconnect_request), (good_req_env, None)] fresh =
       Some (x', outs) \<and> length outs = 2 \<and> answers launch_request (outs ! 0) \<and> answers disconnect_request (outs ! 1)"
proof -
  let ?rs = "[(good_req_env, Some launch_request), (good_req_env, Some disconnect_request), (good_req_env, None)]"
  obtain x out where x: "process_request good_req_env launch_request fresh = Some (x, SUCCESS, out)" using launch_opens by blast
  have known: "command_of launch_request = Some cmd_launch" "command_of disconnect_request = Some cmd_disconnect"
    using known_requests(1) by (simp_all add: command_of_def disconnect_request_def JSON_GET_STRING_FIELD_def get_field_def
        identify_def commands_def)
  then obtain x2 out2 where "process_request good_req_env disconnect_request x = Some (x2, FAILURE, out2)"
    by (simp add: process_request_command handle_def on_session_def case_prod_beta Let_def)
  then have s: "serve ?rs fresh = Some (release_cursors x2, [out, out2])" using x by simp
  have "\<forall>i < 2. answered (snd (?rs ! i)) ([out, out2] ! i)" using one_response [OF s] by simp
  then have "answered (Some launch_request) out" "answered (Some disconnect_request) out2" by (auto simp: less_2_cases_iff)
  then show ?thesis using s known by (auto simp: answered_def)
qed


section \<open>Variables of nested scopes\<close>

text \<open>
  A variable of the scope itself matches every row of its ancestors, so in a scope nested in \<open>n\<close> others it is listed \<open>n\<close>
  times by the request \<open>variables\<close>; a variable of an ancestor matches one.
\<close>

lemma count_concat_map_other: "(\<forall>w \<in> set ws. w \<noteq> v) \<Longrightarrow> (\<forall>w x. x \<in> set (f w) \<longrightarrow> x = w) \<Longrightarrow> count_list (concat (map f ws)) v = 0"
  by (induction ws) (force simp: count_list_0_iff)+

lemma count_concat_map:
  assumes "distinct ws" "v \<in> set ws" "\<forall>w x. x \<in> set (f w) \<longrightarrow> x = w"
  shows "count_list (concat (map f ws)) v = length (f v)"
  using assms
proof (induction ws)
  case (Cons w ws)
  have other: "w \<noteq> v \<Longrightarrow> count_list (f w) v = 0" using Cons.prems(3) by (auto simp: count_list_0_iff)
  have same: "\<forall>x \<in> set xs. x = v \<Longrightarrow> count_list xs v = length xs" for xs by (induction xs) auto
  show ?case
  proof (cases "w = v")
    case True
    then show ?thesis using Cons.prems same [of "f v"] count_concat_map_other [of ws v f] by auto
  next
    case False
    then show ?thesis using Cons other by simp
  qed
qed simp

theorem nested_scope_duplicates:
  assumes "distinct (ri_vars ri)" "v \<in> set (ri_vars ri)" "vr_scope_id v = sint scope" "scope \<noteq> GLOBAL_SCOPE"
  shows "count_list (local_var_rows ri scope) v = length [p \<leftarrow> ri_ancestor ri. fst p = sint scope]"
proof -
  let ?f = "\<lambda>w. concat (map (\<lambda>(i, anc). if (vr_scope_id w = anc \<or> vr_scope_id w = sint scope) \<and> i = sint scope \<and>
    vr_scope_id w \<noteq> sint GLOBAL_SCOPE then [w] else []) (ri_ancestor ri))"
  have "count_list (local_var_rows ri scope) v = length (?f v)"
    unfolding local_var_rows_def using assms(1,2) by (intro count_concat_map) (auto split: if_splits)
  also have "length (?f v) = length [p \<leftarrow> ri_ancestor ri. fst p = sint scope]"
  proof -
    have "sint scope \<noteq> sint GLOBAL_SCOPE" using assms(4) signed_word_eqI by blast
    then have "?f v = concat (map (\<lambda>p. if fst p = sint scope then [v] else []) (ri_ancestor ri))"
      using assms(3) by (intro arg_cong [where f = concat] map_cong) auto
    moreover have "length (concat (map (\<lambda>p. if Q p then [v] else []) ps)) = length (filter Q ps)"
      for Q and ps :: "(int \<times> int) list" by (induction ps) simp_all
    ultimately show ?thesis by simp
  qed
  finally show ?thesis .
qed

theorem nested_scope_duplicates_witness:
  "count_list (local_var_rows \<lparr>ri_db = int_db, ri_vars = [sample_var], ri_ancestor = [(3, 2), (3, 0), (2, 0)]\<rparr> 3) sample_var = 2"
  using nested_scope_duplicates [of "\<lparr>ri_db = int_db, ri_vars = [sample_var], ri_ancestor = [(3, 2), (3, 0), (2, 0)]\<rparr>" sample_var 3]
  by (simp add: sample_var_def GLOBAL_SCOPE_def)

end
