(* ===== verification/Stingray.thy ===== *)
theory Stingray
  imports Comms
begin

text \<open>
  Managed strings, \<^verbatim>\<open>stingray/stingray.c\<close> and the macros of \<^verbatim>\<open>stingray/sr_internal.h\<close>: a string with its
  allocated size and its length, which grows on demand.  The buffer is a list of bytes, \<open>None\<close> where it was never
  written.  A call ends with a value, with \<^verbatim>\<open>_exit\<close> when memory runs out, or undefined: a write beyond the buffer,
  a read of unwritten or freed memory.  \<open>alloc n\<close> says whether \<^verbatim>\<open>malloc\<close> or \<^verbatim>\<open>realloc\<close> gives \<open>n\<close> bytes.  A managed
  string that is appended to itself is the source \<open>Self\<close>; the arguments of \<^verbatim>\<open>CONCAT\<close> are other strings than the target.
\<close>

section \<open>Strings in memory\<close>

datatype 'a sr_result = Ok 'a | Exit_Failure | Undefined

abbreviation NUL :: char where "NUL \<equiv> CHR 0x00"

type_synonym memory = "char option list"

record sr =
  sr_val :: memory
  sr_size :: u64
  sr_len :: u64

fun strlen :: "memory \<Rightarrow> nat option" where
  "strlen [] = None"
| "strlen (None # cs) = None"
| "strlen (Some c # cs) = (if c = NUL then Some 0 else map_option Suc (strlen cs))"

text \<open>What \<^verbatim>\<open>strncpy\<close> writes: the bytes up to the zero, and zeros up to \<open>n\<close>.\<close>

fun strncpy :: "memory \<Rightarrow> nat \<Rightarrow> string option" where
  "strncpy mem 0 = Some []"
| "strncpy [] (Suc n) = None"
| "strncpy (None # cs) (Suc n) = None"
| "strncpy (Some c # cs) (Suc n) = (if c = NUL then Some (replicate (Suc n) NUL) else map_option (Cons c) (strncpy cs n))"

text \<open>The bytes \<open>bs\<close> and a zero written at \<open>off\<close>, inside the buffer.\<close>

definition put_string :: "memory \<Rightarrow> nat \<Rightarrow> string \<Rightarrow> memory option" where
  "put_string buf off bs =
     (if off + length bs < length buf then Some (overwrite buf off (map Some (bs @ [NUL]))) else None)"

section \<open>Creation and growth\<close>

definition EXTEND :: u64 where "EXTEND = 64"

text \<open>\<open>Ok None\<close> is \<^verbatim>\<open>NULL\<close>; 24 bytes are the size of \<^verbatim>\<open>struct sr\<close>.\<close>

definition sr_new :: "(nat \<Rightarrow> bool) \<Rightarrow> memory \<Rightarrow> u64 \<Rightarrow> sr option sr_result" where
  "sr_new alloc initval initsize =
     (case strlen initval of
        None \<Rightarrow> Undefined
      | Some n \<Rightarrow>
          let len = word_of_nat n;
              size1 = (if initsize \<le> len then len + 1 else initsize);
              size2 = (if size1 < EXTEND then EXTEND else size1)
          in if \<not> alloc 24 \<or> \<not> alloc (unat size2) then Ok None
             else if unat size2 \<le> n then Undefined
             else Ok (Some \<lparr>sr_val = overwrite (replicate (unat size2) None) 0 (take (Suc n) initval), sr_size = size2, sr_len = len\<rparr>))"

definition sr_ensure_size :: "(nat \<Rightarrow> bool) \<Rightarrow> sr \<Rightarrow> u64 \<Rightarrow> u64 \<Rightarrow> sr sr_result" where
  "sr_ensure_size alloc str minsize grow =
     (if sr_size str < minsize
      then let m = (if minsize < sr_size str + grow then sr_size str + grow else minsize)
           in if alloc (unat m)
              then Ok (str\<lparr>sr_val := sr_val str @ replicate (unat m - length (sr_val str)) None, sr_size := m\<rparr>)
              else Exit_Failure
      else Ok str)"

section \<open>Copying and appending\<close>

datatype source = Native memory | Managed sr | Self

text \<open>The number of bytes to copy; \<open>-1\<close> is \<^verbatim>\<open>SIZE_MAX\<close>.\<close>

fun source_len :: "sr \<Rightarrow> source \<Rightarrow> u64 \<Rightarrow> u64 option" where
  "source_len dest (Native mem) m = (if m = - 1 then map_option word_of_nat (strlen mem) else Some m)"
| "source_len dest (Managed s) m = Some (min (sr_len s) m)"
| "source_len dest Self m = Some (min (sr_len dest) m)"

text \<open>
  The memory of the source.  Its address is taken before the target grows, so the target itself is freed memory once
  it was reallocated.
\<close>

fun source_mem :: "sr \<Rightarrow> bool \<Rightarrow> source \<Rightarrow> memory" where
  "source_mem dest grown (Native mem) = mem"
| "source_mem dest grown (Managed s) = sr_val s"
| "source_mem dest grown Self = (if grown then [] else sr_val dest)"

text \<open>Copying a string onto itself is undefined, as \<^verbatim>\<open>strncpy\<close> must not be given overlapping strings.\<close>

definition sr_copy :: "(nat \<Rightarrow> bool) \<Rightarrow> sr \<Rightarrow> source \<Rightarrow> u64 \<Rightarrow> sr sr_result" where
  "sr_copy alloc dest src m =
     (case source_len dest src m of
        None \<Rightarrow> Undefined
      | Some len \<Rightarrow>
          (case sr_ensure_size alloc dest (len + 1) EXTEND of
             Ok d \<Rightarrow>
               if src = Self \<and> len \<noteq> 0 then Undefined
               else (case strncpy (source_mem dest (sr_size dest < len + 1) src) (unat len) of
                       None \<Rightarrow> Undefined
                     | Some bs \<Rightarrow>
                         (case put_string (sr_val d) 0 bs of
                            None \<Rightarrow> Undefined
                          | Some v \<Rightarrow> Ok (d\<lparr>sr_val := v, sr_len := len\<rparr>)))
           | r \<Rightarrow> r))"

definition sr_cat :: "(nat \<Rightarrow> bool) \<Rightarrow> sr \<Rightarrow> source \<Rightarrow> u64 \<Rightarrow> sr sr_result" where
  "sr_cat alloc dest src m =
     (case source_len dest src m of
        None \<Rightarrow> Undefined
      | Some len \<Rightarrow>
          let minsize = sr_len dest + len + 1
          in (case sr_ensure_size alloc dest minsize EXTEND of
                Ok d \<Rightarrow>
                  (case strncpy (source_mem dest (sr_size dest < minsize) src) (unat len) of
                     None \<Rightarrow> Undefined
                   | Some bs \<Rightarrow>
                       (case put_string (sr_val d) (unat (sr_len dest)) bs of
                          None \<Rightarrow> Undefined
                        | Some v \<Rightarrow> Ok (d\<lparr>sr_val := v, sr_len := sr_len dest + len\<rparr>)))
              | r \<Rightarrow> r))"

section \<open>\<open>CONCAT\<close>\<close>

text \<open>
  The arguments by their \<^verbatim>\<open>GEN_DATATYPE\<close>; a double is given with the text that \<^verbatim>\<open>%lf\<close> prints for it.
\<close>

datatype arg = GEN_INT "32 word" | GEN_SHRT "16 word" | GEN_CHR char | GEN_UCHR char | GEN_UINT "32 word" | GEN_USHRT "16 word"
  | GEN_LNG u64 | GEN_ULNG u64 | GEN_LLNG u64 | GEN_ULLNG u64 | GEN_STR memory | GEN_USTR memory | GEN_SR sr
  | GEN_FLT string | GEN_DBL string

text \<open>\<^verbatim>\<open>sizeof\<close> of the spelling of a limit, as gcc has it.\<close>

definition SIZE :: "string \<Rightarrow> nat" where
  "SIZE spelling = Suc (length spelling)"

fun arg_size :: "arg \<Rightarrow> nat option" where
  "arg_size (GEN_INT _) = Some (SIZE ''0x7fffffff'')"
| "arg_size (GEN_SHRT _) = Some (SIZE ''0x7fff'')"
| "arg_size (GEN_CHR _) = Some 1"
| "arg_size (GEN_UCHR _) = Some 1"
| "arg_size (GEN_UINT _) = Some (SIZE ''(0x7fffffff * 2U + 1U)'')"
| "arg_size (GEN_USHRT _) = Some (SIZE ''(0x7fff * 2 + 1)'')"
| "arg_size (GEN_LNG _) = Some (SIZE ''0x7fffffffffffffffL'')"
| "arg_size (GEN_ULNG _) = Some (SIZE ''(0x7fffffffffffffffL * 2UL + 1UL)'')"
| "arg_size (GEN_LLNG _) = Some (SIZE ''0x7fffffffffffffffLL'')"
| "arg_size (GEN_ULLNG _) = Some (SIZE ''(0x7fffffffffffffffLL * 2ULL + 1ULL)'')"
| "arg_size (GEN_STR mem) = strlen mem"
| "arg_size (GEN_USTR mem) = strlen mem"
| "arg_size (GEN_SR s) = Some (unat (sr_len s))"
| "arg_size (GEN_FLT t) = Some (length t)"
| "arg_size (GEN_DBL t) = Some (length t)"

definition FMT_COMMON :: string where "FMT_COMMON = ''%.0s%''"

fun arg_format :: "arg \<Rightarrow> string" where
  "arg_format (GEN_INT _) = FMT_COMMON @ ''d''"
| "arg_format (GEN_SHRT _) = FMT_COMMON @ ''d''"
| "arg_format (GEN_CHR _) = FMT_COMMON @ ''c''"
| "arg_format (GEN_UCHR _) = FMT_COMMON @ ''c''"
| "arg_format (GEN_UINT _) = FMT_COMMON @ ''u''"
| "arg_format (GEN_USHRT _) = FMT_COMMON @ ''u''"
| "arg_format (GEN_LNG _) = FMT_COMMON @ ''ld''"
| "arg_format (GEN_ULNG _) = FMT_COMMON @ ''lu''"
| "arg_format (GEN_LLNG _) = FMT_COMMON @ ''lld''"
| "arg_format (GEN_ULLNG _) = FMT_COMMON @ ''llu''"
| "arg_format (GEN_STR _) = FMT_COMMON @ ''s''"
| "arg_format (GEN_USTR _) = FMT_COMMON @ ''s''"
| "arg_format (GEN_SR _) = FMT_COMMON @ ''S''"
| "arg_format (GEN_FLT _) = FMT_COMMON @ ''lf''"
| "arg_format (GEN_DBL _) = FMT_COMMON @ ''lf''"

definition c_chars :: "memory \<Rightarrow> string option" where
  "c_chars mem = map_option (\<lambda>n. map the (take n mem)) (strlen mem)"

text \<open>
  The handler of \<^verbatim>\<open>%S\<close>: nothing for an empty string, the zero-terminated string otherwise.  It reports the length of the
  managed string, so that the result of \<^verbatim>\<open>vsprintf\<close> is not that of the text when they differ; that is undefined here.
\<close>

definition print_sr :: "sr \<Rightarrow> string option" where
  "print_sr s = (if sr_len s = 0 then Some []
     else case c_chars (sr_val s) of
       None \<Rightarrow> None
     | Some t \<Rightarrow> if length t = unat (sr_len s) then Some t else None)"

text \<open>The loop over the arguments: the format so far, in its buffer of 128 bytes, and the length needed.\<close>

fun concat_loop :: "arg list \<Rightarrow> string \<Rightarrow> u64 \<Rightarrow> (string \<times> u64) option" where
  "concat_loop [] format len = Some (format, len)"
| "concat_loop (a # args) format len =
     (case arg_size a of
        None \<Rightarrow> None
      | Some n \<Rightarrow>
          if 128 \<le> length format + length (arg_format a) then None
          else concat_loop args (format @ arg_format a) (len + word_of_nat n))"

text \<open>
  The argument list of \<^verbatim>\<open>sr_concat\<close>: for every argument its type and its value, as they are promoted in a call with a variable
  number of arguments.
\<close>

datatype vararg = VA_INT "32 word" | VA_LONG u64 | VA_STR memory | VA_SR sr | VA_DOUBLE string

fun gen_datatype :: "arg \<Rightarrow> 32 word" where
  "gen_datatype (GEN_INT _) = 1" | "gen_datatype (GEN_UINT _) = 2" | "gen_datatype (GEN_SHRT _) = 3"
| "gen_datatype (GEN_USHRT _) = 4" | "gen_datatype (GEN_LNG _) = 5" | "gen_datatype (GEN_ULNG _) = 6"
| "gen_datatype (GEN_LLNG _) = 7" | "gen_datatype (GEN_ULLNG _) = 8" | "gen_datatype (GEN_CHR _) = 9"
| "gen_datatype (GEN_UCHR _) = 10" | "gen_datatype (GEN_STR _) = 11" | "gen_datatype (GEN_USTR _) = 12"
| "gen_datatype (GEN_FLT _) = 13" | "gen_datatype (GEN_DBL _) = 14" | "gen_datatype (GEN_SR _) = 15"

definition char_byte :: "char \<Rightarrow> byte" where
  "char_byte c = word_of_nat (of_char c)"

fun promoted :: "arg \<Rightarrow> vararg" where
  "promoted (GEN_INT w) = VA_INT w"
| "promoted (GEN_SHRT w) = VA_INT (scast w)"
| "promoted (GEN_CHR c) = VA_INT (scast (char_byte c))"
| "promoted (GEN_UCHR c) = VA_INT (ucast (char_byte c))"
| "promoted (GEN_UINT w) = VA_INT w"
| "promoted (GEN_USHRT w) = VA_INT (ucast w)"
| "promoted (GEN_LNG w) = VA_LONG w"
| "promoted (GEN_ULNG w) = VA_LONG w"
| "promoted (GEN_LLNG w) = VA_LONG w"
| "promoted (GEN_ULLNG w) = VA_LONG w"
| "promoted (GEN_STR mem) = VA_STR mem"
| "promoted (GEN_USTR mem) = VA_STR mem"
| "promoted (GEN_SR s) = VA_SR s"
| "promoted (GEN_FLT t) = VA_DOUBLE t"
| "promoted (GEN_DBL t) = VA_DOUBLE t"

definition va_list :: "arg list \<Rightarrow> vararg list" where
  "va_list args = concat (map (\<lambda>a. [VA_INT (gen_datatype a), promoted a]) args)"

text \<open>
  The conversions of \<^verbatim>\<open>printf\<close> for one argument: \<open>None\<close> when the argument is not of the type that the conversion asks for, which
  is undefined.  A string with precision zero consumes its argument, of any type, and prints nothing.
\<close>

fun conv_d :: "vararg \<Rightarrow> string option" where
  "conv_d (VA_INT w) = Some (dec_of_int (sint w))" | "conv_d _ = None"

fun conv_u :: "vararg \<Rightarrow> string option" where
  "conv_u (VA_INT w) = Some (dec_of_nat (unat w))" | "conv_u _ = None"

fun conv_c :: "vararg \<Rightarrow> string option" where
  "conv_c (VA_INT w) = Some [char_of (unat (ucast w :: byte))]" | "conv_c _ = None"

fun conv_ld :: "vararg \<Rightarrow> string option" where
  "conv_ld (VA_LONG w) = Some (dec_of_int (sint w))" | "conv_ld _ = None"

fun conv_lu :: "vararg \<Rightarrow> string option" where
  "conv_lu (VA_LONG w) = Some (dec_of_nat (unat w))" | "conv_lu _ = None"

fun conv_s :: "vararg \<Rightarrow> string option" where
  "conv_s (VA_STR mem) = c_chars mem" | "conv_s _ = None"

fun conv_S :: "vararg \<Rightarrow> string option" where
  "conv_S (VA_SR s) = print_sr s" | "conv_S _ = None"

fun conv_lf :: "vararg \<Rightarrow> string option" where
  "conv_lf (VA_DOUBLE t) = Some t" | "conv_lf _ = None"

text \<open>The conversion after a percent sign, with the number of characters that it takes.\<close>

definition conversions :: "(string \<times> (vararg \<Rightarrow> string option)) list" where
  "conversions = [(''.0s'', \<lambda>_. Some []), (''d'', conv_d), (''u'', conv_u), (''c'', conv_c), (''ld'', conv_ld), (''lu'', conv_lu),
     (''lld'', conv_ld), (''llu'', conv_lu), (''s'', conv_s), (''S'', conv_S), (''lf'', conv_lf)]"

definition conversion :: "string \<Rightarrow> (string \<times> (vararg \<Rightarrow> string option)) option" where
  "conversion format = find (\<lambda>(spec, conv). take (length spec) format = spec) conversions"

text \<open>What \<^verbatim>\<open>vsprintf\<close> prints for a format and a list of arguments.\<close>

function vsprintf :: "string \<Rightarrow> vararg list \<Rightarrow> string option" where
  "vsprintf [] vs = Some []"
| "vsprintf (c # cs) vs =
     (if c \<noteq> CHR ''%'' then map_option (Cons c) (vsprintf cs vs)
      else case (conversion cs, vs) of
        (Some (spec, conv), v # vs') \<Rightarrow>
          (case (conv v, vsprintf (drop (length spec) cs) vs') of
             (Some t, Some ts) \<Rightarrow> Some (t @ ts)
           | _ \<Rightarrow> None)
      | _ \<Rightarrow> None)"
  by pat_completeness auto
termination by (relation "measure (\<lambda>(f, vs). length f)") auto

definition sr_concat :: "(nat \<Rightarrow> bool) \<Rightarrow> sr \<Rightarrow> arg list \<Rightarrow> sr sr_result" where
  "sr_concat alloc dest args =
     (case concat_loop args [] 0 of
        None \<Rightarrow> Undefined
      | Some (format, len) \<Rightarrow>
          (case sr_ensure_size alloc dest (sr_len dest + len + 1) EXTEND of
             Ok d \<Rightarrow>
               (case vsprintf format (va_list args) of
                  None \<Rightarrow> Undefined
                | Some t \<Rightarrow>
                    (case put_string (sr_val d) (unat (sr_len d)) t of
                       None \<Rightarrow> Undefined
                     | Some v \<Rightarrow> Ok (d\<lparr>sr_val := v, sr_len := sr_len d + word_of_nat (length t)\<rparr>)))
           | r \<Rightarrow> r))"

section \<open>Macros\<close>

definition STRCLEAR :: "sr \<Rightarrow> sr sr_result" where
  "STRCLEAR s = (if sr_val s = [] then Undefined else Ok (s\<lparr>sr_val := (sr_val s)[0 := Some NUL], sr_len := 0\<rparr>))"

definition SETLEN :: "sr \<Rightarrow> u64 \<Rightarrow> sr" where
  "SETLEN s n = s\<lparr>sr_len := n\<rparr>"

text \<open>\<^verbatim>\<open>_SPRINTF\<close> of a format and arguments that print as \<open>t\<close>.\<close>

definition SPRINTF :: "(nat \<Rightarrow> bool) \<Rightarrow> sr \<Rightarrow> string \<Rightarrow> sr sr_result" where
  "SPRINTF alloc s t =
     (case sr_ensure_size alloc s (word_of_nat (length t) + 1) 0 of
        Ok d \<Rightarrow>
          (case put_string (sr_val d) 0 t of
             None \<Rightarrow> Undefined
           | Some v \<Rightarrow> Ok (d\<lparr>sr_val := v, sr_len := word_of_nat (length t)\<rparr>))
      | r \<Rightarrow> r)"

definition isspace :: "char \<Rightarrow> bool" where
  "isspace c \<longleftrightarrow> c \<in> {CHR 0x09, CHR 0x0A, CHR 0x0B, CHR 0x0C, CHR 0x0D, CHR 0x20}"

text \<open>At length 0 the loop of \<^verbatim>\<open>_RTRIM\<close> reads before the buffer.\<close>

fun rtrim_loop :: "memory \<Rightarrow> nat \<Rightarrow> nat option" where
  "rtrim_loop val 0 = None"
| "rtrim_loop val (Suc n) =
     (if n < length val
      then (case val ! n of None \<Rightarrow> None | Some c \<Rightarrow> if isspace c then rtrim_loop val n else Some (Suc n))
      else None)"

definition RTRIM :: "sr \<Rightarrow> sr sr_result" where
  "RTRIM s = (case rtrim_loop (sr_val s) (unat (sr_len s)) of
     None \<Rightarrow> Undefined
   | Some n \<Rightarrow> if n < length (sr_val s) then Ok (s\<lparr>sr_val := (sr_val s)[n := Some NUL], sr_len := word_of_nat n\<rparr>) else Undefined)"

definition sr_strdup :: "(nat \<Rightarrow> bool) \<Rightarrow> sr \<Rightarrow> sr option sr_result" where
  "sr_strdup alloc s = sr_new alloc (sr_val s) 0"

section \<open>What a managed string holds\<close>

text \<open>
  The invariant: the buffer has the recorded size, its length is that of the text \<open>t\<close>, and it holds the text and a zero.
\<close>

definition sr_holds :: "sr \<Rightarrow> string \<Rightarrow> bool" where
  "sr_holds s t \<longleftrightarrow> length (sr_val s) = unat (sr_size s) \<and> unat (sr_len s) = length t \<and> NUL \<notin> set t \<and>
     length t < unat (sr_size s) \<and> take (Suc (length t)) (sr_val s) = map Some (t @ [NUL])"

text \<open>A C string \<open>t\<close> in memory.\<close>

definition c_string_at :: "memory \<Rightarrow> string \<Rightarrow> bool" where
  "c_string_at mem t \<longleftrightarrow> NUL \<notin> set t \<and> take (Suc (length t)) mem = map Some (t @ [NUL])"

definition c_memory :: "string \<Rightarrow> memory" where
  "c_memory t = map Some (t @ [NUL])"

lemma c_memory_string [simp]: "NUL \<notin> set t \<Longrightarrow> c_string_at (c_memory t) t"
  by (simp add: c_memory_def c_string_at_def)

lemma holds_c_string: "sr_holds s t \<Longrightarrow> c_string_at (sr_val s) t"
  by (simp add: sr_holds_def c_string_at_def)

lemma c_string_cases:
  assumes "c_string_at mem t"
  obtains rest where "mem = map Some t @ Some NUL # rest" "NUL \<notin> set t"
  using assms append_take_drop_id [of "Suc (length t)" mem] unfolding c_string_at_def
  by (metis append.assoc append_Cons append_Nil list.simps(9) map_append list.map_disc_iff)

lemma strlen_append: "NUL \<notin> set t \<Longrightarrow> strlen (map Some t @ Some NUL # rest) = Some (length t)"
  by (induction t) auto

lemma strlen_string: "c_string_at mem t \<Longrightarrow> strlen mem = Some (length t)"
  by (elim c_string_cases) (simp add: strlen_append)

lemma strncpy_append: "NUL \<notin> set t \<Longrightarrow> n \<le> length t \<Longrightarrow> strncpy (map Some t @ rest) n = Some (take n t)"
proof (induction t arbitrary: n)
  case (Cons c t)
  then show ?case by (cases n) auto
qed simp

lemma strncpy_string: "c_string_at mem t \<Longrightarrow> n \<le> length t \<Longrightarrow> strncpy mem n = Some (take n t)"
  by (elim c_string_cases) (simp add: strncpy_append)

lemma c_chars_string: "c_string_at mem t \<Longrightarrow> c_chars mem = Some t"
  by (elim c_string_cases) (simp add: c_chars_def strlen_append comp_def)


section \<open>Every operation keeps the invariant\<close>

text \<open>The sources from which \<open>u\<close> is copied when at most \<open>m\<close> bytes are asked for.\<close>

fun source_text :: "source \<Rightarrow> u64 \<Rightarrow> string \<Rightarrow> bool" where
  "source_text (Native mem) m u \<longleftrightarrow> NUL \<notin> set u \<and> length u < 2 ^ 64 \<and>
     (if m = - 1 then c_string_at mem u else unat m = length u \<and> take (length u) mem = map Some u)"
| "source_text (Managed s) m u \<longleftrightarrow> (\<exists>t. sr_holds s t \<and> u = take (unat m) t)"
| "source_text Self m u \<longleftrightarrow> False"

lemma length_word: "n < 2 ^ 64 \<Longrightarrow> unat (word_of_nat n :: u64) = n"
  by (simp add: unat_of_nat take_bit_nat_eq_self)

lemma word_of_unat: "unat w = n \<Longrightarrow> w = (word_of_nat n :: u64)"
  by auto

lemma size_bound: "unat (w :: u64) < 2 ^ 64"
  using unsigned_less [of w, where 'a = nat] by simp

lemma source_provides:
  assumes "source_text src m u"
  shows "source_len d src m = Some (word_of_nat (length u)) \<and> strncpy (source_mem d g src) (length u) = Some u \<and>
    length u < 2 ^ 64 \<and> NUL \<notin> set u \<and> src \<noteq> Self"
proof (cases src)
  case (Native mem)
  show ?thesis
  proof (cases "m = - 1")
    case True
    then show ?thesis using assms Native strlen_string [of mem u] strncpy_string [of mem u "length u"] by simp
  next
    case False
    then have m: "unat m = length u" "take (length u) mem = map Some u" "NUL \<notin> set u" using assms Native by auto
    then have "mem = map Some u @ drop (length u) mem" by (metis append_take_drop_id)
    then have "strncpy mem (length u) = Some u" using strncpy_append [OF m(3), of "length u" "drop (length u) mem"] by simp
    moreover have "m = word_of_nat (length u)" using m(1) by (rule word_of_unat)
    ultimately show ?thesis using assms Native False by simp
  qed
next
  case (Managed s)
  then obtain t where t: "sr_holds s t" "u = take (unat m) t" using assms by auto
  have small: "length t < 2 ^ 64" using t(1) size_bound [of "sr_size s"] by (simp add: sr_holds_def)
  have "unat (min (sr_len s) m) = length u"
    using t by (simp add: sr_holds_def min_def word_le_nat_alt)
  then have "min (sr_len s) m = word_of_nat (length u)" by (rule word_of_unat)
  moreover have "strncpy (sr_val s) (length u) = Some u"
    using strncpy_string [OF holds_c_string [OF t(1)], of "length u"] t(2) by (simp add: min_def)
  moreover have "length u < 2 ^ 64" using small t(2) by simp
  moreover have "NUL \<notin> set u" using t by (auto simp: sr_holds_def dest: in_set_takeD)
  ultimately show ?thesis using Managed by simp
qed (use assms in simp)

text \<open>A result that holds \<open>t\<close>, unless memory ran out.\<close>

definition gives :: "(nat \<Rightarrow> bool) \<Rightarrow> sr sr_result \<Rightarrow> string \<Rightarrow> bool" where
  "gives alloc r t \<longleftrightarrow> r = Exit_Failure \<and> (\<exists>n. \<not> alloc n) \<or> (\<exists>d. r = Ok d \<and> sr_holds d t)"

lemma ensure_size_holds:
  assumes "sr_holds s t"
  obtains (exit) "sr_ensure_size alloc s m g = Exit_Failure" "\<exists>n. \<not> alloc n"
  | (room) d where "sr_ensure_size alloc s m g = Ok d" "sr_holds d t" "m \<le> sr_size d" "sr_len d = sr_len s"
proof (cases "sr_size s < m")
  case True
  let ?m = "if m < sr_size s + g then sr_size s + g else m"
  let ?d = "s\<lparr>sr_val := sr_val s @ replicate (unat ?m - length (sr_val s)) None, sr_size := ?m\<rparr>"
  have "m \<le> ?m" by (simp add: less_imp_le)
  then have "unat (sr_size s) < unat ?m" using True by (simp add: word_less_nat_alt word_le_nat_alt split: if_splits)
  then have "sr_holds ?d t" using assms(1) by (auto simp: sr_holds_def)
  moreover have "sr_ensure_size alloc s m g = (if alloc (unat ?m) then Ok ?d else Exit_Failure)"
    using True by (simp add: sr_ensure_size_def Let_def)
  ultimately show ?thesis using exit room [of ?d] \<open>m \<le> ?m\<close> by (cases "alloc (unat ?m)") auto
next
  case False
  then show ?thesis using room [of s] assms by (simp add: sr_ensure_size_def)
qed

text \<open>Writing \<open>u\<close> and a zero after the first \<open>k\<close> characters.\<close>

lemma put_holds:
  assumes d: "sr_holds d t" and k: "k \<le> length t" and u: "NUL \<notin> set u" and fits: "k + length u < unat (sr_size d)"
    and n: "n = word_of_nat (k + length u)"
  obtains v where "put_string (sr_val d) k u = Some v" "sr_holds (d\<lparr>sr_val := v, sr_len := n\<rparr>) (take k t @ u)"
proof
  let ?v = "overwrite (sr_val d) k (map Some (u @ [NUL]))"
  have len: "length (sr_val d) = unat (sr_size d)" using d by (simp add: sr_holds_def)
  then show "put_string (sr_val d) k u = Some ?v" using fits by (simp add: put_string_def)
  have "take k (sr_val d) = map Some (take k t)"
  proof -
    have "take k (sr_val d) = take k (take (Suc (length t)) (sr_val d))" using k by (simp add: min_def)
    also have "\<dots> = map Some (take k t)" using d k unfolding sr_holds_def by (simp add: take_map del: take_take)
    finally show ?thesis .
  qed
  then have "take (Suc (k + length u)) ?v = map Some (take k t @ u @ [NUL])"
    using fits len k by (simp add: overwrite_def)
  moreover have "unat n = k + length u" unfolding n by (rule length_word) (use fits size_bound [of "sr_size d"] in simp)
  ultimately show "sr_holds (d\<lparr>sr_val := ?v, sr_len := n\<rparr>) (take k t @ u)"
    using d k u fits len by (auto simp: sr_holds_def length_overwrite dest: in_set_takeD)
qed

lemma sr_new_holds:
  assumes "c_string_at mem t" "length t < 2 ^ 64 - 1" "\<forall>n. alloc n"
  obtains s where "sr_new alloc mem initsize = Ok (Some s)" "sr_holds s t"
proof -
  define len where "len = (word_of_nat (length t) :: u64)"
  define size1 where "size1 = (if initsize \<le> len then len + 1 else initsize)"
  define size2 where "size2 = (if size1 < EXTEND then EXTEND else size1)"
  let ?v = "overwrite (replicate (unat size2) None) 0 (take (Suc (length t)) mem)"
  have len: "unat len = length t" using assms(2) by (simp add: len_def length_word)
  then have "unat (len + 1) = Suc (length t)" using assms(2) by (simp add: unat_word_ariths)
  then have "length t < unat size1" using len by (auto simp: size1_def word_le_nat_alt)
  then have big: "length t < unat size2" by (auto simp: size2_def word_less_nat_alt)
  have new: "sr_new alloc mem initsize = Ok (Some \<lparr>sr_val = ?v, sr_size = size2, sr_len = len\<rparr>)"
    using big assms(3) strlen_string [OF assms(1)] unfolding sr_new_def size2_def size1_def len_def by (simp add: Let_def)
  have pre: "take (Suc (length t)) mem = map Some (t @ [NUL])" "NUL \<notin> set t" using assms(1) by (simp_all add: c_string_at_def)
  then have "sr_holds \<lparr>sr_val = ?v, sr_size = size2, sr_len = len\<rparr> t"
    using big len unfolding pre(1) by (simp add: sr_holds_def overwrite_def)
  then show ?thesis using that new by blast
qed

lemma sr_copy_holds:
  assumes "sr_holds d t" "source_text src m u" "length u < 2 ^ 64 - 1"
  shows "gives alloc (sr_copy alloc d src m) u"
proof -
  let ?n = "word_of_nat (length u) :: u64"
  note src = source_provides [OF assms(2)]
  have n: "unat ?n = length u" "unat (?n + 1) = Suc (length u)"
    using assms(3) by (simp_all add: length_word unat_word_ariths)
  from assms(1) show ?thesis
  proof (cases rule: ensure_size_holds [of _ _ alloc "?n + 1" EXTEND])
    case exit
    then show ?thesis using src by (simp add: sr_copy_def gives_def)
  next
    case (room d1)
    have "0 + length u < unat (sr_size d1)" using room(3) n(2) by (simp add: word_le_nat_alt)
    then obtain v where "put_string (sr_val d1) 0 u = Some v" "sr_holds (d1\<lparr>sr_val := v, sr_len := ?n\<rparr>) u"
      using put_holds [OF room(2), of 0 u ?n] src by auto
    then show ?thesis using room(1) src n(1) by (simp add: sr_copy_def gives_def)
  qed
qed

lemma sr_cat_holds:
  assumes "sr_holds d t" "source_text src m u" "length t + length u < 2 ^ 64 - 1"
  shows "gives alloc (sr_cat alloc d src m) (t @ u)"
proof -
  let ?n = "word_of_nat (length u) :: u64"
  note src = source_provides [OF assms(2)]
  have len: "unat (sr_len d) = length t" using assms(1) by (simp add: sr_holds_def)
  have n: "unat ?n = length u" "unat (sr_len d + ?n) = length t + length u" "unat (sr_len d + ?n + 1) = Suc (length t + length u)"
    using assms(3) len by (simp_all add: length_word unat_word_ariths)
  from assms(1) show ?thesis
  proof (cases rule: ensure_size_holds [of _ _ alloc "sr_len d + ?n + 1" EXTEND])
    case exit
    then show ?thesis using src by (simp add: sr_cat_def gives_def)
  next
    case (room d1)
    have "length t + length u < unat (sr_size d1)" using room(3) n(3) by (simp add: word_le_nat_alt)
    moreover have "sr_len d + ?n = word_of_nat (length t + length u)" using n(2) by (rule word_of_unat)
    ultimately obtain v where "put_string (sr_val d1) (length t) u = Some v"
      "sr_holds (d1\<lparr>sr_val := v, sr_len := sr_len d + ?n\<rparr>) (t @ u)"
      using put_holds [OF room(2), of "length t" u "sr_len d + ?n"] src by auto
    then show ?thesis using room(1) src n(1) len by (simp add: sr_cat_def gives_def)
  qed
qed


section \<open>\<open>CONCAT\<close>\<close>

text \<open>The text of an argument, whatever the formats: numbers in decimal, characters and strings as they are.\<close>

fun arg_text :: "arg \<Rightarrow> string option" where
  "arg_text (GEN_INT w) = Some (dec_of_int (sint w))"
| "arg_text (GEN_SHRT w) = Some (dec_of_int (sint w))"
| "arg_text (GEN_CHR c) = Some [c]"
| "arg_text (GEN_UCHR c) = Some [c]"
| "arg_text (GEN_UINT w) = Some (dec_of_nat (unat w))"
| "arg_text (GEN_USHRT w) = Some (dec_of_nat (unat w))"
| "arg_text (GEN_LNG w) = Some (dec_of_int (sint w))"
| "arg_text (GEN_ULNG w) = Some (dec_of_nat (unat w))"
| "arg_text (GEN_LLNG w) = Some (dec_of_int (sint w))"
| "arg_text (GEN_ULLNG w) = Some (dec_of_nat (unat w))"
| "arg_text (GEN_STR mem) = c_chars mem"
| "arg_text (GEN_USTR mem) = c_chars mem"
| "arg_text (GEN_SR s) = print_sr s"
| "arg_text (GEN_FLT t) = Some t"
| "arg_text (GEN_DBL t) = Some t"

lemma char_byte_back [simp]: "char_of (unat (char_byte c)) = c"
proof -
  have "(of_char c :: nat) < 256" by (metis of_char_mod_256 mod_less_divisor zero_less_numeral)
  then show ?thesis by (simp add: char_byte_def unat_word_of_nat_small)
qed

lemma ucast_back [simp]: "ucast (scast (b :: byte) :: 32 word) = b" "ucast (ucast (b :: byte) :: 32 word) = b"
  by (rule bit_word_eqI, simp add: bit_simps min_def, (intro impI arg_cong2 [where f = bit] refl, linarith)?)+

lemma promoted_values [simp]:
  "sint (scast (h :: 16 word) :: 32 word) = sint h" "unat (ucast (h :: 16 word) :: 32 word) = unat h"
proof -
  show "sint (scast h :: 32 word) = sint h" by (rule sint_up_scast) (simp add: is_up)
  have "uint (ucast h :: 32 word) = uint h" by (rule uint_up_ucast) (simp add: is_up)
  then show "unat (ucast h :: 32 word) = unat h" by (metis nat_uint_eq)
qed

text \<open>The conversions that the formats ask for print the texts of the arguments.\<close>

lemma vsprintf_arg:
  "vsprintf (arg_format a @ format) (VA_INT (gen_datatype a) # promoted a # vs) =
     (case (arg_text a, vsprintf format vs) of (Some t, Some ts) \<Rightarrow> Some (t @ ts) | _ \<Rightarrow> None)"
  by (cases a) (simp_all add: FMT_COMMON_def conversion_def conversions_def split: option.split)

text \<open>Arguments that print as a text without zeros.\<close>

fun arg_ok :: "arg \<Rightarrow> bool" where
  "arg_ok (GEN_CHR c) = (c \<noteq> NUL)"
| "arg_ok (GEN_UCHR c) = (c \<noteq> NUL)"
| "arg_ok (GEN_STR mem) = (\<exists>t. c_string_at mem t)"
| "arg_ok (GEN_USTR mem) = (\<exists>t. c_string_at mem t)"
| "arg_ok (GEN_SR s) = (\<exists>t. sr_holds s t)"
| "arg_ok (GEN_FLT t) = (NUL \<notin> set t)"
| "arg_ok (GEN_DBL t) = (NUL \<notin> set t)"
| "arg_ok _ = True"

definition arg_out :: "arg \<Rightarrow> string" where
  "arg_out a = the (arg_text a)"

definition arg_room :: "arg \<Rightarrow> nat" where
  "arg_room a = the (arg_size a)"

lemma dec_not_nul: "NUL \<notin> set (dec_of_nat n)" "NUL \<notin> set (dec_of_int i)"
proof -
  show n: "NUL \<notin> set (dec_of_nat n)" for n using dec_of_nat_digits [of n] by (force simp: is_digit_def)
  show "NUL \<notin> set (dec_of_int i)" using n by (simp add: dec_of_int_def)
qed

lemma int_text_fits: "\<bar>i\<bar> < 10 ^ k \<Longrightarrow> 0 < k \<Longrightarrow> length (dec_of_int i) \<le> Suc k"
  using length_dec_of_nat [of k "nat \<bar>i\<bar>"] by (auto simp: dec_of_int_def nat_less_iff)

lemma print_sr_holds: "sr_holds s t \<Longrightarrow> print_sr s = Some t \<and> NUL \<notin> set t \<and> length t = unat (sr_len s)"
  using c_chars_string [OF holds_c_string, of s t] by (auto simp: print_sr_def sr_holds_def)

text \<open>The room reserved for an argument is enough for its text.\<close>

lemma arg_fits:
  assumes "arg_ok a"
  shows "arg_size a = Some (arg_room a) \<and> arg_text a = Some (arg_out a) \<and> length (arg_out a) \<le> arg_room a \<and> NUL \<notin> set (arg_out a)"
proof -
  have s: "\<bar>sint (w :: 32 word)\<bar> < 10 ^ 10" "\<bar>sint (h :: 16 word)\<bar> < 10 ^ 5" "\<bar>sint (l :: u64)\<bar> < 10 ^ 19" for w h l
    using sint_greater_eq [of w] sint_less [of w] sint_greater_eq [of h] sint_less [of h] sint_greater_eq [of l] sint_less [of l]
    by (auto simp: abs_less_iff)
  have u: "unat (w :: 32 word) < 10 ^ 10" "unat (h :: 16 word) < 10 ^ 5" "unat (l :: u64) < 10 ^ 20" for w h l
    using unsigned_less [of w, where 'a = nat] unsigned_less [of h, where 'a = nat] unsigned_less [of l, where 'a = nat] by simp_all
  note ints = int_text_fits [OF s(1)] int_text_fits [OF s(2)] int_text_fits [OF s(3)]
    length_dec_of_nat [OF _ u(1)] length_dec_of_nat [OF _ u(2)] length_dec_of_nat [OF _ u(3)]
  note ints' = ints [THEN order_trans]
  show ?thesis
  proof (cases a)
    case (GEN_STR mem)
    then obtain t where "c_string_at mem t" using assms by auto
    then show ?thesis using GEN_STR strlen_string c_chars_string by (simp add: arg_room_def arg_out_def c_string_at_def)
  next
    case (GEN_USTR mem)
    then obtain t where "c_string_at mem t" using assms by auto
    then show ?thesis using GEN_USTR strlen_string c_chars_string by (simp add: arg_room_def arg_out_def c_string_at_def)
  next
    case (GEN_SR s)
    then obtain t where "sr_holds s t" using assms by auto
    then show ?thesis using GEN_SR print_sr_holds by (simp add: arg_room_def arg_out_def)
  qed (use assms in \<open>simp_all add: arg_room_def arg_out_def dec_not_nul SIZE_def ints'\<close>)
qed

lemma format_short: "length (arg_format a) \<le> 8"
  by (cases a) (simp_all add: FMT_COMMON_def)

lemma concat_loop_room:
  assumes "\<forall>a \<in> set args. arg_ok a" "length format + 8 * length args < 128"
  shows "concat_loop args format len = Some (format @ concat (map arg_format args), len + word_of_nat (sum_list (map arg_room args)))"
  using assms
proof (induction args arbitrary: format len)
  case (Cons a args)
  have "length format + length (arg_format a) < 128" "length (format @ arg_format a) + 8 * length args < 128"
    using Cons.prems(2) format_short [of a] by simp_all
  then show ?case using Cons.IH [of "format @ arg_format a"] Cons.prems(1) arg_fits [of a] by (simp add: add.assoc)
qed simp

lemma vsprintf_text:
  "\<forall>a \<in> set args. arg_ok a \<Longrightarrow>
    vsprintf (concat (map arg_format args)) (va_list args) = Some (concat (map arg_out args)) \<and> length (concat (map arg_out args)) \<le> sum_list (map arg_room args) \<and>
    NUL \<notin> set (concat (map arg_out args))"
proof (induction args)
  case (Cons a args)
  then show ?case using arg_fits [of a] by (auto simp: va_list_def vsprintf_arg intro: add_mono)
qed (simp add: va_list_def)

lemma sr_concat_text:
  assumes "sr_holds d t" "\<forall>a \<in> set args. arg_ok a" "length args \<le> 15" "length t + sum_list (map arg_room args) < 2 ^ 64 - 1"
  shows "gives alloc (sr_concat alloc d args) (t @ concat (map arg_out args))"
proof -
  let ?u = "concat (map arg_out args)" and ?k = "sum_list (map arg_room args)"
  let ?m = "sr_len d + word_of_nat ?k + 1"
  have loop: "concat_loop args [] 0 = Some (concat (map arg_format args), word_of_nat ?k)"
    using concat_loop_room [OF assms(2), of "[]" 0] assms(3) by simp
  note printed = vsprintf_text [OF assms(2)]
  have len: "unat (sr_len d) = length t" using assms(1) by (simp add: sr_holds_def)
  then have m: "unat ?m = Suc (length t + ?k)" using assms(4) by (simp add: length_word unat_word_ariths)
  from assms(1) show ?thesis
  proof (cases rule: ensure_size_holds [of _ _ alloc ?m EXTEND])
    case exit
    then show ?thesis using loop by (simp add: sr_concat_def gives_def)
  next
    case (room d1)
    have "length t + length ?u < unat (sr_size d1)" using room(3) m printed by (simp add: word_le_nat_alt)
    moreover have "sr_len d = word_of_nat (length t)" using len by (rule word_of_unat)
    then have "sr_len d + word_of_nat (length ?u) = word_of_nat (length t + length ?u)" by simp
    ultimately obtain v where "put_string (sr_val d1) (length t) ?u = Some v"
      "sr_holds (d1\<lparr>sr_val := v, sr_len := sr_len d + word_of_nat (length ?u)\<rparr>) (t @ ?u)"
      using put_holds [OF room(2), of "length t" ?u "sr_len d + word_of_nat (length ?u)"] printed by auto
    then show ?thesis using room(1,4) loop printed len by (simp add: sr_concat_def gives_def)
  qed
qed


text \<open>
  C35. \<^verbatim>\<open>CONCAT\<close> of up to 15 arguments (as many as its macro takes) overruns neither its format buffer of 128 bytes nor the
  string, however long the texts: the room reserved for each type is enough for every value of it.  Unless memory runs out,
  the string then holds what it held followed by the texts of the arguments.
\<close>

theorem sr_concat_exact:
  assumes "sr_holds d t" "\<forall>a \<in> set args. arg_ok a" "length args \<le> 15" "length t + sum_list (map arg_room args) < 2 ^ 64 - 1"
  shows "gives alloc (sr_concat alloc d args) (t @ concat (map arg_out args))"
  using assms by (rule sr_concat_text)

definition sample_sr :: sr where
  "sample_sr = \<lparr>sr_val = map Some (''ab'' @ [NUL]) @ replicate 61 None, sr_size = 64, sr_len = 2\<rparr>"

lemma sample_holds: "sr_holds sample_sr ''ab''"
  by (simp add: sr_holds_def sample_sr_def)

lemma dec_5: "dec_of_int (- 5) = ''-5''"
  by code_simp

theorem sr_concat_exact_witness:
  "gives (\<lambda>_. True) (sr_concat (\<lambda>_. True) sample_sr [GEN_STR (c_memory ''text''), GEN_INT (- 5), GEN_CHR CHR ''/'', GEN_SR sample_sr])
     ''abtext-5/ab''"
proof -
  let ?args = "[GEN_STR (c_memory ''text''), GEN_INT (- 5), GEN_CHR CHR ''/'', GEN_SR sample_sr]"
  have t: "c_string_at (c_memory ''text'') ''text''" by simp
  have "arg_ok (GEN_STR (c_memory ''text''))" "arg_ok (GEN_SR sample_sr)" using sample_holds t unfolding arg_ok.simps by blast+
  then have "\<forall>a \<in> set ?args. arg_ok a" by simp
  moreover have "length ''ab'' + sum_list (map arg_room ?args) < 2 ^ 64 - 1"
    using strlen_string [OF t] by (simp add: arg_room_def SIZE_def sample_sr_def)
  moreover have "concat (map arg_out ?args) = ''text-5/ab''"
    using c_chars_string [OF t] print_sr_holds [OF sample_holds]
    by (simp add: arg_out_def dec_5)
  ultimately show ?thesis using sr_concat_exact [OF sample_holds, of ?args "\<lambda>_. True"] by simp
qed

section \<open>Where the operations go wrong\<close>

text \<open>
  Appending a string to itself: the address of the source is taken before the string grows, so the source is freed
  memory whenever the string has to grow.
\<close>

theorem sr_cat_self:
  assumes "sr_holds d t" "t \<noteq> []" "2 * length t < 2 ^ 64 - 1" "\<forall>n. alloc n"
  shows "if 2 * length t < unat (sr_size d) then gives alloc (sr_cat alloc d Self (- 1)) (t @ t)
    else sr_cat alloc d Self (- 1) = Undefined"
proof -
  let ?m = "sr_len d + sr_len d + 1"
  have len: "unat (sr_len d) = length t" using assms(1) by (simp add: sr_holds_def)
  then have m: "unat ?m = Suc (2 * length t)" using assms(3) by (simp add: unat_word_ariths)
  have src: "source_len d Self (- 1) = Some (sr_len d)" by (simp add: min_def)
  show ?thesis
  proof (cases "2 * length t < unat (sr_size d)")
    case True
    have mem: "strncpy (sr_val d) (length t) = Some t"
      using strncpy_string [OF holds_c_string [OF assms(1)], of "length t"] by simp
    have "\<not> sr_size d < ?m" using True m by (simp add: word_less_nat_alt)
    moreover have "sr_len d = word_of_nat (length t)" using len by (rule word_of_unat)
    moreover obtain v where "put_string (sr_val d) (length t) t = Some v"
      "sr_holds (d\<lparr>sr_val := v, sr_len := word_of_nat (length t + length t)\<rparr>) (t @ t)"
      using put_holds [OF assms(1), of "length t" t "word_of_nat (length t + length t)"] True assms(1) by (auto simp: sr_holds_def)
    ultimately show ?thesis using True src mem len by (simp add: sr_cat_def sr_ensure_size_def Let_def gives_def)
  next
    case False
    then have "sr_size d < ?m" using m by (simp add: word_less_nat_alt)
    moreover have "strncpy [] (length t) = None" using assms(2) by (cases t) auto
    ultimately show ?thesis using False src len assms(4) by (simp add: sr_cat_def sr_ensure_size_def Let_def)
  qed
qed

text \<open>
  Copying at most \<open>m\<close> bytes of a C string that is shorter: the length recorded is \<open>m\<close> all the same, so that the string no
  longer holds any text and whatever is appended to it comes after zeros.
\<close>

lemma strncpy_pads: "NUL \<notin> set t \<Longrightarrow> length t < n \<Longrightarrow> strncpy (c_memory t) n = Some (t @ replicate (n - length t) NUL)"
proof (induction t arbitrary: n)
  case Nil
  then show ?case by (cases n) (simp_all add: c_memory_def)
next
  case (Cons c t)
  then show ?case by (cases n) (auto simp: c_memory_def)
qed

theorem sr_copy_overcounts:
  assumes "sr_holds d t" "NUL \<notin> set u" "length u < unat m" "m \<noteq> - 1" "sr_copy alloc d (Native (c_memory u)) m = Ok d'"
  shows "sr_len d' = m \<and> c_chars (sr_val d') = Some u \<and> (\<nexists>x. sr_holds d' x)"
proof -
  obtain d1 v where d1: "put_string (sr_val d1) 0 (u @ replicate (unat m - length u) NUL) = Some v"
    "d' = d1\<lparr>sr_val := v, sr_len := m\<rparr>"
    using assms(5) strncpy_pads [OF assms(2,3)]
    by (auto simp: sr_copy_def assms(4) split: sr_result.splits option.splits)
  obtain k where k: "unat m - length u = Suc k" using assms(3) by (cases "unat m - length u") auto
  have v: "c_string_at v u"
    using d1(1) assms(2) k by (auto simp: put_string_def overwrite_def c_string_at_def split: if_splits)
  have "x = u" if "sr_holds d' x" for x
    using c_chars_string [OF holds_c_string [OF that]] c_chars_string [OF v] d1(2) by simp
  then have "\<not> sr_holds d' x" for x using assms(3) d1(2) by (auto simp: sr_holds_def)
  then show ?thesis using d1(2) c_chars_string [OF v] by simp
qed

lemma holds_char:
  assumes "sr_holds s t" "i < length t"
  shows "sr_val s ! i = Some (t ! i)"
proof -
  have "take (Suc (length t)) (sr_val s) ! i = Some ((t @ [NUL]) ! i)"
    using assms by (simp add: sr_holds_def nth_append)
  then show ?thesis using assms(2) by (simp add: nth_append)
qed

text \<open>\<^verbatim>\<open>RTRIM\<close> of a string that is empty or has only white space runs off the beginning of the buffer.\<close>

theorem rtrim_blank_undefined:
  assumes "sr_holds s t" "\<forall>c \<in> set t. isspace c"
  shows "RTRIM s = Undefined"
proof -
  have "n \<le> length t \<Longrightarrow> rtrim_loop (sr_val s) n = None" for n
  proof (induction n)
    case (Suc n)
    have "sr_val s ! n = Some (t ! n)" "n < length (sr_val s)" using holds_char [OF assms(1)] Suc.prems assms(1) by (auto simp: sr_holds_def)
    then show ?case using Suc assms by simp
  qed simp
  then show ?thesis using assms(1) by (simp add: RTRIM_def sr_holds_def)
qed

lemma rtrim_trims:
  assumes "sr_holds s (t @ [c] @ w)" "\<not> isspace c" "\<forall>x \<in> set w. isspace x"
  shows "gives alloc (RTRIM s) (t @ [c])"
proof -
  let ?t = "t @ [c] @ w" and ?n = "Suc (length t)"
  note char = holds_char [OF assms(1)]
  have len: "length (sr_val s) = unat (sr_size s)" "unat (sr_len s) = length ?t" "length ?t < unat (sr_size s)"
    using assms(1) by (simp_all add: sr_holds_def)
  have "k \<le> length w \<Longrightarrow> rtrim_loop (sr_val s) (?n + k) = Some ?n" for k
  proof (induction k)
    case 0
    then show ?case using char [of "length t"] assms(2) len by (simp add: nth_append)
  next
    case (Suc k)
    then have "sr_val s ! (?n + k) = Some (w ! k)" using char [of "?n + k"] by (simp add: nth_append)
    then show ?case using Suc assms(3) len by simp
  qed
  from this [of "length w"] have loop: "rtrim_loop (sr_val s) (unat (sr_len s)) = Some ?n" using len(2) by simp
  have small: "unat (word_of_nat ?n :: u64) = ?n" using len size_bound [of "sr_size s"] by (intro length_word) simp
  have "take ?n (sr_val s) = map Some (t @ [c])"
    using char len by (intro nth_equalityI) (auto simp: nth_append)
  then have "take (Suc ?n) ((sr_val s)[?n := Some NUL]) = map Some (t @ [c] @ [NUL])"
    using len by (simp add: take_Suc_conv_app_nth)
  then have "sr_holds (s\<lparr>sr_val := (sr_val s)[?n := Some NUL], sr_len := word_of_nat ?n\<rparr>) (t @ [c])"
    using assms(1) len small by (auto simp: sr_holds_def)
  then show ?thesis using loop len by (simp add: RTRIM_def gives_def)
qed

section \<open>Building a text piece by piece\<close>

text \<open>
  The contract on which the builders of names rely: \<open>append\<close> adds the text of a piece.
\<close>

locale text_buffer =
  fixes holds :: "'s \<Rightarrow> string \<Rightarrow> bool"
    and append :: "'s \<Rightarrow> 'p \<Rightarrow> 's option"
    and piece :: "'p \<Rightarrow> string"
    and limit :: nat
  assumes append_holds:
    "holds s t \<Longrightarrow> NUL \<notin> set (piece p) \<Longrightarrow> length t + length (piece p) < limit \<Longrightarrow>
       \<exists>s'. append s p = Some s' \<and> holds s' (t @ piece p)"
begin

primrec appends :: "'s \<Rightarrow> 'p list \<Rightarrow> 's option" where
  "appends s [] = Some s"
| "appends s (p # ps) = (case append s p of None \<Rightarrow> None | Some s' \<Rightarrow> appends s' ps)"

lemma appends_holds:
  assumes "holds s t" "\<forall>p \<in> set ps. NUL \<notin> set (piece p)" "length t + length (concat (map piece ps)) < limit"
  shows "\<exists>s'. appends s ps = Some s' \<and> holds s' (t @ concat (map piece ps))"
  using assms
proof (induction ps arbitrary: s t)
  case (Cons p ps)
  then obtain s1 where s1: "append s p = Some s1" "holds s1 (t @ piece p)" using append_holds [of s t p] by auto
  then show ?case using Cons.IH [OF s1(2)] Cons.prems by simp
qed simp

end

definition all_memory :: "nat \<Rightarrow> bool" where "all_memory n = True"

lemma gives_all: "gives all_memory r t \<Longrightarrow> \<exists>s. r = Ok s \<and> sr_holds s t"
  by (simp add: gives_def all_memory_def)

definition ok_value :: "'a sr_result \<Rightarrow> 'a option" where
  "ok_value r = (case r of Ok x \<Rightarrow> Some x | _ \<Rightarrow> None)"

lemma ok_value_simps [simp]: "ok_value (Ok x) = Some x" "ok_value Exit_Failure = None" "ok_value Undefined = None"
  by (simp_all add: ok_value_def)

lemma ok_value_iff: "ok_value r = Some x \<longleftrightarrow> r = Ok x"
  by (simp add: ok_value_def split: sr_result.split)

lemma gives_value: "gives all_memory r t \<Longrightarrow> \<exists>s. ok_value r = Some s \<and> sr_holds s t"
  by (simp add: ok_value_iff gives_all)

definition STRCAT :: "(nat \<Rightarrow> bool) \<Rightarrow> sr \<Rightarrow> string \<Rightarrow> sr sr_result" where
  "STRCAT alloc s u = sr_cat alloc s (Native (c_memory u)) (- 1)"

lemma STRCAT_holds:
  "sr_holds s t \<Longrightarrow> NUL \<notin> set u \<Longrightarrow> length t + length u < 2 ^ 64 - 1 \<Longrightarrow> gives alloc (STRCAT alloc s u) (t @ u)"
  using sr_cat_holds [of s t "Native (c_memory u)" "- 1" u alloc] by (simp add: STRCAT_def)

interpretation sb: text_buffer sr_holds "\<lambda>s u. ok_value (STRCAT all_memory s u)" "\<lambda>u. u" "2 ^ 64 - 1"
  by unfold_locales (intro gives_value STRCAT_holds)

end
