(* ===== verification/Dab.thy ===== *)
theory Dab
  imports Stingray
begin

text \<open>
  The database layer \<^verbatim>\<open>dab/dab.c\<close>: handles per thread, prepared statements with typed parameters and columns, and
  transactions.  SQLite is not part of the sources: its functions are the fields of a record \<open>sqlite\<close>, over a state \<open>'w\<close> of
  the library, and the facts that its documentation promises are hypotheses of the theorems.
\<close>

section \<open>SQLite\<close>

datatype sq_code = SQLITE_OK | SQLITE_ROW | SQLITE_DONE | SQLITE_CANTOPEN | SQLITE_OTHER

datatype open_flag = SQLITE_OPEN_READONLY | SQLITE_OPEN_READWRITE | SQLITE_OPEN_CREATE

type_synonym handle = nat
type_synonym stmt = nat
type_synonym thread = nat

text \<open>The values that are bound to parameters and found in columns.\<close>

datatype sval = SInt int | SText string | SDouble u64 | SNull

text \<open>
  The last three fields are the results of creating and setting a thread-specific variable, and the conversions between
  single and double precision.
\<close>

record 'w sqlite =
  sq_threadsafe :: bool
  sq_multithread :: "'w \<Rightarrow> sq_code \<times> 'w"
  sq_open :: "string \<Rightarrow> open_flag list \<Rightarrow> 'w \<Rightarrow> sq_code \<times> handle \<times> 'w"
  sq_close :: "handle \<Rightarrow> 'w \<Rightarrow> sq_code \<times> 'w"
  sq_close_v2 :: "handle \<Rightarrow> 'w \<Rightarrow> sq_code \<times> 'w"
  sq_autocommit :: "handle \<Rightarrow> 'w \<Rightarrow> bool"
  sq_exec :: "handle \<Rightarrow> string \<Rightarrow> 'w \<Rightarrow> sq_code \<times> 'w"
  sq_next_stmt :: "handle \<Rightarrow> 'w \<Rightarrow> stmt option"
  sq_finalize :: "stmt \<Rightarrow> 'w \<Rightarrow> sq_code \<times> 'w"
  sq_prepare :: "handle \<Rightarrow> string \<Rightarrow> 'w \<Rightarrow> sq_code \<times> stmt option \<times> 'w"
  sq_bind :: "stmt \<Rightarrow> nat \<Rightarrow> sval \<Rightarrow> 'w \<Rightarrow> sq_code \<times> 'w"
  sq_param_count :: "stmt \<Rightarrow> 'w \<Rightarrow> nat"
  sq_step :: "stmt \<Rightarrow> 'w \<Rightarrow> sq_code \<times> 'w"
  sq_reset :: "stmt \<Rightarrow> 'w \<Rightarrow> sq_code \<times> 'w"
  sq_clear :: "stmt \<Rightarrow> 'w \<Rightarrow> sq_code \<times> 'w"
  sq_column_int :: "stmt \<Rightarrow> nat \<Rightarrow> 'w \<Rightarrow> 32 word"
  sq_column_int64 :: "stmt \<Rightarrow> nat \<Rightarrow> 'w \<Rightarrow> u64"
  sq_column_text :: "stmt \<Rightarrow> nat \<Rightarrow> 'w \<Rightarrow> string option"
  sq_column_double :: "stmt \<Rightarrow> nat \<Rightarrow> 'w \<Rightarrow> u64"
  sq_column_blob :: "stmt \<Rightarrow> nat \<Rightarrow> 'w \<Rightarrow> string"
  sq_last_rowid :: "handle \<Rightarrow> 'w \<Rightarrow> u64"
  sq_changes :: "handle \<Rightarrow> 'w \<Rightarrow> u64"
  sq_key_create :: bool
  sq_setspecific :: bool
  sq_widen :: "32 word \<Rightarrow> u64"
  sq_narrow :: "u64 \<Rightarrow> 32 word"

section \<open>Handles\<close>

text \<open>
  The statics of \<^verbatim>\<open>dab.c\<close>, and the state of SQLite.  A thread-specific variable is a key; \<open>keys\<close> is the number of keys that
  \<^verbatim>\<open>pthread_key_create\<close> has made in the process, and \<open>specific\<close> has the value of every key in every thread, which is null in all
  threads when the key is made.
\<close>

record 'w dab =
  threads :: bool
  thread_key :: nat
  keys :: nat
  specific :: "nat \<Rightarrow> thread \<Rightarrow> handle option"
  global_db :: "handle option"
  world :: 'w

definition thread_db :: "'w dab \<Rightarrow> thread \<Rightarrow> handle option" where
  "thread_db s t = specific s (thread_key s) t"

definition set_thread_db :: "thread \<Rightarrow> handle option \<Rightarrow> 'w dab \<Rightarrow> 'w dab" where
  "set_thread_db t h s = s\<lparr>specific := (specific s)(thread_key s := (specific s (thread_key s))(t := h))\<rparr>"

definition pthread_key_create :: "'w dab \<Rightarrow> 'w dab" where
  "pthread_key_create s =
     s\<lparr>thread_key := keys s, keys := Suc (keys s), specific := (specific s)(keys s := (\<lambda>_. None))\<rparr>"

definition DB_HANDLE :: "thread \<Rightarrow> 'w dab \<Rightarrow> handle option" where
  "DB_HANDLE t s = (if threads s then thread_db s t else global_db s)"

definition DAB_FLAG_READONLY :: u64 where "DAB_FLAG_READONLY = 1"
definition DAB_FLAG_CREATE :: u64 where "DAB_FLAG_CREATE = 2"
definition DAB_FLAG_GRACEFUL :: u64 where "DAB_FLAG_GRACEFUL = 4"
definition DAB_FLAG_THREADS :: u64 where "DAB_FLAG_THREADS = 8"

definition has_flag :: "u64 \<Rightarrow> u64 \<Rightarrow> bool" where
  "has_flag flags f \<longleftrightarrow> and flags f \<noteq> 0"

definition sqlite_flags :: "u64 \<Rightarrow> open_flag list" where
  "sqlite_flags flags =
     (if has_flag flags DAB_FLAG_READONLY then [SQLITE_OPEN_READONLY] else [SQLITE_OPEN_READWRITE]) @
     (if has_flag flags DAB_FLAG_CREATE then [SQLITE_OPEN_CREATE] else [])"

text \<open>Switching to a handle per thread, once; \<open>None\<close> when \<^verbatim>\<open>dab_open\<close> goes on.\<close>

definition enable_threads :: "'w sqlite \<Rightarrow> u64 \<Rightarrow> 'w dab \<Rightarrow> dab_status option \<times> 'w dab" where
  "enable_threads q flags s =
     (if \<not> (has_flag flags DAB_FLAG_THREADS \<and> \<not> threads s) then (None, s)
      else if \<not> sq_threadsafe q then (Some DAB_FAIL, s)
      else if \<not> sq_key_create q then (Some DAB_MALFUNCTION, s)
      else
        let s1 = pthread_key_create s
        in case sq_multithread q (world s1) of
             (c, w) \<Rightarrow> if c \<noteq> SQLITE_OK then (Some DAB_FAIL, s1\<lparr>world := w\<rparr>) else (None, s1\<lparr>world := w, threads := True\<rparr>))"

definition dab_open :: "'w sqlite \<Rightarrow> thread \<Rightarrow> string option \<Rightarrow> u64 \<Rightarrow> 'w dab \<Rightarrow> dab_status \<times> 'w dab" where
  "dab_open q t db_name flags s =
     (case db_name of
        None \<Rightarrow> (DAB_INVALID, s)
      | Some name \<Rightarrow>
          (case enable_threads q flags s of
             (Some e, s1) \<Rightarrow> (e, s1)
           | (None, s1) \<Rightarrow>
               (case sq_open q name (sqlite_flags flags) (world s1) of
                  (c, db, w) \<Rightarrow>
                    let s2 = s1\<lparr>world := w\<rparr>
                    in if c \<noteq> SQLITE_OK then (if c = SQLITE_CANTOPEN then DAB_INVALID else DAB_FAIL, s2)
                       else if threads s2
                       then (if \<not> sq_setspecific q then (DAB_MALFUNCTION, s2)
                             else (DAB_OK, set_thread_db t (Some db) s2))
                       else (DAB_OK, s2\<lparr>global_db := Some db\<rparr>))))"

section \<open>Transactions\<close>

text \<open>A statement without parameters and result, on the handle of the thread.\<close>

definition run_sql :: "'w sqlite \<Rightarrow> thread \<Rightarrow> string \<Rightarrow> 'w dab \<Rightarrow> dab_status \<times> 'w dab" where
  "run_sql q t sql s =
     (case DB_HANDLE t s of
        None \<Rightarrow> (DAB_INVALID, s)
      | Some db \<Rightarrow>
          (case sq_exec q db sql (world s) of (c, w) \<Rightarrow> (if c = SQLITE_OK then DAB_OK else DAB_FAIL, s\<lparr>world := w\<rparr>)))"

definition dab_begin :: "'w sqlite \<Rightarrow> thread \<Rightarrow> 'w dab \<Rightarrow> dab_status \<times> 'w dab" where
  "dab_begin q t s =
     (case DB_HANDLE t s of
        None \<Rightarrow> (DAB_INVALID, s)
      | Some db \<Rightarrow> if sq_autocommit q db (world s) then run_sql q t ''BEGIN TRANSACTION'' s else (DAB_OK, s))"

definition dab_commit :: "'w sqlite \<Rightarrow> thread \<Rightarrow> 'w dab \<Rightarrow> dab_status \<times> 'w dab" where
  "dab_commit q t s = run_sql q t ''COMMIT'' s"

definition dab_rollback :: "'w sqlite \<Rightarrow> thread \<Rightarrow> 'w dab \<Rightarrow> dab_status \<times> 'w dab" where
  "dab_rollback q t s = run_sql q t ''ROLLBACK'' s"

section \<open>Closing\<close>

text \<open>The loop that finalises every statement of a handle; \<open>None\<close> when it never ends.\<close>

partial_function (option) finalize_all :: "'w sqlite \<Rightarrow> handle \<Rightarrow> 'w \<Rightarrow> 'w option" where
  "finalize_all q db w =
     (case sq_next_stmt q db w of
        None \<Rightarrow> Some w
      | Some st \<Rightarrow> finalize_all q db (snd (sq_finalize q st w)))"

text \<open>The immediate close: the open transaction is rolled back, whatever comes of it, and the statements are finalised.\<close>

definition close_now :: "'w sqlite \<Rightarrow> thread \<Rightarrow> handle \<Rightarrow> 'w dab \<Rightarrow> (sq_code \<times> 'w dab) option" where
  "close_now q t db s =
     (let s1 = (if \<not> sq_autocommit q db (world s) then snd (dab_rollback q t s) else s)
      in case finalize_all q db (world s1) of
           None \<Rightarrow> None
         | Some w \<Rightarrow> (case sq_close q db w of (c, w') \<Rightarrow> Some (c, s1\<lparr>world := w'\<rparr>)))"

definition dab_close :: "'w sqlite \<Rightarrow> thread \<Rightarrow> u64 \<Rightarrow> 'w dab \<Rightarrow> (dab_status \<times> 'w dab) option" where
  "dab_close q t flag s =
     (case DB_HANDLE t s of
        None \<Rightarrow> Some (DAB_OK, s)
      | Some db \<Rightarrow>
          (case (if has_flag flag DAB_FLAG_GRACEFUL
                 then (case sq_close_v2 q db (world s) of (c, w) \<Rightarrow> Some (c, s\<lparr>world := w\<rparr>))
                 else close_now q t db s) of
             None \<Rightarrow> None
           | Some (c, s1) \<Rightarrow>
               Some (if c \<noteq> SQLITE_OK then (DAB_FAIL, s1)
                     else if threads s1
                     then (if sq_setspecific q then (DAB_OK, set_thread_db t None s1) else (DAB_MALFUNCTION, s1))
                     else if global_db s1 = Some db then (DAB_OK, s1\<lparr>global_db := None\<rparr>)
                     else (DAB_OK, s1))))"

section \<open>Parameters\<close>

text \<open>
  The arguments of a statement by their \<^verbatim>\<open>GEN_DATATYPE\<close>.  A managed string stands for its bytes.
\<close>

datatype param = P_INT "32 word" | P_SHRT "16 word" | P_CHR "8 word" | P_UINT "32 word" | P_USHRT "16 word" | P_UCHR "8 word"
  | P_LNG u64 | P_ULNG u64 | P_LLNG u64 | P_ULLNG u64 | P_STR "string option" | P_USTR "string option"
  | P_FLT "32 word" | P_DBL u64 | P_SR string

text \<open>What is bound: narrow unsigned types are passed as \<^verbatim>\<open>int\<close>, and \<^verbatim>\<open>unsigned int\<close> is converted to \<^verbatim>\<open>int\<close>.\<close>

fun bind_value :: "'w sqlite \<Rightarrow> param \<Rightarrow> sval" where
  "bind_value q (P_INT w) = SInt (sint w)"
| "bind_value q (P_SHRT w) = SInt (sint w)"
| "bind_value q (P_CHR w) = SInt (sint w)"
| "bind_value q (P_UINT w) = SInt (sint w)"
| "bind_value q (P_USHRT w) = SInt (uint w)"
| "bind_value q (P_UCHR w) = SInt (uint w)"
| "bind_value q (P_LNG w) = SInt (sint w)"
| "bind_value q (P_ULNG w) = SInt (sint w)"
| "bind_value q (P_LLNG w) = SInt (sint w)"
| "bind_value q (P_ULLNG w) = SInt (sint w)"
| "bind_value q (P_STR t) = (case t of None \<Rightarrow> SNull | Some x \<Rightarrow> SText x)"
| "bind_value q (P_USTR t) = (case t of None \<Rightarrow> SNull | Some x \<Rightarrow> SText x)"
| "bind_value q (P_FLT f) = SDouble (sq_widen q f)"
| "bind_value q (P_DBL d) = SDouble d"
| "bind_value q (P_SR t) = SText t"

text \<open>The loop of \<^verbatim>\<open>cursor_bind\<close>, with the number of parameters bound so far, and the check of their number.\<close>

fun cursor_bind_from :: "'w sqlite \<Rightarrow> stmt \<Rightarrow> nat \<Rightarrow> param list \<Rightarrow> 'w \<Rightarrow> dab_status \<times> 'w" where
  "cursor_bind_from q st index [] w = (if sq_param_count q st w \<noteq> index then DAB_INVALID else DAB_OK, w)"
| "cursor_bind_from q st index (p # ps) w =
     (case sq_bind q st (Suc index) (bind_value q p) w of
        (c, w') \<Rightarrow> if c \<noteq> SQLITE_OK then (DAB_FAIL, w') else cursor_bind_from q st (Suc index) ps w')"

definition cursor_bind :: "'w sqlite \<Rightarrow> stmt \<Rightarrow> param list \<Rightarrow> 'w \<Rightarrow> dab_status \<times> 'w" where
  "cursor_bind q st ps w = cursor_bind_from q st 0 ps w"

text \<open>\<^verbatim>\<open>sql_common\<close> prepares a statement and binds its parameters; the statement exists even when binding fails.
  An empty text gives no statement, to which nothing can be bound.\<close>

definition sql_common :: "'w sqlite \<Rightarrow> thread \<Rightarrow> string \<Rightarrow> param list \<Rightarrow> stmt option \<Rightarrow> 'w dab \<Rightarrow> dab_status \<times> stmt option \<times> 'w dab" where
  "sql_common q t sql ps old s =
     (case DB_HANDLE t s of
        None \<Rightarrow> (DAB_INVALID, old, s)
      | Some db \<Rightarrow>
          (case sq_prepare q db sql (world s) of
             (c, st, w) \<Rightarrow>
               if c \<noteq> SQLITE_OK then (DAB_FAIL, st, s\<lparr>world := w\<rparr>)
               else case st of
                 None \<Rightarrow> (if ps = [] then DAB_OK else DAB_FAIL, None, s\<lparr>world := w\<rparr>)
               | Some st' \<Rightarrow> (case cursor_bind q st' ps w of (r, w') \<Rightarrow> (r, Some st', s\<lparr>world := w'\<rparr>))))"

definition dab_cursor_open :: "'w sqlite \<Rightarrow> thread \<Rightarrow> string option \<Rightarrow> param list \<Rightarrow> stmt option \<Rightarrow> 'w dab \<Rightarrow> dab_status \<times> stmt option \<times> 'w dab" where
  "dab_cursor_open q t sql ps cursor s =
     (case sql of None \<Rightarrow> (DAB_INVALID, cursor, s) | Some x \<Rightarrow> sql_common q t x ps cursor s)"

definition dab_cursor_prepare :: "'w sqlite \<Rightarrow> thread \<Rightarrow> string option \<Rightarrow> stmt option \<Rightarrow> 'w dab \<Rightarrow> dab_status \<times> stmt option \<times> 'w dab" where
  "dab_cursor_prepare q t sql cursor s =
     (case sql of
        None \<Rightarrow> (DAB_INVALID, cursor, s)
      | Some x \<Rightarrow>
          (case DB_HANDLE t s of
             None \<Rightarrow> (DAB_INVALID, cursor, s)
           | Some db \<Rightarrow>
               (case sq_prepare q db x (world s) of
                  (c, st, w) \<Rightarrow> (if c = SQLITE_OK then DAB_OK else DAB_FAIL, st, s\<lparr>world := w\<rparr>))))"

definition dab_cursor_bind :: "'w sqlite \<Rightarrow> stmt option \<Rightarrow> param list \<Rightarrow> 'w dab \<Rightarrow> dab_status \<times> 'w dab" where
  "dab_cursor_bind q cursor ps s =
     (case cursor of
        None \<Rightarrow> (DAB_INVALID, s)
      | Some st \<Rightarrow> (case cursor_bind q st ps (world s) of (r, w) \<Rightarrow> (r, s\<lparr>world := w\<rparr>)))"

definition dab_exec :: "'w sqlite \<Rightarrow> thread \<Rightarrow> string option \<Rightarrow> param list \<Rightarrow> 'w dab \<Rightarrow> dab_status \<times> 'w dab" where
  "dab_exec q t sql ps s =
     (case sql of
        None \<Rightarrow> (DAB_INVALID, s)
      | Some x \<Rightarrow>
          let (r, st, s1) = sql_common q t x ps None s;
              (r', s2) = (if r \<noteq> DAB_OK then (r, s1)
                          else case st of
                            None \<Rightarrow> (DAB_FAIL, s1)
                          | Some st' \<Rightarrow> case sq_step q st' (world s1) of
                            (c, w) \<Rightarrow> (if c = SQLITE_DONE then DAB_OK else if c = SQLITE_ROW then DAB_UNEXPECTED else DAB_FAIL,
                                       s1\<lparr>world := w\<rparr>))
          in (r', case st of None \<Rightarrow> s2 | Some st' \<Rightarrow> s2\<lparr>world := snd (sq_finalize q st' (world s2))\<rparr>))"

definition dab_last_id :: "'w sqlite \<Rightarrow> thread \<Rightarrow> 'w dab \<Rightarrow> u64" where
  "dab_last_id q t s = (case DB_HANDLE t s of None \<Rightarrow> 0 | Some db \<Rightarrow> sq_last_rowid q db (world s))"

section \<open>Columns\<close>

text \<open>
  The variables that a row is fetched into, by type.  A C string is duplicated, up to its first zero.  A managed string is
  grown to the size of the column, which leaves no room for a terminating zero, the bytes of the column are copied, and its
  length is set; the process ends when it cannot be grown.  The managed strings of a row are different ones.
\<close>

datatype target = T_INT | T_UINT | T_SHRT | T_USHRT | T_LNG | T_ULNG | T_LLNG | T_ULLNG | T_CHR | T_UCHR | T_STR | T_USTR
  | T_FLT | T_DBL | T_SR sr

datatype fetched = F param | F_SR sr

definition strdup_text :: "(nat \<Rightarrow> bool) \<Rightarrow> string option \<Rightarrow> string option" where
  "strdup_text alloc t =
     (case t of
        None \<Rightarrow> None
      | Some x \<Rightarrow> (let y = takeWhile (\<lambda>c. c \<noteq> NUL) x in if alloc (Suc (length y)) then Some y else None))"

definition fetch_sr :: "(nat \<Rightarrow> bool) \<Rightarrow> sr \<Rightarrow> string \<Rightarrow> sr sr_result" where
  "fetch_sr alloc s content =
     (let n = word_of_nat (length content)
      in case sr_ensure_size alloc s n n of
           Ok d \<Rightarrow> if length content \<le> length (sr_val d)
                   then Ok (SETLEN (d\<lparr>sr_val := overwrite (sr_val d) 0 (map Some content)\<rparr>) n) else Undefined
         | r \<Rightarrow> r)"

fun fetch_value :: "(nat \<Rightarrow> bool) \<Rightarrow> 'w sqlite \<Rightarrow> stmt \<Rightarrow> nat \<Rightarrow> 'w \<Rightarrow> target \<Rightarrow> fetched sr_result" where
  "fetch_value alloc q st i w T_INT = Ok (F (P_INT (sq_column_int q st i w)))"
| "fetch_value alloc q st i w T_UINT = Ok (F (P_UINT (sq_column_int q st i w)))"
| "fetch_value alloc q st i w T_SHRT = Ok (F (P_SHRT (ucast (sq_column_int q st i w))))"
| "fetch_value alloc q st i w T_USHRT = Ok (F (P_USHRT (ucast (sq_column_int q st i w))))"
| "fetch_value alloc q st i w T_LNG = Ok (F (P_LNG (sq_column_int64 q st i w)))"
| "fetch_value alloc q st i w T_ULNG = Ok (F (P_ULNG (sq_column_int64 q st i w)))"
| "fetch_value alloc q st i w T_LLNG = Ok (F (P_LLNG (sq_column_int64 q st i w)))"
| "fetch_value alloc q st i w T_ULLNG = Ok (F (P_ULLNG (sq_column_int64 q st i w)))"
| "fetch_value alloc q st i w T_CHR = Ok (F (P_CHR (ucast (sq_column_int q st i w))))"
| "fetch_value alloc q st i w T_UCHR = Ok (F (P_UCHR (ucast (sq_column_int q st i w))))"
| "fetch_value alloc q st i w T_STR = Ok (F (P_STR (strdup_text alloc (sq_column_text q st i w))))"
| "fetch_value alloc q st i w T_USTR = Ok (F (P_USTR (strdup_text alloc (sq_column_text q st i w))))"
| "fetch_value alloc q st i w T_FLT = Ok (F (P_FLT (sq_narrow q (sq_column_double q st i w))))"
| "fetch_value alloc q st i w T_DBL = Ok (F (P_DBL (sq_column_double q st i w)))"
| "fetch_value alloc q st i w (T_SR d) =
     (case fetch_sr alloc d (sq_column_blob q st i w) of
        Ok d' \<Rightarrow> Ok (F_SR d') | Exit_Failure \<Rightarrow> Exit_Failure | Undefined \<Rightarrow> Undefined)"

fun fetch_row :: "(nat \<Rightarrow> bool) \<Rightarrow> 'w sqlite \<Rightarrow> stmt \<Rightarrow> nat \<Rightarrow> 'w \<Rightarrow> target list \<Rightarrow> fetched list sr_result" where
  "fetch_row alloc q st i w [] = Ok []"
| "fetch_row alloc q st i w (ty # ts) =
     (case fetch_value alloc q st i w ty of
        Ok v \<Rightarrow>
          (case fetch_row alloc q st (Suc i) w ts of
             Ok vs \<Rightarrow> Ok (v # vs) | Exit_Failure \<Rightarrow> Exit_Failure | Undefined \<Rightarrow> Undefined)
      | Exit_Failure \<Rightarrow> Exit_Failure
      | Undefined \<Rightarrow> Undefined)"

definition dab_cursor_fetch ::
    "(nat \<Rightarrow> bool) \<Rightarrow> 'w sqlite \<Rightarrow> stmt option \<Rightarrow> target list \<Rightarrow> 'w dab \<Rightarrow> (dab_status \<times> fetched list \<times> 'w dab) sr_result" where
  "dab_cursor_fetch alloc q cursor ts s =
     (case cursor of
        None \<Rightarrow> Ok (DAB_INVALID, [], s)
      | Some st \<Rightarrow>
          (case sq_step q st (world s) of
             (c, w) \<Rightarrow>
               let s1 = s\<lparr>world := w\<rparr>
               in if c = SQLITE_DONE then Ok (DAB_NO_DATA, [], s1)
                  else if c \<noteq> SQLITE_ROW then Ok (DAB_FAIL, [], s1)
                  else
                    (case fetch_row alloc q st 0 w ts of
                       Ok vs \<Rightarrow> Ok (DAB_OK, vs, s1) | Exit_Failure \<Rightarrow> Exit_Failure | Undefined \<Rightarrow> Undefined)))"

definition dab_cursor_reset :: "'w sqlite \<Rightarrow> stmt option \<Rightarrow> 'w dab \<Rightarrow> dab_status \<times> 'w dab" where
  "dab_cursor_reset q cursor s =
     (case cursor of
        None \<Rightarrow> (DAB_INVALID, s)
      | Some st \<Rightarrow>
          (case sq_reset q st (world s) of
             (c, w) \<Rightarrow>
               if c \<noteq> SQLITE_OK then (DAB_FAIL, s\<lparr>world := w\<rparr>)
               else case sq_clear q st w of (c', w') \<Rightarrow> (if c' = SQLITE_OK then DAB_OK else DAB_FAIL, s\<lparr>world := w'\<rparr>)))"

definition dab_cursor_free :: "'w sqlite \<Rightarrow> stmt option \<Rightarrow> 'w dab \<Rightarrow> dab_status \<times> 'w dab" where
  "dab_cursor_free q cursor s =
     (case cursor of
        None \<Rightarrow> (DAB_INVALID, s)
      | Some st \<Rightarrow> (case sq_finalize q st (world s) of (c, w) \<Rightarrow> (if c = SQLITE_OK then DAB_OK else DAB_FAIL, s\<lparr>world := w\<rparr>)))"


section \<open>What is bound is fetched\<close>

text \<open>
  A column with a value, as the functions for columns are documented: integers are cut to the size asked for, and the bytes of
  a text are given as they were bound, zeros included.
\<close>

definition column_holds :: "'w sqlite \<Rightarrow> stmt \<Rightarrow> nat \<Rightarrow> 'w \<Rightarrow> sval \<Rightarrow> bool" where
  "column_holds q st i w v \<longleftrightarrow> (case v of
     SInt n \<Rightarrow> sq_column_int q st i w = word_of_int n \<and> sq_column_int64 q st i w = word_of_int n
   | SText t \<Rightarrow> sq_column_text q st i w = Some t \<and> sq_column_blob q st i w = t
   | SDouble d \<Rightarrow> sq_column_double q st i w = d
   | SNull \<Rightarrow> sq_column_text q st i w = None)"

text \<open>
  A variable of the type of an argument.  The argument is a value of its type: a C string has no zero, and a managed string is
  shorter than \<open>2 ^ 31\<close>, as its length is passed as an \<^verbatim>\<open>int\<close>.
\<close>

fun same_type :: "param \<Rightarrow> target \<Rightarrow> bool" where
  "same_type (P_INT _) ty = (ty = T_INT)" | "same_type (P_SHRT _) ty = (ty = T_SHRT)" | "same_type (P_CHR _) ty = (ty = T_CHR)"
| "same_type (P_UINT _) ty = (ty = T_UINT)" | "same_type (P_USHRT _) ty = (ty = T_USHRT)"
| "same_type (P_UCHR _) ty = (ty = T_UCHR)" | "same_type (P_LNG _) ty = (ty = T_LNG)"
| "same_type (P_ULNG _) ty = (ty = T_ULNG)" | "same_type (P_LLNG _) ty = (ty = T_LLNG)"
| "same_type (P_ULLNG _) ty = (ty = T_ULLNG)"
| "same_type (P_STR t) ty = (ty = T_STR \<and> (\<forall>x. t = Some x \<longrightarrow> NUL \<notin> set x))"
| "same_type (P_USTR t) ty = (ty = T_USTR \<and> (\<forall>x. t = Some x \<longrightarrow> NUL \<notin> set x))"
| "same_type (P_FLT _) ty = (ty = T_FLT)" | "same_type (P_DBL _) ty = (ty = T_DBL)"
| "same_type (P_SR t) ty = (length t < 2 ^ 31 \<and> (\<exists>d. ty = T_SR d \<and> length (sr_val d) = unat (sr_size d)))"

text \<open>A variable has the value of an argument; a managed string has its length and its bytes.\<close>

fun has_value :: "param \<Rightarrow> fetched \<Rightarrow> bool" where
  "has_value (P_SR t) v = (\<exists>d. v = F_SR d \<and> unat (sr_len d) = length t \<and> take (length t) (sr_val d) = map Some t)"
| "has_value p v = (v = F p)"

lemma narrow_back [simp]:
  "ucast (scast (w :: 16 word) :: 32 word) = w" "ucast (ucast (w :: 16 word) :: 32 word) = w"
  "ucast (scast (b :: 8 word) :: 32 word) = b" "ucast (ucast (b :: 8 word) :: 32 word) = b"
  by (rule bit_word_eqI, simp add: bit_simps min_def, (intro impI arg_cong2 [where f = bit] refl, linarith)?)+

lemma strdup_no_zero: "NUL \<notin> set x \<Longrightarrow> \<forall>n. alloc n \<Longrightarrow> strdup_text alloc (Some x) = Some x"
  by (simp add: strdup_text_def) (metis takeWhile_eq_all_conv)

lemma ensure_size_grows:
  assumes "\<forall>n. alloc n" "length (sr_val d) = unat (sr_size d)"
  shows "\<exists>d'. sr_ensure_size alloc d n g = Ok d' \<and> unat n \<le> length (sr_val d')"
  using assms by (auto simp: sr_ensure_size_def word_less_nat_alt Let_def)

lemma fetch_sr_value:
  assumes "\<forall>n. alloc n" "length (sr_val d) = unat (sr_size d)" "length t < 2 ^ 31"
  shows "\<exists>d'. fetch_sr alloc d t = Ok d' \<and> unat (sr_len d') = length t \<and> take (length t) (sr_val d') = map Some t"
proof -
  let ?n = "word_of_nat (length t) :: u64"
  have n: "unat ?n = length t" using assms(3) by (intro length_word) simp
  obtain d' where "sr_ensure_size alloc d ?n ?n = Ok d'" "length t \<le> length (sr_val d')"
    using ensure_size_grows [OF assms(1,2), of ?n ?n] n by auto
  then show ?thesis using n by (simp add: fetch_sr_def SETLEN_def overwrite_def Let_def)
qed

lemma fetch_bound:
  assumes holds: "column_holds q st i w (bind_value q p)" and floats: "\<forall>f. sq_narrow q (sq_widen q f) = f"
    and ty: "same_type p ty" and mem: "\<forall>n. alloc n"
  shows "\<exists>v. fetch_value alloc q st i w ty = Ok v \<and> has_value p v"
proof (cases "\<exists>t. p = P_SR t")
  case True
  then obtain t d where d: "p = P_SR t" "length t < 2 ^ 31" "ty = T_SR d" "length (sr_val d) = unat (sr_size d)" using ty by auto
  then show ?thesis
    using fetch_sr_value [OF mem d(4,2)] holds by (auto simp: column_holds_def)
next
  case False
  then show ?thesis
    using holds floats ty mem
    by (cases p) (auto simp: column_holds_def strdup_no_zero strdup_text_def split: option.splits)
qed

lemma fetch_row_bound:
  assumes "\<forall>f. sq_narrow q (sq_widen q f) = f" "\<forall>n. alloc n"
  shows "list_all2 same_type ps ts \<Longrightarrow> (\<And>i. i < length ps \<Longrightarrow> column_holds q st (n + i) w (bind_value q (ps ! i))) \<Longrightarrow>
    \<exists>vs. fetch_row alloc q st n w ts = Ok vs \<and> list_all2 has_value ps vs"
proof (induction ps ts arbitrary: n rule: list_all2_induct)
  case (Cons p ps ty ts)
  obtain v where v: "fetch_value alloc q st n w ty = Ok v" "has_value p v"
    using fetch_bound [OF _ assms(1) Cons.hyps(1) assms(2), of st n w] Cons.prems [of 0] by auto
  obtain vs where "fetch_row alloc q st (Suc n) w ts = Ok vs" "list_all2 has_value ps vs"
    using Cons.IH [of "Suc n"] Cons.prems [of "Suc i" for i] by auto
  then show ?case using v by simp
qed simp

text \<open>
  C12. A row whose columns hold the values bound for some parameters, of whatever types, is fetched into variables of the
  same types with exactly the values of the parameters: unsigned values that were passed as signed ones, narrow types, null
  pointers, and managed strings, which keep their length and all of their bytes, zeros included.  C strings have no zeros,
  managed strings are shorter than \<open>2 ^ 31\<close>, and memory does not run out.
\<close>

theorem row_round_trip:
  assumes "sq_step q st (world s) = (SQLITE_ROW, w)" "\<forall>f. sq_narrow q (sq_widen q f) = f" "\<forall>n. alloc n"
    and "list_all2 same_type ps ts"
    and "\<And>i. i < length ps \<Longrightarrow> column_holds q st i w (bind_value q (ps ! i))"
  shows "\<exists>vs. dab_cursor_fetch alloc q (Some st) ts s = Ok (DAB_OK, vs, s\<lparr>world := w\<rparr>) \<and> list_all2 has_value ps vs"
  using fetch_row_bound [OF assms(2-4), where n = 0 and st = st and w = w] assms(1,5) by (auto simp: dab_cursor_fetch_def)

text \<open>
  An \<^verbatim>\<open>unsigned int\<close> is stored as a signed number: from \<open>2 ^ 31\<close> on a 64-bit variable gets another value back.
\<close>

theorem uint_sign_extended:
  assumes "column_holds q st i w (bind_value q (P_UINT x))"
  shows "fetch_value alloc q st i w T_ULNG = Ok (F (P_ULNG (scast x)))" "(scast (0x80000000 :: 32 word) :: u64) = 0xFFFFFFFF80000000"
  using assms by (simp_all add: column_holds_def)

section \<open>Binding\<close>

text \<open>
  When \<^verbatim>\<open>cursor_bind\<close> succeeds, every placeholder of the statement has the value of its argument: there are as many
  arguments as placeholders, and the \<open>i\<close>th is bound to the \<open>i\<close>th argument.  (\<open>bound\<close> are the bindings of a statement, which
  \<^verbatim>\<open>sqlite3_bind\<close> updates; the number of placeholders does not change.)
\<close>

theorem cursor_bind_exact:
  assumes bind: "\<And>st k v w w'. sq_bind q st k v w = (SQLITE_OK, w') \<Longrightarrow> bound w' st = (bound w st)(k \<mapsto> v)"
    and run: "cursor_bind q st ps w = (DAB_OK, w')"
  shows "length ps = sq_param_count q st w' \<and> (\<forall>i < length ps. bound w' st (Suc i) = Some (bind_value q (ps ! i)))"
proof -
  have "length ps + n = sq_param_count q st w' \<and>
      (\<forall>i < length ps. bound w' st (Suc (n + i)) = Some (bind_value q (ps ! i))) \<and> (\<forall>k \<le> n. bound w' st k = bound w st k)"
    if "cursor_bind_from q st n ps w = (DAB_OK, w')" for n w
    using that
  proof (induction ps arbitrary: n w)
    case (Cons p ps)
    obtain c w1 where b: "sq_bind q st (Suc n) (bind_value q p) w = (c, w1)" by fastforce
    then have c: "c = SQLITE_OK" "cursor_bind_from q st (Suc n) ps w1 = (DAB_OK, w')" using Cons.prems by (simp_all split: if_splits)
    note IH = Cons.IH [OF c(2)]
    have w1: "bound w1 st = (bound w st)(Suc n \<mapsto> bind_value q p)" using bind b c(1) by simp
    have "bound w' st (Suc (n + i)) = Some (bind_value q ((p # ps) ! i))" if "i < length (p # ps)" for i
      using IH w1 that by (cases i) auto
    then show ?case using IH w1 by auto
  qed (simp split: if_splits)
  from this [of 0 w] show ?thesis using run by (simp add: cursor_bind_def)
qed


section \<open>Closing ends\<close>

text \<open>
  What SQLite documents about the statements of a handle: the next one is one of them, finalising removes it, and a handle
  is closed exactly when no statement is left.
\<close>

definition keeps_stmts :: "'w sqlite \<Rightarrow> handle \<Rightarrow> ('w \<Rightarrow> stmt list) \<Rightarrow> bool" where
  "keeps_stmts q db stmts \<longleftrightarrow>
     (\<forall>w. sq_next_stmt q db w = (if stmts w = [] then None else Some (hd (stmts w)))) \<and>
     (\<forall>st w. stmts (snd (sq_finalize q st w)) = remove1 st (stmts w)) \<and>
     (\<forall>w. fst (sq_close q db w) = SQLITE_OK \<longleftrightarrow> stmts w = [])"

lemma finalize_all_ends:
  assumes "keeps_stmts q db stmts"
  shows "\<exists>w'. finalize_all q db w = Some w' \<and> stmts w' = []"
proof (induction "length (stmts w)" arbitrary: w)
  case 0
  then show ?case using assms by (subst finalize_all.simps) (simp add: keeps_stmts_def)
next
  case (Suc n)
  let ?st = "hd (stmts w)"
  have ne: "stmts w \<noteq> []" using Suc.hyps(2) by auto
  have "stmts (snd (sq_finalize q ?st w)) = tl (stmts w)" using assms ne by (cases "stmts w") (simp_all add: keeps_stmts_def)
  then have "n = length (stmts (snd (sq_finalize q ?st w)))" using Suc.hyps(2) by simp
  from Suc.hyps(1) [OF this] show ?case
    using assms ne by (subst finalize_all.simps) (simp add: keeps_stmts_def)
qed

lemma thread_db_world [simp]: "thread_db (s\<lparr>world := w\<rparr>) = thread_db s"
  by (simp add: thread_db_def fun_eq_iff)

lemma thread_db_set [simp]: "thread_db (set_thread_db t h s) = (thread_db s)(t := h)" "threads (set_thread_db t h s) = threads s"
  by (simp_all add: thread_db_def set_thread_db_def fun_eq_iff)

lemma run_sql_handles: "threads (snd (run_sql q t sql s)) = threads s" "thread_db (snd (run_sql q t sql s)) = thread_db s"
  "global_db (snd (run_sql q t sql s)) = global_db s"
  by (simp_all add: run_sql_def case_prod_beta split: option.split)

text \<open>
  C13. Closing a database at once always ends and succeeds, whatever statements were left open and whether or not a
  transaction was open: the statements are finalised, the handle is closed, and the thread has no database afterwards.
\<close>

theorem dab_close_ends:
  assumes "DB_HANDLE t s = Some db" "keeps_stmts q db stmts" "\<not> has_flag flag DAB_FLAG_GRACEFUL" "sq_setspecific q"
  shows "\<exists>s'. dab_close q t flag s = Some (DAB_OK, s') \<and> DB_HANDLE t s' = None"
proof -
  define s1 where "s1 = (if \<not> sq_autocommit q db (world s) then snd (dab_rollback q t s) else s)"
  have same: "threads s1 = threads s" "thread_db s1 = thread_db s" "global_db s1 = global_db s"
    by (simp_all add: s1_def dab_rollback_def run_sql_handles)
  obtain w where w: "finalize_all q db (world s1) = Some w" "stmts w = []" using finalize_all_ends [OF assms(2)] by blast
  then have "fst (sq_close q db w) = SQLITE_OK" using assms(2) by (simp add: keeps_stmts_def)
  then have "close_now q t db s = Some (SQLITE_OK, s1\<lparr>world := snd (sq_close q db w)\<rparr>)"
    using w unfolding close_now_def s1_def [symmetric] by (simp add: Let_def case_prod_beta)
  then show ?thesis
    using assms same by (auto simp: dab_close_def DB_HANDLE_def split: if_splits)
qed

section \<open>Threads\<close>

text \<open>What a thread can do to the state: the calls that use a database, and those that open and close one.\<close>

inductive dab_use :: "'w sqlite \<Rightarrow> thread \<Rightarrow> 'w dab \<Rightarrow> 'w dab \<Rightarrow> bool" for q t where
  "dab_use q t s (snd (dab_exec q t sql ps s))"
| "dab_use q t s (snd (snd (dab_cursor_open q t sql ps c s)))"
| "dab_use q t s (snd (snd (dab_cursor_prepare q t sql c s)))"
| "dab_use q t s (snd (dab_cursor_bind q c ps s))"
| "dab_cursor_fetch alloc q c ts s = Ok (r, vs, s') \<Longrightarrow> dab_use q t s s'"
| "dab_use q t s (snd (dab_cursor_reset q c s))"
| "dab_use q t s (snd (dab_cursor_free q c s))"
| "dab_use q t s (snd (dab_begin q t s))"
| "dab_use q t s (snd (dab_commit q t s))"
| "dab_use q t s (snd (dab_rollback q t s))"

inductive dab_call :: "'w sqlite \<Rightarrow> thread \<Rightarrow> 'w dab \<Rightarrow> 'w dab \<Rightarrow> bool" for q t where
  opens: "dab_call q t s (snd (dab_open q t name flags s))"
| closes: "dab_close q t flags s = Some (r, s') \<Longrightarrow> dab_call q t s s'"
| uses: "dab_use q t s s' \<Longrightarrow> dab_call q t s s'"

text \<open>Any calls of other threads than \<open>t\<close>, and uses of its database by \<open>t\<close>, in any order.\<close>

inductive others_run :: "'w sqlite \<Rightarrow> thread \<Rightarrow> 'w dab \<Rightarrow> 'w dab \<Rightarrow> bool" for q t where
  none: "others_run q t s s"
| call: "others_run q t s s' \<Longrightarrow> u \<noteq> t \<Longrightarrow> dab_call q u s' s'' \<Longrightarrow> others_run q t s s''"
| own: "others_run q t s s' \<Longrightarrow> dab_use q t s' s'' \<Longrightarrow> others_run q t s s''"

lemma sql_common_handles: "threads (snd (snd (sql_common q t x ps c s))) = threads s"
  "thread_db (snd (snd (sql_common q t x ps c s))) = thread_db s"
  by (simp_all add: sql_common_def case_prod_beta split: option.split)

lemma dab_exec_handles: "threads (snd (dab_exec q t sql ps s)) = threads s" "thread_db (snd (dab_exec q t sql ps s)) = thread_db s"
  by (simp_all add: dab_exec_def case_prod_beta Let_def sql_common_handles split: option.split)

lemma dab_open_handles:
  assumes "threads s"
  shows "threads (snd (dab_open q t name flags s)) \<and> (\<forall>u. u \<noteq> t \<longrightarrow> thread_db (snd (dab_open q t name flags s)) u = thread_db s u)"
  using assms by (simp add: dab_open_def enable_threads_def case_prod_beta Let_def split: option.split)

lemma dab_close_handles:
  assumes "dab_close q t flags s = Some (r, s')" "threads s"
  shows "threads s' \<and> (\<forall>u. u \<noteq> t \<longrightarrow> thread_db s' u = thread_db s u)"
proof (cases "DB_HANDLE t s")
  case None
  then show ?thesis using assms by (simp add: dab_close_def)
next
  case (Some db)
  have now: "threads s1 \<and> thread_db s1 = thread_db s" if "close_now q t db s = Some (c, s1)" for c s1
    using that assms(2) run_sql_handles [of q t "''ROLLBACK''" s]
    by (auto simp: close_now_def dab_rollback_def Let_def split: option.splits prod.splits if_splits)
  show ?thesis
    using assms Some by (auto simp: dab_close_def case_prod_beta dest!: now split: if_splits option.splits)
qed

lemma dab_use_handles:
  "dab_use q t s s' \<Longrightarrow> threads s' = threads s \<and> thread_db s' = thread_db s"
  by (induction rule: dab_use.induct)
    (auto simp: dab_exec_handles dab_cursor_open_def sql_common_handles dab_cursor_prepare_def dab_cursor_bind_def
      dab_cursor_fetch_def dab_cursor_reset_def dab_cursor_free_def dab_begin_def dab_commit_def dab_rollback_def
      run_sql_handles case_prod_beta Let_def split: option.splits if_splits sr_result.splits)

lemma dab_call_handles:
  assumes "dab_call q u s s'" "threads s"
  shows "threads s' \<and> (\<forall>t. t \<noteq> u \<longrightarrow> thread_db s' t = thread_db s t)"
  using assms
proof cases
  case (closes flags r)
  then show ?thesis using dab_close_handles assms(2) by blast
qed (use assms(2) dab_use_handles in \<open>auto simp: dab_open_handles\<close>)

lemma others_run_handles:
  "others_run q t s s' \<Longrightarrow> threads s \<Longrightarrow> threads s' \<and> thread_db s' t = thread_db s t"
proof (induction rule: others_run.induct)
  case (call s s' u s'')
  then show ?case using dab_call_handles [OF call.hyps(3)] by auto
next
  case (own s s' s'')
  then show ?case using dab_use_handles [OF own.hyps(2)] by auto
qed simp

lemma dab_open_opens:
  assumes "dab_open q t (Some name) flags s = (DAB_OK, s1)" "has_flag flags DAB_FLAG_THREADS"
  shows "threads s1 \<and> thread_db s1 t =
    Some (fst (snd (sq_open q name (sqlite_flags flags) (world (snd (enable_threads q flags s))))))"
proof -
  obtain s0 where e: "enable_threads q flags s = (None, s0)"
    using assms(1) by (auto simp: dab_open_def enable_threads_def case_prod_beta Let_def split: if_splits)
  then have "threads s0" using assms(2) by (auto simp: enable_threads_def Let_def case_prod_beta split: if_splits)
  then show ?thesis
    using assms(1) e by (auto simp: dab_open_def Let_def case_prod_beta split: if_splits)
qed

text \<open>
  C14. A thread that has opened a database with a handle per thread keeps exactly the handle that SQLite gave it, whatever the
  other threads do, opening (also for the first time, or once more with threads asked for) and closing included, and whatever
  statements and transactions it runs itself.
\<close>

theorem thread_handle_kept:
  assumes "dab_open q t (Some name) flags s = (DAB_OK, s1)" "has_flag flags DAB_FLAG_THREADS" "others_run q t s1 s2"
  shows "DB_HANDLE t s2 = Some (fst (snd (sq_open q name (sqlite_flags flags) (world (snd (enable_threads q flags s))))))"
  using others_run_handles [OF assms(3)] dab_open_opens [OF assms(1,2)] by (simp add: DB_HANDLE_def)


section \<open>An instance\<close>

text \<open>
  A database on which every statement is \<^verbatim>\<open>SELECT ?, ?\<close>: it returns the row of its parameters.  The state has the open
  statements, whether a transaction is open, and the bindings.
\<close>

record mini =
  mi_stmts :: "stmt list"
  mi_tx :: bool
  mi_bound :: "stmt \<Rightarrow> nat \<rightharpoonup> sval"

definition mini_sqlite :: "mini sqlite" where
  "mini_sqlite = \<lparr>sq_threadsafe = True, sq_multithread = (\<lambda>w. (SQLITE_OK, w)), sq_open = (\<lambda>_ _ w. (SQLITE_OK, 1, w)),
     sq_close = (\<lambda>_ w. (if mi_stmts w = [] then SQLITE_OK else SQLITE_OTHER, w)), sq_close_v2 = (\<lambda>_ w. (SQLITE_OK, w)),
     sq_autocommit = (\<lambda>_ w. \<not> mi_tx w), sq_exec = (\<lambda>_ sql w. (SQLITE_OK, w\<lparr>mi_tx := (sql = ''BEGIN TRANSACTION'')\<rparr>)),
     sq_next_stmt = (\<lambda>_ w. if mi_stmts w = [] then None else Some (hd (mi_stmts w))),
     sq_finalize = (\<lambda>st w. (SQLITE_OK, w\<lparr>mi_stmts := remove1 st (mi_stmts w)\<rparr>)),
     sq_prepare = (\<lambda>_ _ w. let st = Suc (sum_list (mi_stmts w)) in (SQLITE_OK, Some st, w\<lparr>mi_stmts := mi_stmts w @ [st]\<rparr>)),
     sq_bind = (\<lambda>st k v w. (SQLITE_OK, w\<lparr>mi_bound := (mi_bound w)(st := (mi_bound w st)(k \<mapsto> v))\<rparr>)),
     sq_param_count = (\<lambda>_ _. 2), sq_step = (\<lambda>_ w. (SQLITE_ROW, w)), sq_reset = (\<lambda>_ w. (SQLITE_OK, w)),
     sq_clear = (\<lambda>st w. (SQLITE_OK, w\<lparr>mi_bound := (mi_bound w)(st := Map.empty)\<rparr>)),
     sq_column_int = (\<lambda>st i w. case mi_bound w st (Suc i) of Some (SInt n) \<Rightarrow> word_of_int n | _ \<Rightarrow> 0),
     sq_column_int64 = (\<lambda>st i w. case mi_bound w st (Suc i) of Some (SInt n) \<Rightarrow> word_of_int n | _ \<Rightarrow> 0),
     sq_column_text = (\<lambda>st i w. case mi_bound w st (Suc i) of Some (SText t) \<Rightarrow> Some t | _ \<Rightarrow> None),
     sq_column_double = (\<lambda>st i w. case mi_bound w st (Suc i) of Some (SDouble d) \<Rightarrow> d | _ \<Rightarrow> 0),
     sq_column_blob = (\<lambda>st i w. case mi_bound w st (Suc i) of Some (SText t) \<Rightarrow> t | _ \<Rightarrow> []),
     sq_last_rowid = (\<lambda>_ _. 0), sq_changes = (\<lambda>_ _. 0), sq_key_create = True,
     sq_setspecific = True, sq_widen = ucast, sq_narrow = ucast\<rparr>"

lemma mini_column: "mi_bound w st (Suc i) = Some v \<Longrightarrow> column_holds mini_sqlite st i w v"
  by (simp add: column_holds_def mini_sqlite_def split: sval.split)

lemma mini_floats: "sq_narrow mini_sqlite (sq_widen mini_sqlite f) = f"
  by (simp add: mini_sqlite_def) (rule bit_word_eqI, simp add: bit_simps)

lemma mini_bind:
  "sq_bind mini_sqlite st k v w = (SQLITE_OK, w') \<Longrightarrow> mi_bound w' st = (mi_bound w st)(k \<mapsto> v)"
  by (auto simp: mini_sqlite_def)

definition mini_start :: "mini dab" where
  "mini_start = \<lparr>threads = True, thread_key = 0, keys = 1, specific = (\<lambda>_ _. Some 1), global_db = None,
     world = \<lparr>mi_stmts = [3, 4], mi_tx = True, mi_bound = (\<lambda>_. [1 \<mapsto> SInt (- 1), 2 \<mapsto> SText [CHR ''x'', NUL]])\<rparr>\<rparr>"

theorem row_round_trip_witness:
  "\<exists>vs. dab_cursor_fetch (\<lambda>_. True) mini_sqlite (Some 3) [T_UINT, T_SR \<lparr>sr_val = [None], sr_size = 1, sr_len = 0\<rparr>] mini_start =
     Ok (DAB_OK, vs, mini_start) \<and> list_all2 has_value [P_UINT (- 1), P_SR [CHR ''x'', NUL]] vs"
proof -
  let ?ps = "[P_UINT (- 1), P_SR [CHR ''x'', NUL]]" and ?ts = "[T_UINT, T_SR \<lparr>sr_val = [None], sr_size = 1, sr_len = 0\<rparr>]"
  have "column_holds mini_sqlite 3 i (world mini_start) (bind_value mini_sqlite (?ps ! i))" if "i < length ?ps" for i
    using that by (cases i) (auto simp: mini_start_def intro!: mini_column)
  moreover have "sq_step mini_sqlite 3 (world mini_start) = (SQLITE_ROW, world mini_start)" by (simp add: mini_sqlite_def)
  ultimately show ?thesis
    using row_round_trip [of mini_sqlite 3 mini_start "world mini_start" "\<lambda>_. True" ?ps ?ts] mini_floats by simp
qed

theorem cursor_bind_exact_witness:
  "\<exists>w'. cursor_bind mini_sqlite 3 [P_INT 5, P_SR ''y''] (world mini_start) = (DAB_OK, w') \<and> mi_bound w' 3 1 = Some (SInt 5) \<and>
     mi_bound w' 3 2 = Some (SText ''y'')"
proof -
  obtain w' where w: "cursor_bind mini_sqlite 3 [P_INT 5, P_SR ''y''] (world mini_start) = (DAB_OK, w')"
    by (simp add: cursor_bind_def mini_sqlite_def)
  have "length [P_INT 5, P_SR ''y''] = sq_param_count mini_sqlite 3 w' \<and> (\<forall>i < length [P_INT 5, P_SR ''y''].
      mi_bound w' 3 (Suc i) = Some (bind_value mini_sqlite ([P_INT 5, P_SR ''y''] ! i)))"
    by (rule cursor_bind_exact [where bound = mi_bound, OF mini_bind w])
  then have "mi_bound w' 3 (Suc i) = Some (bind_value mini_sqlite ([P_INT 5, P_SR ''y''] ! i))" if "i < 2" for i
    using that by simp
  from this [of 0] this [of 1] show ?thesis using w by (simp add: numeral_2_eq_2)
qed

lemma mini_keeps: "keeps_stmts mini_sqlite db mi_stmts"
  by (simp add: keeps_stmts_def mini_sqlite_def)

theorem dab_close_ends_witness:
  "\<exists>s'. dab_close mini_sqlite 7 0 mini_start = Some (DAB_OK, s') \<and> DB_HANDLE 7 s' = None"
proof (rule dab_close_ends [OF _ mini_keeps])
  show "DB_HANDLE 7 mini_start = Some 1" by (simp add: DB_HANDLE_def thread_db_def mini_start_def)
qed (simp_all add: has_flag_def mini_sqlite_def)

theorem thread_handle_kept_witness:
  "DB_HANDLE 9 (snd (dab_open mini_sqlite 8 (Some ''b.fr'') 8 (snd (dab_commit mini_sqlite 9
     (snd (dab_open mini_sqlite 9 (Some ''a.fr'') 8 (mini_start\<lparr>threads := False\<rparr>))))))) = Some 1"
proof -
  let ?s = "mini_start\<lparr>threads := False\<rparr>"
  let ?s1 = "snd (dab_open mini_sqlite 9 (Some ''a.fr'') 8 ?s)"
  have "others_run mini_sqlite 9 ?s1 (snd (dab_commit mini_sqlite 9 ?s1))"
    by (rule others_run.own [OF others_run.none]) (rule dab_use.intros)
  then have run: "others_run mini_sqlite 9 ?s1 (snd (dab_open mini_sqlite 8 (Some ''b.fr'') 8 (snd (dab_commit mini_sqlite 9 ?s1))))"
    by (rule others_run.call [of _ _ _ _ 8]) (auto intro: dab_call.intros)
  have "dab_open mini_sqlite 9 (Some ''a.fr'') 8 ?s = (DAB_OK, ?s1)"
    by (simp add: dab_open_def enable_threads_def mini_sqlite_def Let_def)
  from thread_handle_kept [OF this _ run] show ?thesis
    by (simp add: has_flag_def DAB_FLAG_THREADS_def mini_sqlite_def)
qed

section \<open>Fetching into a managed string\<close>

text \<open>
  No zero is written after the bytes of the column: when it fills the string or makes it grow, and has no zeros itself, the
  string is not terminated, and to use it as a C string reads beyond what was written.
\<close>

lemma strlen_unwritten: "NUL \<notin> set t \<Longrightarrow> strlen (map Some t @ replicate k None) = None"
proof (induction t)
  case Nil
  then show ?case by (cases k) simp_all
qed auto

theorem fetch_sr_unterminated:
  assumes s: "sr_holds s t" and n: "unat (sr_size s) \<le> length content" "length content + unat (sr_size s) < 2 ^ 64"
    and nul: "NUL \<notin> set content" and mem: "\<forall>n. alloc n"
  shows "\<exists>d. fetch_sr alloc s content = Ok d \<and> unat (sr_len d) = length content \<and> strlen (sr_val d) = None"
proof -
  let ?n = "word_of_nat (length content) :: u64"
  have un: "unat ?n = length content" using n(2) by (intro length_word) simp
  have len: "length (sr_val s) = unat (sr_size s)" using s by (simp add: sr_holds_def)
  show ?thesis
  proof (cases "unat (sr_size s) = length content")
    case True
    then have "\<not> sr_size s < ?n" using un by (simp add: word_less_nat_alt)
    then have "fetch_sr alloc s content = Ok (s\<lparr>sr_val := map Some content, sr_len := ?n\<rparr>)"
      using True len by (simp add: fetch_sr_def sr_ensure_size_def SETLEN_def overwrite_def Let_def)
    then show ?thesis using un strlen_unwritten [OF nul, of 0] by simp
  next
    case False
    have sum: "unat (sr_size s + ?n) = unat (sr_size s) + length content" using un n(2) by (simp add: unat_word_ariths)
    have "0 < unat (sr_size s)" using s by (simp add: sr_holds_def)
    then have "?n < sr_size s + ?n" "sr_size s < ?n" using sum un n(1) False by (simp_all add: word_less_nat_alt)
    then have "sr_ensure_size alloc s ?n ?n = Ok (s\<lparr>sr_val := sr_val s @ replicate (length content) None, sr_size := sr_size s + ?n\<rparr>)"
      using mem sum len by (simp add: sr_ensure_size_def)
    then have "fetch_sr alloc s content = Ok (s\<lparr>sr_val := map Some content @ replicate (unat (sr_size s)) None,
        sr_size := sr_size s + ?n, sr_len := ?n\<rparr>)"
      using len n(1) by (simp add: fetch_sr_def SETLEN_def overwrite_def Let_def)
    then show ?thesis using un strlen_unwritten [OF nul] by simp
  qed
qed

end
