(* ===== verification/Type_Names.thy ===== *)
theory Type_Names
  imports Inspect Stingray
begin

text \<open>
  The name of a type as \<^verbatim>\<open>type_name\<close> of \<^verbatim>\<open>examine/vars.c\<close> builds it in a managed string, row by row, and that it is the
  text the theory of inspection works with.
\<close>

section \<open>The code\<close>

text \<open>One row of the query: the \<^verbatim>\<open>switch\<close> in the loop.\<close>

definition add_part :: "(nat \<Rightarrow> bool) \<Rightarrow> sr \<Rightarrow> type_row \<Rightarrow> sr sr_result" where
  "add_part alloc res t =
     (case kind_of (word_of_int (ty_flags t)) of
        TKIND_POINTER \<Rightarrow> STRCAT alloc res ''*''
      | TKIND_STRUCT \<Rightarrow> sr_concat alloc res [GEN_STR (c_memory ''struct ''), GEN_STR (c_memory (ty_name t))]
      | TKIND_UNION \<Rightarrow> sr_concat alloc res [GEN_STR (c_memory ''union ''), GEN_STR (c_memory (ty_name t))]
      | TKIND_ARRAY \<Rightarrow> STRCAT alloc res ''[]''
      | TKIND_SIGNED \<Rightarrow> STRCAT alloc res (ty_name t)
      | TKIND_UNSIGNED \<Rightarrow> STRCAT alloc res (ty_name t)
      | TKIND_FLOAT \<Rightarrow> STRCAT alloc res (ty_name t)
      | TKIND_ALIAS \<Rightarrow> STRCAT alloc res (ty_name t)
      | _ \<Rightarrow> Ok res)"

fun add_parts :: "(nat \<Rightarrow> bool) \<Rightarrow> sr \<Rightarrow> type_row list \<Rightarrow> sr sr_result" where
  "add_parts alloc res [] = Ok res"
| "add_parts alloc res (t # ts) = (case add_part alloc res t of Ok res' \<Rightarrow> add_parts alloc res' ts | r \<Rightarrow> r)"

fun add_stars :: "(nat \<Rightarrow> bool) \<Rightarrow> sr \<Rightarrow> nat \<Rightarrow> sr sr_result" where
  "add_stars alloc res 0 = Ok res"
| "add_stars alloc res (Suc n) = (case STRCAT alloc res ''*'' of Ok res' \<Rightarrow> add_stars alloc res' n | r \<Rightarrow> r)"

text \<open>The part of \<^verbatim>\<open>type_name\<close> after the query; without memory for the string \<^verbatim>\<open>NULL\<close> is written to.\<close>

definition build_type_name :: "(nat \<Rightarrow> bool) \<Rightarrow> type_row list \<Rightarrow> int \<Rightarrow> sr sr_result" where
  "build_type_name alloc rows indirect =
     (case sr_new alloc (c_memory []) 32 of
        Ok (Some res) \<Rightarrow>
          (case add_parts alloc res rows of
             Ok res' \<Rightarrow> add_stars alloc res' (nat indirect)
           | r \<Rightarrow> r)
      | _ \<Rightarrow> Undefined)"

section \<open>It builds the name\<close>

lemma concat_two:
  assumes "sr_holds s t" "NUL \<notin> set u" "NUL \<notin> set v" "length t + length (u @ v) < 2 ^ 64 - 1"
  shows "gives alloc (sr_concat alloc s [GEN_STR (c_memory u), GEN_STR (c_memory v)]) (t @ u @ v)"
proof -
  let ?args = "[GEN_STR (c_memory u), GEN_STR (c_memory v)]"
  have "\<forall>a \<in> set ?args. arg_ok a" using c_memory_string [OF assms(2)] c_memory_string [OF assms(3)] by auto
  moreover have "concat (map arg_out ?args) = u @ v" "sum_list (map arg_room ?args) = length (u @ v)"
    using assms(2,3) c_memory_string [THEN c_chars_string] c_memory_string [THEN strlen_string]
    by (simp_all add: arg_out_def arg_room_def)
  ultimately show ?thesis using sr_concat_text [OF assms(1), of ?args alloc] assms(4) by simp
qed

lemma add_part_holds:
  assumes "sr_holds s t" "NUL \<notin> set (name_part r)" "length t + length (name_part r) < 2 ^ 64 - 1"
  shows "gives alloc (add_part alloc s r) (t @ name_part r)"
proof -
  have self: "gives alloc (Ok s) t" using assms(1) by (simp add: gives_def)
  show ?thesis
    using assms concat_two [OF assms(1), of "''struct ''" "ty_name r"] concat_two [OF assms(1), of "''union ''" "ty_name r"] self
    by (cases "kind_of (word_of_int (ty_flags r))") (auto simp: add_part_def name_part_def intro: STRCAT_holds)
qed

interpretation tn: text_buffer sr_holds "\<lambda>s r. ok_value (add_part all_memory s r)" name_part "2 ^ 64 - 1"
  by unfold_locales (intro gives_value add_part_holds)

lemma add_parts_appends: "ok_value (add_parts all_memory s rows) = tn.appends s rows"
  by (induction rows arbitrary: s) (auto split: sr_result.split)

lemma add_stars_appends: "ok_value (add_stars all_memory s n) = sb.appends s (replicate n ''*'')"
  by (induction n arbitrary: s) (auto split: sr_result.split)

text \<open>
  C37. The name that \<^verbatim>\<open>type_name\<close> assembles in a managed string: with enough memory the string holds exactly the name that
  the model of inspection uses, whatever the rows of the type and the number of indirections; no buffer is overrun.
\<close>

theorem type_name_built:
  assumes "type_name ie db offset indirect = Some name" "ie_fetch ie Type_Name_Cursor offset" "NUL \<notin> set name"
    and "length name < 2 ^ 64 - 1"
  shows "\<exists>s. build_type_name all_memory (rev (parent_of (length (vd_type db)) (vd_type db) (sint offset))) indirect = Ok s \<and>
    sr_holds s name"
proof -
  let ?rows = "rev (parent_of (length (vd_type db)) (vd_type db) (sint offset))" and ?n = "nat indirect"
  let ?base = "concat (map name_part ?rows)"
  have name: "name = ?base @ replicate ?n CHR ''*''" using assms(1,2) by (auto simp: type_name_def split: if_splits)
  have "\<forall>n. all_memory n" by (simp add: all_memory_def)
  then obtain s0 where s0: "sr_new all_memory (c_memory []) 32 = Ok (Some s0)" "sr_holds s0 []"
    by (auto intro: sr_new_holds [OF c_memory_string, of "[]" all_memory 32])
  have "\<forall>p \<in> set ?rows. NUL \<notin> set (name_part p)" using assms(3) name by auto
  then obtain s1 where s1: "add_parts all_memory s0 ?rows = Ok s1" "sr_holds s1 ?base"
    using tn.appends_holds [OF s0(2), of ?rows] assms(4) name by (auto simp: add_parts_appends [symmetric] ok_value_iff)
  have star: "concat (replicate k ''*'') = replicate k CHR ''*''" for k by (induction k) auto
  obtain s2 where "add_stars all_memory s1 ?n = Ok s2" "sr_holds s2 name"
    using sb.appends_holds [OF s1(2), of "replicate ?n ''*''"] assms(4) name star [of ?n]
    by (auto simp: add_stars_appends [symmetric] ok_value_iff)
  then show ?thesis using s0 s1 by (auto simp: build_type_name_def)
qed


text \<open>The type \<open>struct point *\<close>, with one more indirection.\<close>

definition point_db :: var_db where
  "point_db = \<lparr>vd_type =
      [\<lparr>ty_offset = 10, ty_name = ''point'', ty_size = 8, ty_dim = 2, ty_parent = None, ty_flags = 5\<rparr>,
       \<lparr>ty_offset = 20, ty_name = [], ty_size = 8, ty_dim = 0, ty_parent = Some 10, ty_flags = 4\<rparr>],
     vd_member = [], vd_mem = [], vd_heap = [], vd_fun = []\<rparr>"

theorem type_name_built_witness:
  "\<exists>s. build_type_name all_memory (rev (parent_of (length (vd_type point_db)) (vd_type point_db) (sint (20 :: u64)))) 1 = Ok s \<and>
     sr_holds s ''struct point**''"
  by (rule type_name_built [of "all_ok (\<lambda>_. [])"])
     (simp_all add: type_name_def point_db_def name_part_def ALIAS_FLAGS_def)

end
