(* ===== verification/Preload.thy ===== *)
theory Preload
  imports Run
begin

text \<open>
  The library \<^verbatim>\<open>record/preload.c\<close> that runs inside the traced program: it wraps the functions of the C library that allocate
  memory and reports every allocation and release through a pipe, whose name both processes compute from the process id.
  The C library's allocator is a parameter, a record of functions over a state \<open>'h\<close> of the heap; \<open>wr k\<close> is the error, if
  any, of the \<open>k\<close>th write to the pipe.
\<close>

section \<open>Hexadecimal numbers\<close>

text \<open>\<^verbatim>\<open>int_to_hex_string\<close>: the nibbles of the bytes, from the most significant, without leading zeros.\<close>

definition nibble_char :: "nat \<Rightarrow> char" where
  "nibble_char n = (if n \<le> 9 then char_of (n + 48) else char_of (n + 55))"

fun put_nibble :: "string \<times> bool \<Rightarrow> nat \<Rightarrow> string \<times> bool" where
  "put_nibble (target, significant) n =
     (if significant \<or> nibble_char n \<noteq> CHR ''0'' then (target @ [nibble_char n], True) else (target, significant))"

fun put_byte :: "string \<times> bool \<Rightarrow> byte \<Rightarrow> string \<times> bool" where
  "put_byte acc b = put_nibble (put_nibble acc (unat (drop_bit 4 (and b 0xF0)))) (unat (and b 0x0F))"

definition int_bytes :: "32 word \<Rightarrow> byte list" where
  "int_bytes source = map (\<lambda>i. ucast (drop_bit (8 * i) source)) [0, 1, 2, 3]"

definition int_to_hex_string :: "32 word \<Rightarrow> string" where
  "int_to_hex_string source = fst (foldl put_byte ([], False) (rev (int_bytes source)))"

text \<open>\<^verbatim>\<open>%X\<close> of \<^verbatim>\<open>printf\<close>.\<close>

fun upper_hex :: "nat \<Rightarrow> string" where
  "upper_hex n = (if n < 16 then [nibble_char n] else upper_hex (n div 16) @ [nibble_char (n mod 16)])"

declare upper_hex.simps [simp del]

text \<open>The name of the pipe in the traced program and in the tracer; \<^verbatim>\<open>P_tmpdir\<close> is that of Linux.\<close>

definition P_tmpdir :: string where "P_tmpdir = ''/tmp''"

definition child_fifo_name :: "32 word \<Rightarrow> string" where
  "child_fifo_name pid = P_tmpdir @ ''/fr_'' @ int_to_hex_string pid"

definition tracer_fifo_name :: "32 word \<Rightarrow> string" where
  "tracer_fifo_name pid = P_tmpdir @ ''/fr_'' @ upper_hex (unat pid)"

section \<open>Events\<close>

text \<open>The traced program: its heap, the descriptor of the pipe, the events in the pipe, and what it wrote to \<^verbatim>\<open>stderr\<close>.\<close>

record 'h traced =
  tp_heap :: 'h
  tp_fifo :: "32 word"
  tp_sent :: "heap_event list"
  tp_writes :: nat
  tp_stderr :: string

definition report :: "string \<Rightarrow> 32 word \<Rightarrow> 'h traced \<Rightarrow> 'h traced" where
  "report msg errno s = s\<lparr>tp_stderr := tp_stderr s @ msg @ int_to_hex_string errno @ [CHR 0x0A]\<rparr>"

definition send_heap_event :: "(nat \<Rightarrow> 32 word option) \<Rightarrow> heap_event \<Rightarrow> 'h traced \<Rightarrow> 'h traced" where
  "send_heap_event wr ev s =
     (let s1 = s\<lparr>tp_writes := Suc (tp_writes s)\<rparr>
      in case wr (tp_writes s) of
           None \<Rightarrow> s1\<lparr>tp_sent := tp_sent s1 @ [ev]\<rparr>
         | Some errno \<Rightarrow> report ''Cannot send event: 0x'' errno s1)"

definition send_alloc_event :: "(nat \<Rightarrow> 32 word option) \<Rightarrow> u64 \<Rightarrow> u64 \<Rightarrow> 'h traced \<Rightarrow> 'h traced" where
  "send_alloc_event wr address sz s = send_heap_event wr \<lparr>he_type = HEAP_EVENT_ALLOC, he_address = address, he_size = sz\<rparr> s"

definition send_free_event :: "(nat \<Rightarrow> 32 word option) \<Rightarrow> u64 \<Rightarrow> 'h traced \<Rightarrow> 'h traced" where
  "send_free_event wr address s = send_heap_event wr \<lparr>he_type = HEAP_EVENT_FREE, he_address = address, he_size = 0\<rparr> s"

text \<open>The constructor: \<open>mk\<close> is the error of \<^verbatim>\<open>mkfifo\<close> other than \<^verbatim>\<open>EEXIST\<close>, \<open>fd\<close> the descriptor or the error of \<^verbatim>\<open>open\<close>.\<close>

definition init :: "32 word option \<Rightarrow> 32 word + 32 word \<Rightarrow> 'h traced \<Rightarrow> 'h traced" where
  "init mk fd s =
     (case mk of
        Some errno \<Rightarrow> report ''Cannot create pipe: 0x'' errno s
      | None \<Rightarrow>
          (case fd of
             Inr d \<Rightarrow> s\<lparr>tp_fifo := d\<rparr>
           | Inl errno \<Rightarrow> report ''Cannot open pipe: 0x'' errno (s\<lparr>tp_fifo := - 1\<rparr>)))"

section \<open>The wrappers\<close>

record 'h libc =
  lc_malloc :: "u64 \<Rightarrow> 'h \<Rightarrow> u64 \<times> 'h"
  lc_calloc :: "u64 \<Rightarrow> u64 \<Rightarrow> 'h \<Rightarrow> u64 \<times> 'h"
  lc_realloc :: "u64 \<Rightarrow> u64 \<Rightarrow> 'h \<Rightarrow> u64 \<times> 'h"
  lc_memalign :: "u64 \<Rightarrow> u64 \<Rightarrow> 'h \<Rightarrow> u64 \<times> 'h"
  lc_valloc :: "u64 \<Rightarrow> 'h \<Rightarrow> u64 \<times> 'h"
  lc_pvalloc :: "u64 \<Rightarrow> 'h \<Rightarrow> u64 \<times> 'h"
  lc_posix_memalign :: "u64 \<Rightarrow> u64 \<Rightarrow> 'h \<Rightarrow> (32 word \<times> u64) \<times> 'h"
  lc_free :: "u64 \<Rightarrow> 'h \<Rightarrow> 'h"

text \<open>What follows an allocation: a block is reported when there is one and the pipe was opened.\<close>

definition allocated :: "(nat \<Rightarrow> 32 word option) \<Rightarrow> u64 \<Rightarrow> u64 \<times> 'h \<Rightarrow> 'h traced \<Rightarrow> u64 \<times> 'h traced" where
  "allocated wr sz r s =
     (case r of (res, h) \<Rightarrow>
        let s1 = s\<lparr>tp_heap := h\<rparr>
        in (res, if res \<noteq> 0 \<and> tp_fifo s1 \<noteq> 0 then send_alloc_event wr res sz s1 else s1))"

definition malloc :: "'h libc \<Rightarrow> (nat \<Rightarrow> 32 word option) \<Rightarrow> u64 \<Rightarrow> 'h traced \<Rightarrow> u64 \<times> 'h traced" where
  "malloc lc wr sz s = allocated wr sz (lc_malloc lc sz (tp_heap s)) s"

definition calloc :: "'h libc \<Rightarrow> (nat \<Rightarrow> 32 word option) \<Rightarrow> u64 \<Rightarrow> u64 \<Rightarrow> 'h traced \<Rightarrow> u64 \<times> 'h traced" where
  "calloc lc wr nmemb sz s = allocated wr (nmemb * sz) (lc_calloc lc nmemb sz (tp_heap s)) s"

definition realloc :: "'h libc \<Rightarrow> (nat \<Rightarrow> 32 word option) \<Rightarrow> u64 \<Rightarrow> u64 \<Rightarrow> 'h traced \<Rightarrow> u64 \<times> 'h traced" where
  "realloc lc wr ptr sz s = allocated wr sz (lc_realloc lc ptr sz (tp_heap s)) s"

definition memalign :: "'h libc \<Rightarrow> (nat \<Rightarrow> 32 word option) \<Rightarrow> u64 \<Rightarrow> u64 \<Rightarrow> 'h traced \<Rightarrow> u64 \<times> 'h traced" where
  "memalign lc wr alignment sz s = allocated wr sz (lc_memalign lc alignment sz (tp_heap s)) s"

definition aligned_alloc :: "'h libc \<Rightarrow> (nat \<Rightarrow> 32 word option) \<Rightarrow> u64 \<Rightarrow> u64 \<Rightarrow> 'h traced \<Rightarrow> u64 \<times> 'h traced" where
  "aligned_alloc lc wr alignment sz s = allocated wr sz (lc_memalign lc alignment sz (tp_heap s)) s"

definition valloc :: "'h libc \<Rightarrow> (nat \<Rightarrow> 32 word option) \<Rightarrow> u64 \<Rightarrow> 'h traced \<Rightarrow> u64 \<times> 'h traced" where
  "valloc lc wr sz s = allocated wr sz (lc_valloc lc sz (tp_heap s)) s"

definition pvalloc :: "'h libc \<Rightarrow> (nat \<Rightarrow> 32 word option) \<Rightarrow> u64 \<Rightarrow> 'h traced \<Rightarrow> u64 \<times> 'h traced" where
  "pvalloc lc wr sz s = allocated wr sz (lc_pvalloc lc sz (tp_heap s)) s"

text \<open>The error and the block; the pointer counts when there is no error.\<close>

definition posix_memalign :: "'h libc \<Rightarrow> (nat \<Rightarrow> 32 word option) \<Rightarrow> u64 \<Rightarrow> u64 \<Rightarrow> 'h traced \<Rightarrow> (32 word \<times> u64) \<times> 'h traced" where
  "posix_memalign lc wr alignment sz s =
     (case lc_posix_memalign lc alignment sz (tp_heap s) of
        ((err, ptr), h) \<Rightarrow>
          let s1 = s\<lparr>tp_heap := h\<rparr>
          in ((err, ptr), if err = 0 \<and> tp_fifo s1 \<noteq> 0 then send_alloc_event wr ptr sz s1 else s1))"

definition free :: "'h libc \<Rightarrow> (nat \<Rightarrow> 32 word option) \<Rightarrow> u64 \<Rightarrow> 'h traced \<Rightarrow> 'h traced" where
  "free lc wr ptr s =
     (let s1 = (if tp_fifo s \<noteq> 0 then send_free_event wr ptr s else s)
      in s1\<lparr>tp_heap := lc_free lc ptr (tp_heap s1)\<rparr>)"

section \<open>Both sides use the same pipe\<close>

lemma nibble_zero: "n < 16 \<Longrightarrow> nibble_char n = CHR ''0'' \<longleftrightarrow> n = 0"
proof -
  assume "n < 16"
  then have "of_char (nibble_char n) = (if n \<le> 9 then n + 48 else n + 55)" by (auto simp: nibble_char_def)
  moreover have "of_char CHR ''0'' = (48 :: nat)" by simp
  ultimately show ?thesis using of_char_eq_iff [of "nibble_char n" "CHR ''0''"] by (auto split: if_splits)
qed

lemma put_significant: "foldl put_nibble (t, True) ds = (t @ map nibble_char ds, True)"
  by (induction ds arbitrary: t) simp_all

lemma put_insignificant:
  "\<forall>d \<in> set ds. d < 16 \<Longrightarrow> fst (foldl put_nibble (t, False) ds) = t @ map nibble_char (dropWhile (\<lambda>d. d = 0) ds)"
  by (induction ds arbitrary: t) (auto simp: nibble_zero put_significant)

definition hex_value :: "nat list \<Rightarrow> nat" where
  "hex_value ds = foldl (\<lambda>v d. v * 16 + d) 0 ds"

lemma hex_zero: "foldl (\<lambda>v d. v * 16 + d) n xs = (0 :: nat) \<longleftrightarrow> n = 0 \<and> (\<forall>x \<in> set xs. x = 0)"
  by (induction xs arbitrary: n) auto

lemma upper_hex_value:
  "\<forall>d \<in> set ds. d < 16 \<Longrightarrow> hex_value ds \<noteq> 0 \<Longrightarrow> upper_hex (hex_value ds) = map nibble_char (dropWhile (\<lambda>d. d = 0) ds)"
proof (induction ds rule: rev_induct)
  case (snoc d ds)
  have v: "hex_value (ds @ [d]) = hex_value ds * 16 + d" "d < 16" using snoc.prems by (simp_all add: hex_value_def)
  have zero: "hex_value ds = 0 \<longleftrightarrow> dropWhile (\<lambda>d. d = 0) ds = []" by (simp add: hex_value_def hex_zero)
  show ?case
  proof (cases "hex_value ds = 0")
    case True
    then have "\<forall>x \<in> set ds. x = 0" using zero by simp
    then have "dropWhile (\<lambda>d. d = 0) (ds @ [d]) = dropWhile (\<lambda>d. d = 0) [d]" by (simp add: dropWhile_append)
    then show ?thesis using True v snoc.prems(2) by (simp add: upper_hex.simps)
  next
    case False
    then have "dropWhile (\<lambda>d. d = 0) (ds @ [d]) = dropWhile (\<lambda>d. d = 0) ds @ [d]"
      using zero by (auto simp: dropWhile_append)
    moreover have "\<not> hex_value ds * 16 + d < 16" using False by simp
    ultimately show ?thesis using snoc.IH snoc.prems(1) False v by (subst upper_hex.simps) simp
  qed
qed (simp add: hex_value_def)

definition nibbles :: "32 word \<Rightarrow> nat list" where
  "nibbles w = concat (map (\<lambda>b. [unat (drop_bit 4 (and b 0xF0)), unat (and b 0x0F)]) (rev (int_bytes w)))"

lemma byte_nibbles:
  "unat (drop_bit 4 (and b 0xF0)) = unat b div 16" "unat (and b 0x0F) = unat b mod 16" for b :: byte
proof -
  have high: "drop_bit 4 (and b 0xF0) = drop_bit 4 b"
  proof (rule bit_word_eqI)
    fix n assume "n < LENGTH(8)"
    then have "n \<in> {0, 1, 2, 3, 4, 5, 6, 7}" by auto
    then show "bit (drop_bit 4 (and b 0xF0)) n = bit (drop_bit 4 b) n" by (auto simp: bit_simps dest: bit_imp_le_length)
  qed
  show "unat (drop_bit 4 (and b 0xF0)) = unat b div 16"
    unfolding high unat_drop_bit_eq by (simp add: drop_bit_eq_div)
  have low: "and b 0x0F = take_bit 4 b" by (simp add: take_bit_eq_mask mask_eq_exp_minus_1)
  show "unat (and b 0x0F) = unat b mod 16" unfolding low unsigned_take_bit_eq by (simp add: take_bit_eq_mod)
qed

lemma nibbles_small: "\<forall>d \<in> set (nibbles w). d < 16"
  using unsigned_less [where 'a = nat and 'b = 8] by (auto simp: nibbles_def byte_nibbles less_mult_imp_div_less)

lemma nibbles_value: "hex_value (nibbles w) = unat w"
proof -
  have b: "unat (ucast (drop_bit (8 * i) w) :: byte) = unat w div 2 ^ (8 * i) mod 256" for i
    by (simp add: unsigned_ucast_eq unat_drop_bit_eq take_bit_eq_mod) (simp add: drop_bit_eq_div)
  have w: "unat w < 2 ^ 32" using unsigned_less [of w, where 'a = nat] by simp
  have step: "(v * 16 + c div 16) * 16 + c mod 16 = v * 256 + c" for v c :: nat by simp
  have "int_bytes w = [ucast (drop_bit (8 * 0) w), ucast (drop_bit (8 * 1) w), ucast (drop_bit (8 * 2) w), ucast (drop_bit (8 * 3) w)]"
    unfolding int_bytes_def by (simp only: list.map)
  then have "hex_value (nibbles w) =
      (((0 * 256 + unat w div 2 ^ (8 * 3) mod 256) * 256 + unat w div 2 ^ (8 * 2) mod 256) * 256 + unat w div 2 ^ (8 * 1) mod 256) * 256 +
        unat w div 2 ^ (8 * 0) mod 256"
    unfolding nibbles_def by (simp only: rev.simps append.simps list.map concat.simps hex_value_def foldl.simps byte_nibbles b step)
  also have "\<dots> = unat w"
  proof -
    let ?a = "unat w div 256" and ?b = "unat w div 256 div 256" and ?c = "unat w div 256 div 256 div 256"
    have d: "unat w div 65536 = ?b" "unat w div 16777216 = ?c" by (simp_all flip: div_mult2_eq)
    have "unat w = 256 * ?a + unat w mod 256" "?a = 256 * ?b + ?a mod 256" "?b = 256 * ?c + ?b mod 256" by simp_all
    moreover have "?c mod 256 = ?c" using w by simp
    ultimately show ?thesis using d by simp
  qed
  finally show ?thesis .
qed

lemma foldl_bytes: "foldl put_byte acc bs = foldl put_nibble acc (concat (map (\<lambda>b. [unat (drop_bit 4 (and b 0xF0)), unat (and b 0x0F)]) bs))"
  by (induction bs arbitrary: acc) simp_all

lemma int_to_hex_string_digits: "int_to_hex_string w = map nibble_char (dropWhile (\<lambda>d. d = 0) (nibbles w))"
  using put_insignificant [OF nibbles_small, of "[]" w] by (simp add: int_to_hex_string_def foldl_bytes nibbles_def)

text \<open>
  C39. The traced program and the tracer compute the same name for the pipe from every process id, although one prints the
  number nibble by nibble and the other with \<^verbatim>\<open>%X\<close>; the name fits the buffer of 256 bytes, and the number the one of 17.
\<close>

theorem fifo_names_agree:
  assumes "pid \<noteq> 0"
  shows "child_fifo_name pid = tracer_fifo_name pid \<and> length (child_fifo_name pid) < 256 \<and> length (int_to_hex_string pid) < 17"
proof -
  have "hex_value (nibbles pid) \<noteq> 0" using assms by (simp add: nibbles_value unat_eq_zero)
  then have same: "int_to_hex_string pid = upper_hex (unat pid)"
    using upper_hex_value [OF nibbles_small] by (simp add: int_to_hex_string_digits nibbles_value)
  have "length (nibbles pid) = 8" by (simp add: nibbles_def int_bytes_def)
  then have "length (dropWhile (\<lambda>d. d = 0) (nibbles pid)) \<le> 8"
    using length_dropWhile_le [of "\<lambda>d. d = 0" "nibbles pid"] by simp
  then have "length (int_to_hex_string pid) \<le> 8" by (simp add: int_to_hex_string_digits)
  then show ?thesis using same by (simp add: child_fifo_name_def tracer_fifo_name_def P_tmpdir_def)
qed

theorem fifo_names_agree_witness: "child_fifo_name 0x1F0 = tracer_fifo_name 0x1F0"
  using fifo_names_agree [of "0x1F0"] by simp


section \<open>The events describe the heap\<close>

text \<open>The blocks that a reader of the events knows.\<close>

fun track :: "heap_event \<Rightarrow> (u64 \<rightharpoonup> u64) \<Rightarrow> (u64 \<rightharpoonup> u64)" where
  "track ev m = (case he_type ev of HEAP_EVENT_ALLOC \<Rightarrow> m(he_address ev \<mapsto> he_size ev) | HEAP_EVENT_FREE \<Rightarrow> m(he_address ev := None))"

definition tracked :: "heap_event list \<Rightarrow> u64 \<rightharpoonup> u64" where
  "tracked evs = fold track evs Map.empty"

text \<open>
  The contract of the allocator: \<open>live\<close> are its blocks with their sizes.  A function that allocates returns 0 and changes
  nothing or returns a new block; \<^verbatim>\<open>free\<close> releases one, and \<^verbatim>\<open>realloc\<close> moves one.
\<close>

definition gives_block :: "('h \<Rightarrow> u64 \<rightharpoonup> u64) \<Rightarrow> u64 \<Rightarrow> 'h \<Rightarrow> u64 \<times> 'h \<Rightarrow> bool" where
  "gives_block live sz h r \<longleftrightarrow> (if fst r = 0 then live (snd r) = live h else live (snd r) = (live h)(fst r \<mapsto> sz))"

definition allocator_ok :: "'h libc \<Rightarrow> ('h \<Rightarrow> u64 \<rightharpoonup> u64) \<Rightarrow> bool" where
  "allocator_ok lc live \<longleftrightarrow>
     (\<forall>n h. gives_block live n h (lc_malloc lc n h) \<and> gives_block live n h (lc_valloc lc n h) \<and>
            gives_block live n h (lc_pvalloc lc n h)) \<and>
     (\<forall>n m h. gives_block live (n * m) h (lc_calloc lc n m h) \<and> gives_block live m h (lc_memalign lc n m h)) \<and>
     (\<forall>n m h err p h'. lc_posix_memalign lc n m h = ((err, p), h') \<longrightarrow> live h' = (if err = 0 then (live h)(p \<mapsto> m) else live h)) \<and>
     (\<forall>p h. live (lc_free lc p h) = (live h)(p := None))"

text \<open>Calls of the wrappers by the traced program.\<close>

datatype call = Malloc u64 | Calloc u64 u64 | Realloc u64 u64 | Memalign u64 u64 | Aligned_Alloc u64 u64 | Valloc u64 | Pvalloc u64
  | Posix_Memalign u64 u64 | Free u64

fun do_call :: "'h libc \<Rightarrow> (nat \<Rightarrow> 32 word option) \<Rightarrow> call \<Rightarrow> 'h traced \<Rightarrow> 'h traced" where
  "do_call lc wr (Malloc n) s = snd (malloc lc wr n s)"
| "do_call lc wr (Calloc n m) s = snd (calloc lc wr n m s)"
| "do_call lc wr (Realloc p n) s = snd (realloc lc wr p n s)"
| "do_call lc wr (Memalign a n) s = snd (memalign lc wr a n s)"
| "do_call lc wr (Aligned_Alloc a n) s = snd (aligned_alloc lc wr a n s)"
| "do_call lc wr (Valloc n) s = snd (valloc lc wr n s)"
| "do_call lc wr (Pvalloc n) s = snd (pvalloc lc wr n s)"
| "do_call lc wr (Posix_Memalign a n) s = snd (posix_memalign lc wr a n s)"
| "do_call lc wr (Free p) s = free lc wr p s"

definition in_step :: "('h \<Rightarrow> u64 \<rightharpoonup> u64) \<Rightarrow> 'h traced \<Rightarrow> bool" where
  "in_step live s \<longleftrightarrow> tp_fifo s \<noteq> 0 \<and> tracked (tp_sent s) = live (tp_heap s)"

lemma tracked_snoc: "tracked (evs @ [ev]) = track ev (tracked evs)"
  by (simp add: tracked_def)

lemma allocated_in_step:
  assumes "in_step live s" "gives_block live n (tp_heap s) r" "wr = (\<lambda>_. None)"
  shows "in_step live (snd (allocated wr n r s))"
  using assms
  by (cases r) (auto simp: in_step_def allocated_def gives_block_def send_alloc_event_def send_heap_event_def tracked_snoc Let_def
      split: if_splits)

text \<open>
  What the allocator itself does for a call, without the wrappers: the block that the program gets, with the size it asked
  for, and the new heap.
\<close>

definition block_at :: "u64 \<Rightarrow> u64 \<times> 'h \<Rightarrow> (u64 \<times> u64) option \<times> 'h" where
  "block_at sz r = (if fst r = 0 then None else Some (fst r, sz), snd r)"

fun library_call :: "'h libc \<Rightarrow> call \<Rightarrow> 'h \<Rightarrow> (u64 \<times> u64) option \<times> 'h" where
  "library_call lc (Malloc n) h = block_at n (lc_malloc lc n h)"
| "library_call lc (Calloc n m) h = block_at (n * m) (lc_calloc lc n m h)"
| "library_call lc (Realloc p n) h = block_at n (lc_realloc lc p n h)"
| "library_call lc (Memalign a n) h = block_at n (lc_memalign lc a n h)"
| "library_call lc (Aligned_Alloc a n) h = block_at n (lc_memalign lc a n h)"
| "library_call lc (Valloc n) h = block_at n (lc_valloc lc n h)"
| "library_call lc (Pvalloc n) h = block_at n (lc_pvalloc lc n h)"
| "library_call lc (Posix_Memalign a n) h =
     (case lc_posix_memalign lc a n h of ((err, p), h') \<Rightarrow> (if err = 0 then Some (p, n) else None, h'))"
| "library_call lc (Free p) h = (None, lc_free lc p h)"

text \<open>The events of a call: its block, or the release of one.\<close>

definition event_of :: "call \<Rightarrow> (u64 \<times> u64) option \<Rightarrow> heap_event list" where
  "event_of c block =
     (case c of
        Free p \<Rightarrow> [\<lparr>he_type = HEAP_EVENT_FREE, he_address = p, he_size = 0\<rparr>]
      | _ \<Rightarrow> (case block of None \<Rightarrow> [] | Some (a, n) \<Rightarrow> [\<lparr>he_type = HEAP_EVENT_ALLOC, he_address = a, he_size = n\<rparr>]))"

fun library_run :: "'h libc \<Rightarrow> call list \<Rightarrow> 'h \<Rightarrow> heap_event list \<times> 'h" where
  "library_run lc [] h = ([], h)"
| "library_run lc (c # cs) h =
     (case library_call lc c h of
        (block, h') \<Rightarrow> (case library_run lc cs h' of (evs, h'') \<Rightarrow> (event_of c block @ evs, h'')))"

text \<open>The events that get through, when the first is written by the \<open>n\<close>th write.\<close>

definition delivered :: "(nat \<Rightarrow> 32 word option) \<Rightarrow> nat \<Rightarrow> heap_event list \<Rightarrow> heap_event list" where
  "delivered wr n evs = map snd (filter (\<lambda>(i, ev). wr i = None) (enumerate n evs))"

lemma delivered_Nil [simp]: "delivered wr n [] = []"
  by (simp add: delivered_def)

lemma delivered_append: "delivered wr n (xs @ ys) = delivered wr n xs @ delivered wr (n + length xs) ys"
  by (simp add: delivered_def enumerate_append_eq)

lemma do_call_events:
  assumes "library_call lc c (tp_heap s) = (block, h')"
  defines "evs \<equiv> if tp_fifo s = 0 then [] else event_of c block"
  shows "tp_heap (do_call lc wr c s) = h'" "tp_sent (do_call lc wr c s) = tp_sent s @ delivered wr (tp_writes s) evs"
    "tp_writes (do_call lc wr c s) = tp_writes s + length evs" "tp_fifo (do_call lc wr c s) = tp_fifo s"
proof -
  have "tp_heap (do_call lc wr c s) = h' \<and> tp_sent (do_call lc wr c s) = tp_sent s @ delivered wr (tp_writes s) evs \<and>
    tp_writes (do_call lc wr c s) = tp_writes s + length evs \<and> tp_fifo (do_call lc wr c s) = tp_fifo s"
    using assms(1) unfolding evs_def
    by (cases c) (auto simp: malloc_def calloc_def realloc_def memalign_def aligned_alloc_def valloc_def pvalloc_def
        posix_memalign_def free_def allocated_def block_at_def event_of_def send_alloc_event_def send_free_event_def
        send_heap_event_def report_def delivered_def Let_def split: prod.splits if_splits option.splits)
  then show "tp_heap (do_call lc wr c s) = h'" "tp_sent (do_call lc wr c s) = tp_sent s @ delivered wr (tp_writes s) evs"
    "tp_writes (do_call lc wr c s) = tp_writes s + length evs" "tp_fifo (do_call lc wr c s) = tp_fifo s" by blast+
qed

text \<open>
  C40. Whatever calls of the allocation functions the program makes, \<^verbatim>\<open>realloc\<close> included: the allocator is called exactly as
  without the library, and once the pipe is open the events written to it are, in the order of the calls, one allocation for
  every block handed out, with its address and the size asked for, and one release for every call of \<^verbatim>\<open>free\<close>; a write that
  fails loses its event and no other.  Without a pipe nothing is written.  (\<^verbatim>\<open>realloc\<close> reports the block it returns, and no
  release of the block that it was given.)
\<close>

theorem heap_events_exact:
  "(tp_heap (fold (do_call lc wr) cs s), tp_sent (fold (do_call lc wr) cs s)) =
     (case library_run lc cs (tp_heap s) of
        (evs, h) \<Rightarrow> (h, tp_sent s @ (if tp_fifo s = 0 then [] else delivered wr (tp_writes s) evs)))"
proof (induction cs arbitrary: s)
  case (Cons c cs)
  obtain block h' where c: "library_call lc c (tp_heap s) = (block, h')" by fastforce
  then show ?case
    using Cons.IH [of "do_call lc wr c s"] by (auto simp: do_call_events [OF c] delivered_append split: prod.splits)
qed simp

text \<open>
  As long as the pipe takes every event and \<^verbatim>\<open>realloc\<close> is not called, a reader of the events knows the blocks of the heap.
\<close>

theorem heap_tracked:
  assumes "allocator_ok lc live" "in_step live s" "\<forall>p n. Realloc p n \<notin> set cs"
  shows "in_step live (fold (do_call lc (\<lambda>_. None)) cs s)"
  using assms(2,3)
proof (induction cs arbitrary: s)
  case (Cons c cs)
  have ok: "gives_block live n h (lc_malloc lc n h)" "gives_block live n h (lc_valloc lc n h)" "gives_block live n h (lc_pvalloc lc n h)"
    "gives_block live (n * m) h (lc_calloc lc n m h)" "gives_block live m h (lc_memalign lc n m h)"
    "live (lc_free lc p h) = (live h)(p := None)" for n m p h
    using assms(1) by (simp_all add: allocator_ok_def)
  have "in_step live (snd (posix_memalign lc (\<lambda>_. None) n m s))" for n m
  proof -
    obtain err p h' where r: "lc_posix_memalign lc n m (tp_heap s) = ((err, p), h')" by (metis surj_pair)
    then have "live h' = (if err = 0 then (live (tp_heap s))(p \<mapsto> m) else live (tp_heap s))"
      using assms(1) unfolding allocator_ok_def by blast
    then show ?thesis
      using r Cons.prems by (auto simp: posix_memalign_def in_step_def send_alloc_event_def send_heap_event_def tracked_snoc Let_def
          split: if_splits)
  qed
  moreover have "in_step live (free lc (\<lambda>_. None) p s)" for p
    using ok(6) Cons.prems by (simp add: free_def in_step_def send_free_event_def send_heap_event_def tracked_snoc Let_def)
  ultimately have "in_step live (do_call lc (\<lambda>_. None) c s)"
    using allocated_in_step [OF Cons.prems(1)] ok Cons.prems(2)
    by (cases c) (auto simp: malloc_def calloc_def memalign_def aligned_alloc_def valloc_def pvalloc_def)
  then show ?case using Cons.IH Cons.prems(2) by simp
qed simp

text \<open>An allocator that gives blocks at increasing addresses.\<close>

definition bump :: "(u64 \<times> (u64 \<rightharpoonup> u64)) libc" where
  "bump = (let new = (\<lambda>n (top, m). (top, (top + 16, if top = 0 then m else m(top \<mapsto> n))))
     in \<lparr>lc_malloc = new, lc_calloc = (\<lambda>n m. new (n * m)), lc_realloc = (\<lambda>p n (top, m). (top, (top + 16, m(p := None, top \<mapsto> n)))),
         lc_memalign = (\<lambda>_. new), lc_valloc = new, lc_pvalloc = new,
         lc_posix_memalign = (\<lambda>_ n (top, m). ((0, top), (top + 16, m(top \<mapsto> n)))), lc_free = (\<lambda>p (top, m). (top, m(p := None)))\<rparr>)"

definition bump_start :: "(u64 \<times> (u64 \<rightharpoonup> u64)) traced" where
  "bump_start = \<lparr>tp_heap = (0x1000, Map.empty), tp_fifo = 3, tp_sent = [], tp_writes = 0, tp_stderr = []\<rparr>"

lemma bump_ok: "allocator_ok bump snd"
  by (simp add: allocator_ok_def gives_block_def bump_def Let_def split: prod.split)

theorem heap_tracked_witness:
  "in_step snd (fold (do_call bump (\<lambda>_. None)) [Malloc 24, Calloc 3 8, Free 0x1000] bump_start)"
  by (rule heap_tracked [OF bump_ok]) (simp_all add: in_step_def bump_start_def tracked_def)

text \<open>A block that \<^verbatim>\<open>realloc\<close> moves stays allocated for a reader of the events: its release is not reported.\<close>

theorem realloc_not_released:
  assumes "in_step live s" "live (tp_heap s) p = Some n" "lc_realloc lc p m (tp_heap s) = (r, h)" "r \<noteq> 0" "r \<noteq> p"
    and "live h = (live (tp_heap s))(p := None, r \<mapsto> m)"
  shows "tracked (tp_sent (snd (realloc lc (\<lambda>_. None) p m s))) p = Some n \<and> live (tp_heap (snd (realloc lc (\<lambda>_. None) p m s))) p = None"
  using assms by (simp add: realloc_def allocated_def in_step_def send_alloc_event_def send_heap_event_def tracked_snoc)

end
