(* ===== verification/Reset_Dirty.thy ===== *)
theory Reset_Dirty
  imports Fr_Prelude
begin

text \<open>
  The thread of \<^verbatim>\<open>record/reset_dirty.c\<close> that resets the soft-dirty bits of the traced program's pages, and the two semaphores
  with which the tracer starts it and waits for it.  The stream to \<^verbatim>\<open>/proc/pid/clear_refs\<close> is buffered by the C library, as
  every stream that is not a terminal: a character written goes to the kernel when the buffer is flushed, which
  \<^verbatim>\<open>rewind\<close> does.
\<close>

section \<open>State and operations\<close>

text \<open>Where the thread is in its loop.\<close>

datatype rd_pc = Wait_Start | Do_Job | Post_End | Ended

text \<open>
  The semaphores, the buffer of the stream, the thread, and as history: the resets that reached the kernel, the successful
  triggers, the jobs done and the completed waits.
\<close>

record rd_state =
  start_sem :: nat
  end_sem :: nat
  clear_refs :: string
  rd_pc :: rd_pc
  rd_resets :: nat
  rd_triggers :: nat
  rd_jobs :: nat
  rd_waits :: nat

definition rd_init :: rd_state where
  "rd_init = \<lparr>start_sem = 0, end_sem = 0, clear_refs = [], rd_pc = Wait_Start, rd_resets = 0, rd_triggers = 0, rd_jobs = 0, rd_waits = 0\<rparr>"

text \<open>
  What \<^verbatim>\<open>start_reset_dirty\<close> leaves behind, given whether the file opens, the semaphores and the thread are created.
\<close>

definition start_reset_dirty :: "bool \<Rightarrow> bool \<Rightarrow> bool \<Rightarrow> bool \<Rightarrow> status \<times> rd_state option" where
  "start_reset_dirty opened sem1 sem2 created =
     (if opened \<and> sem1 \<and> sem2 \<and> created then (SUCCESS, Some rd_init) else (FAILURE, None))"

text \<open>\<open>ok\<close> is the outcome of \<^verbatim>\<open>sem_post\<close>; a failure is only logged.\<close>

definition trigger_reset_dirty :: "bool \<Rightarrow> rd_state \<Rightarrow> rd_state" where
  "trigger_reset_dirty ok s = (if ok then s\<lparr>start_sem := Suc (start_sem s), rd_triggers := Suc (rd_triggers s)\<rparr> else s)"

text \<open>\<open>None\<close>: the call blocks.  A failure of \<^verbatim>\<open>sem_wait\<close> is only logged too.\<close>

definition wait_reset_dirty :: "bool \<Rightarrow> rd_state \<Rightarrow> rd_state option" where
  "wait_reset_dirty ok s =
     (if \<not> ok then Some s
      else case end_sem s of 0 \<Rightarrow> None | Suc n \<Rightarrow> Some (s\<lparr>end_sem := n, rd_waits := Suc (rd_waits s)\<rparr>))"

definition rewind :: "rd_state \<Rightarrow> rd_state" where
  "rewind s = s\<lparr>rd_resets := rd_resets s + length (clear_refs s), clear_refs := []\<rparr>"

text \<open>One step of the thread; \<open>ok\<close> is the outcome of the call it makes, \<open>None\<close> that it blocks or has ended.\<close>

definition reset_dirty_step :: "bool \<Rightarrow> rd_state \<Rightarrow> rd_state option" where
  "reset_dirty_step ok s =
     (case rd_pc s of
        Wait_Start \<Rightarrow>
          if \<not> ok then Some (s\<lparr>rd_pc := Ended\<rparr>)
          else (case start_sem s of 0 \<Rightarrow> None | Suc n \<Rightarrow> Some (s\<lparr>start_sem := n, rd_pc := Do_Job\<rparr>))
      | Do_Job \<Rightarrow>
          let s1 = rewind s
          in if ok then Some (s1\<lparr>clear_refs := clear_refs s1 @ ''4'', rd_pc := Post_End, rd_jobs := Suc (rd_jobs s1)\<rparr>)
             else Some (s1\<lparr>rd_pc := Ended\<rparr>)
      | Post_End \<Rightarrow> if ok then Some (s\<lparr>end_sem := Suc (end_sem s), rd_pc := Wait_Start\<rparr>) else Some (s\<lparr>rd_pc := Ended\<rparr>)
      | Ended \<Rightarrow> None)"

section \<open>Interleavings\<close>

inductive rd_step :: "rd_state \<Rightarrow> rd_state \<Rightarrow> bool" where
  trigger: "rd_step s (trigger_reset_dirty ok s)"
| wait: "wait_reset_dirty ok s = Some s' \<Longrightarrow> rd_step s s'"
| work: "reset_dirty_step ok s = Some s' \<Longrightarrow> rd_step s s'"

inductive_cases rd_stepE: "rd_step s s'"

inductive rd_reachable :: "rd_state \<Rightarrow> bool" where
  init: "rd_reachable rd_init"
| step: "rd_reachable s \<Longrightarrow> rd_step s s' \<Longrightarrow> rd_reachable s'"

text \<open>
  What holds between the counters: a job taken is one of the triggers, a wait that ended is one of the jobs, and one character
  at most is in the buffer.
\<close>

definition rd_inv :: "rd_state \<Rightarrow> bool" where
  "rd_inv s \<longleftrightarrow>
     start_sem s + rd_jobs s + (if rd_pc s = Do_Job then 1 else 0) \<le> rd_triggers s \<and>
     end_sem s + rd_waits s + (if rd_pc s = Post_End then 1 else 0) \<le> rd_jobs s \<and>
     length (clear_refs s) \<le> 1 \<and> rd_resets s + length (clear_refs s) = rd_jobs s \<and>
     rd_resets s \<le> rd_triggers s - 1"

lemma rd_inv_step: "rd_step s s' \<Longrightarrow> rd_inv s \<Longrightarrow> rd_inv s'"
proof (erule rd_stepE)
  fix ok assume "wait_reset_dirty ok s = Some s'" "rd_inv s"
  then show "rd_inv s'" by (auto simp: wait_reset_dirty_def rd_inv_def split: nat.splits if_splits)
next
  fix ok assume "reset_dirty_step ok s = Some s'" "rd_inv s"
  then show "rd_inv s'"
    by (auto simp: reset_dirty_step_def rewind_def rd_inv_def Let_def split: rd_pc.splits nat.splits if_splits)
qed (auto simp: trigger_reset_dirty_def rd_inv_def)

lemma reachable_inv: "rd_reachable s \<Longrightarrow> rd_inv s"
proof (induction rule: rd_reachable.induct)
  case (step s s')
  then show ?case using rd_inv_step by blast
qed (simp add: rd_inv_def rd_init_def)

text \<open>
  Under every interleaving of the tracer and the thread, failures included: a wait returns only after a job done for a
  trigger before it, and every job but the latest has reset the bits.
\<close>

theorem reset_order:
  assumes "rd_reachable s"
  shows "rd_waits s \<le> rd_jobs s \<and> rd_jobs s \<le> rd_triggers s \<and> rd_jobs s \<le> rd_resets s + 1"
  using reachable_inv [OF assms] by (auto simp: rd_inv_def)

text \<open>
  The first reset does not take place before the second trigger: the character is still in the buffer of the stream when the
  wait for it returns.
\<close>

theorem first_reset_delayed:
  assumes "rd_reachable s" "rd_triggers s \<le> 1"
  shows "rd_resets s = 0"
  using reachable_inv [OF assms(1)] assms(2) by (auto simp: rd_inv_def)

text \<open>Once the thread has ended, it stays so, and waits beyond the jobs done block for ever.\<close>

theorem ended_blocks:
  assumes "rd_step s s'" "rd_pc s = Ended" "end_sem s = 0"
  shows "rd_pc s' = Ended \<and> end_sem s' = 0 \<and> wait_reset_dirty True s' = None"
  using assms by (auto elim!: rd_stepE simp: trigger_reset_dirty_def wait_reset_dirty_def reset_dirty_step_def split: if_splits)

definition one_round :: rd_state where
  "one_round = \<lparr>start_sem = 0, end_sem = 0, clear_refs = ''4'', rd_pc = Wait_Start, rd_resets = 0, rd_triggers = 1, rd_jobs = 1, rd_waits = 1\<rparr>"

lemma one_round_reachable: "rd_reachable one_round"
proof -
  let ?s1 = "trigger_reset_dirty True rd_init"
  have 1: "rd_reachable ?s1" by (rule rd_reachable.step [OF rd_reachable.init rd_step.trigger])
  have 2: "reset_dirty_step True ?s1 = Some (?s1\<lparr>start_sem := 0, rd_pc := Do_Job\<rparr>)"
    by (simp add: reset_dirty_step_def trigger_reset_dirty_def rd_init_def)
  let ?s2 = "?s1\<lparr>start_sem := 0, rd_pc := Do_Job\<rparr>"
  have 3: "reset_dirty_step True ?s2 = Some (?s2\<lparr>clear_refs := ''4'', rd_pc := Post_End, rd_jobs := 1\<rparr>)"
    by (simp add: reset_dirty_step_def trigger_reset_dirty_def rd_init_def rewind_def)
  let ?s3 = "?s2\<lparr>clear_refs := ''4'', rd_pc := Post_End, rd_jobs := 1\<rparr>"
  have 4: "reset_dirty_step True ?s3 = Some (?s3\<lparr>end_sem := 1, rd_pc := Wait_Start\<rparr>)"
    by (simp add: reset_dirty_step_def trigger_reset_dirty_def rd_init_def)
  have 5: "wait_reset_dirty True (?s3\<lparr>end_sem := 1, rd_pc := Wait_Start\<rparr>) = Some one_round"
    by (simp add: wait_reset_dirty_def trigger_reset_dirty_def rd_init_def one_round_def)
  show ?thesis
    by (rule rd_reachable.step [OF rd_reachable.step [OF rd_reachable.step [OF rd_reachable.step [OF 1 rd_step.work [OF 2]]
          rd_step.work [OF 3]] rd_step.work [OF 4]] rd_step.wait [OF 5]])
qed

theorem reset_order_witness: "rd_waits one_round \<le> rd_jobs one_round \<and> rd_jobs one_round = 1 \<and> rd_resets one_round = 0"
  using reset_order [OF one_round_reachable] by (simp add: one_round_def)

end
