(* ===== verification/Paths.thy ===== *)
theory Paths
  imports Stingray
begin

text \<open>
  \<^verbatim>\<open>get_abs_path\<close> of \<^verbatim>\<open>record/record.c\<close>, which makes the path of a compilation unit absolute: the components of a
  relative path are applied one by one to the current directory, held in a managed string.  The arguments are the texts
  of C strings, without the terminating zero.
\<close>

section \<open>The code\<close>

abbreviation slash :: char where "slash \<equiv> CHR ''/''"

text \<open>\<^verbatim>\<open>*slash = 0\<close> at the last slash, found by \<^verbatim>\<open>strrchr\<close>, and the new length.\<close>

definition cut_at :: "sr \<Rightarrow> nat \<Rightarrow> sr option sr_result" where
  "cut_at s k =
     (let v = (sr_val s)[k := Some NUL]
      in case strlen v of None \<Rightarrow> Undefined | Some n \<Rightarrow> Ok (Some (s\<lparr>sr_val := v, sr_len := word_of_nat n\<rparr>)))"

definition last_index :: "char \<Rightarrow> string \<Rightarrow> nat option" where
  "last_index c t = (if c \<in> set t then Some (length t - Suc (length (takeWhile (\<lambda>x. x \<noteq> c) (rev t)))) else None)"

text \<open>
  One component, with its name in \<open>dirname\<close>.  \<open>Ok None\<close> is the result \<^verbatim>\<open>NULL\<close> when there is no directory to leave; a string
  \<open>None\<close> is a \<^verbatim>\<open>NULL\<close> from \<^verbatim>\<open>sr_new\<close>.
\<close>

definition add_component :: "(nat \<Rightarrow> bool) \<Rightarrow> sr option \<Rightarrow> sr \<Rightarrow> string \<Rightarrow> sr option option sr_result" where
  "add_component alloc abspath dirname name =
     (if name = ''.'' then Ok (Some abspath)
      else case abspath of
        None \<Rightarrow> Undefined
      | Some a \<Rightarrow>
          if name = ''..''
          then (case c_chars (sr_val a) of
                  None \<Rightarrow> Undefined
                | Some t \<Rightarrow>
                    (case last_index slash t of
                       None \<Rightarrow> Ok None
                     | Some k \<Rightarrow> (case cut_at a k of Ok a' \<Rightarrow> Ok (Some a') | Exit_Failure \<Rightarrow> Exit_Failure | Undefined \<Rightarrow> Undefined)))
          else (case sr_concat alloc a [GEN_CHR slash, GEN_SR dirname] of
                  Ok a' \<Rightarrow> Ok (Some (Some a')) | Exit_Failure \<Rightarrow> Exit_Failure | Undefined \<Rightarrow> Undefined))"

text \<open>The component before the first slash is copied into \<open>dirname\<close>, all of the path when there is none.\<close>

definition take_component :: "(nat \<Rightarrow> bool) \<Rightarrow> sr \<Rightarrow> string \<Rightarrow> sr sr_result" where
  "take_component alloc dirname path =
     (if slash \<in> set path
      then let k = length (takeWhile (\<lambda>c. c \<noteq> slash) path)
           in (case sr_copy alloc dirname (Native (c_memory path)) (word_of_nat k) of
                 Ok d \<Rightarrow> Ok (d\<lparr>sr_val := (sr_val d)[k := Some NUL]\<rparr>)
               | r \<Rightarrow> r)
      else sr_copy alloc dirname (Native (c_memory path)) (- 1))"

function path_loop :: "(nat \<Rightarrow> bool) \<Rightarrow> sr option \<Rightarrow> sr \<Rightarrow> string \<Rightarrow> sr option sr_result" where
  "path_loop alloc abspath dirname path =
     (case take_component alloc dirname path of
        Ok d \<Rightarrow>
          (case c_chars (sr_val d) of
             None \<Rightarrow> Undefined
           | Some name \<Rightarrow>
               (case add_component alloc abspath d name of
                  Ok None \<Rightarrow> Ok None
                | Ok (Some a) \<Rightarrow>
                    if slash \<in> set path then path_loop alloc a d (tl (dropWhile (\<lambda>c. c \<noteq> slash) path)) else Ok a
                | Exit_Failure \<Rightarrow> Exit_Failure
                | Undefined \<Rightarrow> Undefined))
      | Exit_Failure \<Rightarrow> Exit_Failure
      | Undefined \<Rightarrow> Undefined)"
  by pat_completeness auto

lemma dropWhile_shorter: "x \<in> set xs \<Longrightarrow> length (dropWhile (\<lambda>c. c \<noteq> x) xs) - Suc 0 < length xs"
  using length_dropWhile_le [of "\<lambda>c. c \<noteq> x" xs] by (cases xs) auto

termination path_loop
  by (relation "measure (\<lambda>(alloc, abspath, dirname, path). length path)") (simp_all add: dropWhile_shorter)

declare path_loop.simps [simp del]

definition get_abs_path :: "(nat \<Rightarrow> bool) \<Rightarrow> string \<Rightarrow> string \<Rightarrow> sr option sr_result" where
  "get_abs_path alloc curdir path =
     (if path \<noteq> [] \<and> hd path = slash then sr_new alloc (c_memory path) 0
      else case sr_new alloc (c_memory curdir) 80 of
        Ok abspath \<Rightarrow>
          (case sr_new alloc (c_memory []) 80 of
             Ok (Some dirname) \<Rightarrow> path_loop alloc abspath dirname path
           | _ \<Rightarrow> Undefined)
      | r \<Rightarrow> r)"

section \<open>What it computes\<close>

text \<open>A directory as the list of its names, and the components of a path.\<close>

definition dir_text :: "string list \<Rightarrow> string" where
  "dir_text names = concat (map (Cons slash) names)"

fun components :: "string \<Rightarrow> string list" where
  "components [] = [[]]"
| "components (c # cs) = (if c = slash then [] # components cs else (c # hd (components cs)) # tl (components cs))"

fun resolve :: "string list \<Rightarrow> string list \<Rightarrow> string list option" where
  "resolve names [] = Some names"
| "resolve names (c # cs) =
     (if c = ''.'' then resolve names cs
      else if c = ''..'' then (if names = [] then None else resolve (butlast names) cs)
      else resolve (names @ [c]) cs)"

definition plain :: "string \<Rightarrow> bool" where
  "plain name \<longleftrightarrow> NUL \<notin> set name \<and> slash \<notin> set name"

lemma components_not_empty: "components path \<noteq> []"
  by (cases path) auto

lemma components_split:
  "components path = takeWhile (\<lambda>c. c \<noteq> slash) path #
     (if slash \<in> set path then components (tl (dropWhile (\<lambda>c. c \<noteq> slash) path)) else [])"
  by (induction path) (auto simp: components_not_empty)

lemma dir_text_snoc: "dir_text (names @ [c]) = dir_text names @ slash # c"
  by (simp add: dir_text_def)

lemma last_index_snoc: "slash \<notin> set c \<Longrightarrow> last_index slash (t @ slash # c) = Some (length t)"
proof -
  assume "slash \<notin> set c"
  then have "takeWhile (\<lambda>x. x \<noteq> slash) (rev c @ slash # rev t) = rev c" by (subst takeWhile_append2) auto
  then show ?thesis by (simp add: last_index_def)
qed

lemma cut_holds:
  assumes "sr_holds s (t @ c # u)"
  obtains s' where "cut_at s (length t) = Ok (Some s')" "sr_holds s' t"
proof -
  let ?v = "(sr_val s)[length t := Some NUL]"
  have len: "length (sr_val s) = unat (sr_size s)" "length t < unat (sr_size s)" "NUL \<notin> set t"
    using assms by (auto simp: sr_holds_def)
  have "sr_val s ! i = Some (t ! i)" if "i < length t" for i using holds_char [OF assms, of i] that by (simp add: nth_append)
  then have "take (length t) (sr_val s) = map Some t" using len by (intro nth_equalityI) auto
  then have v: "take (Suc (length t)) ?v = map Some (t @ [NUL])" using len by (simp add: take_Suc_conv_app_nth)
  then have "strlen ?v = Some (length t)" using len(3) by (intro strlen_string) (simp add: c_string_at_def)
  moreover have "unat (word_of_nat (length t) :: u64) = length t" using len size_bound [of "sr_size s"] by (intro length_word) simp
  then have "sr_holds (s\<lparr>sr_val := ?v, sr_len := word_of_nat (length t)\<rparr>) t" using v len by (simp add: sr_holds_def)
  ultimately show ?thesis using that by (simp add: cut_at_def)
qed


lemma holds_end: "sr_holds s t \<Longrightarrow> sr_val s ! length t = Some NUL"
proof -
  assume h: "sr_holds s t"
  then have "take (Suc (length t)) (sr_val s) ! length t = Some NUL" by (simp add: sr_holds_def nth_append)
  then show ?thesis by simp
qed

lemma take_component_holds:
  assumes "sr_holds dirname x" "NUL \<notin> set path" "length path < 2 ^ 64 - 1"
  shows "\<exists>d. take_component all_memory dirname path = Ok d \<and> sr_holds d (takeWhile (\<lambda>c. c \<noteq> slash) path)"
proof (cases "slash \<in> set path")
  case True
  let ?c = "takeWhile (\<lambda>c. c \<noteq> slash) path"
  have short: "length ?c < 2 ^ 64 - 1" using assms(3) length_takeWhile_le [of "\<lambda>c. c \<noteq> slash" path] by linarith
  have k: "unat (word_of_nat (length ?c) :: u64) = length ?c" using short by (intro length_word) simp
  have "unat (- 1 :: u64) = 2 ^ 64 - 1" by (simp add: unsigned_minus_1_eq_mask mask_eq_exp_minus_1)
  then have "(word_of_nat (length ?c) :: u64) \<noteq> - 1" using short k by (metis less_irrefl)
  moreover have "take (length ?c) (c_memory path) = map Some ?c"
    using length_takeWhile_le [of "\<lambda>c. c \<noteq> slash" path] by (simp add: c_memory_def take_map flip: takeWhile_eq_take)
  ultimately have "source_text (Native (c_memory path)) (word_of_nat (length ?c)) ?c"
    using assms(2) k short by (auto dest: set_takeWhileD)
  from gives_all [OF sr_copy_holds [OF assms(1) this short]]
  obtain d where d: "sr_copy all_memory dirname (Native (c_memory path)) (word_of_nat (length ?c)) = Ok d" "sr_holds d ?c" by auto
  then have "(sr_val d)[length ?c := Some NUL] = sr_val d" using holds_end [OF d(2)] by (metis list_update_id)
  then show ?thesis using d True by (simp add: take_component_def)
next
  case False
  then have c: "takeWhile (\<lambda>c. c \<noteq> slash) path = path" by (auto simp: takeWhile_eq_all_conv)
  have "source_text (Native (c_memory path)) (- 1) path" using assms(2,3) by simp
  from gives_all [OF sr_copy_holds [OF assms(1) this assms(3)]]
  obtain d where "sr_copy all_memory dirname (Native (c_memory path)) (- 1) = Ok d" "sr_holds d path" by blast
  then show ?thesis unfolding c take_component_def using False by simp
qed

lemma add_component_holds:
  assumes "sr_holds a (dir_text names)" "sr_holds d c" "\<forall>n \<in> set names. plain n" "slash \<notin> set c"
    and "length (dir_text names) + length c + 1 < 2 ^ 64 - 1"
  shows "case resolve names [c] of
      None \<Rightarrow> add_component all_memory (Some a) d c = Ok None
    | Some names' \<Rightarrow> \<exists>a'. add_component all_memory (Some a) d c = Ok (Some (Some a')) \<and> sr_holds a' (dir_text names')"
proof -
  note chars = c_chars_string [OF holds_c_string [OF assms(1)]]
  consider "c = ''.''" | "c = ''..''" "names = []" | n ns where "c = ''..''" "names = ns @ [n]" | "c \<noteq> ''.''" "c \<noteq> ''..''"
    by (cases names rule: rev_cases) auto
  then show ?thesis
  proof cases
    case 3
    then have "plain n" using assms(3) by simp
    then have "last_index slash (dir_text names) = Some (length (dir_text ns))"
      using 3 by (simp add: dir_text_snoc last_index_snoc plain_def)
    moreover obtain s' where "cut_at a (length (dir_text ns)) = Ok (Some s')" "sr_holds s' (dir_text ns)"
      using cut_holds assms(1) 3 by (metis dir_text_snoc)
    ultimately show ?thesis using 3 chars by (simp add: add_component_def)
  next
    case 4
    have "\<forall>x \<in> set [GEN_CHR slash, GEN_SR d]. arg_ok x" using assms(2) by auto
    moreover have "concat (map arg_out [GEN_CHR slash, GEN_SR d]) = slash # c"
      using print_sr_holds [OF assms(2)] by (simp add: arg_out_def)
    moreover have "length (dir_text names) + sum_list (map arg_room [GEN_CHR slash, GEN_SR d]) < 2 ^ 64 - 1"
      using assms(2,5) by (simp add: arg_room_def sr_holds_def)
    ultimately have "gives all_memory (sr_concat all_memory a [GEN_CHR slash, GEN_SR d]) (dir_text names @ slash # c)"
      using sr_concat_text [OF assms(1), of "[GEN_CHR slash, GEN_SR d]" all_memory] by simp
    from gives_all [OF this] show ?thesis using 4 by (auto simp: add_component_def dir_text_snoc)
  qed (use assms chars in \<open>auto simp: add_component_def dir_text_def last_index_def\<close>)
qed


lemma resolve_components:
  "resolve names (components path) = (case resolve names [takeWhile (\<lambda>c. c \<noteq> slash) path] of
     None \<Rightarrow> None
   | Some names' \<Rightarrow> resolve names' (if slash \<in> set path then components (tl (dropWhile (\<lambda>c. c \<noteq> slash) path)) else []))"
  by (subst components_split) simp

lemma resolve_one:
  assumes "resolve names [c] = Some names'" "\<forall>n \<in> set names. plain n" "plain c"
  shows "\<forall>n \<in> set names'. plain n" "length (dir_text names') \<le> length (dir_text names) + length c + 1"
proof -
  have "length (dir_text (butlast names)) \<le> length (dir_text names)"
    by (cases names rule: rev_cases) (simp_all add: dir_text_snoc)
  then show "length (dir_text names') \<le> length (dir_text names) + length c + 1"
    using assms(1) by (auto simp: dir_text_snoc split: if_splits)
  show "\<forall>n \<in> set names'. plain n" using assms by (auto split: if_splits dest: in_set_butlastD)
qed

lemma path_loop_resolves:
  assumes "sr_holds a (dir_text names)" "sr_holds dirname x" "\<forall>n \<in> set names. plain n" "NUL \<notin> set path"
    and "length (dir_text names) + length path + 1 < 2 ^ 64 - 1"
  shows "case resolve names (components path) of
      None \<Rightarrow> path_loop all_memory (Some a) dirname path = Ok None
    | Some names' \<Rightarrow> \<exists>s. path_loop all_memory (Some a) dirname path = Ok (Some s) \<and> sr_holds s (dir_text names')"
  using assms
proof (induction "length path" arbitrary: a names dirname x path rule: less_induct)
  case less
  let ?c = "takeWhile (\<lambda>c. c \<noteq> slash) path" and ?rest = "tl (dropWhile (\<lambda>c. c \<noteq> slash) path)"
  have c: "plain ?c" "length ?c \<le> length path"
    using less.prems(4) by (auto simp: plain_def length_takeWhile_le dest: set_takeWhileD)
  obtain d where d: "take_component all_memory dirname path = Ok d" "sr_holds d ?c"
    using take_component_holds [OF less.prems(2,4)] less.prems(5) by auto
  note name = c_chars_string [OF holds_c_string [OF d(2)]]
  have add: "case resolve names [?c] of
      None \<Rightarrow> add_component all_memory (Some a) d ?c = Ok None
    | Some names' \<Rightarrow> \<exists>a'. add_component all_memory (Some a) d ?c = Ok (Some (Some a')) \<and> sr_holds a' (dir_text names')"
    using c less.prems(5) by (intro add_component_holds [OF less.prems(1) d(2) less.prems(3)]) (simp_all add: plain_def)
  show ?case
  proof (cases "resolve names [?c]")
    case None
    then have "path_loop all_memory (Some a) dirname path = Ok None"
      using add d name by (subst path_loop.simps) (simp del: resolve.simps)
    then show ?thesis using None resolve_components [of names path] by simp
  next
    case (Some names')
    then obtain a' where a': "add_component all_memory (Some a) d ?c = Ok (Some (Some a'))" "sr_holds a' (dir_text names')"
      using add by auto
    then have loop: "path_loop all_memory (Some a) dirname path =
        (if slash \<in> set path then path_loop all_memory (Some a') d ?rest else Ok (Some a'))"
      using d name by (subst path_loop.simps) simp
    have res: "resolve names (components path) = resolve names' (if slash \<in> set path then components ?rest else [])"
      using Some resolve_components [of names path] by simp
    show ?thesis
    proof (cases "slash \<in> set path")
      case True
      note n' = resolve_one [OF Some less.prems(3) c(1)]
      have split: "length path = length ?c + length ?rest + 1"
        using True arg_cong [OF takeWhile_dropWhile_id [of "\<lambda>c. c \<noteq> slash" path], of length]
        by (cases "dropWhile (\<lambda>c. c \<noteq> slash) path") (auto simp: dropWhile_eq_Nil_conv)
      have nul: "NUL \<notin> set ?rest" using less.prems(4) by (metis list.set_sel(2) list.sel(2) set_dropWhileD)
      have "case resolve names' (components ?rest) of
          None \<Rightarrow> path_loop all_memory (Some a') d ?rest = Ok None
        | Some ns \<Rightarrow> \<exists>s. path_loop all_memory (Some a') d ?rest = Ok (Some s) \<and> sr_holds s (dir_text ns)"
        using split n'(2) less.prems(5) by (intro less.hyps [OF _ a'(2) d(2) n'(1) nul]) simp_all
      then show ?thesis unfolding res loop using True by simp
    next
      case False
      then show ?thesis unfolding res loop using a'(2) by simp
    qed
  qed
qed

text \<open>
  C36. The absolute path: with enough memory, \<^verbatim>\<open>get_abs_path\<close> of a relative path gives the current directory with the
  components of the path applied in order, \<open>.\<close> ignored and \<open>..\<close> leaving the last directory; it returns \<^verbatim>\<open>NULL\<close> exactly
  when the path leaves more directories than there are.
\<close>

theorem get_abs_path_resolves:
  assumes "\<forall>n \<in> set names. plain n" "NUL \<notin> set path" "path = [] \<or> hd path \<noteq> slash"
    and "length (dir_text names) + length path + 1 < 2 ^ 64 - 1"
  shows "case resolve names (components path) of
      None \<Rightarrow> get_abs_path all_memory (dir_text names) path = Ok None
    | Some names' \<Rightarrow> \<exists>s. get_abs_path all_memory (dir_text names) path = Ok (Some s) \<and> sr_holds s (dir_text names')"
proof -
  have mem: "\<forall>n. all_memory n" by (simp add: all_memory_def)
  have "NUL \<notin> set (dir_text names)" using assms(1) by (auto simp: dir_text_def plain_def)
  then obtain a where a: "sr_new all_memory (c_memory (dir_text names)) 80 = Ok (Some a)" "sr_holds a (dir_text names)"
    using assms(4) by (auto intro: sr_new_holds [OF c_memory_string _ mem, of "dir_text names" 80])
  obtain d where d: "sr_new all_memory (c_memory []) 80 = Ok (Some d)" "sr_holds d []"
    by (auto intro: sr_new_holds [OF c_memory_string _ mem, of "[]" 80])
  have "get_abs_path all_memory (dir_text names) path = path_loop all_memory (Some a) d path"
    using a d assms(3) by (auto simp: get_abs_path_def)
  then show ?thesis
    using path_loop_resolves [OF a(2) d(2) assms(1,2,4)] by (cases "resolve names (components path)") simp_all
qed

theorem get_abs_path_resolves_witness:
  "\<exists>s. get_abs_path all_memory ''/home/me/build'' ''../src/./a.c'' = Ok (Some s) \<and> sr_holds s ''/home/me/src/a.c''"
  using get_abs_path_resolves [of "[''home'', ''me'', ''build'']" "''../src/./a.c''"]
  by (simp add: plain_def dir_text_def)

end
