(* ===== verification/Dbginfo.thy ===== *)
theory Dbginfo
  imports Paths Expression "HOL-Library.Sublist"
begin

text \<open>
  \<^verbatim>\<open>record/dbginfo.c\<close>: the collection of debug information.  The entries that libdwarf reports are a datatype: a
  debug information entry has an offset, a tag, attributes in the forms of DWARF and child entries; each of these may be an
  error.  The code walks over them and fills the tables of \<^verbatim>\<open>record/db.c\<close>, lists of records in the order of
  insertion.  Whether a call of the database succeeds is an argument, numbered by the call; \<open>None\<close> is undefined behaviour.
\<close>

section \<open>What libdwarf reports\<close>

datatype dw_attribute =
  DW_AT_comp_dir | DW_AT_name | DW_AT_low_pc | DW_AT_high_pc | DW_AT_external | DW_AT_ranges | DW_AT_byte_size | DW_AT_encoding
| DW_AT_type | DW_AT_data_member_location | DW_AT_const_value | DW_AT_artificial | DW_AT_declaration | DW_AT_specification
| DW_AT_decl_file | DW_AT_decl_line | DW_AT_upper_bound

text \<open>The forms, those that are read alike together; \<open>DW_FORM_data\<close> has its width in bytes, \<open>DW_FORM_other\<close> is any other form.\<close>

datatype dw_form =
  DW_FORM_string string | DW_FORM_udata u64 | DW_FORM_data nat u64 | DW_FORM_sdata u64 | DW_FORM_addr u64 | DW_FORM_ref u64
| DW_FORM_flag bool | DW_FORM_block "byte list" | DW_FORM_other

datatype dw_attr = Attr_Error | Form_Error | Attr dw_form

datatype dw_tag =
  DW_TAG_variable | DW_TAG_formal_parameter | DW_TAG_subprogram | DW_TAG_structure_type | DW_TAG_union_type
| DW_TAG_enumeration_type | DW_TAG_lexical_block | DW_TAG_base_type | DW_TAG_array_type | DW_TAG_typedef | DW_TAG_pointer_type
| DW_TAG_const_type | DW_TAG_volatile_type | DW_TAG_subroutine_type | DW_TAG_restrict_type | DW_TAG_label
| DW_TAG_unspecified_parameters | DW_TAG_unspecified_type | DW_TAG_namespace | DW_TAG_member | DW_TAG_enumerator
| DW_TAG_subrange_type | DW_TAG_other nat

text \<open>\<open>d_end\<close>: after the last child \<^verbatim>\<open>dwarf_siblingof\<close> reports that there is no further entry, and not an error.\<close>

datatype die =
  Die (d_offset: "u64 option") (d_tag: "dw_tag option") (d_attrs: "(dw_attribute \<times> dw_attr) list") (d_children: "die list") (d_end: bool)

text \<open>A line of the line table, each of its properties possibly an error.\<close>

record dw_line =
  ln_begin :: "bool option"
  ln_end :: "bool option"
  ln_file :: "u64 option"
  ln_addr :: "u64 option"
  ln_no :: "u64 option"

text \<open>A unit: its entry, its source files and its lines (\<open>None\<close> for an error).\<close>

record dw_unit =
  du_die :: die
  du_files :: "string list option"
  du_lines :: "dw_line list option"

section \<open>Attributes\<close>

datatype ret_code = R_SUCCESS | R_FAILURE | R_END | R_MALFUNCTION

text \<open>The value that a variable gets; \<open>AV_unset\<close>: the attribute is present, but the variable keeps its value.\<close>

datatype attr_val = AV_str string | AV_num u64 | AV_unset

text \<open>\<^verbatim>\<open>dwarf_formsdata\<close> extends the sign of a narrower value, \<^verbatim>\<open>dwarf_formudata\<close> extends with zeros.\<close>

definition formsdata :: "nat \<Rightarrow> u64 \<Rightarrow> u64" where
  "formsdata w v = signed_take_bit (8 * w - 1) v"

fun formudata :: "dw_form \<Rightarrow> u64 option" where
  "formudata (DW_FORM_udata v) = Some v"
| "formudata (DW_FORM_data w v) = Some v"
| "formudata (DW_FORM_sdata v) = (if sint v < 0 then None else Some v)"
| "formudata _ = None"

text \<open>The operand of \<^verbatim>\<open>DW_OP_plus_uconst\<close> (0x23), seven bits in a byte.\<close>

definition block_value :: "byte list \<Rightarrow> attr_val" where
  "block_value bs =
     (if length bs > 1 \<and> hd bs = 0x23 then AV_num (foldr (\<lambda>b v. push_bit 7 v + ucast (and b 0x7f)) (tl bs) 0) else AV_unset)"

fun form_value :: "dw_attribute \<Rightarrow> dw_form \<Rightarrow> attr_val" where
  "form_value a (DW_FORM_string s) = AV_str s"
| "form_value a (DW_FORM_udata v) = AV_num v"
| "form_value a (DW_FORM_data w v) =
     AV_num (if a = DW_AT_decl_line \<or> a = DW_AT_decl_file \<or> a = DW_AT_byte_size then v else formsdata w v)"
| "form_value a (DW_FORM_sdata v) = AV_num v"
| "form_value a (DW_FORM_addr v) = AV_num v"
| "form_value a (DW_FORM_ref v) = AV_num v"
| "form_value a (DW_FORM_flag b) = AV_num (if b then 1 else 0)"
| "form_value a (DW_FORM_block bs) = block_value bs"
| "form_value a DW_FORM_other = AV_unset"

type_synonym attrs = "(dw_attribute \<times> attr_val) list"

definition attr_num :: "u64 \<Rightarrow> attrs \<Rightarrow> dw_attribute \<Rightarrow> u64" where
  "attr_num d as a = (case map_of as a of Some (AV_num v) \<Rightarrow> v | _ \<Rightarrow> d)"

definition attr_str :: "attrs \<Rightarrow> dw_attribute \<Rightarrow> string option" where
  "attr_str as a = (case map_of as a of Some (AV_str s) \<Rightarrow> Some s | _ \<Rightarrow> None)"

definition attr_present :: "attrs \<Rightarrow> dw_attribute list \<Rightarrow> bool" where
  "attr_present as ids = (\<forall>a \<in> set ids. a \<in> fst ` set as)"

text \<open>\<^verbatim>\<open>cnt\<close> is the number of files of the unit; the attributes found so far come with an error too, but no caller uses them.\<close>

fun get_attrs :: "u64 \<Rightarrow> die \<Rightarrow> dw_attribute list \<Rightarrow> ret_code \<times> attrs" where
  "get_attrs cnt die [] = (R_SUCCESS, [])"
| "get_attrs cnt die (a # ids) =
     (case map_of (d_attrs die) a of
        None \<Rightarrow> get_attrs cnt die ids
      | Some Attr_Error \<Rightarrow> (R_FAILURE, [])
      | Some Form_Error \<Rightarrow> (R_FAILURE, [])
      | Some (Attr form) \<Rightarrow>
          let v = form_value a form
          in if a = DW_AT_decl_file \<and> attr_num 0 [(a, v)] a > cnt then (R_MALFUNCTION, [])
             else case get_attrs cnt die ids of (r, as) \<Rightarrow> (r, (a, v) # as))"

definition die_offset :: "die \<Rightarrow> u64" where
  "die_offset die = (case d_offset die of None \<Rightarrow> 0 | Some v \<Rightarrow> v)"

section \<open>The tables\<close>

record cunit_row =
  un_id :: int
  un_name :: string
  un_path :: string
  un_base_addr :: int

record source_row =
  sf_id :: int
  sf_name :: string
  sf_path :: string
  sf_unit_id :: int
  sf_seq :: int

record scope_row =
  sc_id :: int
  sc_parent :: int
  sc_depth :: int
  sc_start :: int
  sc_end :: int

record statement_row =
  sl_file_id :: int
  sl_line :: int
  sl_address :: int
  sl_scope_id :: "int option"
  sl_function_id :: "int option"
  sl_func_flag :: "int option"

record function_row =
  fu_id :: int
  fu_name :: string
  fu_offset :: int
  fu_scope_id :: int

record dtype_row =
  dt_unit_id :: int
  dt_offset :: int
  dt_name :: "string option"
  dt_size :: "int option"
  dt_dim :: int
  dt_parent :: int
  dt_flags :: int
  dt_indirect :: int

record field_row =
  fd_unit_id :: int
  fd_offset :: int
  fd_name :: "string option"
  fd_type :: int
  fd_start :: int
  fd_value :: int

record symvar_row =
  sv_id :: int
  sv_name :: "string option"
  sv_unit_id :: int
  sv_type_offset :: int
  sv_scope_id :: int
  sv_offset :: int
  sv_file_id :: int
  sv_line :: int

text \<open>\<open>sy_ancestor\<close> is the table \<^verbatim>\<open>scope_ancestor\<close>, which \<^verbatim>\<open>alter_db\<close> creates: a scope and one of the scopes around it.\<close>

record sym_db =
  sy_unit :: "cunit_row list"
  sy_file :: "source_row list"
  sy_scope :: "scope_row list"
  sy_statement :: "statement_row list"
  sy_function :: "function_row list"
  sy_type :: "dtype_row list"
  sy_member :: "field_row list"
  sy_var :: "symvar_row list"
  sy_ancestor :: "(int \<times> int) list"

text \<open>\<open>cnt_file\<close>, \<open>fileids\<close>, \<open>cu_base\<close>, \<open>unitdir\<close> and \<open>unit_count\<close> are the static variables, \<open>db_calls\<close> counts the calls of the database.\<close>

record sym_state =
  sy_db :: sym_db
  db_calls :: nat
  cnt_file :: u64
  fileids :: "int list"
  cu_base :: u64
  unitdir :: string
  unit_count :: nat

text \<open>The identifier of the next row: rows are only added while debug information is collected.\<close>

definition next_id :: "'a list \<Rightarrow> int" where
  "next_id rows = int (length rows) + 1"

text \<open>A statement is an update of the tables that a constraint may refuse.\<close>

definition exec_stmt :: "(nat \<Rightarrow> bool) \<Rightarrow> (sym_db \<Rightarrow> sym_db option) \<Rightarrow> sym_state \<Rightarrow> status \<times> sym_state" where
  "exec_stmt dbo stmt s =
     (let s1 = s\<lparr>db_calls := Suc (db_calls s)\<rparr>
      in if dbo (db_calls s)
         then (case stmt (sy_db s) of None \<Rightarrow> (FAILURE, s1) | Some d \<Rightarrow> (SUCCESS, s1\<lparr>sy_db := d\<rparr>))
         else (FAILURE, s1))"

text \<open>The prepared statements.\<close>

definition insert_scope :: "int \<Rightarrow> int \<Rightarrow> u64 \<Rightarrow> u64 \<Rightarrow> sym_db \<Rightarrow> sym_db option" where
  "insert_scope parent depth lo hi d =
     Some (d\<lparr>sy_scope := sy_scope d @ [\<lparr>sc_id = next_id (sy_scope d), sc_parent = parent, sc_depth = depth, sc_start = sint lo, sc_end = sint hi\<rparr>]\<rparr>)"

definition insert_line :: "int \<Rightarrow> u64 \<Rightarrow> u64 \<Rightarrow> sym_db \<Rightarrow> sym_db option" where
  "insert_line file_id lineno address d =
     Some (d\<lparr>sy_statement := sy_statement d @
        [\<lparr>sl_file_id = file_id, sl_line = sint lineno, sl_address = sint address, sl_scope_id = None, sl_function_id = None, sl_func_flag = None\<rparr>]\<rparr>)"

definition insert_func :: "string option \<Rightarrow> int \<Rightarrow> u64 \<Rightarrow> sym_db \<Rightarrow> sym_db option" where
  "insert_func name scope_id offset d =
     (case name of
        None \<Rightarrow> None
      | Some n \<Rightarrow> Some (d\<lparr>sy_function := sy_function d @
          [\<lparr>fu_id = next_id (sy_function d), fu_name = n, fu_offset = sint offset, fu_scope_id = scope_id\<rparr>]\<rparr>))"

definition add_type :: "dtype_row \<Rightarrow> sym_db \<Rightarrow> sym_db option" where
  "add_type t d =
     (if \<exists>t' \<in> set (sy_type d). dt_unit_id t' = dt_unit_id t \<and> dt_offset t' = dt_offset t then None
      else Some (d\<lparr>sy_type := sy_type d @ [t]\<rparr>))"

definition insert_type :: "string option \<Rightarrow> u64 \<Rightarrow> int \<Rightarrow> int \<Rightarrow> u64 \<Rightarrow> u64 \<Rightarrow> sym_db \<Rightarrow> sym_db option" where
  "insert_type name sz flags unit_id offset parent =
     add_type \<lparr>dt_unit_id = unit_id, dt_offset = sint offset, dt_name = name, dt_size = Some (sint sz), dt_dim = 0,
               dt_parent = sint parent, dt_flags = flags, dt_indirect = 0\<rparr>"

definition insert_array :: "u64 \<Rightarrow> int \<Rightarrow> u64 \<Rightarrow> u64 \<Rightarrow> sym_db \<Rightarrow> sym_db option" where
  "insert_array items unit_id offset parent =
     add_type \<lparr>dt_unit_id = unit_id, dt_offset = sint offset, dt_name = None, dt_size = Some 0, dt_dim = sint items,
               dt_parent = sint parent, dt_flags = 7, dt_indirect = 0\<rparr>"

definition insert_member :: "int \<Rightarrow> u64 \<Rightarrow> string option \<Rightarrow> u64 \<Rightarrow> u64 \<Rightarrow> u64 \<Rightarrow> sym_db \<Rightarrow> sym_db option" where
  "insert_member unit_id offset name typ start val d =
     (if name \<noteq> None \<and> (\<exists>m \<in> set (sy_member d). fd_unit_id m = unit_id \<and> fd_offset m = sint offset \<and> fd_name m = name) then None
      else Some (d\<lparr>sy_member := sy_member d @
        [\<lparr>fd_unit_id = unit_id, fd_offset = sint offset, fd_name = name, fd_type = sint typ, fd_start = sint start, fd_value = sint val\<rparr>]\<rparr>))"

definition insert_var :: "string option \<Rightarrow> int \<Rightarrow> u64 \<Rightarrow> int \<Rightarrow> u64 \<Rightarrow> u64 \<Rightarrow> u64 \<Rightarrow> sym_db \<Rightarrow> sym_db option" where
  "insert_var name unit_id typ scope_id offset fileno lineno d =
     Some (d\<lparr>sy_var := sy_var d @
       [\<lparr>sv_id = next_id (sy_var d), sv_name = name, sv_unit_id = unit_id, sv_type_offset = sint typ, sv_scope_id = scope_id,
         sv_offset = sint offset, sv_file_id = sint fileno, sv_line = sint lineno\<rparr>]\<rparr>)"

definition update_var_loc :: "u64 \<Rightarrow> u64 \<Rightarrow> int \<Rightarrow> u64 \<Rightarrow> sym_db \<Rightarrow> sym_db option" where
  "update_var_loc fileno lineno unit_id offset d =
     Some (d\<lparr>sy_var := map (\<lambda>v. if sv_unit_id v = unit_id \<and> sv_offset v = sint offset
                                 then v\<lparr>sv_file_id := sint fileno, sv_line := sint lineno\<rparr> else v) (sy_var d)\<rparr>)"

section \<open>Types and variables\<close>

type_synonym outcome = "(status \<times> sym_state) option"

abbreviation failed :: "sym_state \<Rightarrow> status \<times> sym_state" where
  "failed s \<equiv> (FAILURE, s)"

definition base_kind :: "u64 \<Rightarrow> int" where
  "base_kind encoding = (if encoding \<in> {5, 6} then 1 else if encoding \<in> {7, 8} then 2 else if encoding = 4 then 3 else 0)"

definition proc_base_type :: "(nat \<Rightarrow> bool) \<Rightarrow> die \<Rightarrow> int \<Rightarrow> sym_state \<Rightarrow> status \<times> sym_state" where
  "proc_base_type dbo die unit_id s =
     (case d_offset die of
        None \<Rightarrow> failed s
      | Some offset \<Rightarrow>
          case get_attrs (cnt_file s) die [DW_AT_name, DW_AT_byte_size, DW_AT_encoding] of
            (R_SUCCESS, as) \<Rightarrow>
              if \<not> attr_present as [DW_AT_name, DW_AT_byte_size, DW_AT_encoding] then failed s
              else exec_stmt dbo (insert_type (attr_str as DW_AT_name) (attr_num 0 as DW_AT_byte_size)
                     (base_kind (attr_num 0 as DW_AT_encoding)) unit_id offset 0) s
          | _ \<Rightarrow> failed s)"

text \<open>The codes of \<^verbatim>\<open>TKIND_ALIAS\<close> and the other kinds; \<open>None\<close> for a tag that is not supported.\<close>

fun custom_kind :: "dw_tag \<Rightarrow> int option" where
  "custom_kind DW_TAG_typedef = Some 11"
| "custom_kind DW_TAG_array_type = Some 7"
| "custom_kind DW_TAG_pointer_type = Some 4"
| "custom_kind DW_TAG_subroutine_type = Some 8"
| "custom_kind DW_TAG_const_type = Some 0x10000"
| "custom_kind DW_TAG_restrict_type = Some 0x40000"
| "custom_kind DW_TAG_volatile_type = Some 0x20000"
| "custom_kind _ = None"

definition proc_custom_type :: "(nat \<Rightarrow> bool) \<Rightarrow> die \<Rightarrow> dw_tag \<Rightarrow> int \<Rightarrow> sym_state \<Rightarrow> status \<times> sym_state" where
  "proc_custom_type dbo die tag unit_id s =
     (case d_offset die of
        None \<Rightarrow> failed s
      | Some offset \<Rightarrow>
          case get_attrs (cnt_file s) die [DW_AT_type, DW_AT_name, DW_AT_byte_size] of
            (R_SUCCESS, as) \<Rightarrow>
              let known = attr_present as [DW_AT_type];
                  name = (if known then case_option [] (\<lambda>n. n) (attr_str as DW_AT_name)
                          else if tag = DW_TAG_pointer_type then ''void'' else [])
              in if \<not> known \<and> tag \<noteq> DW_TAG_pointer_type \<and> tag \<noteq> DW_TAG_subroutine_type then (SUCCESS, s)
                 else (case custom_kind tag of
                         None \<Rightarrow> failed s
                       | Some kind \<Rightarrow>
                           exec_stmt dbo (insert_type (Some name) (attr_num 0 as DW_AT_byte_size) kind unit_id offset
                             (attr_num 0 as DW_AT_type)) s)
          | _ \<Rightarrow> failed s)"

text \<open>The number of items in the first subrange among the children; \<open>None\<close> for an error.\<close>

fun array_dim :: "die list \<Rightarrow> bool \<Rightarrow> u64 option" where
  "array_dim [] ended = (if ended then Some 0 else None)"
| "array_dim (die # dies) ended =
     (case d_tag die of
        None \<Rightarrow> None
      | Some tag \<Rightarrow>
          if tag = DW_TAG_subrange_type then
            (case map_of (d_attrs die) DW_AT_upper_bound of
               None \<Rightarrow> Some 0
             | Some (Attr form) \<Rightarrow> map_option (\<lambda>v. v + 1) (formudata form)
             | _ \<Rightarrow> None)
          else array_dim dies ended)"

definition proc_array_type :: "(nat \<Rightarrow> bool) \<Rightarrow> die \<Rightarrow> int \<Rightarrow> sym_state \<Rightarrow> status \<times> sym_state" where
  "proc_array_type dbo die unit_id s =
     (case d_offset die of
        None \<Rightarrow> failed s
      | Some offset \<Rightarrow>
          case get_attrs (cnt_file s) die [DW_AT_type] of
            (R_SUCCESS, as) \<Rightarrow>
              if \<not> attr_present as [DW_AT_type] then failed s
              else (case array_dim (d_children die) (d_end die) of
                      None \<Rightarrow> failed s
                    | Some n \<Rightarrow> exec_stmt dbo (insert_array n unit_id offset (attr_num 0 as DW_AT_type)) s)
          | _ \<Rightarrow> failed s)"

definition proc_aggr_member :: "(nat \<Rightarrow> bool) \<Rightarrow> die \<Rightarrow> int \<Rightarrow> u64 \<Rightarrow> sym_state \<Rightarrow> status \<times> sym_state" where
  "proc_aggr_member dbo die unit_id offset s =
     (case get_attrs (cnt_file s) die [DW_AT_name, DW_AT_type, DW_AT_data_member_location] of
        (R_SUCCESS, as) \<Rightarrow>
          exec_stmt dbo (insert_member unit_id offset (attr_str as DW_AT_name) (attr_num 0 as DW_AT_type)
            (attr_num 0 as DW_AT_data_member_location) 0) s
      | _ \<Rightarrow> failed s)"

definition proc_enum_item :: "(nat \<Rightarrow> bool) \<Rightarrow> die \<Rightarrow> int \<Rightarrow> u64 \<Rightarrow> sym_state \<Rightarrow> status \<times> sym_state" where
  "proc_enum_item dbo die unit_id offset s =
     (case get_attrs (cnt_file s) die [DW_AT_name, DW_AT_const_value] of
        (R_SUCCESS, as) \<Rightarrow>
          exec_stmt dbo (insert_member unit_id offset (attr_str as DW_AT_name) 0 0 (attr_num 0 as DW_AT_const_value)) s
      | _ \<Rightarrow> failed s)"

fun aggr_kind :: "dw_tag \<Rightarrow> int option" where
  "aggr_kind DW_TAG_structure_type = Some 5"
| "aggr_kind DW_TAG_union_type = Some 6"
| "aggr_kind DW_TAG_enumeration_type = Some 10"
| "aggr_kind _ = None"

fun aggr_members :: "(nat \<Rightarrow> bool) \<Rightarrow> die list \<Rightarrow> bool \<Rightarrow> int \<Rightarrow> u64 \<Rightarrow> sym_state \<Rightarrow> status \<times> sym_state" where
  "aggr_members dbo [] ended unit_id offset s = (if ended then (SUCCESS, s) else failed s)"
| "aggr_members dbo (die # dies) ended unit_id offset s =
     (case (case d_tag die of
              Some DW_TAG_member \<Rightarrow> proc_aggr_member dbo die unit_id offset s
            | Some DW_TAG_enumerator \<Rightarrow> proc_enum_item dbo die unit_id offset s
            | _ \<Rightarrow> failed s) of
        (SUCCESS, s1) \<Rightarrow> aggr_members dbo dies ended unit_id offset s1
      | r \<Rightarrow> r)"

definition proc_aggr_type :: "(nat \<Rightarrow> bool) \<Rightarrow> die \<Rightarrow> dw_tag \<Rightarrow> int \<Rightarrow> sym_state \<Rightarrow> status \<times> sym_state" where
  "proc_aggr_type dbo die tag unit_id s =
     (case d_offset die of
        None \<Rightarrow> failed s
      | Some offset \<Rightarrow>
          case get_attrs (cnt_file s) die [DW_AT_name, DW_AT_byte_size] of
            (R_SUCCESS, as) \<Rightarrow>
              let name = (if attr_present as [DW_AT_name] then attr_str as DW_AT_name else Some [])
              in (case aggr_kind tag of
                    None \<Rightarrow> failed s
                  | Some kind \<Rightarrow>
                      case exec_stmt dbo (insert_type name (attr_num 0 as DW_AT_byte_size) kind unit_id offset 0) s of
                        (SUCCESS, s1) \<Rightarrow> aggr_members dbo (d_children die) (d_end die) unit_id offset s1
                      | r \<Rightarrow> r)
          | _ \<Rightarrow> failed s)"

text \<open>The variable \<^verbatim>\<open>line\<close> is not initialised: \<open>junk\<close> is what it holds when the entry has no line.\<close>

definition proc_var :: "(nat \<Rightarrow> bool) \<Rightarrow> u64 \<Rightarrow> die \<Rightarrow> int \<Rightarrow> int \<Rightarrow> sym_state \<Rightarrow> status \<times> sym_state" where
  "proc_var dbo junk die scope_id unit_id s =
     (case d_offset die of
        None \<Rightarrow> failed s
      | Some offset \<Rightarrow>
          case get_attrs (cnt_file s) die [DW_AT_type, DW_AT_name, DW_AT_artificial, DW_AT_declaration, DW_AT_external,
                                           DW_AT_specification, DW_AT_decl_file, DW_AT_decl_line] of
            (R_SUCCESS, as) \<Rightarrow>
              let name = attr_str as DW_AT_name;
                  spec = attr_present as [DW_AT_specification];
                  scope_id' = (if attr_num 0 as DW_AT_external \<noteq> 0 then 0 else scope_id);
                  fileno = attr_num 0 as DW_AT_decl_file;
                  lineno = attr_num junk as DW_AT_decl_line
              in if attr_num 0 as DW_AT_artificial \<noteq> 0 \<or> name = None \<and> \<not> spec then (SUCCESS, s)
                 else if \<not> attr_present as [DW_AT_type] \<and> \<not> spec then failed s
                 else if spec then exec_stmt dbo (update_var_loc fileno lineno unit_id (attr_num 0 as DW_AT_specification)) s
                 else exec_stmt dbo (insert_var name unit_id (attr_num 0 as DW_AT_type) scope_id' offset fileno lineno) s
          | _ \<Rightarrow> failed s)"

section \<open>Functions and blocks\<close>

text \<open>The end of a function or block: \<^verbatim>\<open>hi_addr\<close> may be an offset.\<close>

definition high_address :: "u64 \<Rightarrow> u64 \<Rightarrow> u64" where
  "high_address lo hi = (if hi < lo then hi + lo else hi)"

text \<open>
  The addresses of a block; \<open>None\<close> is undefined behaviour (fewer than two ranges: index -1), \<open>Some None\<close> an error.  The
  ranges at an offset are those that \<^verbatim>\<open>dwarf_get_ranges\<close> gives, the terminator included.
\<close>

definition block_range :: "(u64 \<Rightarrow> (u64 \<times> u64) list option) \<Rightarrow> u64 \<Rightarrow> attrs \<Rightarrow> (u64 \<times> u64) option option" where
  "block_range ranges base as =
     (if \<not> attr_present as [DW_AT_low_pc, DW_AT_high_pc] \<and> attr_present as [DW_AT_ranges] then
        (case ranges (attr_num 0 as DW_AT_ranges) of
           None \<Rightarrow> Some None
         | Some rs \<Rightarrow>
             if length rs < 2 then None
             else Some (Some (base + fst (rs ! 0), base + snd (rs ! (length rs - 2)))))
      else Some (Some (attr_num 0 as DW_AT_low_pc, attr_num 0 as DW_AT_high_pc)))"

record walk =
  wk_db :: "nat \<Rightarrow> bool"
  wk_junk :: u64
  wk_ranges :: "u64 \<Rightarrow> (u64 \<times> u64) list option"
  wk_unit :: int

lemma size_children: "size_list size (d_children die) < size die"
  by (cases die) simp

text \<open>
  \<^verbatim>\<open>proc_symbols\<close> on the children of an entry, with \<^verbatim>\<open>proc_func\<close> and \<^verbatim>\<open>proc_block\<close>, which call it
  for their own children.
\<close>

function (sequential) proc_symbols :: "walk \<Rightarrow> die list \<Rightarrow> bool \<Rightarrow> int \<Rightarrow> int \<Rightarrow> sym_state \<Rightarrow> outcome"
and proc_die :: "walk \<Rightarrow> die \<Rightarrow> int \<Rightarrow> int \<Rightarrow> sym_state \<Rightarrow> outcome"
and proc_func :: "walk \<Rightarrow> die \<Rightarrow> int \<Rightarrow> int \<Rightarrow> sym_state \<Rightarrow> outcome"
and proc_block :: "walk \<Rightarrow> die \<Rightarrow> int \<Rightarrow> int \<Rightarrow> sym_state \<Rightarrow> outcome" where
  "proc_symbols w [] ended scope_id depth s = Some (if ended then SUCCESS else FAILURE, s)"
| "proc_symbols w (die # dies) ended scope_id depth s =
     (case proc_die w die scope_id depth s of
        Some (SUCCESS, s1) \<Rightarrow> proc_symbols w dies ended scope_id depth s1
      | r \<Rightarrow> r)"
| "proc_die w die scope_id depth s =
     (case d_tag die of
        None \<Rightarrow> Some (failed s)
      | Some tag \<Rightarrow>
          if tag \<in> {DW_TAG_variable, DW_TAG_formal_parameter} then Some (proc_var (wk_db w) (wk_junk w) die scope_id (wk_unit w) s)
          else if tag = DW_TAG_subprogram then proc_func w die scope_id depth s
          else if tag \<in> {DW_TAG_structure_type, DW_TAG_union_type, DW_TAG_enumeration_type} then
            Some (proc_aggr_type (wk_db w) die tag (wk_unit w) s)
          else if tag = DW_TAG_lexical_block then proc_block w die scope_id depth s
          else if tag = DW_TAG_base_type then Some (proc_base_type (wk_db w) die (wk_unit w) s)
          else if tag = DW_TAG_array_type then Some (proc_array_type (wk_db w) die (wk_unit w) s)
          else if tag \<in> {DW_TAG_typedef, DW_TAG_pointer_type, DW_TAG_const_type, DW_TAG_volatile_type, DW_TAG_subroutine_type,
                         DW_TAG_restrict_type} then Some (proc_custom_type (wk_db w) die tag (wk_unit w) s)
          else if tag \<in> {DW_TAG_label, DW_TAG_unspecified_parameters, DW_TAG_unspecified_type, DW_TAG_namespace} then Some (SUCCESS, s)
          else Some (failed s))"
| "proc_func w die scope_id depth s =
     (case get_attrs (cnt_file s) die [DW_AT_name, DW_AT_low_pc, DW_AT_high_pc, DW_AT_external] of
        (R_SUCCESS, as) \<Rightarrow>
          if \<not> attr_present as [DW_AT_name] then Some (failed s)
          else if \<not> attr_present as [DW_AT_low_pc, DW_AT_high_pc] then
            Some (if attr_present as [DW_AT_external] \<and> attr_num 0 as DW_AT_external \<noteq> 0 then (SUCCESS, s) else failed s)
          else
            let lo = attr_num 0 as DW_AT_low_pc;
                hi = high_address lo (attr_num 0 as DW_AT_high_pc)
            in (case exec_stmt (wk_db w) (insert_scope scope_id depth lo hi) s of
                  (SUCCESS, s1) \<Rightarrow>
                    let id1 = int (length (sy_scope (sy_db s1)))
                    in (case exec_stmt (wk_db w) (insert_func (attr_str as DW_AT_name) id1 (die_offset die)) s1 of
                          (SUCCESS, s2) \<Rightarrow> proc_symbols w (d_children die) (d_end die) id1 (depth + 1) s2
                        | r \<Rightarrow> Some r)
                | r \<Rightarrow> Some r)
      | _ \<Rightarrow> Some (failed s))"
| "proc_block w die scope_id depth s =
     (case get_attrs (cnt_file s) die [DW_AT_low_pc, DW_AT_high_pc, DW_AT_ranges] of
        (R_SUCCESS, as) \<Rightarrow>
          (case block_range (wk_ranges w) (cu_base s) as of
             None \<Rightarrow> None
           | Some None \<Rightarrow> Some (failed s)
           | Some (Some (lo, hi)) \<Rightarrow>
               (case exec_stmt (wk_db w) (insert_scope scope_id depth lo (high_address lo hi)) s of
                  (SUCCESS, s1) \<Rightarrow>
                    proc_symbols w (d_children die) (d_end die) (int (length (sy_scope (sy_db s1)))) (depth + 1) s1
                | r \<Rightarrow> Some r))
      | _ \<Rightarrow> Some (failed s))"
  by pat_completeness auto

termination
proof (relation "measure (\<lambda>x. case x of
       Inl (Inl (w, dies, ended, scope_id, depth, s)) \<Rightarrow> 3 * size_list size dies
     | Inl (Inr (w, die, scope_id, depth, s)) \<Rightarrow> 3 * size die + 2
     | Inr (Inl (w, die, scope_id, depth, s)) \<Rightarrow> 3 * size die + 1
     | Inr (Inr (w, die, scope_id, depth, s)) \<Rightarrow> 3 * size die + 1)", goal_cases)
  case 1
  show ?case by simp
qed (use size_children in \<open>auto simp: less_SucI\<close>)

declare proc_symbols.simps [simp del] proc_die.simps [simp del] proc_func.simps [simp del] proc_block.simps [simp del]

section \<open>Units\<close>

text \<open>The options of the recorder: \<^verbatim>\<open>acceptable_path\<close> and the lists \<^verbatim>\<open>process_unit\<close> and \<^verbatim>\<open>ignore_unit\<close>.\<close>

record options =
  acceptable_path :: string
  process_unit :: "string list"
  ignore_unit :: "string list"

text \<open>\<^verbatim>\<open>basename\<close> of POSIX.\<close>

definition basename :: "string \<Rightarrow> string" where
  "basename path =
     (let p = rev (dropWhile (\<lambda>c. c = slash) (rev path))
      in if path = [] then ''.'' else if p = [] then ''/'' else rev (takeWhile (\<lambda>c. c \<noteq> slash) (rev p)))"

definition acceptable :: "options \<Rightarrow> string \<Rightarrow> bool" where
  "acceptable opt path \<longleftrightarrow> take (length (acceptable_path opt)) path = acceptable_path opt"

definition trim_path :: "options \<Rightarrow> string \<Rightarrow> string" where
  "trim_path opt path =
     (let p = drop (length (acceptable_path opt)) path in if p \<noteq> [] \<and> hd p = slash then tl p else p)"

definition insert_file :: "string \<Rightarrow> string \<Rightarrow> int \<Rightarrow> nat \<Rightarrow> sym_db \<Rightarrow> sym_db option" where
  "insert_file name path unit_id i d =
     Some (d\<lparr>sy_file := sy_file d @
       [\<lparr>sf_id = next_id (sy_file d), sf_name = name, sf_path = path, sf_unit_id = unit_id, sf_seq = int i + 1\<rparr>]\<rparr>)"

text \<open>The text of the absolute path of a file; \<open>None\<close> when there is none and the code reads through \<^verbatim>\<open>NULL\<close>.\<close>

definition source_path :: "(nat \<Rightarrow> bool) \<Rightarrow> string \<Rightarrow> string \<Rightarrow> string option" where
  "source_path alloc dir name = (case get_abs_path alloc dir name of Ok (Some p) \<Rightarrow> c_chars (sr_val p) | _ \<Rightarrow> None)"

text \<open>The loop over the files of the unit, from the \<open>i\<close>-th.\<close>

fun proc_files :: "(nat \<Rightarrow> bool) \<Rightarrow> (nat \<Rightarrow> bool) \<Rightarrow> options \<Rightarrow> int \<Rightarrow> nat \<Rightarrow> string list \<Rightarrow> sym_state \<Rightarrow> outcome" where
  "proc_files dbo alloc opt unit_id i [] s = Some (SUCCESS, s)"
| "proc_files dbo alloc opt unit_id i (name # names) s =
     (case source_path alloc (unitdir s) name of
        None \<Rightarrow> None
      | Some path \<Rightarrow>
          if acceptable opt path then
            (case exec_stmt dbo (insert_file (basename name) (trim_path opt path) unit_id i) s of
               (SUCCESS, s1) \<Rightarrow>
                 proc_files dbo alloc opt unit_id (Suc i) names
                   (s1\<lparr>fileids := fileids s1 @ [int (length (sy_file (sy_db s1)))]\<rparr>)
             | r \<Rightarrow> Some r)
          else proc_files dbo alloc opt unit_id (Suc i) names (s\<lparr>fileids := fileids s @ [0]\<rparr>))"

text \<open>One line of the line table; \<open>None\<close> when the number of the file is out of range.\<close>

definition proc_line :: "(nat \<Rightarrow> bool) \<Rightarrow> dw_line \<Rightarrow> sym_state \<Rightarrow> outcome" where
  "proc_line dbo l s =
     (case ln_begin l of
        None \<Rightarrow> Some (failed s)
      | Some False \<Rightarrow> Some (SUCCESS, s)
      | Some True \<Rightarrow>
     (case ln_end l of
        None \<Rightarrow> Some (failed s)
      | Some True \<Rightarrow> Some (SUCCESS, s)
      | Some False \<Rightarrow>
     (case ln_file l of
        None \<Rightarrow> Some (failed s)
      | Some fileno \<Rightarrow>
          if fileno = 0 \<or> length (fileids s) < unat fileno then None
          else
            let file_id = fileids s ! (unat fileno - 1)
            in if file_id = 0 then Some (SUCCESS, s)
               else (case (ln_addr l, ln_no l) of
                       (Some address, Some lineno) \<Rightarrow> Some (exec_stmt dbo (insert_line file_id lineno address) s)
                     | _ \<Rightarrow> Some (failed s)))))"

fun line_loop :: "(nat \<Rightarrow> bool) \<Rightarrow> dw_line list \<Rightarrow> sym_state \<Rightarrow> outcome" where
  "line_loop dbo [] s = Some (SUCCESS, s)"
| "line_loop dbo (l # ls) s =
     (case proc_line dbo l s of Some (SUCCESS, s1) \<Rightarrow> line_loop dbo ls s1 | r \<Rightarrow> r)"

definition proc_lines :: "(nat \<Rightarrow> bool) \<Rightarrow> (nat \<Rightarrow> bool) \<Rightarrow> options \<Rightarrow> dw_unit \<Rightarrow> int \<Rightarrow> sym_state \<Rightarrow> outcome" where
  "proc_lines dbo alloc opt u unit_id s =
     (case du_files u of
        None \<Rightarrow> Some (failed s)
      | Some names \<Rightarrow>
          case proc_files dbo alloc opt unit_id 0 names (s\<lparr>cnt_file := word_of_nat (length names), fileids := []\<rparr>) of
            Some (SUCCESS, s1) \<Rightarrow> (case du_lines u of None \<Rightarrow> Some (failed s1) | Some ls \<Rightarrow> line_loop dbo ls s1)
          | r \<Rightarrow> r)"

text \<open>The white list, or else the black list, of units.\<close>

definition unit_selected :: "options \<Rightarrow> string option \<Rightarrow> bool" where
  "unit_selected opt name =
     (case name of
        None \<Rightarrow> True
      | Some n \<Rightarrow>
          if process_unit opt \<noteq> [] then basename n \<in> set (process_unit opt) else basename n \<notin> set (ignore_unit opt))"

definition insert_unit :: "string option \<Rightarrow> string \<Rightarrow> u64 \<Rightarrow> sym_db \<Rightarrow> sym_db option" where
  "insert_unit name path base d =
     (case name of
        None \<Rightarrow> None
      | Some n \<Rightarrow> Some (d\<lparr>sy_unit := sy_unit d @
          [\<lparr>un_id = next_id (sy_unit d), un_name = basename n, un_path = path, un_base_addr = sint base\<rparr>]\<rparr>))"

text \<open>The end of a transaction that began with the tables \<open>d0\<close>.\<close>

definition rollback_to :: "(nat \<Rightarrow> bool) \<Rightarrow> sym_db \<Rightarrow> sym_state \<Rightarrow> sym_state" where
  "rollback_to dbo d0 s =
     (let s1 = s\<lparr>db_calls := Suc (db_calls s)\<rparr> in if dbo (db_calls s) then s1\<lparr>sy_db := d0\<rparr> else s1)"

text \<open>The part of \<^verbatim>\<open>proc_unit\<close> inside of the transaction, and the transaction.\<close>

definition unit_body :: "walk \<Rightarrow> (nat \<Rightarrow> bool) \<Rightarrow> options \<Rightarrow> dw_unit \<Rightarrow> string option \<Rightarrow> string \<Rightarrow> sym_state \<Rightarrow> outcome" where
  "unit_body w alloc opt u name path s =
     (case exec_stmt (wk_db w) (insert_unit name path (cu_base s)) s of
        (SUCCESS, s1) \<Rightarrow>
          let unit_id = int (length (sy_unit (sy_db s1)))
          in (case proc_lines (wk_db w) alloc opt u unit_id (s1\<lparr>unitdir := path\<rparr>) of
                Some (SUCCESS, s2) \<Rightarrow>
                  (case proc_symbols (w\<lparr>wk_unit := unit_id\<rparr>) (d_children (du_die u)) (d_end (du_die u)) 0 0 s2 of
                     Some (SUCCESS, s3) \<Rightarrow> Some (exec_stmt (wk_db w) Some s3)
                   | r \<Rightarrow> r)
              | r \<Rightarrow> r)
      | r \<Rightarrow> Some r)"

definition unit_transaction :: "walk \<Rightarrow> (nat \<Rightarrow> bool) \<Rightarrow> options \<Rightarrow> dw_unit \<Rightarrow> string option \<Rightarrow> string \<Rightarrow> sym_state \<Rightarrow> (ret_code \<times> sym_state) option" where
  "unit_transaction w alloc opt u name path s =
     (case exec_stmt (wk_db w) Some s of
        (FAILURE, s1) \<Rightarrow> Some (R_FAILURE, s1)
      | (SUCCESS, s1) \<Rightarrow>
          case unit_body w alloc opt u name path s1 of
            None \<Rightarrow> None
          | Some (SUCCESS, s2) \<Rightarrow> Some (R_SUCCESS, s2)
          | Some (FAILURE, s2) \<Rightarrow> Some (R_FAILURE, rollback_to (wk_db w) (sy_db s1) s2))"

text \<open>What \<^verbatim>\<open>dwarf_next_cu_header\<close> and \<^verbatim>\<open>dwarf_siblingof\<close> report for the next unit; \<open>Cu_No_Die\<close>, a header without entry, is not detected.\<close>

datatype cu = Cu_End | Cu_Header_Error | Cu_Die_Error | Cu_No_Die | Cu dw_unit

fun proc_unit :: "walk \<Rightarrow> (nat \<Rightarrow> bool) \<Rightarrow> options \<Rightarrow> cu \<Rightarrow> sym_state \<Rightarrow> (ret_code \<times> sym_state) option" where
  "proc_unit w alloc opt Cu_End s = Some (R_END, s)"
| "proc_unit w alloc opt Cu_Header_Error s = Some (R_FAILURE, s)"
| "proc_unit w alloc opt Cu_Die_Error s = Some (R_FAILURE, s)"
| "proc_unit w alloc opt Cu_No_Die s = None"
| "proc_unit w alloc opt (Cu u) s =
     (case get_attrs (cnt_file s) (du_die u) [DW_AT_comp_dir, DW_AT_name, DW_AT_low_pc] of
        (R_SUCCESS, as) \<Rightarrow>
          let s1 = s\<lparr>cu_base := attr_num (cu_base s) as DW_AT_low_pc\<rparr>;
              name = attr_str as DW_AT_name
          in (case attr_str as DW_AT_comp_dir of
                None \<Rightarrow> None
              | Some path \<Rightarrow>
                  if \<not> acceptable opt path \<or> \<not> unit_selected opt name then Some (R_SUCCESS, s1)
                  else unit_transaction w alloc opt u name (trim_path opt path) (s1\<lparr>unit_count := Suc (unit_count s1)\<rparr>))
      | (r, as) \<Rightarrow> Some (r, s))"

fun proc_units :: "walk \<Rightarrow> (nat \<Rightarrow> bool) \<Rightarrow> options \<Rightarrow> cu list \<Rightarrow> sym_state \<Rightarrow> outcome" where
  "proc_units w alloc opt [] s = Some (SUCCESS, s)"
| "proc_units w alloc opt (u # us) s =
     (case proc_unit w alloc opt u s of
        None \<Rightarrow> None
      | Some (R_SUCCESS, s1) \<Rightarrow> proc_units w alloc opt us s1
      | Some (R_END, s1) \<Rightarrow> Some (SUCCESS, s1)
      | Some (r, s1) \<Rightarrow> Some (failed s1))"

text \<open>The state at the start: no rows.\<close>

definition no_rows :: sym_db where
  "no_rows = \<lparr>sy_unit = [], sy_file = [], sy_scope = [], sy_statement = [], sy_function = [], sy_type = [], sy_member = [], sy_var = [], sy_ancestor = []\<rparr>"

definition start_state :: sym_state where
  "start_state = \<lparr>sy_db = no_rows, db_calls = 0, cnt_file = 0, fileids = [], cu_base = 0, unitdir = [], unit_count = 0\<rparr>"

section \<open>Consistent tables\<close>

text \<open>
  Scopes are numbered from 1 in the order of insertion; the parent of a scope is the global scope 0 at depth 0, or a scope
  stored before, one level up.
\<close>

definition scopes_ok :: "scope_row list \<Rightarrow> bool" where
  "scopes_ok rows \<longleftrightarrow>
     (\<forall>i < length rows. sc_id (rows ! i) = int i + 1 \<and>
        (sc_parent (rows ! i) = 0 \<and> sc_depth (rows ! i) = 0 \<or>
         (\<exists>j < i. sc_parent (rows ! i) = int j + 1 \<and> sc_depth (rows ! i) = sc_depth (rows ! j) + 1)))"

definition scope_ids :: "sym_db \<Rightarrow> int set" where
  "scope_ids d = sc_id ` set (sy_scope d)"

definition type_keys :: "sym_db \<Rightarrow> (int \<times> int) list" where
  "type_keys d = map (\<lambda>t. (dt_unit_id t, dt_offset t)) (sy_type d)"

definition unit_ids :: "sym_db \<Rightarrow> int set" where
  "unit_ids d = un_id ` set (sy_unit d)"

definition scope_refs_ok :: "sym_db \<Rightarrow> bool" where
  "scope_refs_ok d \<longleftrightarrow>
     scopes_ok (sy_scope d) \<and> distinct (map fu_scope_id (sy_function d)) \<and> fu_scope_id ` set (sy_function d) \<subseteq> scope_ids d \<and>
     sv_scope_id ` set (sy_var d) \<subseteq> insert 0 (scope_ids d)"

definition unit_refs_ok :: "sym_db \<Rightarrow> bool" where
  "unit_refs_ok d \<longleftrightarrow>
     distinct (type_keys d) \<and> (\<lambda>m. (fd_unit_id m, fd_offset m)) ` set (sy_member d) \<subseteq> set (type_keys d) \<and>
     dt_unit_id ` set (sy_type d) \<subseteq> unit_ids d \<and> sv_unit_id ` set (sy_var d) \<subseteq> unit_ids d \<and>
     sf_unit_id ` set (sy_file d) \<subseteq> unit_ids d"

definition line_refs_ok :: "sym_db \<Rightarrow> bool" where
  "line_refs_ok d \<longleftrightarrow>
     map sf_id (sy_file d) = map (\<lambda>i. int i + 1) [0..<length (sy_file d)] \<and>
     sl_file_id ` set (sy_statement d) \<subseteq> sf_id ` set (sy_file d)"

definition consistent :: "sym_db \<Rightarrow> bool" where
  "consistent d \<longleftrightarrow> scope_refs_ok d \<and> unit_refs_ok d \<and> line_refs_ok d"

text \<open>A scope of the tables with the depth of what is inside of it.\<close>

definition valid_scope :: "sym_db \<Rightarrow> int \<Rightarrow> int \<Rightarrow> bool" where
  "valid_scope d i depth \<longleftrightarrow> i = 0 \<and> depth = 0 \<or> (\<exists>r \<in> set (sy_scope d). sc_id r = i \<and> depth = sc_depth r + 1)"

text \<open>What a statement of the walk does to the tables: they stay consistent, and scopes, units, files and types stay.\<close>

definition db_link :: "sym_db \<Rightarrow> sym_db \<Rightarrow> bool" where
  "db_link d d' \<longleftrightarrow>
     (consistent d \<longrightarrow> consistent d') \<and> prefix (sy_scope d) (sy_scope d') \<and> prefix (sy_unit d) (sy_unit d') \<and>
     prefix (sy_file d) (sy_file d') \<and> prefix (sy_type d) (sy_type d')"

definition link :: "sym_state \<Rightarrow> sym_state \<Rightarrow> bool" where
  "link s s' \<longleftrightarrow> db_link (sy_db s) (sy_db s') \<and> fileids s' = fileids s"

lemma db_link_refl [simp]: "db_link d d"
  by (simp add: db_link_def)

lemma db_link_trans: "db_link a b \<Longrightarrow> db_link b c \<Longrightarrow> db_link a c"
  by (auto simp: db_link_def intro: prefix_order.trans)

lemma link_refl [simp]: "link s s"
  by (simp add: link_def)

lemma link_trans: "link a b \<Longrightarrow> link b c \<Longrightarrow> link a c"
  by (auto simp: link_def intro: db_link_trans)

lemma valid_scope_link: "valid_scope d i n \<Longrightarrow> db_link d d' \<Longrightarrow> valid_scope d' i n"
  by (auto simp: valid_scope_def db_link_def dest: set_mono_prefix)

lemma unit_ids_link: "u \<in> unit_ids d \<Longrightarrow> db_link d d' \<Longrightarrow> u \<in> unit_ids d'"
  by (auto simp: unit_ids_def db_link_def dest: set_mono_prefix)

lemma exec_stmt_cases:
  assumes "exec_stmt dbo stmt s = (r, s')"
  obtains "r = FAILURE" "s' = s\<lparr>db_calls := Suc (db_calls s)\<rparr>"
  | d where "r = SUCCESS" "stmt (sy_db s) = Some d" "s' = s\<lparr>db_calls := Suc (db_calls s), sy_db := d\<rparr>"
  using assms by (auto simp: exec_stmt_def Let_def split: if_splits option.splits)

lemma link_exec:
  assumes "exec_stmt dbo stmt s = (r, s')" "\<And>d'. stmt (sy_db s) = Some d' \<Longrightarrow> db_link (sy_db s) d'"
  shows "link s s'"
  using assms(1) by (rule exec_stmt_cases) (use assms(2) in \<open>auto simp: link_def\<close>)

text \<open>Scopes.\<close>

lemma scopes_ok_id: "scopes_ok rows \<Longrightarrow> r \<in> set rows \<Longrightarrow> 1 \<le> sc_id r \<and> sc_id r \<le> int (length rows)"
  by (auto simp: scopes_ok_def in_set_conv_nth)

lemma scopes_ok_snoc:
  assumes "scopes_ok rows" "sc_id r = next_id rows"
    and "sc_parent r = 0 \<and> sc_depth r = 0 \<or> (\<exists>q \<in> set rows. sc_id q = sc_parent r \<and> sc_depth r = sc_depth q + 1)"
  shows "scopes_ok (rows @ [r])"
proof -
  have "\<exists>j < length rows. sc_parent r = int j + 1 \<and> sc_depth r = sc_depth (rows ! j) + 1"
    if "q \<in> set rows" "sc_id q = sc_parent r" "sc_depth r = sc_depth q + 1" for q
  proof -
    from that(1) obtain j where j: "j < length rows" "q = rows ! j" by (auto simp: in_set_conv_nth)
    with assms(1) that show ?thesis by (intro exI [of _ j]) (auto simp: scopes_ok_def)
  qed
  with assms(3) have new: "sc_parent r = 0 \<and> sc_depth r = 0 \<or>
      (\<exists>j < length rows. sc_parent r = int j + 1 \<and> sc_depth r = sc_depth (rows ! j) + 1)" by blast
  show ?thesis unfolding scopes_ok_def
  proof (intro allI impI)
    fix i assume i: "i < length (rows @ [r])"
    show "sc_id ((rows @ [r]) ! i) = int i + 1 \<and>
        (sc_parent ((rows @ [r]) ! i) = 0 \<and> sc_depth ((rows @ [r]) ! i) = 0 \<or>
         (\<exists>j < i. sc_parent ((rows @ [r]) ! i) = int j + 1 \<and> sc_depth ((rows @ [r]) ! i) = sc_depth ((rows @ [r]) ! j) + 1))"
    proof (cases "i < length rows")
      case True
      then have "(rows @ [r]) ! j = rows ! j" if "j \<le> i" for j using that by (simp add: nth_append)
      with True assms(1) show ?thesis by (simp add: scopes_ok_def less_imp_le cong: conj_cong)
    next
      case False
      with i have "i = length rows" by simp
      with new assms(2) show ?thesis by (auto simp: nth_append next_id_def)
    qed
  qed
qed

lemmas consistent_simps = consistent_def scope_refs_ok_def unit_refs_ok_def line_refs_ok_def scope_ids_def unit_ids_def type_keys_def

lemma insert_scope_link:
  assumes "valid_scope d parent depth" "insert_scope parent depth lo hi d = Some d'"
  shows "db_link d d'"
proof -
  define r where "r = \<lparr>sc_id = next_id (sy_scope d), sc_parent = parent, sc_depth = depth, sc_start = sint lo, sc_end = sint hi\<rparr>"
  have d': "d' = d\<lparr>sy_scope := sy_scope d @ [r]\<rparr>" using assms(2) by (simp add: insert_scope_def r_def)
  have "scopes_ok (sy_scope d @ [r])" if "consistent d"
    using that assms(1) by (intro scopes_ok_snoc) (auto simp: consistent_def scope_refs_ok_def valid_scope_def r_def)
  then show ?thesis by (simp add: d' db_link_def consistent_simps image_subset_iff) blast
qed

lemma insert_func_link:
  assumes "insert_func name i offset d = Some d'" "i \<in> scope_ids d" "i \<notin> fu_scope_id ` set (sy_function d)"
  shows "db_link d d'"
proof -
  obtain n where d': "d' = d\<lparr>sy_function := sy_function d @ [\<lparr>fu_id = next_id (sy_function d), fu_name = n, fu_offset = sint offset, fu_scope_id = i\<rparr>]\<rparr>"
    using assms(1) by (auto simp: insert_func_def split: option.splits)
  show ?thesis using assms(2,3) by (simp add: d' db_link_def consistent_simps image_subset_iff)
qed

lemma add_type_link:
  assumes "add_type t d = Some d'" "dt_unit_id t \<in> unit_ids d"
  shows "db_link d d'"
proof -
  have d': "d' = d\<lparr>sy_type := sy_type d @ [t]\<rparr>" and "(dt_unit_id t, dt_offset t) \<notin> set (type_keys d)"
    using assms(1) by (auto simp: add_type_def type_keys_def split: if_splits)
  then show ?thesis using assms(2) by (simp add: d' db_link_def consistent_simps image_subset_iff)
qed

lemma insert_type_link: "insert_type n sz k u offset p d = Some d' \<Longrightarrow> u \<in> unit_ids d \<Longrightarrow> db_link d d'"
  unfolding insert_type_def by (erule add_type_link) simp

lemma insert_array_link: "insert_array k u offset p d = Some d' \<Longrightarrow> u \<in> unit_ids d \<Longrightarrow> db_link d d'"
  unfolding insert_array_def by (erule add_type_link) simp

lemma insert_member_link:
  assumes "insert_member u offset n ty start val d = Some d'" "(u, sint offset) \<in> set (type_keys d)"
  shows "db_link d d'"
proof -
  have d': "d' = d\<lparr>sy_member := sy_member d @
      [\<lparr>fd_unit_id = u, fd_offset = sint offset, fd_name = n, fd_type = sint ty, fd_start = sint start, fd_value = sint val\<rparr>]\<rparr>"
    using assms(1) by (simp add: insert_member_def split: if_splits)
  show ?thesis using assms(2) by (simp add: d' db_link_def consistent_simps image_subset_iff)
qed

lemma insert_var_link:
  assumes "insert_var n u ty i offset f l d = Some d'" "u \<in> unit_ids d" "i = 0 \<or> i \<in> scope_ids d"
  shows "db_link d d'"
proof -
  define v where "v = \<lparr>sv_id = next_id (sy_var d), sv_name = n, sv_unit_id = u, sv_type_offset = sint ty, sv_scope_id = i,
    sv_offset = sint offset, sv_file_id = sint f, sv_line = sint l\<rparr>"
  have d': "d' = d\<lparr>sy_var := sy_var d @ [v]\<rparr>" and "sv_unit_id v = u" "sv_scope_id v = i"
    using assms(1) by (simp_all add: insert_var_def v_def)
  then show ?thesis using assms(2,3) by (simp add: d' db_link_def consistent_simps image_subset_iff)
qed

lemma update_var_loc_link:
  assumes "update_var_loc f l u offset d = Some d'"
  shows "db_link d d'"
proof -
  define g where "g v = (if sv_unit_id v = u \<and> sv_offset v = sint offset then v\<lparr>sv_file_id := sint f, sv_line := sint l\<rparr> else v)" for v :: symvar_row
  have d': "d' = d\<lparr>sy_var := map g (sy_var d)\<rparr>" using assms by (simp add: update_var_loc_def g_def [abs_def])
  have "sv_scope_id (g v) = sv_scope_id v" "sv_unit_id (g v) = sv_unit_id v" for v by (simp_all add: g_def)
  then show ?thesis by (simp add: d' db_link_def consistent_simps image_subset_iff)
qed

section \<open>The walk keeps the tables consistent\<close>

declare get_attrs.simps [simp del]

lemma proc_base_type_link: "proc_base_type dbo die u s = (r, s') \<Longrightarrow> u \<in> unit_ids (sy_db s) \<Longrightarrow> link s s'"
  unfolding proc_base_type_def
  by (auto split: option.splits prod.splits ret_code.splits if_splits intro: link_exec insert_type_link)

lemma proc_custom_type_link: "proc_custom_type dbo die tag u s = (r, s') \<Longrightarrow> u \<in> unit_ids (sy_db s) \<Longrightarrow> link s s'"
  unfolding proc_custom_type_def Let_def
  by (auto split: option.splits prod.splits ret_code.splits if_splits intro: link_exec insert_type_link)

lemma proc_array_type_link: "proc_array_type dbo die u s = (r, s') \<Longrightarrow> u \<in> unit_ids (sy_db s) \<Longrightarrow> link s s'"
  unfolding proc_array_type_def
  by (auto split: option.splits prod.splits ret_code.splits if_splits intro: link_exec insert_array_link)

lemma valid_scope_ids: "valid_scope d i depth \<Longrightarrow> i = 0 \<or> i \<in> scope_ids d"
  by (auto simp: valid_scope_def scope_ids_def)

lemma proc_var_link:
  assumes "proc_var dbo junk die i u s = (r, s')" "u \<in> unit_ids (sy_db s)" "valid_scope (sy_db s) i depth"
  shows "link s s'"
proof -
  note i = valid_scope_ids [OF assms(3)]
  have v: "db_link (sy_db s) d'" if "insert_var n u ty (if b then 0 else i) offset f l (sy_db s) = Some d'" for n ty b offset f l d'
    using that assms(2) i by (cases b) (auto intro: insert_var_link)
  from assms(1) show ?thesis unfolding proc_var_def Let_def
    by (auto split: option.splits prod.splits ret_code.splits if_split_asm
        intro: link_exec link_exec [OF _ v [where b = True, simplified]] link_exec [OF _ v [where b = False, simplified]] update_var_loc_link)
qed

lemma proc_aggr_member_link:
  "proc_aggr_member dbo die u offset s = (r, s') \<Longrightarrow> (u, sint offset) \<in> set (type_keys (sy_db s)) \<Longrightarrow> link s s'"
  unfolding proc_aggr_member_def
  by (auto split: prod.splits ret_code.splits intro: link_exec insert_member_link)

lemma proc_enum_item_link:
  "proc_enum_item dbo die u offset s = (r, s') \<Longrightarrow> (u, sint offset) \<in> set (type_keys (sy_db s)) \<Longrightarrow> link s s'"
  unfolding proc_enum_item_def
  by (auto split: prod.splits ret_code.splits intro: link_exec insert_member_link)

lemma type_keys_link: "k \<in> set (type_keys d) \<Longrightarrow> db_link d d' \<Longrightarrow> k \<in> set (type_keys d')"
  by (auto simp: type_keys_def db_link_def dest: set_mono_prefix)

lemma aggr_members_link:
  "aggr_members dbo dies ended u offset s = (r, s') \<Longrightarrow> (u, sint offset) \<in> set (type_keys (sy_db s)) \<Longrightarrow> link s s'"
proof (induction dies arbitrary: s)
  case Nil
  then show ?case by (auto split: if_splits)
next
  case (Cons die dies)
  obtain r1 s1 where first: "(case d_tag die of
              Some DW_TAG_member \<Rightarrow> proc_aggr_member dbo die u offset s
            | Some DW_TAG_enumerator \<Rightarrow> proc_enum_item dbo die u offset s
            | _ \<Rightarrow> failed s) = (r1, s1)" by fastforce
  then have l: "link s s1" using Cons.prems(2)
    by (auto split: option.splits dw_tag.splits intro: proc_aggr_member_link proc_enum_item_link)
  show ?case
  proof (cases r1)
    case SUCCESS
    then have "link s1 s'" using Cons first l type_keys_link [OF Cons.prems(2)] by (auto simp: link_def)
    with l show ?thesis by (rule link_trans)
  next
    case FAILURE
    with Cons.prems(1) first l show ?thesis by simp
  qed
qed

lemma proc_aggr_type_link:
  assumes "proc_aggr_type dbo die tag u s = (r, s')" "u \<in> unit_ids (sy_db s)"
  shows "link s s'"
proof (cases "s' = s")
  case False
  then obtain offset as kind r1 s1 where
      e: "exec_stmt dbo (insert_type (if attr_present as [DW_AT_name] then attr_str as DW_AT_name else Some [])
            (attr_num 0 as DW_AT_byte_size) kind u offset 0) s = (r1, s1)"
    and m: "(case (r1, s1) of (SUCCESS, s1) \<Rightarrow> aggr_members dbo (d_children die) (d_end die) u offset s1 | r \<Rightarrow> r) = (r, s')"
    using assms(1) unfolding proc_aggr_type_def Let_def
    by (auto split: option.splits prod.splits ret_code.splits)
  from e have l: "link s s1" by (rule link_exec) (rule insert_type_link [OF _ assms(2)])
  show ?thesis
  proof (cases r1)
    case SUCCESS
    from e SUCCESS have "(u, sint offset) \<in> set (type_keys (sy_db s1))"
      by (elim exec_stmt_cases) (auto simp: insert_type_def add_type_def type_keys_def split: if_splits)
    then have "link s1 s'" using m SUCCESS by (auto intro: aggr_members_link)
    with l show ?thesis by (rule link_trans)
  qed (use m l in simp)
qed simp

text \<open>A new scope: its number is that of the last row, no function has it yet, and what is inside of it is one level deeper.\<close>

lemma enter_scope:
  assumes "exec_stmt dbo (insert_scope i depth lo hi) s = (SUCCESS, s1)" "valid_scope (sy_db s) i depth" "consistent (sy_db s)"
  shows "link s s1" "valid_scope (sy_db s1) (int (length (sy_scope (sy_db s1)))) (depth + 1)"
    "int (length (sy_scope (sy_db s1))) \<in> scope_ids (sy_db s1)"
    "int (length (sy_scope (sy_db s1))) \<notin> fu_scope_id ` set (sy_function (sy_db s1))"
proof -
  show "link s s1" by (rule link_exec [OF assms(1)]) (rule insert_scope_link [OF assms(2)])
  obtain d where d: "insert_scope i depth lo hi (sy_db s) = Some d" "sy_db s1 = d"
    using assms(1) by (elim exec_stmt_cases) auto
  then show "valid_scope (sy_db s1) (int (length (sy_scope (sy_db s1)))) (depth + 1)"
    "int (length (sy_scope (sy_db s1))) \<in> scope_ids (sy_db s1)"
    by (auto simp: insert_scope_def valid_scope_def scope_ids_def next_id_def)
  have "fu_scope_id f < int (length (sy_scope d))" if "f \<in> set (sy_function d)" for f
  proof -
    have "fu_scope_id f \<in> sc_id ` set (sy_scope (sy_db s))"
      using assms(3) that d(1) by (auto simp: consistent_simps insert_scope_def)
    moreover have "sc_id q \<le> int (length (sy_scope (sy_db s)))" if "q \<in> set (sy_scope (sy_db s))" for q
      using scopes_ok_id [OF _ that] assms(3) by (simp add: consistent_def scope_refs_ok_def)
    ultimately show ?thesis using d(1) by (fastforce simp: insert_scope_def)
  qed
  then show "int (length (sy_scope (sy_db s1))) \<notin> fu_scope_id ` set (sy_function (sy_db s1))" using d(2) by fastforce
qed

lemma consistent_link: "consistent (sy_db s) \<Longrightarrow> link s s' \<Longrightarrow> consistent (sy_db s')"
  by (simp add: link_def db_link_def)

lemma valid_scope_linked: "valid_scope (sy_db s) i n \<Longrightarrow> link s s' \<Longrightarrow> valid_scope (sy_db s') i n"
  unfolding link_def by (blast intro: valid_scope_link)

lemma unit_linked: "u \<in> unit_ids (sy_db s) \<Longrightarrow> link s s' \<Longrightarrow> u \<in> unit_ids (sy_db s')"
  unfolding link_def by (blast intro: unit_ids_link)

lemmas linked = consistent_link valid_scope_linked unit_linked

lemma proc_func_cases:
  assumes "proc_func w die i depth s = Some (r, s')"
  obtains "s' = s"
  | lo hi r1 s1 where "exec_stmt (wk_db w) (insert_scope i depth lo hi) s = (r1, s1)" "r1 = FAILURE" "s' = s1"
  | as lo hi s1 r2 s2 where "get_attrs (cnt_file s) die [DW_AT_name, DW_AT_low_pc, DW_AT_high_pc, DW_AT_external] = (R_SUCCESS, as)"
      "attr_present as [DW_AT_name]" "attr_present as [DW_AT_low_pc, DW_AT_high_pc]" "lo = attr_num 0 as DW_AT_low_pc"
      "hi = high_address lo (attr_num 0 as DW_AT_high_pc)"
      "exec_stmt (wk_db w) (insert_scope i depth lo hi) s = (SUCCESS, s1)"
      "exec_stmt (wk_db w) (insert_func (attr_str as DW_AT_name) (int (length (sy_scope (sy_db s1)))) (die_offset die)) s1 = (r2, s2)"
      "r2 = FAILURE \<and> s' = s2 \<or>
       r2 = SUCCESS \<and> proc_symbols w (d_children die) (d_end die) (int (length (sy_scope (sy_db s1)))) (depth + 1) s2 = Some (r, s')"
  using assms unfolding proc_func.simps [of w die i depth s] Let_def
  by (auto split: prod.splits ret_code.splits if_splits status.splits)

lemma proc_block_cases:
  assumes "proc_block w die i depth s = Some (r, s')"
  obtains "s' = s"
  | lo hi r1 s1 where "exec_stmt (wk_db w) (insert_scope i depth lo hi) s = (r1, s1)" "r1 = FAILURE" "s' = s1"
  | as lo hi s1 where "get_attrs (cnt_file s) die [DW_AT_low_pc, DW_AT_high_pc, DW_AT_ranges] = (R_SUCCESS, as)"
      "block_range (wk_ranges w) (cu_base s) as = Some (Some (lo, hi))"
      "exec_stmt (wk_db w) (insert_scope i depth lo (high_address lo hi)) s = (SUCCESS, s1)"
      "proc_symbols w (d_children die) (d_end die) (int (length (sy_scope (sy_db s1)))) (depth + 1) s1 = Some (r, s')"
  using assms unfolding proc_block.simps [of w die i depth s]
  by (auto split: prod.splits ret_code.splits option.splits status.splits)

lemma walk_link:
  "proc_symbols w dies ended i depth s = Some (r, s') \<Longrightarrow> consistent (sy_db s) \<Longrightarrow> wk_unit w \<in> unit_ids (sy_db s) \<Longrightarrow>
     valid_scope (sy_db s) i depth \<Longrightarrow> link s s'"
  "proc_die w die i depth s = Some (r, s') \<Longrightarrow> consistent (sy_db s) \<Longrightarrow> wk_unit w \<in> unit_ids (sy_db s) \<Longrightarrow>
     valid_scope (sy_db s) i depth \<Longrightarrow> link s s'"
  "proc_func w die i depth s = Some (r, s') \<Longrightarrow> consistent (sy_db s) \<Longrightarrow> wk_unit w \<in> unit_ids (sy_db s) \<Longrightarrow>
     valid_scope (sy_db s) i depth \<Longrightarrow> link s s'"
  "proc_block w die i depth s = Some (r, s') \<Longrightarrow> consistent (sy_db s) \<Longrightarrow> wk_unit w \<in> unit_ids (sy_db s) \<Longrightarrow>
     valid_scope (sy_db s) i depth \<Longrightarrow> link s s'"
proof (induction w dies ended i depth s and w die i depth s and w die i depth s and w die i depth s
    arbitrary: r s' and r s' and r s' and r s' rule: proc_symbols_proc_die_proc_func_proc_block.induct)
  case (1 w ended i depth s)
  then show ?case by (auto simp: proc_symbols.simps)
next
  case (2 w die dies ended i depth s)
  then obtain r1 s1 where first: "proc_die w die i depth s = Some (r1, s1)"
    by (auto simp: proc_symbols.simps split: option.splits)
  then have l: "link s s1" using 2 by blast
  show ?case
  proof (cases r1)
    case SUCCESS
    have "link s1 s'"
    proof (rule "2.IH"(2) [OF first])
      show "(r1, s1) = (r1, s1)" ..
      show "proc_symbols w dies ended i depth s1 = Some (r, s')"
        using "2.prems"(1) first SUCCESS by (simp add: proc_symbols.simps)
    qed (use SUCCESS "2.prems" l linked in blast)+
    with l show ?thesis by (rule link_trans)
  next
    case FAILURE
    with first l "2.prems"(1) show ?thesis by (simp add: proc_symbols.simps)
  qed
next
  case (3 w die i depth s)
  then show ?case unfolding proc_die.simps [of w die i depth s]
    by (auto split: option.splits if_splits
        intro: proc_var_link proc_aggr_type_link proc_base_type_link proc_array_type_link proc_custom_type_link)
next
  case (4 w die i depth s)
  from "4.prems"(1) show ?case
  proof (cases rule: proc_func_cases)
    case (2 lo hi r1 s1)
    then show ?thesis using "4.prems" by (auto intro: link_exec insert_scope_link)
  next
    case (3 as lo hi s1 r2 s2)
    note new = enter_scope [OF 3(6) "4.prems"(4,2)]
    have l: "link s1 s2" by (rule link_exec [OF 3(7)]) (rule insert_func_link [OF _ new(3,4)])
    from 3(8) show ?thesis
    proof
      assume "r2 = FAILURE \<and> s' = s2"
      then show ?thesis using link_trans [OF new(1) l] by simp
    next
      assume a: "r2 = SUCCESS \<and> proc_symbols w (d_children die) (d_end die) (int (length (sy_scope (sy_db s1)))) (depth + 1) s2 = Some (r, s')"
      note l2 = link_trans [OF new(1) l]
      have "link s2 s'"
        by (rule "4.IH" [OF 3(1) [symmetric] refl _ _ 3(4,5) 3(6) [symmetric] refl refl 3(7) [symmetric]])
          (use 3 a l2 "4.prems" linked [OF _ l2] valid_scope_linked [OF new(2) l] in auto)
      with l2 show ?thesis by (rule link_trans)
    qed
  qed simp
next
  case (5 w die i depth s)
  from "5.prems"(1) show ?case
  proof (cases rule: proc_block_cases)
    case (2 lo hi r1 s1)
    then show ?thesis using "5.prems" by (auto intro: link_exec insert_scope_link)
  next
    case (3 as lo hi s1)
    note new = enter_scope [OF 3(3) "5.prems"(4,2)]
    have "link s1 s'"
      by (rule "5.IH" [OF 3(1) [symmetric] refl 3(2) refl refl 3(3) [symmetric] refl])
        (use 3 "5.prems" new linked [OF _ new(1)] in auto)
    with new(1) show ?thesis by (rule link_trans)
  qed simp
qed

section \<open>Units\<close>

definition fileids_ok :: "sym_state \<Rightarrow> bool" where
  "fileids_ok s \<longleftrightarrow> set (fileids s) \<subseteq> insert 0 (sf_id ` set (sy_file (sy_db s)))"

lemma insert_file_link:
  assumes "insert_file name path u i d = Some d'" "u \<in> unit_ids d"
  shows "db_link d d'"
proof -
  define f where "f = \<lparr>sf_id = next_id (sy_file d), sf_name = name, sf_path = path, sf_unit_id = u, sf_seq = int i + 1\<rparr>"
  have d': "d' = d\<lparr>sy_file := sy_file d @ [f]\<rparr>" and f: "sf_unit_id f = u" "sf_id f = int (length (sy_file d)) + 1"
    using assms(1) by (simp_all add: insert_file_def f_def next_id_def)
  have "line_refs_ok d'" if "line_refs_ok d" using that f(2) by (auto simp: d' line_refs_ok_def)
  moreover have "scope_refs_ok d' = scope_refs_ok d" by (simp add: d' scope_refs_ok_def scope_ids_def)
  moreover have "unit_refs_ok d'" if "unit_refs_ok d"
    using that f(1) assms(2) by (simp add: d' unit_refs_ok_def unit_ids_def type_keys_def image_subset_iff)
  ultimately show ?thesis by (simp add: db_link_def consistent_def d')
qed

lemma proc_files_link:
  "proc_files dbo alloc opt u i names s = Some (r, s') \<Longrightarrow> u \<in> unit_ids (sy_db s) \<Longrightarrow> fileids_ok s \<Longrightarrow>
     db_link (sy_db s) (sy_db s') \<and> (r = SUCCESS \<longrightarrow> fileids_ok s')"
proof (induction names arbitrary: i s)
  case Nil
  then show ?case by auto
next
  case (Cons name names)
  obtain path where path: "source_path alloc (unitdir s) name = Some path" using Cons.prems(1) by (auto split: option.splits)
  show ?case
  proof (cases "acceptable opt path")
    case False
    let ?s = "s\<lparr>fileids := fileids s @ [0]\<rparr>"
    have "db_link (sy_db ?s) (sy_db s') \<and> (r = SUCCESS \<longrightarrow> fileids_ok s')"
      by (rule Cons.IH [of "Suc i"]) (use Cons.prems path False in \<open>simp_all add: fileids_ok_def\<close>)
    then show ?thesis by simp
  next
    case True
    obtain r1 s1 where e: "exec_stmt dbo (insert_file (basename name) (trim_path opt path) u i) s = (r1, s1)" by fastforce
    then have l: "link s s1" by (rule link_exec) (rule insert_file_link [OF _ Cons.prems(2)])
    show ?thesis
    proof (cases r1)
      case FAILURE
      then show ?thesis using Cons.prems(1) path True e l by (auto simp: link_def)
    next
      case SUCCESS
      let ?s = "s1\<lparr>fileids := fileids s1 @ [int (length (sy_file (sy_db s1)))]\<rparr>"
      from e SUCCESS obtain d where d: "insert_file (basename name) (trim_path opt path) u i (sy_db s) = Some d" "sy_db s1 = d"
        by (elim exec_stmt_cases) auto
      have "fileids_ok ?s"
        using Cons.prems(3) l d by (auto simp: fileids_ok_def link_def insert_file_def next_id_def)
      moreover have "u \<in> unit_ids (sy_db s1)" using Cons.prems(2) l by (rule unit_linked)
      ultimately have "db_link (sy_db ?s) (sy_db s') \<and> (r = SUCCESS \<longrightarrow> fileids_ok s')"
        by (intro Cons.IH [of "Suc i"]) (use Cons.prems path True e SUCCESS in simp_all)
      with l show ?thesis by (auto simp: link_def intro: db_link_trans)
    qed
  qed
qed

lemma insert_line_link:
  assumes "insert_line file_id l a d = Some d'" "file_id \<in> sf_id ` set (sy_file d)"
  shows "db_link d d'"
proof -
  define x where "x = \<lparr>sl_file_id = file_id, sl_line = sint l, sl_address = sint a, sl_scope_id = None, sl_function_id = None, sl_func_flag = None\<rparr>"
  have d': "d' = d\<lparr>sy_statement := sy_statement d @ [x]\<rparr>" and "sl_file_id x = file_id"
    using assms(1) by (simp_all add: insert_line_def x_def)
  then show ?thesis using assms(2) by (simp add: db_link_def consistent_simps image_subset_iff)
qed

lemma proc_line_link:
  assumes "proc_line dbo l s = Some (r, s')" "fileids_ok s"
  shows "link s s'"
proof (cases "s' = s")
  case False
  then obtain fileno :: u64 and a n where e: "exec_stmt dbo (insert_line (fileids s ! (unat fileno - 1)) n a) s = (r, s')"
    and f: "fileno \<noteq> 0" "unat fileno \<le> length (fileids s)" "fileids s ! (unat fileno - 1) \<noteq> 0"
    using assms(1) unfolding proc_line_def Let_def
    by (auto split: option.splits bool.splits if_splits simp: not_less)
  from f(1) have "0 < unat fileno" by (simp add: unat_gt_0)
  with f(2) have "fileids s ! (unat fileno - 1) \<in> set (fileids s)" by simp
  with f(3) assms(2) have "fileids s ! (unat fileno - 1) \<in> sf_id ` set (sy_file (sy_db s))" by (auto simp: fileids_ok_def)
  then show ?thesis by (intro link_exec [OF e] insert_line_link)
qed simp

lemma fileids_ok_linked: "fileids_ok s \<Longrightarrow> link s s' \<Longrightarrow> fileids_ok s'"
  by (auto simp: fileids_ok_def link_def db_link_def dest: set_mono_prefix)

lemma line_loop_link: "line_loop dbo ls s = Some (r, s') \<Longrightarrow> fileids_ok s \<Longrightarrow> link s s'"
proof (induction ls arbitrary: s)
  case Nil
  then show ?case by simp
next
  case (Cons l ls)
  then obtain r1 s1 where first: "proc_line dbo l s = Some (r1, s1)" by (auto split: option.splits)
  then have l: "link s s1" using Cons.prems(2) by (rule proc_line_link)
  show ?case
  proof (cases r1)
    case SUCCESS
    with Cons first have "link s1 s'" using fileids_ok_linked [OF Cons.prems(2) l] by simp
    with l show ?thesis by (rule link_trans)
  qed (use first l Cons.prems(1) in simp)
qed

lemma proc_lines_link:
  assumes "proc_lines dbo alloc opt u unit_id s = Some (r, s')" "unit_id \<in> unit_ids (sy_db s)"
  shows "db_link (sy_db s) (sy_db s')"
proof (cases "sy_db s' = sy_db s")
  case False
  let ?s = "\<lambda>names. s\<lparr>cnt_file := word_of_nat (length names), fileids := []\<rparr>"
  obtain names r1 s1 where n: "proc_files dbo alloc opt unit_id 0 names (?s names) = Some (r1, s1)"
    and c: "(case Some (r1, s1) of
        Some (SUCCESS, s1) \<Rightarrow> (case du_lines u of None \<Rightarrow> Some (failed s1) | Some ls \<Rightarrow> line_loop dbo ls s1) | r \<Rightarrow> r) = Some (r, s')"
    using assms(1) False unfolding proc_lines_def by (auto split: option.splits)
  have f: "db_link (sy_db s) (sy_db s1)" "r1 = SUCCESS \<longrightarrow> fileids_ok s1"
    using proc_files_link [OF n] assms(2) by (simp_all add: fileids_ok_def)
  show ?thesis
  proof (cases r1)
    case SUCCESS
    with c f(2) have "link s1 s'" by (auto split: option.splits intro: line_loop_link)
    with f(1) show ?thesis by (auto simp: link_def intro: db_link_trans)
  qed (use c f in simp)
qed simp

lemma insert_unit_link:
  assumes "insert_unit name path base d = Some d'"
  shows "db_link d d'" "int (length (sy_unit d')) \<in> unit_ids d'"
proof -
  obtain n where d': "d' = d\<lparr>sy_unit := sy_unit d @
      [\<lparr>un_id = next_id (sy_unit d), un_name = basename n, un_path = path, un_base_addr = sint base\<rparr>]\<rparr>"
    using assms by (auto simp: insert_unit_def split: option.splits)
  show "db_link d d'" by (simp add: d' db_link_def consistent_simps image_subset_iff)
  show "int (length (sy_unit d')) \<in> unit_ids d'" by (simp add: d' unit_ids_def next_id_def)
qed

lemma unit_body_link:
  assumes "unit_body w alloc opt u name path s = Some (r, s')" "consistent (sy_db s)"
  shows "db_link (sy_db s) (sy_db s')"
proof -
  obtain r1 s1 where e: "exec_stmt (wk_db w) (insert_unit name path (cu_base s)) s = (r1, s1)" by fastforce
  have l1: "db_link (sy_db s) (sy_db s1)"
    using link_exec [OF e insert_unit_link(1)] by (simp add: link_def)
  show ?thesis
  proof (cases r1)
    case FAILURE
    then show ?thesis using assms(1) e l1 by (simp add: unit_body_def)
  next
    case SUCCESS
    let ?id = "int (length (sy_unit (sy_db s1)))"
    have u: "?id \<in> unit_ids (sy_db s1)"
      using e SUCCESS by (elim exec_stmt_cases) (auto dest: insert_unit_link(2))
    obtain r2 s2 where p: "proc_lines (wk_db w) alloc opt u ?id (s1\<lparr>unitdir := path\<rparr>) = Some (r2, s2)"
      using assms(1) e SUCCESS by (auto simp: unit_body_def Let_def split: option.splits)
    then have l2: "db_link (sy_db s1) (sy_db s2)" using proc_lines_link [OF p] u by simp
    show ?thesis
    proof (cases r2)
      case FAILURE
      then show ?thesis using assms(1) e SUCCESS p l1 l2 by (auto simp: unit_body_def intro: db_link_trans)
    next
      case ok: SUCCESS
      let ?w = "w\<lparr>wk_unit := ?id\<rparr>"
      obtain r3 s3 where q: "proc_symbols ?w (d_children (du_die u)) (d_end (du_die u)) 0 0 s2 = Some (r3, s3)"
        using assms(1) e SUCCESS p ok by (auto simp: unit_body_def Let_def split: option.splits)
      have "consistent (sy_db s2)" using assms(2) db_link_trans [OF l1 l2] by (simp add: db_link_def)
      then have "link s2 s3"
        using walk_link(1) [OF q] unit_ids_link [OF u l2] by (simp add: valid_scope_def)
      then have l3: "db_link (sy_db s2) (sy_db s3)" by (simp add: link_def)
      have "sy_db s' = sy_db s3"
        using assms(1) e SUCCESS p ok q
        by (cases r3) (auto simp: unit_body_def exec_stmt_def Let_def split: if_splits)
      then show ?thesis using db_link_trans [OF db_link_trans [OF l1 l2] l3] by simp
    qed
  qed
qed

lemma unit_transaction_cases:
  assumes "unit_transaction w alloc opt u name path s = Some (r, s')"
  obtains "r = R_FAILURE" "sy_db s' = sy_db s"
  | s1 s2 where "sy_db s1 = sy_db s" "unit_body w alloc opt u name path s1 = Some (SUCCESS, s2)" "r = R_SUCCESS" "s' = s2"
  | s1 s2 where "sy_db s1 = sy_db s" "unit_body w alloc opt u name path s1 = Some (FAILURE, s2)" "r = R_FAILURE"
      "s' = rollback_to (wk_db w) (sy_db s) s2"
proof -
  obtain r1 s1 where e: "exec_stmt (wk_db w) Some s = (r1, s1)" by fastforce
  have d: "sy_db s1 = sy_db s" using e by (elim exec_stmt_cases) auto
  show ?thesis
    using assms e d that by (cases r1) (auto simp: unit_transaction_def split: option.splits status.splits)
qed

lemma proc_unit_cases:
  assumes "proc_unit w alloc opt c s = Some (r, s')"
  obtains "sy_db s' = sy_db s"
  | u name path s1 where "sy_db s1 = sy_db s" "unit_transaction w alloc opt u name path s1 = Some (r, s')"
proof (cases c)
  case (Cu u)
  have "sy_db s' = sy_db s \<or> (\<exists>name path s1. unit_transaction w alloc opt u name path s1 = Some (r, s') \<and> sy_db s1 = sy_db s)"
    using assms Cu
    by (auto simp: Let_def split: prod.splits ret_code.splits option.splits if_splits intro!: exI conjI)
  then show ?thesis using that by blast
qed (use assms that in auto)

lemma proc_unit_link:
  assumes "proc_unit w alloc opt c s = Some (r, s')" "consistent (sy_db s)"
  shows "db_link (sy_db s) (sy_db s')"
  using assms(1)
proof (cases rule: proc_unit_cases)
  case (2 u name path s1)
  have b: "db_link (sy_db s) (sy_db s3)" if "unit_body w alloc opt u name path s2 = Some (r2, s3)" "sy_db s2 = sy_db s" for r2 s2 s3
    using unit_body_link [OF that(1)] that(2) assms(2) by simp
  from 2(2) show ?thesis
    by (cases rule: unit_transaction_cases) (use 2(1) b in \<open>auto simp: rollback_to_def Let_def\<close>)
qed simp

lemma proc_units_link:
  "proc_units w alloc opt us s = Some (r, s') \<Longrightarrow> consistent (sy_db s) \<Longrightarrow> db_link (sy_db s) (sy_db s')"
proof (induction us arbitrary: s)
  case (Cons c us)
  obtain r1 s1 where first: "proc_unit w alloc opt c s = Some (r1, s1)"
    using Cons.prems(1) by (auto split: option.splits)
  note l = proc_unit_link [OF first Cons.prems(2)]
  show ?case
  proof (cases "r1 = R_SUCCESS")
    case True
    with Cons first l have "db_link (sy_db s1) (sy_db s')" by (simp add: db_link_def)
    with l show ?thesis by (rule db_link_trans)
  next
    case False
    then have "s' = s1" using Cons.prems(1) first by (auto split: ret_code.splits)
    with l show ?thesis by simp
  qed
qed simp

text \<open>
  C17. Atomic units: a unit whose debug information cannot be collected leaves the tables as they were before it, unless the
  database also fails to roll back.
\<close>

theorem proc_unit_atomic:
  assumes "proc_unit w alloc opt c s = Some (r, s')" "r \<noteq> R_SUCCESS" "wk_db w (db_calls s' - 1)"
  shows "sy_db s' = sy_db s"
  using assms(1)
proof (cases rule: proc_unit_cases)
  case (2 u name path s1)
  from 2(2) show ?thesis
    by (cases rule: unit_transaction_cases) (use 2(1) assms(2,3) in \<open>auto simp: rollback_to_def Let_def split: if_splits\<close>)
qed simp


text \<open>A unit whose second entry has an unknown tag: the type stored before it is taken back.\<close>

definition every_call :: "nat \<Rightarrow> bool" where "every_call n = True"

definition sample_walk :: walk where
  "sample_walk = \<lparr>wk_db = every_call, wk_junk = 0, wk_ranges = (\<lambda>_. None), wk_unit = 0\<rparr>"

definition sample_options :: options where
  "sample_options = \<lparr>acceptable_path = ''/p'', process_unit = [], ignore_unit = []\<rparr>"

definition int_die :: die where
  "int_die = Die (Some 0x30) (Some DW_TAG_base_type)
     [(DW_AT_name, Attr (DW_FORM_string ''int'')), (DW_AT_byte_size, Attr (DW_FORM_data 1 4)), (DW_AT_encoding, Attr (DW_FORM_data 1 5))] [] True"

definition unit_of :: "die list \<Rightarrow> cu" where
  "unit_of dies = Cu \<lparr>du_die = Die (Some 0xb) None
       [(DW_AT_comp_dir, Attr (DW_FORM_string ''/p/lib'')), (DW_AT_name, Attr (DW_FORM_string ''src/a.c'')),
        (DW_AT_low_pc, Attr (DW_FORM_addr 0x1000))] dies True,
     du_files = Some [], du_lines = Some []\<rparr>"

lemmas walk_defs = every_call_def sample_walk_def sample_options_def int_die_def unit_of_def no_rows_def start_state_def
  get_attrs.simps attr_num_def attr_str_def attr_present_def acceptable_def trim_path_def unit_selected_def basename_def
  unit_transaction_def unit_body_def exec_stmt_def insert_unit_def proc_lines_def proc_symbols.simps proc_die.simps
  proc_base_type_def base_kind_def insert_type_def add_type_def rollback_to_def next_id_def

theorem proc_unit_atomic_witness:
  "\<exists>s'. proc_unit sample_walk every_call sample_options (unit_of [int_die, Die None (Some (DW_TAG_other 0x42)) [] [] True]) start_state =
       Some (R_FAILURE, s') \<and> db_calls s' = 4 \<and> unit_count s' = 1 \<and> sy_db s' = no_rows"
proof -
  obtain s' where s': "proc_unit sample_walk every_call sample_options (unit_of [int_die, Die None (Some (DW_TAG_other 0x42)) [] [] True])
      start_state = Some (R_FAILURE, s')" "db_calls s' = 4" "unit_count s' = 1"
    by (simp add: walk_defs formsdata_def)
  from proc_unit_atomic [OF s'(1)] have "sy_db s' = no_rows" by (simp add: sample_walk_def every_call_def start_state_def)
  with s' show ?thesis by blast
qed

end
