(* ===== verification/Alter_Db.thy ===== *)
theory Alter_Db
  imports Dbginfo
begin

text \<open>
  \<^verbatim>\<open>record/db.c\<close>: the statements that complete the tables once the debug information is collected
  (\<^verbatim>\<open>alter_db\<close>), and \<^verbatim>\<open>dbg_srcinfo\<close> of \<^verbatim>\<open>record/dbginfo.c\<close>, which collects and completes.
  A statement is a function on the tables that gives \<open>None\<close> where a constraint refuses it.  SQLite updates the rows of a
  table in the order of insertion, and a subquery sees the rows updated before.
\<close>

section \<open>Lines\<close>

text \<open>\<^verbatim>\<open>CREATE UNIQUE INDEX line\<close>.\<close>

definition unique_lines :: "sym_db \<Rightarrow> sym_db option" where
  "unique_lines d =
     (if distinct (map (\<lambda>l. (sl_file_id l, sl_line l, sl_address l)) (sy_statement d)) then Some d else None)"

definition scope_covers :: "scope_row \<Rightarrow> int \<Rightarrow> bool" where
  "scope_covers r a \<longleftrightarrow> sc_start r \<le> a \<and> a < sc_end r"

definition scope_at :: "scope_row list \<Rightarrow> int \<Rightarrow> int option" where
  "scope_at scopes a =
     (case sort_key (\<lambda>r. - sc_depth r) (filter (\<lambda>r. scope_covers r a) scopes) of [] \<Rightarrow> None | r # _ \<Rightarrow> Some (sc_id r))"

definition set_scopes :: "sym_db \<Rightarrow> sym_db option" where
  "set_scopes d = Some (d\<lparr>sy_statement := map (\<lambda>l. l\<lparr>sl_scope_id := scope_at (sy_scope d) (sl_address l)\<rparr>) (sy_statement d)\<rparr>)"

text \<open>The join of functions and their scopes.\<close>

definition function_scopes :: "sym_db \<Rightarrow> (function_row \<times> scope_row) list" where
  "function_scopes d = [(f, r). f \<leftarrow> sy_function d, r \<leftarrow> sy_scope d, sc_id r = fu_scope_id f]"

definition function_at :: "sym_db \<Rightarrow> int \<Rightarrow> int option" where
  "function_at d a = map_option (\<lambda>p. fu_id (fst p)) (find (\<lambda>p. scope_covers (snd p) a) (function_scopes d))"

definition set_functions :: "sym_db \<Rightarrow> sym_db option" where
  "set_functions d = Some (d\<lparr>sy_statement := map (\<lambda>l. l\<lparr>sl_function_id := function_at d (sl_address l)\<rparr>) (sy_statement d)\<rparr>)"

definition mark_begin :: "sym_db \<Rightarrow> sym_db option" where
  "mark_begin d = Some (d\<lparr>sy_statement := map (\<lambda>l. l\<lparr>sl_func_flag :=
       if \<exists>p \<in> set (function_scopes d). sc_start (snd p) = sl_address l then Some 1 else None\<rparr>) (sy_statement d)\<rparr>)"

text \<open>
  The rows that may end a function, and the row of the largest address for each function: with \<^verbatim>\<open>MAX\<close> in the query,
  SQLite takes the other columns from the row that has the maximum, the first one here.
\<close>

definition end_candidate :: "sym_db \<Rightarrow> statement_row \<Rightarrow> bool" where
  "end_candidate d l \<longleftrightarrow> sl_func_flag l = None \<and> (\<exists>r \<in> set (sy_scope d). sl_scope_id l = Some (sc_id r) \<and> sl_address l < sc_end r)"

definition ends_function :: "sym_db \<Rightarrow> nat \<Rightarrow> bool" where
  "ends_function d i \<longleftrightarrow>
     (let ls = sy_statement d; l = ls ! i
      in end_candidate d l \<and>
         (\<forall>j < length ls. end_candidate d (ls ! j) \<and> sl_function_id (ls ! j) = sl_function_id l \<longrightarrow>
            sl_address (ls ! j) < sl_address l \<or> sl_address (ls ! j) = sl_address l \<and> i \<le> j))"

definition mark_end :: "sym_db \<Rightarrow> sym_db option" where
  "mark_end d = Some (d\<lparr>sy_statement := map (\<lambda>i. let l = sy_statement d ! i in if ends_function d i then l\<lparr>sl_func_flag := Some 2\<rparr> else l)
       [0..<length (sy_statement d)]\<rparr>)"

section \<open>Types\<close>

abbreviation kind_bits :: "int \<Rightarrow> int" where
  "kind_bits flags \<equiv> and flags 0xFFFF"

definition parent_type :: "dtype_row list \<Rightarrow> dtype_row \<Rightarrow> dtype_row option" where
  "parent_type ts t = find (\<lambda>p. dt_offset p = dt_parent t) ts"

text \<open>An update of the rows one after the other.\<close>

fun update_rows :: "(dtype_row list \<Rightarrow> dtype_row \<Rightarrow> dtype_row option) \<Rightarrow> dtype_row list \<Rightarrow> dtype_row list \<Rightarrow> dtype_row list option" where
  "update_rows f seen [] = Some seen"
| "update_rows f seen (t # ts) = (case f (seen @ t # ts) t of None \<Rightarrow> None | Some t' \<Rightarrow> update_rows f (seen @ [t']) ts)"

definition update_types :: "(dtype_row list \<Rightarrow> dtype_row \<Rightarrow> dtype_row option) \<Rightarrow> sym_db \<Rightarrow> sym_db option" where
  "update_types f d = map_option (\<lambda>ts. d\<lparr>sy_type := ts\<rparr>) (update_rows f [] (sy_type d))"

definition pointer_indirect :: "dtype_row list \<Rightarrow> dtype_row \<Rightarrow> dtype_row option" where
  "pointer_indirect ts t = Some (if kind_bits (dt_flags t) = 4 then t\<lparr>dt_indirect := 1\<rparr> else t)"

text \<open>The offsets of the proper ancestors of a type in the view \<^verbatim>\<open>type_relation\<close>; the fuel is the number of types.\<close>

fun type_ancestors :: "nat \<Rightarrow> dtype_row list \<Rightarrow> int \<Rightarrow> int list" where
  "type_ancestors 0 ts offset = []"
| "type_ancestors (Suc n) ts offset =
     concat (map (\<lambda>t. dt_parent t # type_ancestors n ts (dt_parent t)) (filter (\<lambda>t. dt_offset t = offset) ts))"

definition derived_indirect :: "dtype_row list \<Rightarrow> dtype_row \<Rightarrow> dtype_row option" where
  "derived_indirect ts t =
     Some (if (\<exists>a \<in> set ts. kind_bits (dt_flags a) = 4 \<and> dt_offset a \<in> set (type_ancestors (length ts) ts (dt_offset t)) \<and>
                dt_offset a \<noteq> dt_offset t) \<and> dt_flags t \<noteq> 11
           then t\<lparr>dt_indirect := dt_indirect t + 1\<rparr> else t)"

definition propagate_flags :: "dtype_row list \<Rightarrow> dtype_row \<Rightarrow> dtype_row option" where
  "propagate_flags ts t =
     (if kind_bits (dt_flags t) = 0 then map_option (\<lambda>p. t\<lparr>dt_flags := or (dt_flags t) (dt_flags p)\<rparr>) (parent_type ts t)
      else Some t)"

definition propagate_size :: "dtype_row list \<Rightarrow> dtype_row \<Rightarrow> dtype_row option" where
  "propagate_size ts t =
     Some (if dt_size t = Some 0 then t\<lparr>dt_size := Option.bind (parent_type ts t) dt_size\<rparr> else t)"

definition array_sizes :: "dtype_row list \<Rightarrow> dtype_row \<Rightarrow> dtype_row option" where
  "array_sizes ts t =
     Some (if dt_size t = Some 0 \<and> kind_bits (dt_flags t) = 7
           then t\<lparr>dt_size := (case Option.bind (parent_type ts t) dt_size of
                               Some n \<Rightarrow> if n > 0 then Some (dt_dim t * n) else None | None \<Rightarrow> None)\<rparr>
           else t)"

definition count_members :: "sym_db \<Rightarrow> sym_db option" where
  "count_members d =
     update_types (\<lambda>ts t. Some (if kind_bits (dt_flags t) \<in> {5, 6}
        then t\<lparr>dt_dim := int (length (filter (\<lambda>m. fd_offset m = dt_offset t) (sy_member d)))\<rparr> else t)) d"

section \<open>Variables and scopes\<close>

definition file_of :: "sym_db \<Rightarrow> symvar_row \<Rightarrow> int" where
  "file_of d v = (case find (\<lambda>f. sf_unit_id f = sv_unit_id v \<and> sf_seq f = sv_file_id v) (sy_file d) of None \<Rightarrow> 0 | Some f \<Rightarrow> sf_id f)"

definition set_files :: "sym_db \<Rightarrow> sym_db option" where
  "set_files d = Some (d\<lparr>sy_var := map (\<lambda>v. v\<lparr>sv_file_id := file_of d v\<rparr>) (sy_var d)\<rparr>)"

definition drop_declarations :: "sym_db \<Rightarrow> sym_db option" where
  "drop_declarations d = Some (d\<lparr>sy_var := filter (\<lambda>v. \<not> (sv_scope_id v = 0 \<and> sv_file_id v = 0)) (sy_var d)\<rparr>)"

text \<open>The recursive query: the scopes around a scope, innermost first; the fuel is the number of scopes.\<close>

fun scopes_around :: "nat \<Rightarrow> scope_row list \<Rightarrow> int \<Rightarrow> int list" where
  "scopes_around 0 scopes i = []"
| "scopes_around (Suc n) scopes i =
     concat (map (\<lambda>r. sc_parent r # scopes_around n scopes (sc_parent r)) (filter (\<lambda>r. sc_id r = i) scopes))"

definition add_ancestors :: "sym_db \<Rightarrow> sym_db option" where
  "add_ancestors d =
     Some (d\<lparr>sy_ancestor := remdups [(i, a). i \<leftarrow> map sc_id (sy_scope d), a \<leftarrow> scopes_around (length (sy_scope d)) (sy_scope d) i]\<rparr>)"

text \<open>The view \<^verbatim>\<open>func_for_scope\<close>.\<close>

definition func_for_scope :: "sym_db \<Rightarrow> (int \<times> string \<times> int) list" where
  "func_for_scope d =
     [(i, fu_name f, fu_offset f). (i, a) \<leftarrow> sy_ancestor d, f \<leftarrow> sy_function d, fu_scope_id f = a] @
     [(fu_scope_id f, fu_name f, fu_offset f). f \<leftarrow> sy_function d]"

definition ADD_BASIC_TYPE :: "string \<Rightarrow> int \<Rightarrow> int \<Rightarrow> sym_db \<Rightarrow> sym_db option" where
  "ADD_BASIC_TYPE n sz flags =
     add_type \<lparr>dt_unit_id = 0, dt_offset = - (sz * 256 + flags), dt_name = Some n, dt_size = Some sz, dt_dim = 0, dt_parent = 0,
               dt_flags = flags, dt_indirect = 0\<rparr>"

section \<open>The sequence\<close>

definition basic_types :: "(string \<times> int \<times> int) list" where
  "basic_types =
     [(''uint8_t'', 1, 2), (''uint16_t'', 2, 2), (''uint32_t'', 4, 2), (''uint64_t'', 8, 2),
      (''int8_t'', 1, 1), (''int16_t'', 2, 1), (''int32_t'', 4, 1), (''int64_t'', 8, 1),
      (''float'', 4, 3), (''double'', 8, 3), (''long double'', 16, 3)]"

definition line_stmts :: "(sym_db \<Rightarrow> sym_db option) list" where
  "line_stmts = [Some, unique_lines, Some, set_scopes, set_functions, mark_begin, mark_end]"

definition type_stmts :: "(sym_db \<Rightarrow> sym_db option) list" where
  "type_stmts =
     [Some, update_types pointer_indirect, update_types derived_indirect, update_types propagate_flags, update_types propagate_size,
      update_types array_sizes, count_members]"

definition alter_stmts :: "(sym_db \<Rightarrow> sym_db option) list" where
  "alter_stmts =
     line_stmts @ type_stmts @ [set_files, drop_declarations, add_ancestors, Some, Some] @
     map (\<lambda>(n, sz, flags). ADD_BASIC_TYPE n sz flags) basic_types"

fun exec_stmts :: "(nat \<Rightarrow> bool) \<Rightarrow> (sym_db \<Rightarrow> sym_db option) list \<Rightarrow> sym_state \<Rightarrow> status \<times> sym_state" where
  "exec_stmts dbo [] s = (SUCCESS, s)"
| "exec_stmts dbo (stmt # stmts) s = (case exec_stmt dbo stmt s of (SUCCESS, s1) \<Rightarrow> exec_stmts dbo stmts s1 | r \<Rightarrow> r)"

definition alter_db :: "(nat \<Rightarrow> bool) \<Rightarrow> sym_state \<Rightarrow> status \<times> sym_state" where
  "alter_db dbo s = exec_stmts dbo alter_stmts s"

text \<open>\<^verbatim>\<open>create_db\<close> creates nine tables, \<^verbatim>\<open>prepare_statements\<close> prepares nine statements.\<close>

definition create_db :: "(nat \<Rightarrow> bool) \<Rightarrow> sym_state \<Rightarrow> status \<times> sym_state" where
  "create_db dbo s = exec_stmts dbo (replicate 9 Some) s"

definition prepare_statements :: "(nat \<Rightarrow> bool) \<Rightarrow> sym_state \<Rightarrow> status \<times> sym_state" where
  "prepare_statements dbo s = exec_stmts dbo (replicate 9 Some) s"

text \<open>\<open>dwarf\<close>: whether \<^verbatim>\<open>dwarf_init\<close> finds debug information; the units are those that \<^verbatim>\<open>dwarf_next_cu_header\<close> gives.\<close>

definition dbg_srcinfo :: "walk \<Rightarrow> (nat \<Rightarrow> bool) \<Rightarrow> options \<Rightarrow> bool \<Rightarrow> cu list \<Rightarrow> outcome" where
  "dbg_srcinfo w alloc opt dwarf units =
     (case create_db (wk_db w) start_state of
        (FAILURE, s) \<Rightarrow> Some (failed s)
      | (SUCCESS, s) \<Rightarrow>
          if \<not> dwarf then Some (failed s)
          else case prepare_statements (wk_db w) s of
                 (FAILURE, s1) \<Rightarrow> Some (failed s1)
               | (SUCCESS, s1) \<Rightarrow>
                   case proc_units w alloc opt units s1 of
                     None \<Rightarrow> None
                   | Some (r, s2) \<Rightarrow>
                       case alter_db (wk_db w) s2 of (FAILURE, s3) \<Rightarrow> Some (failed s3) | (SUCCESS, s3) \<Rightarrow> Some (r, s3))"

section \<open>Runs of statements\<close>

fun run_stmts :: "(sym_db \<Rightarrow> sym_db option) list \<Rightarrow> sym_db \<Rightarrow> sym_db option" where
  "run_stmts [] d = Some d"
| "run_stmts (stmt # stmts) d = Option.bind (stmt d) (run_stmts stmts)"

lemma run_stmts_append: "run_stmts (fs @ gs) d = Option.bind (run_stmts fs d) (run_stmts gs)"
  by (induction fs arbitrary: d) (auto split: bind_splits)

lemma exec_stmts_success: "exec_stmts dbo stmts s = (SUCCESS, s') \<Longrightarrow> run_stmts stmts (sy_db s) = Some (sy_db s')"
proof (induction stmts arbitrary: s)
  case (Cons stmt stmts)
  obtain r s1 where e: "exec_stmt dbo stmt s = (r, s1)" by fastforce
  with Cons.prems have r: "r = SUCCESS" by (cases r) auto
  with e have "stmt (sy_db s) = Some (sy_db s1)" by (elim exec_stmt_cases) auto
  moreover have "run_stmts stmts (sy_db s1) = Some (sy_db s')" using Cons e r by simp
  ultimately show ?case by simp
qed simp

text \<open>What every statement of a run keeps.\<close>

lemma run_stmts_keep:
  assumes "run_stmts stmts d = Some d'" "P d" "\<And>stmt e e'. stmt \<in> set stmts \<Longrightarrow> stmt e = Some e' \<Longrightarrow> P e \<Longrightarrow> P e'"
  shows "P d'"
  using assms
proof (induction stmts arbitrary: d)
  case (Cons stmt stmts)
  then obtain e where "stmt d = Some e" "run_stmts stmts e = Some d'" by (auto simp: Option.bind_eq_Some_conv)
  with Cons show ?case by auto
qed simp

lemma update_types_keeps: "update_types f d = Some d' \<Longrightarrow> \<exists>ts. d' = d\<lparr>sy_type := ts\<rparr>"
  by (auto simp: update_types_def)

lemma add_type_keeps: "add_type t d = Some d' \<Longrightarrow> \<exists>ts. d' = d\<lparr>sy_type := ts\<rparr>"
  by (auto simp: add_type_def split: if_splits)

lemmas stmt_defs = unique_lines_def set_scopes_def set_functions_def mark_begin_def mark_end_def count_members_def set_files_def
  drop_declarations_def add_ancestors_def

lemma basic_keeps: "stmt \<in> (\<lambda>(n, sz, flags). ADD_BASIC_TYPE n sz flags) ` set bs \<Longrightarrow> stmt d = Some d' \<Longrightarrow> \<exists>ts. d' = d\<lparr>sy_type := ts\<rparr>"
  by (auto simp: ADD_BASIC_TYPE_def dest: add_type_keeps)

text \<open>Every statement is one of these kinds.\<close>

lemma alter_stmt_cases:
  assumes "stmt \<in> set alter_stmts" "stmt d = Some d'"
  obtains "d' = d" | ts where "d' = d\<lparr>sy_type := ts\<rparr>" | ls where "d' = d\<lparr>sy_statement := ls\<rparr>" "stmt \<in> set line_stmts"
  | vs where "d' = d\<lparr>sy_var := vs\<rparr>" | "stmt = add_ancestors"
proof -
  have "stmt \<in> set line_stmts \<or> stmt \<in> set type_stmts \<or> stmt \<in> {set_files, drop_declarations, add_ancestors, Some} \<or>
      stmt \<in> (\<lambda>(n, sz, flags). ADD_BASIC_TYPE n sz flags) ` set basic_types"
    using assms(1) by (auto simp: alter_stmts_def)
  then show ?thesis
  proof (elim disjE)
    assume l: "stmt \<in> set line_stmts"
    then have "\<exists>ls. d' = d\<lparr>sy_statement := ls\<rparr> \<or> d' = d"
      using assms(2) by (auto simp: line_stmts_def stmt_defs split: if_splits)
    with l that show ?thesis by blast
  next
    assume "stmt \<in> set type_stmts"
    then have "d' = d \<or> (\<exists>ts. d' = d\<lparr>sy_type := ts\<rparr>)"
      using assms(2) update_types_keeps unfolding type_stmts_def count_members_def by fastforce
    with that show ?thesis by blast
  next
    assume "stmt \<in> {set_files, drop_declarations, add_ancestors, Some}"
    then have "d' = d \<or> (\<exists>vs. d' = d\<lparr>sy_var := vs\<rparr>) \<or> stmt = add_ancestors"
      using assms(2) by (auto simp: set_files_def drop_declarations_def)
    with that show ?thesis by blast
  next
    assume "stmt \<in> (\<lambda>(n, sz, flags). ADD_BASIC_TYPE n sz flags) ` set basic_types"
    with assms(2) have "\<exists>ts. d' = d\<lparr>sy_type := ts\<rparr>" by (rule basic_keeps [rotated])
    with that show ?thesis by blast
  qed
qed

lemma alter_keeps:
  assumes "stmt \<in> set alter_stmts" "stmt d = Some d'"
  shows "sy_scope d' = sy_scope d \<and> sy_function d' = sy_function d"
  using assms by (rule alter_stmt_cases) (use assms(2) in \<open>auto simp: add_ancestors_def\<close>)

lemma run_alter_keeps:
  assumes "run_stmts stmts d = Some d'" "set stmts \<subseteq> set alter_stmts"
  shows "sy_scope d' = sy_scope d \<and> sy_function d' = sy_function d"
  using assms(1) by (rule run_stmts_keep) (use assms(2) alter_keeps in \<open>auto simp: subset_iff\<close>)

section \<open>Scopes around scopes\<close>

definition parent_rel :: "scope_row list \<Rightarrow> (int \<times> int) set" where
  "parent_rel scopes = (\<lambda>r. (sc_id r, sc_parent r)) ` set scopes"

lemma scopes_around_iff:
  "a \<in> set (scopes_around n scopes i) \<longleftrightarrow> (\<exists>k. 0 < k \<and> k \<le> n \<and> (i, a) \<in> parent_rel scopes ^^ k)"
proof (induction n arbitrary: i)
  case (Suc n)
  have "a \<in> set (scopes_around (Suc n) scopes i) \<longleftrightarrow>
      (\<exists>p. (i, p) \<in> parent_rel scopes \<and> (a = p \<or> (\<exists>k. 0 < k \<and> k \<le> n \<and> (p, a) \<in> parent_rel scopes ^^ k)))"
    by (auto simp: Suc parent_rel_def)
  also have "\<dots> \<longleftrightarrow> (\<exists>p j. (i, p) \<in> parent_rel scopes \<and> j \<le> n \<and> (p, a) \<in> parent_rel scopes ^^ j)"
    by (metis le0 not_gr_zero relpow_0_E relpow_0_I)
  also have "\<dots> \<longleftrightarrow> (\<exists>j \<le> n. (i, a) \<in> parent_rel scopes ^^ Suc j)"
    by (meson relpow_Suc_E2 relpow_Suc_I2)
  also have "\<dots> \<longleftrightarrow> (\<exists>k. 0 < k \<and> k \<le> Suc n \<and> (i, a) \<in> parent_rel scopes ^^ k)"
    by (metis Suc_le_mono gr0_implies_Suc zero_less_Suc)
  finally show ?case .
qed simp

lemma scopes_around_trancl:
  "a \<in> set (scopes_around (length scopes) scopes i) \<longleftrightarrow> (i, a) \<in> (parent_rel scopes)\<^sup>+"
proof -
  have "card (parent_rel scopes) \<le> length scopes"
    unfolding parent_rel_def by (metis card_image_le card_length finite_set le_trans)
  moreover have "finite (parent_rel scopes)" by (simp add: parent_rel_def)
  ultimately have "(i, a) \<in> (parent_rel scopes)\<^sup>+ \<Longrightarrow> \<exists>k. 0 < k \<and> k \<le> length scopes \<and> (i, a) \<in> parent_rel scopes ^^ k"
    by (auto simp: trancl_finite_eq_relpow intro: le_trans)
  then show ?thesis unfolding scopes_around_iff by (auto simp: trancl_power)
qed

lemma add_ancestors_exact:
  assumes "add_ancestors d = Some d'"
  shows "set (sy_ancestor d') = (parent_rel (sy_scope d))\<^sup>+"
proof -
  have "i \<in> sc_id ` set (sy_scope d)" if "(i, a) \<in> (parent_rel (sy_scope d))\<^sup>+" for i a
    using tranclD [OF that] by (auto simp: parent_rel_def)
  then have "\<exists>r \<in> set (sy_scope d). sc_id r = i" if "(i, a) \<in> (parent_rel (sy_scope d))\<^sup>+" for i a
    using that by force
  moreover have "set (sy_ancestor d') =
      {(sc_id r, a) | r a. r \<in> set (sy_scope d) \<and> a \<in> set (scopes_around (length (sy_scope d)) (sy_scope d) (sc_id r))}"
    using assms by (fastforce simp: add_ancestors_def)
  ultimately show ?thesis by (auto simp: scopes_around_trancl) metis
qed

section \<open>Nested scopes\<close>

text \<open>The scopes of a program: a scope lies within its parent, and scopes with the same parent do not overlap.\<close>

definition nested :: "scope_row list \<Rightarrow> bool" where
  "nested scopes \<longleftrightarrow>
     (\<forall>r \<in> set scopes. \<forall>p \<in> set scopes. sc_parent r = sc_id p \<longrightarrow> sc_start p \<le> sc_start r \<and> sc_end r \<le> sc_end p) \<and>
     (\<forall>r \<in> set scopes. \<forall>q \<in> set scopes. sc_parent r = sc_parent q \<and> r \<noteq> q \<longrightarrow> sc_end r \<le> sc_start q \<or> sc_end q \<le> sc_start r)"

lemma nested_parent: "nested scopes \<Longrightarrow> r \<in> set scopes \<Longrightarrow> p \<in> set scopes \<Longrightarrow> sc_parent r = sc_id p \<Longrightarrow> scope_covers r a \<Longrightarrow> scope_covers p a"
  by (force simp: nested_def scope_covers_def)

lemma nested_sibling:
  "nested scopes \<Longrightarrow> r \<in> set scopes \<Longrightarrow> q \<in> set scopes \<Longrightarrow> sc_parent r = sc_parent q \<Longrightarrow> scope_covers r a \<Longrightarrow> scope_covers q a \<Longrightarrow> r = q"
  by (force simp: nested_def scope_covers_def)

lemma scopes_ok_parent:
  assumes "scopes_ok scopes" "r \<in> set scopes"
  obtains "sc_parent r = 0" "sc_depth r = 0" | p where "p \<in> set scopes" "sc_id p = sc_parent r" "sc_depth r = sc_depth p + 1"
proof -
  from assms(2) obtain i where i: "i < length scopes" "r = scopes ! i" by (auto simp: in_set_conv_nth)
  with assms(1) consider "sc_parent r = 0" "sc_depth r = 0"
    | j where "j < i" "sc_parent r = int j + 1" "sc_depth r = sc_depth (scopes ! j) + 1"
    by (auto simp: scopes_ok_def)
  then show ?thesis
  proof cases
    case (2 j)
    then have "scopes ! j \<in> set scopes" "sc_id (scopes ! j) = sc_parent r" using assms(1) i by (auto simp: scopes_ok_def)
    with 2 that show ?thesis by blast
  qed (rule that)
qed

lemma scopes_ok_depth: "scopes_ok scopes \<Longrightarrow> r \<in> set scopes \<Longrightarrow> 0 \<le> sc_depth r"
proof -
  assume ok: "scopes_ok scopes"
  have "i < length scopes \<Longrightarrow> 0 \<le> sc_depth (scopes ! i)" for i
  proof (induction i rule: less_induct)
    case (less i)
    with ok consider "sc_depth (scopes ! i) = 0" | j where "j < i" "sc_depth (scopes ! i) = sc_depth (scopes ! j) + 1"
      unfolding scopes_ok_def by blast
    then show ?case using less by cases auto
  qed
  then show "r \<in> set scopes \<Longrightarrow> 0 \<le> sc_depth r" by (auto simp: in_set_conv_nth)
qed

text \<open>An address is in one scope of each depth at most.\<close>

lemma same_depth_unique:
  assumes "scopes_ok scopes" "nested scopes"
  shows "r \<in> set scopes \<Longrightarrow> q \<in> set scopes \<Longrightarrow> sc_depth r = int n \<Longrightarrow> sc_depth q = int n \<Longrightarrow> scope_covers r a \<Longrightarrow>
    scope_covers q a \<Longrightarrow> r = q"
proof (induction n arbitrary: r q)
  case 0
  have "sc_parent x = 0" if "x \<in> set scopes" "sc_depth x = 0" for x
    using assms(1) that(1) by (rule scopes_ok_parent) (use that(2) scopes_ok_depth [OF assms(1)] in force)+
  with 0 show ?case by (auto intro: nested_sibling [OF assms(2)])
next
  case (Suc n)
  have "\<exists>p \<in> set scopes. sc_id p = sc_parent x \<and> sc_depth p = int n \<and> scope_covers p a"
    if "x \<in> set scopes" "sc_depth x = int (Suc n)" "scope_covers x a" for x
    using assms(1) that(1)
    by (rule scopes_ok_parent) (use that nested_parent [OF assms(2) that(1)] in auto)
  with Suc obtain p p' where "p \<in> set scopes" "p' \<in> set scopes" "sc_id p = sc_parent r" "sc_id p' = sc_parent q"
    "sc_depth p = int n" "sc_depth p' = int n" "scope_covers p a" "scope_covers p' a" by meson
  moreover from this Suc.IH have "p = p'" by blast
  ultimately show ?case using Suc.prems by (metis nested_sibling [OF assms(2)])
qed

text \<open>The scope around a scope at a smaller depth.\<close>

lemma scope_up:
  assumes "scopes_ok scopes" "nested scopes"
  shows "r \<in> set scopes \<Longrightarrow> 0 \<le> k \<Longrightarrow> sc_depth r = k + int n \<Longrightarrow>
    \<exists>q \<in> set scopes. sc_depth q = k \<and> (q = r \<or> (sc_id r, sc_id q) \<in> (parent_rel scopes)\<^sup>+) \<and> (\<forall>a. scope_covers r a \<longrightarrow> scope_covers q a)"
proof (induction n arbitrary: r)
  case (Suc n)
  obtain p where p: "p \<in> set scopes" "sc_id p = sc_parent r" "sc_depth r = sc_depth p + 1"
    using assms(1) Suc.prems(1) by (rule scopes_ok_parent) (use Suc.prems in auto)
  with Suc obtain q where q: "q \<in> set scopes" "sc_depth q = k" "q = p \<or> (sc_id p, sc_id q) \<in> (parent_rel scopes)\<^sup>+"
    "\<forall>a. scope_covers p a \<longrightarrow> scope_covers q a" by force
  have "(sc_id r, sc_id p) \<in> parent_rel scopes" using p(2) Suc.prems(1) by (auto simp: parent_rel_def)
  with q(3) have "(sc_id r, sc_id q) \<in> (parent_rel scopes)\<^sup>+" by (auto intro: trancl_into_trancl2)
  with p q show ?case using nested_parent [OF assms(2) Suc.prems(1) p(1)] by metis
qed auto

lemma scope_at_innermost:
  assumes "scopes_ok scopes" "nested scopes"
  shows "case scope_at scopes a of
      None \<Rightarrow> \<forall>q \<in> set scopes. \<not> scope_covers q a
    | Some i \<Rightarrow> \<exists>r \<in> set scopes. sc_id r = i \<and> scope_covers r a \<and>
        (\<forall>q \<in> set scopes. scope_covers q a \<longrightarrow> q = r \<or> (i, sc_id q) \<in> (parent_rel scopes)\<^sup>+)"
proof (cases "sort_key (\<lambda>r. - sc_depth r) (filter (\<lambda>r. scope_covers r a) scopes)")
  case Nil
  then have "filter (\<lambda>r. scope_covers r a) scopes = []" by (metis set_sort set_empty)
  with Nil show ?thesis by (auto simp: scope_at_def filter_empty_conv)
next
  case (Cons r rs)
  from sort_key_hd(1) [OF Cons] have r: "r \<in> set scopes" "scope_covers r a" by auto
  have "q = r \<or> (sc_id r, sc_id q) \<in> (parent_rel scopes)\<^sup>+" if q: "q \<in> set scopes" "scope_covers q a" for q
  proof -
    from sort_key_hd(2) [OF Cons, of q] q have "sc_depth q \<le> sc_depth r" by simp
    then have "sc_depth r = sc_depth q + int (nat (sc_depth r - sc_depth q))" by simp
    from scope_up [OF assms r(1) scopes_ok_depth [OF assms(1) q(1)] this] obtain q' where
      q': "q' \<in> set scopes" "sc_depth q' = sc_depth q" "q' = r \<or> (sc_id r, sc_id q') \<in> (parent_rel scopes)\<^sup>+" "scope_covers q' a"
      using r(2) by blast
    have "q' = q"
      using same_depth_unique [OF assms q'(1) q(1), of "nat (sc_depth q)" a] q' q scopes_ok_depth [OF assms(1) q(1)] by simp
    with q'(3) show ?thesis by simp
  qed
  with r Cons show ?thesis by (auto simp: scope_at_def)
qed


section \<open>What the tables say in the end\<close>

text \<open>The scope and the function of a line, once they are set.\<close>

definition lines_placed :: "sym_db \<Rightarrow> bool" where
  "lines_placed d \<longleftrightarrow>
     (\<forall>l \<in> set (sy_statement d). sl_scope_id l = scope_at (sy_scope d) (sl_address l) \<and> sl_function_id l = function_at d (sl_address l))"

lemma function_at_cong:
  "sy_scope d' = sy_scope d \<Longrightarrow> sy_function d' = sy_function d \<Longrightarrow> function_at d' a = function_at d a"
  by (simp add: function_at_def function_scopes_def)

lemma function_at_statement [simp]: "function_at (d\<lparr>sy_statement := ls\<rparr>) a = function_at d a"
  by (rule function_at_cong) simp_all

lemma lines_placed_cong:
  "sy_scope d' = sy_scope d \<Longrightarrow> sy_function d' = sy_function d \<Longrightarrow> sy_statement d' = sy_statement d \<Longrightarrow> lines_placed d \<Longrightarrow> lines_placed d'"
  by (simp add: lines_placed_def function_at_cong [of d' d])

lemma mark_begin_placed: "mark_begin d = Some d' \<Longrightarrow> lines_placed d \<Longrightarrow> lines_placed d'"
  by (auto simp: mark_begin_def lines_placed_def)

lemma mark_end_placed: "mark_end d = Some d' \<Longrightarrow> lines_placed d \<Longrightarrow> lines_placed d'"
  by (auto simp: mark_end_def lines_placed_def Let_def)

definition late_stmts :: "(sym_db \<Rightarrow> sym_db option) list" where
  "late_stmts = type_stmts @ [set_files, drop_declarations, add_ancestors, Some, Some] @
     map (\<lambda>(n, sz, flags). ADD_BASIC_TYPE n sz flags) basic_types"

lemma late_statement: "stmt \<in> set late_stmts \<Longrightarrow> stmt d = Some d' \<Longrightarrow> sy_statement d' = sy_statement d"
  unfolding late_stmts_def type_stmts_def
  by (auto simp: set_files_def drop_declarations_def add_ancestors_def count_members_def ADD_BASIC_TYPE_def
      dest!: update_types_keeps add_type_keeps)

lemma alter_stmts_split: "alter_stmts = line_stmts @ late_stmts"
  by (simp add: alter_stmts_def late_stmts_def)

lemma alter_db_run:
  assumes "alter_db dbo s = (SUCCESS, s')"
  obtains d1 d2 where "sy_statement d1 = sy_statement (sy_db s)" "sy_scope d1 = sy_scope (sy_db s)" "sy_function d1 = sy_function (sy_db s)"
    "run_stmts [set_scopes, set_functions, mark_begin, mark_end] d1 = Some d2" "run_stmts late_stmts d2 = Some (sy_db s')"
proof -
  have r: "run_stmts alter_stmts (sy_db s) = Some (sy_db s')"
    using assms by (auto simp: alter_db_def intro: exec_stmts_success)
  have "unique_lines (sy_db s) = Some (sy_db s)"
    using r by (auto simp: alter_stmts_split line_stmts_def unique_lines_def split: if_splits)
  then have "Option.bind (run_stmts [set_scopes, set_functions, mark_begin, mark_end] (sy_db s)) (run_stmts late_stmts) = Some (sy_db s')"
    using r by (simp add: alter_stmts_split line_stmts_def Option.bind_assoc cong: Option.bind_cong)
  then show ?thesis using that [OF refl refl refl] by (auto simp: Option.bind_eq_Some_conv)
qed

lemma alter_db_placed:
  assumes "alter_db dbo s = (SUCCESS, s')"
  shows "lines_placed (sy_db s')" "sy_scope (sy_db s') = sy_scope (sy_db s)" "sy_function (sy_db s') = sy_function (sy_db s)"
proof -
  have run: "run_stmts alter_stmts (sy_db s) = Some (sy_db s')"
    using assms by (auto simp: alter_db_def intro: exec_stmts_success)
  then show "sy_scope (sy_db s') = sy_scope (sy_db s)" "sy_function (sy_db s') = sy_function (sy_db s)"
    using run_alter_keeps by blast+
  obtain d1 d2 where d: "run_stmts [set_scopes, set_functions, mark_begin, mark_end] d1 = Some d2" "run_stmts late_stmts d2 = Some (sy_db s')"
    using assms by (rule alter_db_run)
  from d(1) obtain a b c where st: "set_scopes d1 = Some a" "set_functions a = Some b" "mark_begin b = Some c" "mark_end c = Some d2"
    by (auto simp: Option.bind_eq_Some_conv)
  have "lines_placed b" using st(1,2) by (auto simp: set_scopes_def set_functions_def lines_placed_def function_at_def function_scopes_def)
  then have "lines_placed d2" using st(3,4) mark_begin_placed mark_end_placed by blast
  with d(2) show "lines_placed (sy_db s')"
  proof (rule run_stmts_keep)
    fix stmt e e' assume a: "stmt \<in> set late_stmts" "stmt e = Some e'" "lines_placed e"
    have "stmt \<in> set alter_stmts" using a(1) by (simp add: alter_stmts_split)
    with a show "lines_placed e'" using alter_keeps [of stmt e e'] late_statement [OF a(1,2)] by (auto intro: lines_placed_cong)
  qed
qed

lemma alter_db_ancestors:
  assumes "alter_db dbo s = (SUCCESS, s')"
  shows "set (sy_ancestor (sy_db s')) = (parent_rel (sy_scope (sy_db s')))\<^sup>+"
proof -
  let ?pre = "line_stmts @ type_stmts @ [set_files, drop_declarations]"
  let ?post = "[Some, Some] @ map (\<lambda>(n, sz, flags). ADD_BASIC_TYPE n sz flags) basic_types"
  have "run_stmts (?pre @ add_ancestors # ?post) (sy_db s) = Some (sy_db s')"
    using assms exec_stmts_success [of dbo alter_stmts s s'] by (simp add: alter_db_def alter_stmts_def)
  then have "Option.bind (run_stmts ?pre (sy_db s)) (\<lambda>d. Option.bind (add_ancestors d) (run_stmts ?post)) = Some (sy_db s')"
    by (simp only: run_stmts_append [of ?pre] run_stmts.simps(2) cong: Option.bind_cong)
  then obtain d e where "add_ancestors d = Some e" and post: "run_stmts ?post e = Some (sy_db s')"
    by (meson Option.bind_eq_Some_conv)
  then have "set (sy_ancestor e) = (parent_rel (sy_scope e))\<^sup>+"
    using add_ancestors_exact by (auto simp: add_ancestors_def)
  with post show ?thesis
  proof (rule run_stmts_keep)
    fix stmt a b assume "stmt \<in> set ?post" "stmt a = Some b" "set (sy_ancestor a) = (parent_rel (sy_scope a))\<^sup>+"
    then show "set (sy_ancestor b) = (parent_rel (sy_scope b))\<^sup>+" by (auto simp: ADD_BASIC_TYPE_def dest!: add_type_keeps)
  qed
qed

lemma no_rows_consistent: "consistent no_rows"
  by (simp add: no_rows_def consistent_simps scopes_ok_def)

lemma exec_nothing: "exec_stmts dbo (replicate n Some) s = (r, s') \<Longrightarrow> sy_db s' = sy_db s"
proof (induction n arbitrary: s)
  case (Suc n)
  obtain r1 s1 where e: "exec_stmt dbo Some s = (r1, s1)" by fastforce
  then have "sy_db s1 = sy_db s" by (elim exec_stmt_cases) auto
  with Suc e show ?case by (cases r1) auto
qed simp

text \<open>
  C16. Well-formed tables: whatever debug information libdwarf reports, and whatever fails, the tables that the collection
  leaves are consistent in this sense.  Scopes are numbered in order and have as parent the global scope or an earlier scope
  one level up; the scope of a function, no two functions having the same, and of a variable is a scope that exists, as do the
  unit of a type, a variable and a file, the file of a line, and the structure or enumeration of a member; no two types have
  the same unit and offset, and files are numbered in order.  Not covered are four references that follow the debug information
  and can dangle: the parent of a type, and the type of a variable and of a member (a type that is passed over, as
  \<^verbatim>\<open>const void\<close> is, leaves them without a row, see \<open>unknown_kind_fails\<close>), and the file of a variable.
\<close>

theorem collected_consistent:
  assumes "proc_units w alloc opt units start_state = Some (r, s)"
  shows "consistent (sy_db s)"
proof -
  have "consistent (sy_db start_state)" by (simp add: start_state_def no_rows_consistent)
  moreover from this have "db_link (sy_db start_state) (sy_db s)" by (rule proc_units_link [OF assms])
  ultimately show ?thesis by (simp add: db_link_def)
qed

lemma dbg_srcinfo_success:
  assumes "dbg_srcinfo w alloc opt dwarf units = Some (SUCCESS, s)"
  obtains s2 where "alter_db (wk_db w) s2 = (SUCCESS, s)" "consistent (sy_db s2)"
proof -
  obtain s0 s1 s2 where st: "create_db (wk_db w) start_state = (SUCCESS, s0)" "prepare_statements (wk_db w) s0 = (SUCCESS, s1)"
    "proc_units w alloc opt units s1 = Some (SUCCESS, s2)" "alter_db (wk_db w) s2 = (SUCCESS, s)"
    using assms by (auto simp: dbg_srcinfo_def split: prod.splits status.splits if_splits option.splits)
  have "sy_db s1 = no_rows"
    using exec_nothing st(1,2) by (simp add: create_db_def prepare_statements_def start_state_def)
  then have "consistent (sy_db s2)" using proc_units_link [OF st(3)] by (simp add: no_rows_consistent db_link_def)
  with st(4) that show ?thesis by blast
qed

text \<open>
  C15. The place of a line: when the debug information was collected and the scopes of the program are nested, every line is
  in the innermost scope that contains its address.  Every other scope that contains it is recorded as an ancestor of that
  scope, and so is the scope of the function of the line, unless it is that scope itself; a line outside of all scopes has
  neither scope nor function.
\<close>

theorem lines_scoped:
  assumes "dbg_srcinfo w alloc opt dwarf units = Some (SUCCESS, s)" "d = sy_db s" "nested (sy_scope d)" "l \<in> set (sy_statement d)"
  shows "case sl_scope_id l of
      None \<Rightarrow> (\<forall>q \<in> set (sy_scope d). \<not> scope_covers q (sl_address l)) \<and> sl_function_id l = None
    | Some i \<Rightarrow>
        (\<exists>r \<in> set (sy_scope d). sc_id r = i \<and> scope_covers r (sl_address l) \<and>
           (\<forall>q \<in> set (sy_scope d). scope_covers q (sl_address l) \<longrightarrow> q = r \<or> (i, sc_id q) \<in> set (sy_ancestor d))) \<and>
        (\<forall>k. sl_function_id l = Some k \<longrightarrow>
           (\<exists>f \<in> set (sy_function d). fu_id f = k \<and> (fu_scope_id f = i \<or> (i, fu_scope_id f) \<in> set (sy_ancestor d))))"
proof -
  obtain s2 where s2: "alter_db (wk_db w) s2 = (SUCCESS, s)" "consistent (sy_db s2)"
    using assms(1) by (rule dbg_srcinfo_success)
  note placed = alter_db_placed [OF s2(1), folded assms(2)] and anc = alter_db_ancestors [OF s2(1), folded assms(2)]
  have ok: "scopes_ok (sy_scope d)" using s2(2) placed(2) by (simp add: consistent_def scope_refs_ok_def)
  have at: "sl_scope_id l = scope_at (sy_scope d) (sl_address l)" "sl_function_id l = function_at d (sl_address l)"
    using placed(1) assms(4) by (simp_all add: lines_placed_def)
  have fn: "\<exists>f \<in> set (sy_function d). fu_id f = k \<and> (\<exists>q \<in> set (sy_scope d). sc_id q = fu_scope_id f \<and> scope_covers q (sl_address l))"
    if "sl_function_id l = Some k" for k
    using that at(2) by (auto simp: function_at_def function_scopes_def dest!: find_SomeD) blast
  show ?thesis
    using scope_at_innermost [OF ok assms(3), of "sl_address l", folded anc] fn
    by (fastforce simp: at(1) split: option.splits)
qed

section \<open>Samples\<close>

text \<open>A function with a block, and a line before, in and after the block.\<close>

definition block_die :: die where
  "block_die = Die (Some 0x90) (Some DW_TAG_lexical_block)
     [(DW_AT_low_pc, Attr (DW_FORM_addr 0x1010)), (DW_AT_high_pc, Attr (DW_FORM_data 8 0x10))]
     [Die (Some 0x98) (Some DW_TAG_variable)
        [(DW_AT_name, Attr (DW_FORM_string ''x'')), (DW_AT_type, Attr (DW_FORM_ref 0x30)), (DW_AT_decl_file, Attr (DW_FORM_data 1 1)),
         (DW_AT_decl_line, Attr (DW_FORM_data 1 7))] [] True] True"

definition main_die :: die where
  "main_die = Die (Some 0x80) (Some DW_TAG_subprogram)
     [(DW_AT_name, Attr (DW_FORM_string ''main'')), (DW_AT_low_pc, Attr (DW_FORM_addr 0x1000)), (DW_AT_high_pc, Attr (DW_FORM_data 8 0x40)),
      (DW_AT_external, Attr (DW_FORM_flag True))] [block_die] True"

definition code_line :: "u64 \<Rightarrow> u64 \<Rightarrow> dw_line" where
  "code_line n a = \<lparr>ln_begin = Some True, ln_end = Some False, ln_file = Some 1, ln_addr = Some a, ln_no = Some n\<rparr>"

definition main_unit :: cu where
  "main_unit = Cu \<lparr>du_die = Die (Some 0xb) None
       [(DW_AT_comp_dir, Attr (DW_FORM_string ''/p/lib'')), (DW_AT_name, Attr (DW_FORM_string ''src/a.c'')),
        (DW_AT_low_pc, Attr (DW_FORM_addr 0x1000))] [int_die, main_die] True,
     du_files = Some [''/p/lib/src/a.c''], du_lines = Some [code_line 5 0x1000, code_line 7 0x1010, code_line 9 0x1030]\<rparr>"

lemma main_path: "source_path all_memory ''lib'' ''/p/lib/src/a.c'' = Some ''/p/lib/src/a.c''"
  by code_simp

text \<open>The tables that are collected for it.\<close>

definition main_db :: sym_db where
  "main_db = \<lparr>sy_unit = [\<lparr>un_id = 1, un_name = ''a.c'', un_path = ''lib'', un_base_addr = 0x1000\<rparr>],
     sy_file = [\<lparr>sf_id = 1, sf_name = ''a.c'', sf_path = ''lib/src/a.c'', sf_unit_id = 1, sf_seq = 1\<rparr>],
     sy_scope = [\<lparr>sc_id = 1, sc_parent = 0, sc_depth = 0, sc_start = 0x1000, sc_end = 0x1040\<rparr>,
       \<lparr>sc_id = 2, sc_parent = 1, sc_depth = 1, sc_start = 0x1010, sc_end = 0x1020\<rparr>],
     sy_statement = map (\<lambda>(n, a). \<lparr>sl_file_id = 1, sl_line = n, sl_address = a, sl_scope_id = None, sl_function_id = None, sl_func_flag = None\<rparr>)
       [(5, 0x1000), (7, 0x1010), (9, 0x1030)],
     sy_function = [\<lparr>fu_id = 1, fu_name = ''main'', fu_offset = 0x80, fu_scope_id = 1\<rparr>],
     sy_type = [\<lparr>dt_unit_id = 1, dt_offset = 0x30, dt_name = Some ''int'', dt_size = Some 4, dt_dim = 0, dt_parent = 0, dt_flags = 1, dt_indirect = 0\<rparr>],
     sy_member = [], sy_var = [\<lparr>sv_id = 1, sv_name = Some ''x'', sv_unit_id = 1, sv_type_offset = 0x30, sv_scope_id = 2, sv_offset = 0x98,
       sv_file_id = 1, sv_line = 7\<rparr>], sy_ancestor = []\<rparr>"

lemmas main_defs = main_unit_def main_die_def block_die_def code_line_def main_db_def walk_defs main_path formsdata_def insert_file_def
  proc_line_def insert_line_def proc_func.simps proc_block.simps insert_scope_def insert_func_def die_offset_def high_address_def
  block_range_def proc_var_def insert_var_def

lemma main_collected:
  "sy_db s = no_rows \<Longrightarrow> \<exists>s'. proc_units sample_walk all_memory sample_options [main_unit] s = Some (SUCCESS, s') \<and> sy_db s' = main_db"
  by (simp add: main_defs)

lemma main_lines:
  "map_option (map (\<lambda>l. (sl_address l, sl_scope_id l, sl_function_id l, sl_func_flag l)) \<circ> sy_statement) (run_stmts line_stmts main_db) =
     Some [(0x1000, Some 1, Some 1, Some 1), (0x1010, Some 2, Some 1, None), (0x1030, Some 1, Some 1, Some 2)]"
  by code_simp

lemma line_stmts_keep: "run_stmts line_stmts d = Some d' \<Longrightarrow> \<exists>ls. d' = d\<lparr>sy_statement := ls\<rparr>"
  by (auto simp: line_stmts_def stmt_defs Option.bind_eq_Some_conv split: if_splits)

lemma main_late: "\<exists>d'. run_stmts late_stmts (main_db\<lparr>sy_statement := ls\<rparr>) = Some d' \<and> sy_statement d' = ls"
  by (simp add: late_stmts_def main_db_def type_stmts_def update_types_def pointer_indirect_def derived_indirect_def propagate_flags_def
      propagate_size_def array_sizes_def count_members_def set_files_def drop_declarations_def add_ancestors_def basic_types_def
      ADD_BASIC_TYPE_def add_type_def file_of_def)

lemma exec_stmts_works:
  "(\<And>n. dbo n) \<Longrightarrow> run_stmts stmts (sy_db s) = Some d \<Longrightarrow> \<exists>s'. exec_stmts dbo stmts s = (SUCCESS, s') \<and> sy_db s' = d"
proof (induction stmts arbitrary: s)
  case (Cons stmt stmts)
  then obtain e where e: "stmt (sy_db s) = Some e" "run_stmts stmts e = Some d" by (auto simp: Option.bind_eq_Some_conv)
  with Cons.IH [of "s\<lparr>db_calls := Suc (db_calls s), sy_db := e\<rparr>"] Cons.prems(1) show ?case by (simp add: exec_stmt_def)
qed simp

lemma run_nothing [simp]: "run_stmts (replicate n Some) d = Some d"
  by (induction n) simp_all

text \<open>With a database that works, the outcome is that of the walk and of the run of the statements.\<close>

lemma dbg_srcinfo_works:
  assumes "\<And>n. wk_db w n" "\<And>s. sy_db s = no_rows \<Longrightarrow> \<exists>s'. proc_units w alloc opt units s = Some (SUCCESS, s') \<and> sy_db s' = d"
    and "run_stmts alter_stmts d = Some d'"
  shows "\<exists>s'. dbg_srcinfo w alloc opt True units = Some (SUCCESS, s') \<and> sy_db s' = d'"
proof -
  obtain s0 where s0: "create_db (wk_db w) start_state = (SUCCESS, s0)" "sy_db s0 = no_rows"
    using exec_stmts_works [of "wk_db w" "replicate 9 Some" start_state, OF assms(1)] by (auto simp: create_db_def start_state_def)
  obtain s1 where s1: "prepare_statements (wk_db w) s0 = (SUCCESS, s1)" "sy_db s1 = no_rows"
    using exec_stmts_works [of "wk_db w" "replicate 9 Some" s0, OF assms(1)] s0(2) by (auto simp: prepare_statements_def)
  from assms(2) [OF s1(2)] obtain s2 where s2: "proc_units w alloc opt units s1 = Some (SUCCESS, s2)" "sy_db s2 = d" by blast
  obtain s3 where "alter_db (wk_db w) s2 = (SUCCESS, s3)" "sy_db s3 = d'"
    using exec_stmts_works [of "wk_db w" alter_stmts s2, OF assms(1)] s2(2) assms(3) by (auto simp: alter_db_def)
  with s0 s1 s2 show ?thesis by (simp add: dbg_srcinfo_def)
qed

theorem lines_scoped_witness:
  "\<exists>s l. dbg_srcinfo sample_walk all_memory sample_options True [main_unit] = Some (SUCCESS, s) \<and> l \<in> set (sy_statement (sy_db s)) \<and>
     sl_address l = 0x1010 \<and> sl_scope_id l = Some 2 \<and>
     (\<forall>q \<in> set (sy_scope (sy_db s)). scope_covers q 0x1010 \<longrightarrow> sc_id q = 2 \<or> (2, sc_id q) \<in> set (sy_ancestor (sy_db s)))"
proof -
  from main_lines obtain d1 where d1: "run_stmts line_stmts main_db = Some d1"
    and ls: "map (\<lambda>l. (sl_address l, sl_scope_id l, sl_function_id l, sl_func_flag l)) (sy_statement d1) =
      [(0x1000, Some 1, Some 1, Some 1), (0x1010, Some 2, Some 1, None), (0x1030, Some 1, Some 1, Some 2)]"
    by (auto simp: map_option_eq_Some)
  from line_stmts_keep [OF d1] main_late obtain d2 where "run_stmts late_stmts d1 = Some d2" and st: "sy_statement d2 = sy_statement d1"
    by force
  then have d2: "run_stmts alter_stmts main_db = Some d2" using d1 by (simp add: alter_stmts_split run_stmts_append)
  then have sc: "sy_scope d2 = sy_scope main_db" using run_alter_keeps by blast
  obtain s where s: "dbg_srcinfo sample_walk all_memory sample_options True [main_unit] = Some (SUCCESS, s)" "sy_db s = d2"
    using dbg_srcinfo_works [OF _ main_collected d2] by (auto simp: sample_walk_def every_call_def)
  let ?l = "sy_statement d2 ! 1"
  have l: "?l \<in> set (sy_statement d2)" "sl_address ?l = 0x1010" "sl_scope_id ?l = Some 2"
    using ls by (auto simp: st map_eq_Cons_conv)
  have "nested (sy_scope d2)" by (simp add: sc main_db_def nested_def)
  from lines_scoped [OF s(1) refl] this l s(2) show ?thesis by (intro exI [of _ s] exI [of _ ?l]) (fastforce simp: s(1) scope_covers_def)
qed

lemma types_collected:
  "map_option fst (proc_units sample_walk every_call sample_options [unit_of [int_die]] start_state) = Some SUCCESS"
  by code_simp

theorem collected_consistent_witness:
  "\<exists>s. proc_units sample_walk every_call sample_options [unit_of [int_die]] start_state = Some (SUCCESS, s) \<and> consistent (sy_db s)"
  using types_collected collected_consistent [of sample_walk every_call sample_options "[unit_of [int_die]]"]
  by (auto simp: map_option_eq_Some)

section \<open>Types without a kind\<close>

text \<open>What the first updates keep of the types: as many, with the same offsets, parents and flags.\<close>

definition same_types :: "dtype_row list \<Rightarrow> dtype_row list \<Rightarrow> bool" where
  "same_types ts us \<longleftrightarrow> map (\<lambda>t. (dt_offset t, dt_parent t, dt_flags t)) ts = map (\<lambda>t. (dt_offset t, dt_parent t, dt_flags t)) us"

lemma update_rows_same:
  assumes "\<And>ts t t'. f ts t = Some t' \<Longrightarrow> dt_offset t' = dt_offset t \<and> dt_parent t' = dt_parent t \<and> dt_flags t' = dt_flags t"
  shows "update_rows f seen ts = Some us \<Longrightarrow> same_types us (seen @ ts)"
proof (induction ts arbitrary: seen)
  case Nil
  then show ?case by (simp add: same_types_def)
next
  case (Cons t ts)
  then obtain t' where "f (seen @ t # ts) t = Some t'" "update_rows f (seen @ [t']) ts = Some us" by (auto split: option.splits)
  with Cons.IH assms show ?case by (fastforce simp: same_types_def)
qed

text \<open>The update of flags fails at a row without kind and without parent, wherever it is.\<close>

lemma propagate_flags_fails:
  assumes "t \<in> set ts" "kind_bits (dt_flags t) = 0" "dt_parent t \<notin> dt_offset ` set (seen @ ts)"
  shows "update_rows propagate_flags seen ts = None"
  using assms
proof (induction ts arbitrary: seen)
  case (Cons u us)
  show ?case
  proof (cases "propagate_flags (seen @ u # us) u")
    case (Some u')
    then have u': "dt_offset u' = dt_offset u" by (auto simp: propagate_flags_def split: if_splits)
    have "propagate_flags (seen @ u # us) t = None"
      using Cons.prems(2,3) by (force simp: propagate_flags_def parent_type_def find_None_iff)
    with Some have "t \<noteq> u" by auto
    then have "t \<in> set us" using Cons.prems(1) by auto
    then have "update_rows propagate_flags (seen @ [u']) us = None"
      using Cons.IH [of "seen @ [u']"] Cons.prems u' by auto
    with Some show ?thesis by simp
  qed simp
qed simp

lemma same_types_images:
  assumes "same_types us ts" "t \<in> set ts"
  shows "\<exists>u \<in> set us. dt_offset u = dt_offset t \<and> dt_parent u = dt_parent t \<and> dt_flags u = dt_flags t" "dt_offset ` set us = dt_offset ` set ts"
proof -
  let ?f = "\<lambda>t. (dt_offset t, dt_parent t, dt_flags t)"
  have "set (map ?f us) = set (map ?f ts)" using assms(1) by (simp only: same_types_def)
  then have eq: "?f ` set us = ?f ` set ts" by simp
  then have "?f t \<in> ?f ` set us" using assms(2) by blast
  then show "\<exists>u \<in> set us. dt_offset u = dt_offset t \<and> dt_parent u = dt_parent t \<and> dt_flags u = dt_flags t" by auto
  have "fst ` ?f ` set us = fst ` ?f ` set ts" by (simp only: eq)
  then show "dt_offset ` set us = dt_offset ` set ts" by (simp add: image_image)
qed

text \<open>
  C18. Unknown encodings: when a type has neither a kind nor a stored parent, the completion of the tables fails.  This is
  how a base type is stored whose encoding is not one of the five that are known, such as that of \<^verbatim>\<open>_Bool\<close>.
\<close>

theorem unknown_kind_fails:
  assumes "t \<in> set (sy_type (sy_db s))" "kind_bits (dt_flags t) = 0" "dt_parent t \<notin> dt_offset ` set (sy_type (sy_db s))"
  shows "fst (alter_db dbo s) = FAILURE"
proof (rule ccontr)
  assume "fst (alter_db dbo s) \<noteq> FAILURE"
  then obtain s' where "alter_db dbo s = (SUCCESS, s')" by (metis prod.collapse status.exhaust)
  then have "run_stmts (line_stmts @ late_stmts) (sy_db s) = Some (sy_db s')"
    using exec_stmts_success by (simp add: alter_db_def alter_stmts_split)
  then obtain d1 where d1: "run_stmts line_stmts (sy_db s) = Some d1" "run_stmts late_stmts d1 = Some (sy_db s')"
    by (auto simp: run_stmts_append Option.bind_eq_Some_conv)
  then have ts: "sy_type d1 = sy_type (sy_db s)" using line_stmts_keep by fastforce
  from d1(2) obtain d2 d3 d4 where d: "update_types pointer_indirect d1 = Some d2" "update_types derived_indirect d2 = Some d3"
    "update_types propagate_flags d3 = Some d4"
    by (auto simp: late_stmts_def type_stmts_def Option.bind_eq_Some_conv)
  have "same_types (sy_type d2) (sy_type d1)"
    using d(1) update_rows_same [of pointer_indirect "[]" "sy_type d1"] by (auto simp: update_types_def pointer_indirect_def)
  moreover have "same_types (sy_type d3) (sy_type d2)"
    using d(2) update_rows_same [of derived_indirect "[]" "sy_type d2"] by (auto simp: update_types_def derived_indirect_def)
  ultimately have same: "same_types (sy_type d3) (sy_type (sy_db s))" by (simp add: same_types_def ts)
  from same_types_images [OF same assms(1)] obtain u where "u \<in> set (sy_type d3)" "dt_parent u = dt_parent t" "dt_flags u = dt_flags t"
    and "dt_offset ` set (sy_type d3) = dt_offset ` set (sy_type (sy_db s))" by blast
  with assms have "update_rows propagate_flags [] (sy_type d3) = None" by (intro propagate_flags_fails [of u]) simp_all
  with d(3) show False by (simp add: update_types_def)
qed

text \<open>A unit that uses \<^verbatim>\<open>_Bool\<close>, whose encoding is 2.\<close>

definition bool_die :: die where
  "bool_die = Die (Some 0x40) (Some DW_TAG_base_type)
     [(DW_AT_name, Attr (DW_FORM_string ''_Bool'')), (DW_AT_byte_size, Attr (DW_FORM_data 1 1)), (DW_AT_encoding, Attr (DW_FORM_data 1 2))] [] True"

theorem unknown_kind_fails_witness:
  "\<exists>s. proc_units sample_walk every_call sample_options [unit_of [int_die, bool_die]] start_state = Some (SUCCESS, s) \<and>
     fst (alter_db every_call s) = FAILURE"
proof -
  obtain s where s: "proc_units sample_walk every_call sample_options [unit_of [int_die, bool_die]] start_state = Some (SUCCESS, s)"
    and ts: "sy_type (sy_db s) =
      [\<lparr>dt_unit_id = 1, dt_offset = 0x30, dt_name = Some ''int'', dt_size = Some 4, dt_dim = 0, dt_parent = 0, dt_flags = 1, dt_indirect = 0\<rparr>,
       \<lparr>dt_unit_id = 1, dt_offset = 0x40, dt_name = Some ''_Bool'', dt_size = Some 1, dt_dim = 0, dt_parent = 0, dt_flags = 0, dt_indirect = 0\<rparr>]"
    by (simp add: walk_defs bool_die_def formsdata_def)
  have "fst (alter_db every_call s) = FAILURE"
    by (rule unknown_kind_fails [of "sy_type (sy_db s) ! 1"]) (simp_all add: ts)
  with s show ?thesis by blast
qed

section \<open>Consequences for types\<close>

text \<open>An array takes the size of its items instead of their total: here 4 for ten integers.\<close>

theorem array_size_is_item_size:
  "run_stmts [update_types propagate_size, update_types array_sizes]
     (no_rows\<lparr>sy_type :=
        [\<lparr>dt_unit_id = 1, dt_offset = 0x30, dt_name = Some ''int'', dt_size = Some 4, dt_dim = 0, dt_parent = 0, dt_flags = 1, dt_indirect = 0\<rparr>,
         \<lparr>dt_unit_id = 1, dt_offset = 0x40, dt_name = None, dt_size = Some 0, dt_dim = 10, dt_parent = 0x30, dt_flags = 7, dt_indirect = 0\<rparr>]\<rparr>) =
   Some (no_rows\<lparr>sy_type :=
        [\<lparr>dt_unit_id = 1, dt_offset = 0x30, dt_name = Some ''int'', dt_size = Some 4, dt_dim = 0, dt_parent = 0, dt_flags = 1, dt_indirect = 0\<rparr>,
         \<lparr>dt_unit_id = 1, dt_offset = 0x40, dt_name = None, dt_size = Some 4, dt_dim = 10, dt_parent = 0x30, dt_flags = 7, dt_indirect = 0\<rparr>]\<rparr>)"
  by (simp add: update_types_def propagate_size_def array_sizes_def parent_type_def no_rows_def)

text \<open>A pointer to a pointer to a pointer has two levels of indirection.\<close>

definition pointer_to :: "int \<Rightarrow> int \<Rightarrow> dtype_row" where
  "pointer_to offset parent =
     \<lparr>dt_unit_id = 1, dt_offset = offset, dt_name = Some [], dt_size = Some 8, dt_dim = 0, dt_parent = parent, dt_flags = 4, dt_indirect = 0\<rparr>"

theorem triple_pointer_indirect:
  "map_option (map dt_indirect \<circ> sy_type) (run_stmts [update_types pointer_indirect, update_types derived_indirect]
     (no_rows\<lparr>sy_type := [pointer_to 1 100, pointer_to 2 1, pointer_to 3 2]\<rparr>)) = Some [1, 2, 2]"
  by code_simp

text \<open>Of an array only the first dimension counts, and an array whose length is not a constant is an error.\<close>

theorem first_dimension_counts:
  "d_tag die = Some DW_TAG_subrange_type \<Longrightarrow> map_of (d_attrs die) DW_AT_upper_bound = Some (Attr (DW_FORM_data n v)) \<Longrightarrow>
     array_dim (die # dies) ended = Some (v + 1)"
  by simp

theorem variable_length_fails:
  assumes "d_tag die = Some DW_TAG_subrange_type" "map_of (d_attrs die) DW_AT_upper_bound = Some (Attr DW_FORM_other)"
    and "d_children parent = die # dies"
  shows "fst (proc_array_type dbo parent u s) = FAILURE"
  using assms by (auto simp: proc_array_type_def split: option.splits prod.splits ret_code.splits)

text \<open>A member at an offset from 128 to 255 in one byte gets a negative offset.\<close>

theorem member_offset_negative:
  "form_value DW_AT_data_member_location (DW_FORM_data 1 200) = AV_num (- 56)"
  by (simp add: formsdata_def)

text \<open>A length that is not smaller than the address counts as an address.\<close>

theorem long_function_cut:
  "lo \<le> len \<Longrightarrow> high_address lo len = len"
  using leD [of lo len] by (simp add: high_address_def)

end
