(* ===== verification/Proc_Maps.thy ===== *)
theory Proc_Maps
  imports Memcache Inspect
begin

text \<open>
  The memory map of the traced program, \<^verbatim>\<open>/proc/pid/maps\<close>: \<^verbatim>\<open>init_cache\<close> of \<^verbatim>\<open>record/memcache.c\<close> caches the regions that
  hold data of the program, \<^verbatim>\<open>get_base_address\<close> of \<^verbatim>\<open>record/run.c\<close> looks for the address where the program was loaded.
  The inputs are the target of the link \<^verbatim>\<open>/proc/pid/exe\<close> and the text of the file, \<open>None\<close> when they cannot be read.
\<close>

section \<open>The C library\<close>

abbreviation nl :: char where "nl \<equiv> CHR 0x0A"

text \<open>\<^verbatim>\<open>strtok_r\<close>: the next field and the text behind the separator that ends it.\<close>

definition strtok :: "char set \<Rightarrow> string \<Rightarrow> (string \<times> string) option" where
  "strtok seps s =
     (let s1 = dropWhile (\<lambda>c. c \<in> seps) s; field = takeWhile (\<lambda>c. c \<notin> seps) s1
      in if s1 = [] then None else Some (field, drop (Suc (length field)) s1))"

text \<open>What the calls of \<^verbatim>\<open>fgets\<close> with a buffer of \<open>Suc n\<close> characters return, to the end of the file.\<close>

definition fgets :: "nat \<Rightarrow> string \<Rightarrow> string" where
  "fgets n s = (let line = takeWhile (\<lambda>c. c \<noteq> nl) s in take n (line @ take 1 (drop (length line) s)))"

function fgets_all :: "nat \<Rightarrow> string \<Rightarrow> string list" where
  "fgets_all n s = (if s = [] \<or> n = 0 then [] else fgets n s # fgets_all n (drop (length (fgets n s)) s))"
  by pat_completeness auto
termination
proof (relation "measure (\<lambda>(n, s). length s)", goal_cases)
  case (2 n s)
  then have "fgets n s \<noteq> []" by (cases s) (auto simp: fgets_def Let_def)
  with 2 show ?case by (cases s) auto
qed simp

declare fgets_all.simps [simp del]

text \<open>\<^verbatim>\<open>%lx\<close> of \<^verbatim>\<open>sscanf\<close>: white space, a sign, a prefix, digits; a number that is too large gives the largest one.\<close>

definition hex_value :: "char \<Rightarrow> nat option" where
  "hex_value c =
     (let v = of_char c :: nat
      in if 48 \<le> v \<and> v \<le> 57 then Some (v - 48)
         else if 97 \<le> v \<and> v \<le> 102 then Some (v - 87)
         else if 65 \<le> v \<and> v \<le> 70 then Some (v - 55) else None)"

definition is_hex :: "char \<Rightarrow> bool" where
  "is_hex c \<longleftrightarrow> hex_value c \<noteq> None"

definition hex_nat :: "string \<Rightarrow> nat" where
  "hex_nat ds = foldl (\<lambda>n c. 16 * n + the (hex_value c)) 0 ds"

definition white :: "char \<Rightarrow> bool" where
  "white c \<longleftrightarrow> c \<in> {CHR 0x09, CHR 0x0A, CHR 0x0B, CHR 0x0C, CHR 0x0D, CHR 0x20}"

definition scan_hex :: "string \<Rightarrow> (u64 \<times> string) option" where
  "scan_hex s =
     (let s1 = dropWhile white s;
          neg = (s1 \<noteq> [] \<and> hd s1 = CHR ''-'');
          s2 = (if s1 \<noteq> [] \<and> hd s1 \<in> {CHR ''-'', CHR ''+''} then tl s1 else s1);
          s3 = (if take 2 s2 \<in> {''0x'', ''0X''} \<and> length s2 > 2 \<and> is_hex (s2 ! 2) then drop 2 s2 else s2);
          ds = takeWhile is_hex s3;
          v = (if hex_nat ds < 2 ^ 64 then word_of_nat (hex_nat ds) else - 1)
      in if ds = [] then None else Some (if neg \<and> hex_nat ds < 2 ^ 64 then - v else v, drop (length ds) s3))"

text \<open>\<^verbatim>\<open>%lx-%lx\<close>; \<open>None\<close> unless both are read.\<close>

definition scan_range :: "string \<Rightarrow> (u64 \<times> u64) option" where
  "scan_range s =
     (case scan_hex s of
        Some (head, c # s1) \<Rightarrow> if c = CHR ''-'' then map_option (\<lambda>(tail, _). (head, tail)) (scan_hex s1) else None
      | _ \<Rightarrow> None)"

section \<open>The lines\<close>

text \<open>The loop over the remaining fields: the last of \<open>n\<close> more fields, or \<open>None\<close> when there are fewer.\<close>

fun last_field :: "nat \<Rightarrow> string \<Rightarrow> string \<Rightarrow> string option" where
  "last_field 0 field s = Some field"
| "last_field (Suc n) field s =
     (case strtok {CHR '' '', CHR 0x09, nl} s of None \<Rightarrow> None | Some (field', s') \<Rightarrow> last_field n field' s')"

text \<open>A line for \<^verbatim>\<open>init_cache\<close>; \<open>fresh n\<close> is the content of a block of \<open>n\<close> bytes from \<^verbatim>\<open>posix_memalign\<close>.\<close>

definition init_line :: "string \<Rightarrow> (u64 \<Rightarrow> nat \<Rightarrow> byte list) \<Rightarrow> (nat \<Rightarrow> byte list) \<Rightarrow> string \<Rightarrow> memcache \<Rightarrow> memcache" where
  "init_line exe_name readv fresh line mc =
     (case strtok {CHR '' '', CHR 0x09} line of
        None \<Rightarrow> mc
      | Some (addrs, s1) \<Rightarrow>
     (case strtok {CHR '' '', CHR 0x09} s1 of
        None \<Rightarrow> mc
      | Some (perms, s2) \<Rightarrow>
          if hd perms \<noteq> CHR ''r'' then mc
          else if last_field 4 perms s2 \<in> {None, Some ''[heap]'', Some ''[stack]'', Some exe_name} then
            (case scan_range addrs of
               None \<Rightarrow> mc
             | Some (head, tail) \<Rightarrow> cache_add_region readv (fresh (unat (tail - head))) head (tail - head) 1 mc)
          else mc))"

definition init_cache ::
    "string option \<Rightarrow> string option \<Rightarrow> (u64 \<Rightarrow> nat \<Rightarrow> byte list) \<Rightarrow> (nat \<Rightarrow> byte list) \<Rightarrow> memcache \<Rightarrow> status \<times> memcache" where
  "init_cache exe maps readv fresh mc =
     (case exe of
        None \<Rightarrow> (FAILURE, mc)
      | Some e \<Rightarrow>
          case maps of
            None \<Rightarrow> (FAILURE, mc)
          | Some txt \<Rightarrow> (SUCCESS, fold (init_line (take 4095 e) readv fresh) (fgets_all 255 txt) mc))"

text \<open>
  The loop of \<^verbatim>\<open>get_base_address\<close>.  The third character of the permissions is read even from a shorter field: then it is
  what follows in the line, or what an earlier line left behind it (\<open>stale\<close>).
\<close>

fun find_base :: "char \<Rightarrow> string \<Rightarrow> string list \<Rightarrow> u64 \<Rightarrow> u64" where
  "find_base stale exe_name [] base = base"
| "find_base stale exe_name (line # lines) base =
     (case strtok {CHR '' '', CHR 0x09} line of
        None \<Rightarrow> find_base stale exe_name lines base
      | Some (addrs, s1) \<Rightarrow>
     (case strtok {CHR '' '', CHR 0x09} s1 of
        None \<Rightarrow> find_base stale exe_name lines base
      | Some (perms, s2) \<Rightarrow>
          if (perms @ CHR 0x00 # s2 @ [CHR 0x00, stale, stale]) ! 2 \<noteq> CHR ''x'' then find_base stale exe_name lines base
          else if last_field 4 perms s2 = Some exe_name then (case scan_hex addrs of None \<Rightarrow> base | Some (v, _) \<Rightarrow> v)
          else find_base stale exe_name lines base))"

definition get_base_address :: "char \<Rightarrow> string option \<Rightarrow> string option \<Rightarrow> u64 \<Rightarrow> status \<times> u64" where
  "get_base_address stale exe maps base =
     (case exe of
        None \<Rightarrow> (FAILURE, base)
      | Some e \<Rightarrow>
          case maps of
            None \<Rightarrow> (FAILURE, base)
          | Some txt \<Rightarrow> (SUCCESS, find_base stale (take 255 e) (fgets_all 255 txt) base))"

section \<open>Maps as the kernel prints them\<close>

definition word_text :: "string \<Rightarrow> bool" where
  "word_text w \<longleftrightarrow> w \<noteq> [] \<and> (\<forall>c \<in> set w. c \<notin> {CHR '' '', CHR 0x09, nl})"

record mapping =
  mp_start :: u64
  mp_end :: u64
  mp_perms :: string
  mp_offset :: string
  mp_dev :: string
  mp_inode :: string
  mp_pad :: nat
  mp_path :: "string option"

text \<open>\<^verbatim>\<open>%08lx\<close>.\<close>

definition hex8 :: "u64 \<Rightarrow> string" where
  "hex8 a = (let h = hex_of_nat (unat a) in replicate (8 - length h) CHR ''0'' @ h)"

definition render :: "mapping \<Rightarrow> string" where
  "render m = hex8 (mp_start m) @ ''-'' @ hex8 (mp_end m) @ '' '' @ mp_perms m @ '' '' @ mp_offset m @ '' '' @ mp_dev m @ '' '' @
     mp_inode m @ '' '' @ (case mp_path m of None \<Rightarrow> [] | Some p \<Rightarrow> replicate (mp_pad m) (CHR '' '') @ p) @ [nl]"

definition mapping_text :: "mapping \<Rightarrow> bool" where
  "mapping_text m \<longleftrightarrow>
     word_text (mp_perms m) \<and> word_text (mp_offset m) \<and> word_text (mp_dev m) \<and> word_text (mp_inode m) \<and>
     (case mp_path m of None \<Rightarrow> True | Some p \<Rightarrow> word_text p) \<and> length (render m) \<le> 255"

section \<open>Reading what was printed\<close>

lemma hex_value_digit: "d < 16 \<Longrightarrow> hex_value (hex_digit d) = Some d"
  by (cases "d < 10") (auto simp: hex_value_def hex_digit_def Let_def)

lemma hex_nat_append: "hex_nat (xs @ ys) = foldl (\<lambda>n c. 16 * n + the (hex_value c)) (hex_nat xs) ys"
  by (simp add: hex_nat_def)

lemma hex_of_nat_reads: "hex_nat (hex_of_nat n) = n \<and> (\<forall>c \<in> set (hex_of_nat n). is_hex c) \<and> hex_of_nat n \<noteq> []"
proof (induction n rule: hex_of_nat.induct)
  case (1 n)
  show ?case
  proof (cases "n < 16")
    case True
    then show ?thesis by (simp add: hex_of_nat.simps hex_nat_def hex_value_digit is_hex_def)
  next
    case False
    have "n mod 16 < 16" by simp
    then show ?thesis using 1 False
      by (subst (1 2 3) hex_of_nat.simps) (auto simp: hex_nat_append hex_value_digit is_hex_def)
  qed
qed

lemma hex_nat_zeros: "hex_nat (replicate k CHR ''0'' @ ds) = hex_nat ds"
  by (induction k) (simp_all add: hex_nat_def hex_value_def)

lemma hex8_reads: "hex_nat (hex8 a) = unat a" "\<forall>c \<in> set (hex8 a). is_hex c" "hex8 a \<noteq> []"
  using hex_of_nat_reads [of "unat a"]
  by (auto simp: hex8_def Let_def hex_nat_zeros set_replicate_conv_if is_hex_def hex_value_def)

lemma hex_char: "is_hex c \<Longrightarrow> \<not> white c \<and> c \<notin> {CHR ''-'', CHR ''+'', CHR ''x'', CHR ''X'', CHR '' '', CHR 0x09, nl}"
  by (auto simp: is_hex_def hex_value_def white_def)

lemma scan_hex_reads:
  assumes "ds \<noteq> []" "\<forall>c \<in> set ds. is_hex c" "hex_nat ds < 2 ^ 64" "s = [] \<or> \<not> is_hex (hd s) \<and> hd s \<notin> {CHR ''x'', CHR ''X''}"
  shows "scan_hex (ds @ s) = Some (word_of_nat (hex_nat ds), s)"
proof -
  obtain d ds' where ds: "ds = d # ds'" using assms(1) by (cases ds) auto
  then have d: "\<not> white d" "d \<notin> {CHR ''-'', CHR ''+''}" using assms(2) hex_char by auto
  have no: "take 2 (ds @ s) \<notin> {''0x'', ''0X''}"
  proof (cases ds')
    case Nil
    then show ?thesis using assms(4) ds by (cases s) auto
  next
    case (Cons e es)
    then have "is_hex e" using assms(2) ds by simp
    then show ?thesis using hex_char [of e] ds Cons by auto
  qed
  have tw: "takeWhile is_hex (ds @ s) = ds" using assms(2,4) by (cases s) (auto simp: takeWhile_append)
  have dw: "dropWhile white (ds @ s) = ds @ s" using d ds by simp
  have "hd (ds @ s) = d" using ds by simp
  with d have sg: "hd (ds @ s) \<noteq> CHR ''-''" "hd (ds @ s) \<notin> {CHR ''-'', CHR ''+''}" by auto
  show ?thesis
    unfolding scan_hex_def Let_def dw using no sg assms(1,3) tw by simp
qed

lemma scan_range_reads: "scan_range (hex8 a @ ''-'' @ hex8 b) = Some (a, b)"
proof -
  have "\<not> is_hex (CHR ''-'')" by (simp add: is_hex_def hex_value_def)
  then have "scan_hex (hex8 a @ ''-'' @ hex8 b) = Some (a, ''-'' @ hex8 b)"
    using scan_hex_reads [OF hex8_reads(3,2), of a "''-'' @ hex8 b"] unat_u64_bound [of a] by (simp add: hex8_reads(1))
  moreover have "scan_hex (hex8 b @ []) = Some (b, [])"
    using scan_hex_reads [OF hex8_reads(3,2), of b "[]"] unat_u64_bound [of b] by (simp add: hex8_reads(1))
  ultimately show ?thesis by (simp add: scan_range_def)
qed

lemma strtok_word:
  assumes "w \<noteq> []" "\<forall>c \<in> set w. c \<notin> seps" "set gap \<subseteq> seps" "c \<in> seps"
  shows "strtok seps (gap @ w @ c # s) = Some (w, s)"
proof -
  have dw: "dropWhile (\<lambda>c. c \<in> seps) (gap @ w @ c # s) = w @ c # s"
    using assms(1-3) by (cases w) (auto simp: dropWhile_append3 subset_iff)
  have "takeWhile (\<lambda>c. c \<notin> seps) (w @ c # s) = w" using assms(2,4) by (auto simp: takeWhile_append)
  then show ?thesis using assms(1) by (simp add: strtok_def Let_def dw)
qed

lemma strtok_blank: "set gap \<subseteq> seps \<Longrightarrow> strtok seps gap = None"
  by (auto simp: strtok_def Let_def subset_iff)

lemmas strtok_next = strtok_word [where gap = "[]", simplified]

text \<open>The fields of a printed line.\<close>

lemma render_fields:
  assumes "mapping_text m"
  defines "rest \<equiv> mp_offset m @ '' '' @ mp_dev m @ '' '' @ mp_inode m @ '' '' @
     (case mp_path m of None \<Rightarrow> [] | Some p \<Rightarrow> replicate (mp_pad m) (CHR '' '') @ p) @ [nl]"
  shows "strtok {CHR '' '', CHR 0x09} (render m) = Some (hex8 (mp_start m) @ ''-'' @ hex8 (mp_end m), mp_perms m @ '' '' @ rest)"
    "strtok {CHR '' '', CHR 0x09} (mp_perms m @ '' '' @ rest) = Some (mp_perms m, rest)"
    "last_field 4 f rest = mp_path m"
proof -
  have "\<forall>c \<in> set (hex8 (mp_start m) @ ''-'' @ hex8 (mp_end m)). c \<notin> {CHR '' '', CHR 0x09}"
    using hex8_reads(2) hex_char by fastforce
  then show "strtok {CHR '' '', CHR 0x09} (render m) = Some (hex8 (mp_start m) @ ''-'' @ hex8 (mp_end m), mp_perms m @ '' '' @ rest)"
    using strtok_next [of "hex8 (mp_start m) @ ''-'' @ hex8 (mp_end m)" "{CHR '' '', CHR 0x09}" "CHR '' ''" "mp_perms m @ '' '' @ rest"]
    by (simp add: render_def rest_def)
  show "strtok {CHR '' '', CHR 0x09} (mp_perms m @ '' '' @ rest) = Some (mp_perms m, rest)"
    using strtok_next [of "mp_perms m" "{CHR '' '', CHR 0x09}" "CHR '' ''" rest] assms(1) by (auto simp: mapping_text_def word_text_def)
  let ?seps = "{CHR '' '', CHR 0x09, nl}"
  have w: "strtok ?seps (w @ CHR '' '' # s) = Some (w, s)" if "word_text w" for w s
    using strtok_next [of w ?seps "CHR '' ''" s] that by (simp add: word_text_def)
  have p: "strtok ?seps (replicate k (CHR '' '') @ q @ [nl]) = Some (q, [])" if "word_text q" for q k
    using strtok_word [of q ?seps "replicate k (CHR '' '')" nl "[]"] that by (simp add: word_text_def set_replicate_conv_if)
  have e: "strtok ?seps [nl] = None" by (rule strtok_blank) simp
  define tl4 where "tl4 = (case mp_path m of None \<Rightarrow> [] | Some p \<Rightarrow> replicate (mp_pad m) (CHR '' '') @ p) @ [nl]"
  have t: "strtok ?seps tl4 = map_option (\<lambda>q. (q, [])) (mp_path m)"
    using assms(1) p e by (cases "mp_path m") (simp_all add: tl4_def mapping_text_def)
  have r: "rest = mp_offset m @ CHR '' '' # mp_dev m @ CHR '' '' # mp_inode m @ CHR '' '' # tl4" by (simp add: rest_def tl4_def)
  have "last_field 4 f rest = last_field 1 (mp_inode m) tl4"
    using assms(1) by (simp add: r mapping_text_def w numeral_eq_Suc)
  also have "\<dots> = mp_path m" by (cases "mp_path m") (simp_all add: t)
  finally show "last_field 4 f rest = mp_path m" .
qed

lemma fgets_line:
  assumes "nl \<notin> set line" "length line < n"
  shows "fgets n (line @ nl # s) = line @ [nl]"
proof -
  have "takeWhile (\<lambda>c. c \<noteq> nl) (line @ nl # s) = line" using assms(1) by (auto simp: takeWhile_append)
  then show ?thesis using assms(2) by (simp add: fgets_def Let_def)
qed

lemma fgets_all_lines:
  "\<forall>l \<in> set lines. nl \<notin> set l \<and> length l < n \<Longrightarrow> fgets_all n (concat (map (\<lambda>l. l @ [nl]) lines)) = map (\<lambda>l. l @ [nl]) lines"
proof (induction lines)
  case Nil
  then show ?case by (simp add: fgets_all.simps)
next
  case (Cons l ls)
  then have "fgets n (l @ nl # concat (map (\<lambda>l. l @ [nl]) ls)) = l @ [nl]" by (intro fgets_line) auto
  with Cons show ?case by (subst fgets_all.simps) auto
qed

lemma word_text_nl: "word_text w \<Longrightarrow> nl \<notin> set w"
  by (auto simp: word_text_def)

lemma render_line:
  assumes "mapping_text m"
  shows "\<exists>l. render m = l @ [nl] \<and> nl \<notin> set l \<and> length l < 255"
proof -
  let ?p = "case mp_path m of None \<Rightarrow> [] | Some p \<Rightarrow> replicate (mp_pad m) (CHR '' '') @ p"
  let ?l = "hex8 (mp_start m) @ ''-'' @ hex8 (mp_end m) @ '' '' @ mp_perms m @ '' '' @ mp_offset m @ '' '' @ mp_dev m @ '' '' @
     mp_inode m @ '' '' @ ?p"
  have h: "nl \<notin> set (hex8 a)" for a using hex8_reads(2) [of a] hex_char by blast
  have "nl \<notin> set ?p"
    using assms word_text_nl by (cases "mp_path m") (simp_all add: mapping_text_def set_replicate_conv_if)
  moreover have "nl \<notin> set (mp_perms m)" "nl \<notin> set (mp_offset m)" "nl \<notin> set (mp_dev m)" "nl \<notin> set (mp_inode m)"
    using assms word_text_nl by (simp_all add: mapping_text_def)
  ultimately have "nl \<notin> set ?l" using h by simp
  moreover have r: "render m = ?l @ [nl]" by (simp add: render_def)
  moreover from assms have "length ?l < 255" by (simp only: mapping_text_def r length_append) simp
  ultimately show ?thesis by blast
qed

lemma fgets_render:
  assumes "\<forall>m \<in> set ms. mapping_text m"
  shows "fgets_all 255 (concat (map render ms)) = map render ms"
proof -
  have "\<forall>m \<in> set ms. \<exists>l. render m = l @ [nl] \<and> nl \<notin> set l \<and> length l < 255" using assms render_line by blast
  then obtain f where f: "\<forall>m \<in> set ms. render m = f m @ [nl] \<and> nl \<notin> set (f m) \<and> length (f m) < 255" by (auto simp: bchoice_iff)
  then have eq: "map render ms = map (\<lambda>l. l @ [nl]) (map f ms)" by simp
  have "fgets_all 255 (concat (map (\<lambda>l. l @ [nl]) (map f ms))) = map (\<lambda>l. l @ [nl]) (map f ms)"
    by (rule fgets_all_lines) (use f in simp)
  then show ?thesis by (simp only: eq)
qed

section \<open>The cache at the start\<close>

text \<open>The regions that the recorder watches: readable, and without file, the heap, the stack or a part of the program.\<close>

definition watched :: "string \<Rightarrow> mapping \<Rightarrow> bool" where
  "watched exe m \<longleftrightarrow> hd (mp_perms m) = CHR ''r'' \<and> mp_path m \<in> {None, Some ''[heap]'', Some ''[stack]'', Some exe}"

lemma init_line_render:
  assumes "mapping_text m"
  shows "init_line exe readv fresh (render m) mc =
    (if watched exe m
     then cache_add_region readv (fresh (unat (mp_end m - mp_start m))) (mp_start m) (mp_end m - mp_start m) 1 mc else mc)"
proof -
  obtain rest where f: "strtok {CHR '' '', CHR 0x09} (render m) = Some (hex8 (mp_start m) @ ''-'' @ hex8 (mp_end m), mp_perms m @ '' '' @ rest)"
    "strtok {CHR '' '', CHR 0x09} (mp_perms m @ '' '' @ rest) = Some (mp_perms m, rest)" "last_field 4 (mp_perms m) rest = mp_path m"
    using render_fields [OF assms] by blast
  show ?thesis by (simp only: init_line_def f scan_range_reads watched_def option.case prod.case de_Morgan_conj not_not simp_thms if_cancel) auto
qed

text \<open>Mappings: whole pages, in ascending order without overlap.\<close>

definition mappings_ok :: "nat \<Rightarrow> mapping list \<Rightarrow> bool" where
  "mappings_ok psz ms \<longleftrightarrow>
     sorted_wrt (\<lambda>m n. mp_end m \<le> mp_start n) ms \<and>
     (\<forall>m \<in> set ms. mapping_text m \<and> 0 < mp_start m \<and> mp_start m < mp_end m \<and> psz dvd unat (mp_end m - mp_start m) \<and>
        unat (mp_end m - mp_start m) < psz * 2 ^ 31)"

definition in_mapping :: "string \<Rightarrow> mapping list \<Rightarrow> u64 \<Rightarrow> bool" where
  "in_mapping exe ms a \<longleftrightarrow> (\<exists>m \<in> set ms. watched exe m \<and> mp_start m \<le> a \<and> a < mp_end m)"

text \<open>The messages of the first image: for step 1, and each has a segment of its own.\<close>

definition image_log :: "region list \<Rightarrow> mem_msg list \<Rightarrow> bool" where
  "image_log c lg \<longleftrightarrow>
     (\<forall>x \<in> set lg. mm_step_id x = 1 \<and> length (mm_content x) = 32 \<and> on_grid (layout c) x) \<and> distinct (map mm_address lg)"

definition init_inv :: "nat \<Rightarrow> string \<Rightarrow> (u64 \<Rightarrow> byte) \<Rightarrow> mapping list \<Rightarrow> memcache \<Rightarrow> bool" where
  "init_inv psz exe cm ms mc \<longleftrightarrow>
     cache_wf psz (mc_regions mc) \<and>
     (\<forall>a. cache_byte (mc_regions mc) a = (if in_mapping exe ms a then Some (cm a) else None)) \<and>
     (\<forall>r \<in> set (mc_regions mc). \<exists>m \<in> set ms. watched exe m \<and> reg_start r = mp_start m \<and> reg_end r = mp_end m) \<and>
     (\<exists>log. ch_holds (mc_insert mc) (sized log) \<and> cache_logged (mc_regions mc) log \<and> image_log (mc_regions mc) log)"

lemma added_regions:
  "r \<in> set (mc_regions (cache_add_region readv fresh address sz step_id mc)) \<Longrightarrow>
     r \<in> set (mc_regions mc) \<or> reg_start r = address \<and> reg_end r = address + sz"
  by (auto simp: cache_add_region_def Let_def split: if_splits dest: in_set_takeD in_set_dropD)

lemma added_layout:
  assumes "readv address (unat sz) = child_bytes cm address (unat sz)" "length fresh = unat sz"
  shows "set (layout (mc_regions (cache_add_region readv fresh address sz step_id mc))) =
    insert (address, address + sz) (set (layout (mc_regions mc)))"
proof -
  have "set (take k xs) \<union> set (drop k xs) = set xs" for k and xs :: "region list" by (metis append_take_drop_id set_append)
  then show ?thesis
    by (simp add: cache_add_region_eq [where readv = readv, OF assms] layout_def image_Un [symmetric] Un_commute)
qed

lemma image_log_add:
  assumes old: "image_log c lg" and new: "region_msgs address sz 1 ms" and free: "\<And>r. r \<in> set c \<Longrightarrow> reg_end r \<le> address"
    and lay: "set (layout c') = insert (address, address + sz) (set (layout c))"
  shows "image_log c' (lg @ ms)"
proof -
  have wider: "on_grid (layout c') m" if "on_grid (layout c) m \<or> on_grid [(address, address + sz)] m" for m
    using that lay by (auto simp: on_grid_def)
  have "mm_address x \<noteq> mm_address y" if x: "x \<in> set lg" and y: "y \<in> set ms" for x y
  proof -
    obtain r where "r \<in> set c" "unat (mm_address x) + 32 \<le> unat (reg_end r)"
      using old x by (fastforce simp: image_log_def on_grid_def layout_def)
    moreover have "unat address \<le> unat (mm_address y)" using new y by (simp add: region_msgs_def on_grid_def)
    ultimately show ?thesis using free [of r] by (auto simp: u64_le_unat)
  qed
  then have "distinct (map mm_address (lg @ ms))" using old new by (auto simp: image_log_def region_msgs_def)
  then show ?thesis using old new wider by (auto simp: image_log_def region_msgs_def)
qed

lemma init_inv_step:
  assumes inv: "init_inv psz exe cm past mc" and ok: "mappings_ok psz (past @ [m])" and psz: "32 dvd psz"
    and readv: "\<And>a n. readv a n = child_bytes cm a n" and fresh: "\<And>n. length (fresh n) = n"
  shows "init_inv psz exe cm (past @ [m]) (init_line exe readv fresh (render m) mc)"
proof -
  have m: "mapping_text m" "0 < mp_start m" "mp_start m < mp_end m" "psz dvd unat (mp_end m - mp_start m)"
    "unat (mp_end m - mp_start m) < psz * 2 ^ 31" using ok by (auto simp: mappings_ok_def)
  show ?thesis
  proof (cases "watched exe m")
    case False
    then have "in_mapping exe (past @ [m]) a = in_mapping exe past a" for a by (auto simp: in_mapping_def)
    with False inv show ?thesis by (auto simp: init_line_render [OF m(1)] init_inv_def)
  next
    case True
    let ?sz = "mp_end m - mp_start m"
    let ?mc = "cache_add_region readv (fresh (unat ?sz)) (mp_start m) ?sz 1 mc"
    have end_le: "mp_start m + ?sz = mp_end m" by simp
    have sz: "0 < ?sz" "unat (mp_start m) + unat ?sz < 2 ^ 64"
      using m(3) unat_sub_le [of "mp_start m" "mp_end m"] unat_u64_bound [of "mp_end m"] by (auto simp: u64_less_unat u64_le_unat less_imp_le)
    have "region_free (mc_regions mc) (mp_start m) ?sz"
      using inv ok by (fastforce simp: region_free_def init_inv_def mappings_ok_def sorted_wrt_append)
    then have add: "region_addable psz (mc_regions mc) (mp_start m) ?sz" using m sz by (simp add: region_addable_def)
    obtain log where log: "ch_holds (mc_insert mc) (sized log)" "cache_logged (mc_regions mc) log" "image_log (mc_regions mc) log"
      using inv by (auto simp: init_inv_def)
    have before: "reg_end r \<le> mp_start m" if "r \<in> set (mc_regions mc)" for r
      using that inv ok by (fastforce simp: init_inv_def mappings_ok_def sorted_wrt_append)
    note spec = cache_add_region_spec [where readv = readv and step_id = 1, OF _ psz add readv fresh log(1,2)]
    have wf: "cache_wf psz (mc_regions mc)" using inv by (simp add: init_inv_def)
    have "in_mapping exe (past @ [m]) a \<longleftrightarrow> mp_start m \<le> a \<and> a < mp_end m \<or> in_mapping exe past a" for a
      using True by (auto simp: in_mapping_def)
    then have "\<forall>a. cache_byte (mc_regions ?mc) a = (if in_mapping exe (past @ [m]) a then Some (cm a) else None)"
      using spec(2) [OF wf] inv by (auto simp: init_inv_def)
    moreover have "\<forall>r \<in> set (mc_regions ?mc). \<exists>n \<in> set (past @ [m]). watched exe n \<and> reg_start r = mp_start n \<and> reg_end r = mp_end n"
      using inv True by (fastforce simp: init_inv_def dest: added_regions)
    moreover obtain ms where ms: "ch_holds (mc_insert ?mc) (sized (log @ ms))" "cache_logged (mc_regions ?mc) (log @ ms)"
      "region_msgs (mp_start m) ?sz 1 ms" using spec(3) [OF wf] by blast
    moreover have "image_log (mc_regions ?mc) (log @ ms)"
      using image_log_add [OF log(3) ms(3) before] added_layout [where readv = readv, OF readv fresh] by blast
    ultimately have "init_inv psz exe cm (past @ [m]) ?mc"
      using spec(1) [OF wf] unfolding init_inv_def by blast
    with True show ?thesis by (simp add: init_line_render [OF m(1)])
  qed
qed

lemma init_fold:
  assumes "32 dvd psz" "\<And>a n. readv a n = child_bytes cm a n" "\<And>n. length (fresh n) = n"
  shows "mappings_ok psz (past @ ms) \<Longrightarrow> init_inv psz exe cm past mc \<Longrightarrow>
    init_inv psz exe cm (past @ ms) (fold (init_line exe readv fresh) (map render ms) mc)"
proof (induction ms arbitrary: past mc)
  case (Cons m ms)
  have "mappings_ok psz (past @ [m])" using Cons.prems(1) by (auto simp: mappings_ok_def sorted_wrt_append)
  from init_inv_step [OF Cons.prems(2) this assms] Cons.IH [of "past @ [m]"] Cons.prems(1) show ?case by simp
qed simp

lemma init_cache_inv:
  assumes "mappings_ok psz ms" "32 dvd psz" "\<And>a n. readv a n = child_bytes cm a n" "\<And>n. length (fresh n) = n" "length exe < 4096"
    and "mc_regions mc = []" "ch_holds (mc_insert mc) (sized [])"
  shows "\<exists>mc'. init_cache (Some exe) (Some (concat (map render ms))) readv fresh mc = (SUCCESS, mc') \<and> init_inv psz exe cm ms mc'"
proof -
  have "\<forall>m \<in> set ms. mapping_text m" using assms(1) by (simp add: mappings_ok_def)
  then have "fgets_all 255 (concat (map render ms)) = map render ms" by (rule fgets_render)
  moreover have "init_inv psz exe cm [] mc"
    using assms(6,7) by (auto simp: init_inv_def in_mapping_def cache_wf_def cache_byte_def cache_logged_def image_log_def
        intro!: exI [of _ "[]"])
  then have "init_inv psz exe cm ms (fold (init_line exe readv fresh) (map render ms) mc)"
    using init_fold [where past = "[]" and mc = mc, OF assms(2-4)] assms(1) by simp
  ultimately show ?thesis using assms(5) by (simp add: init_cache_def)
qed

text \<open>
  C9. The first image of memory: from the maps that the kernel prints, \<^verbatim>\<open>init_cache\<close> builds a well-formed cache that has the
  bytes of the program exactly for the readable regions that belong to no file, to the heap, to the stack or to the program
  itself, and sends them for step 1, so that the messages reproduce the cache.
\<close>

theorem init_cache_exact:
  assumes "mappings_ok psz ms" "32 dvd psz" "\<And>a n. readv a n = child_bytes cm a n" "\<And>n. length (fresh n) = n" "length exe < 4096"
    and "mc_regions mc = []" "ch_holds (mc_insert mc) (sized [])"
  shows "\<exists>mc' log. init_cache (Some exe) (Some (concat (map render ms))) readv fresh mc = (SUCCESS, mc') \<and>
    cache_wf psz (mc_regions mc') \<and>
    (\<forall>a. cache_byte (mc_regions mc') a =
       (if \<exists>m \<in> set ms. watched exe m \<and> mp_start m \<le> a \<and> a < mp_end m then Some (cm a) else None)) \<and>
    ch_holds (mc_insert mc') (sized log) \<and> cache_logged (mc_regions mc') log \<and> (\<forall>x \<in> set log. mm_step_id x = 1)"
proof -
  obtain mc' where "init_cache (Some exe) (Some (concat (map render ms))) readv fresh mc = (SUCCESS, mc')" "init_inv psz exe cm ms mc'"
    using init_cache_inv [OF assms] by blast
  then show ?thesis by (auto simp: init_inv_def in_mapping_def image_log_def)
qed


definition sample_map :: mapping where
  "sample_map = \<lparr>mp_start = 0x1000, mp_end = 0x1040, mp_perms = ''rw-p'', mp_offset = ''0'', mp_dev = ''8:1'', mp_inode = ''0'', mp_pad = 3,
     mp_path = Some ''[heap]''\<rparr>"

lemma sample_map_text: "mapping_text sample_map"
  by (simp add: mapping_text_def sample_map_def word_text_def render_def hex8_def hex_of_nat.simps)

theorem init_cache_exact_witness:
  "\<exists>mc'. init_cache (Some ''/p'') (Some (render sample_map)) (child_bytes (\<lambda>a. 5)) (\<lambda>n. replicate n 0) (sample_cache\<lparr>mc_regions := []\<rparr>) = (SUCCESS, mc') \<and>
     cache_byte (mc_regions mc') 0x1010 = Some 5 \<and> cache_byte (mc_regions mc') 0x1040 = None"
proof -
  have "mappings_ok 64 [sample_map]" using sample_map_text by (simp add: mappings_ok_def) (simp add: sample_map_def)
  then have "\<exists>mc' log. init_cache (Some ''/p'') (Some (concat (map render [sample_map]))) (child_bytes (\<lambda>a. 5)) (\<lambda>n. replicate n 0)
      (sample_cache\<lparr>mc_regions := []\<rparr>) = (SUCCESS, mc') \<and> cache_wf 64 (mc_regions mc') \<and>
    (\<forall>a. cache_byte (mc_regions mc') a =
       (if \<exists>m \<in> set [sample_map]. watched ''/p'' m \<and> mp_start m \<le> a \<and> a < mp_end m then Some 5 else None)) \<and>
    ch_holds (mc_insert mc') (sized log) \<and> cache_logged (mc_regions mc') log \<and> (\<forall>x \<in> set log. mm_step_id x = 1)"
    by (rule init_cache_exact [where cm = "\<lambda>a. 5"]) (use sample_cache_empty in simp_all)
  then show ?thesis by (auto simp: watched_def sample_map_def)
qed

text \<open>The base address: the start of the first executable mapping of the program.\<close>

lemma find_base_render:
  assumes "mapping_text m" "length (mp_perms m) > 2"
  shows "find_base stale exe (render m # lines) base =
    (if mp_perms m ! 2 = CHR ''x'' \<and> mp_path m = Some exe then mp_start m else find_base stale exe lines base)"
proof -
  obtain rest where f: "strtok {CHR '' '', CHR 0x09} (render m) = Some (hex8 (mp_start m) @ ''-'' @ hex8 (mp_end m), mp_perms m @ '' '' @ rest)"
    "strtok {CHR '' '', CHR 0x09} (mp_perms m @ '' '' @ rest) = Some (mp_perms m, rest)" "last_field 4 (mp_perms m) rest = mp_path m"
    using render_fields [OF assms(1)] by blast
  have "\<not> is_hex (CHR ''-'')" by (simp add: is_hex_def hex_value_def)
  then have h: "scan_hex (hex8 (mp_start m) @ ''-'' @ hex8 (mp_end m)) = Some (mp_start m, ''-'' @ hex8 (mp_end m))"
    using scan_hex_reads [OF hex8_reads(3,2), of "mp_start m" "''-'' @ hex8 (mp_end m)"] unat_u64_bound [of "mp_start m"]
    by (simp add: hex8_reads(1))
  have n: "(mp_perms m @ CHR 0x00 # rest @ [CHR 0x00, stale, stale]) ! 2 = mp_perms m ! 2" using assms(2) by (simp add: nth_append)
  show ?thesis by (simp only: find_base.simps f h n option.case prod.case) auto
qed

theorem get_base_address_finds:
  assumes "\<forall>m \<in> set ms. mapping_text m \<and> length (mp_perms m) > 2" "length exe < 256"
  shows "get_base_address stale (Some exe) (Some (concat (map render ms))) base =
    (SUCCESS, case find (\<lambda>m. mp_perms m ! 2 = CHR ''x'' \<and> mp_path m = Some exe) ms of None \<Rightarrow> base | Some m \<Rightarrow> mp_start m)"
proof -
  have "fgets_all 255 (concat (map render ms)) = map render ms" using assms(1) by (intro fgets_render) blast
  moreover have "find_base stale exe (map render ms) base =
      (case find (\<lambda>m. mp_perms m ! 2 = CHR ''x'' \<and> mp_path m = Some exe) ms of None \<Rightarrow> base | Some m \<Rightarrow> mp_start m)"
    using assms(1) by (induction ms) (simp_all add: find_base_render del: find_base.simps(2))
  ultimately show ?thesis using assms(2) by (simp add: get_base_address_def)
qed

text \<open>A program whose path has a space is not recognised: only the text up to the space is compared.\<close>

theorem path_with_space_missed:
  "find_base (CHR ''a'') ''/my app'' [''1000-2000 r-xp 0 8:1 7   /my app'' @ [nl]] 0 = 0"
  by code_simp

end
