(* ===== verification/Recorder.thy ===== *)
theory Recorder
  imports Breakpoints Proc_Maps Reset_Dirty
begin

text \<open>
  The function \<^verbatim>\<open>record\<close> of \<^verbatim>\<open>record/run.c\<close> in the parent process: it prepares the pipe, the breakpoints, the thread that
  resets the dirty flags and the workers, takes the first image of memory at the first stop, runs the loop over the stops of
  the child and collects what the workers have stored.  The outcomes of the system calls are fields of \<open>run_env\<close>, in the order
  of the calls; the child is the list of the rounds of the loop.
\<close>

section \<open>Inputs\<close>

text \<open>What \<^verbatim>\<open>waitpid\<close> reports.\<close>

datatype wait_status = Exited | Stopped u64 | Other_Status

text \<open>
  A round of the loop: whether the child could be continued, what \<^verbatim>\<open>waitpid\<close> reports, the events of the kernel up to then,
  each with the outcome of \<^verbatim>\<open>sem_post\<close>, the outcome of \<^verbatim>\<open>sem_wait\<close>, the calls of \<open>process_breakpoint\<close>, the memory of the
  child and the content of new blocks of memory.
\<close>

record round =
  rn_cont_ok :: bool
  rn_status :: wait_status
  rn_events :: "(bool \<times> bpf_event) list"
  rn_sem_ok :: bool
  rn_env :: stop_env
  rn_mem :: "u64 \<Rightarrow> byte"
  rn_fresh :: "nat \<Rightarrow> byte list"

text \<open>
  \<open>START_DB_WORKER\<close> and \<open>WAIT_DB_WORKER\<close>: the semaphore and the mutex of the channel are initialised, the thread is started,
  the thread is joined; then its database.  (\<^verbatim>\<open>malloc\<close> succeeds, as \<^verbatim>\<open>ch_create\<close> takes for granted.)
\<close>

record worker_env =
  we_sem_ok :: bool
  we_mutex_ok :: bool
  we_thread_ok :: bool
  we_join_ok :: bool
  we_sql :: sql_env
  we_chown_ok :: bool

record run_env =
  ru_fifo_made :: bool
  ru_fifo_chown :: bool
  ru_fifo_open :: bool
  ru_code :: "u64 \<Rightarrow> byte"
  ru_exe :: "string option"
  ru_maps_start :: "string option"
  ru_stale :: char
  ru_bp :: bp_env
  ru_units :: "unit_row list"
  ru_unit_count :: nat
  ru_unwritten :: "nat \<Rightarrow> u64 \<times> u64"
  ru_reset :: "bool \<times> bool \<times> bool \<times> bool"
  ru_step :: worker_env
  ru_heap :: worker_env
  ru_mem :: worker_env
  ru_cont_ok :: bool
  ru_first_status :: wait_status
  ru_maps :: "string option"
  ru_first_env :: stop_env
  ru_first_mem :: "u64 \<Rightarrow> byte"
  ru_fresh :: "nat \<Rightarrow> byte list"
  ru_proc_sem :: bool
  ru_proc_mutex :: bool
  ru_bpf_sem :: bool
  ru_bpf_ok :: bool
  ru_psz :: nat
  ru_memdiff :: "byte list \<Rightarrow> byte list \<Rightarrow> nat \<Rightarrow> bool"
  ru_stk :: "byte list"
  ru_rounds :: "round list"
  ru_reopen_ok :: bool
  ru_signal_ok :: bool

text \<open>What a recording leaves in the database.\<close>

record recording =
  rg_steps :: "user_regs step_row list"
  rg_heap :: "heap_row list"
  rg_mem :: "mem_row list"
  rg_exit_signal :: "u64 option"

section \<open>The start\<close>

definition start_db_worker :: "worker_env \<Rightarrow> 'a channel option" where
  "start_db_worker we =
     (case ch_create (we_sem_ok we) (we_mutex_ok we) of
        None \<Rightarrow> None
      | Some ch \<Rightarrow> if we_thread_ok we then Some ch else None)"

text \<open>The base address that \<open>set_breakpoints\<close> finds when it asks for it.\<close>

definition found_base :: "run_env \<Rightarrow> u64 option" where
  "found_base ru =
     (case get_base_address (ru_stale ru) (ru_exe ru) (ru_maps_start ru) 0 of
        (SUCCESS, base) \<Rightarrow> Some base
      | (FAILURE, _) \<Rightarrow> None)"

text \<open>The static variables of \<^verbatim>\<open>run.c\<close> before the first stop.\<close>

definition start_tracer :: "(u64 \<Rightarrow> byte) \<Rightarrow> user_regs step_msg channel \<Rightarrow> heap_msg channel \<Rightarrow> mem_msg channel \<Rightarrow> tracer" where
  "start_tracer code step_ch heap_ch mem_ch =
     \<lparr>tr_step_id = 0, tr_depth = 0, tr_func_id = 0, tr_unit = 0, tr_mem_dirty = True,
      tr_cache = \<lparr>mc_regions = [], mc_insert = mem_ch\<rparr>, tr_proc_mem = None, tr_insert_step = step_ch,
      tr_insert_heap = heap_ch, tr_code = code, tr_ip = 0, tr_trig = 0, tr_wait = 0\<rparr>"

text \<open>What \<open>set_breakpoints\<close> works with, and what it leaves for the recording.\<close>

definition place_env :: "run_env \<Rightarrow> bp_env" where
  "place_env ru = (ru_bp ru)\<lparr>be_base := found_base ru\<rparr>"

text \<open>
  The array \<^verbatim>\<open>instr_cache\<close> has an entry for every unit that the collection of the debug information counted, whether it has
  statements or not; the query has a row only for those with statements, and the entries after them are as \<^verbatim>\<open>malloc\<close> gave them.
  (Every unit with statements was counted, so there are never more rows than entries.)
\<close>

definition unwritten_unit :: "run_env \<Rightarrow> nat \<Rightarrow> cached_unit" where
  "unwritten_unit ru i = \<lparr>cu_start = fst (ru_unwritten ru i), cu_end = snd (ru_unwritten ru i), cu_lines = []\<rparr>"

definition instr_cache :: "run_env \<Rightarrow> cached_unit list \<Rightarrow> cached_unit list" where
  "instr_cache ru units = units @ map (unwritten_unit ru) [length units..<ru_unit_count ru]"

definition env_of :: "run_env \<Rightarrow> cached_unit list \<Rightarrow> bp_state \<Rightarrow> rec_env" where
  "env_of ru units bp =
     \<lparr>re_units = instr_cache ru units, re_base = bp_base bp, re_psz = ru_psz ru, re_memdiff = ru_memdiff ru, re_stk = ru_stk ru\<rparr>"

definition start_bpf :: bpf_state where
  "start_bpf = \<lparr>bs_mapped_size = 0, bs_count = False, bs_brk_boundary = 0, bs_sem = 0, bs_stop = False\<rparr>"

text \<open>Everything before the child runs: pipe, breakpoints, threads.  \<open>None\<close> is \<^verbatim>\<open>FAILURE\<close>.\<close>

definition prepare :: "run_env \<Rightarrow> (rec_env \<times> tracer) option" where
  "prepare ru =
     (if \<not> ru_fifo_made ru \<or> \<not> ru_fifo_chown ru \<or> \<not> ru_fifo_open ru then None
      else
        case set_breakpoints (place_env ru) (ru_units ru) \<lparr>bp_base = 0, bp_code = ru_code ru\<rparr> of
          None \<Rightarrow> None
        | Some (units, bp) \<Rightarrow>
            (case ru_reset ru of
               (opened, sem1, sem2, created) \<Rightarrow>
                 (case start_reset_dirty opened sem1 sem2 created of
                    (FAILURE, _) \<Rightarrow> None
                  | (SUCCESS, _) \<Rightarrow>
                      (case start_db_worker (ru_step ru) of
                         None \<Rightarrow> None
                       | Some step_ch \<Rightarrow>
                           (case start_db_worker (ru_heap ru) of
                              None \<Rightarrow> None
                            | Some heap_ch \<Rightarrow>
                                (case start_db_worker (ru_mem ru) of
                                   None \<Rightarrow> None
                                 | Some mem_ch \<Rightarrow>
                                     Some (env_of ru units bp, start_tracer (bp_code bp) step_ch heap_ch mem_ch)))))))"

text \<open>The first stop: the image of memory, the breakpoint, then the channel for page faults and the programs in the kernel.\<close>

definition first_stop :: "run_env \<Rightarrow> rec_env \<Rightarrow> tracer \<Rightarrow> tracer outcome" where
  "first_stop ru re t =
     (if \<not> ru_cont_ok ru \<or> ru_first_status ru \<noteq> Stopped SIGTRAP then Ret FAILURE t
      else
        case init_cache (ru_exe ru) (ru_maps ru) (child_bytes (ru_first_mem ru)) (ru_fresh ru) (tr_cache t) of
          (FAILURE, mc) \<Rightarrow> Ret FAILURE (t\<lparr>tr_cache := mc\<rparr>)
        | (SUCCESS, mc) \<Rightarrow>
            (case process_breakpoint re (child_bytes (ru_first_mem ru)) (ru_first_env ru) (t\<lparr>tr_cache := mc\<rparr>) of
               Ret SUCCESS t1 \<Rightarrow>
                 (case ch_create (ru_proc_sem ru) (ru_proc_mutex ru) of
                    None \<Rightarrow> Ret FAILURE t1
                  | Some ch \<Rightarrow>
                      if \<not> ru_bpf_sem ru \<or> \<not> ru_bpf_ok ru then Ret FAILURE (t1\<lparr>tr_proc_mem := Some ch\<rparr>)
                      else Ret SUCCESS (t1\<lparr>tr_proc_mem := Some ch\<rparr>))
             | r \<Rightarrow> r))"

section \<open>The loop\<close>

text \<open>The callback for the events of a round.\<close>

definition deliver :: "round \<Rightarrow> bpf_state \<times> tracer \<Rightarrow> bpf_state \<times> tracer" where
  "deliver rn = fold (\<lambda>(posted, ev). bpf_callback posted (child_bytes (rn_mem rn)) (rn_fresh rn) ev) (rn_events rn)"

text \<open>The result has the last signal; without a further round \<^verbatim>\<open>waitpid\<close> blocks.\<close>

fun record_loop :: "rec_env \<Rightarrow> round list \<Rightarrow> u64 \<Rightarrow> bpf_state \<times> tracer \<Rightarrow> (u64 \<times> tracer) outcome" where
  "record_loop re [] signo bt = Hang_Process"
| "record_loop re (rn # rns) signo bt =
     (if \<not> rn_cont_ok rn then Ret SUCCESS (signo, snd bt)
      else
        case deliver rn bt of
          (b, t) \<Rightarrow>
            (case rn_status rn of
               Exited \<Rightarrow> Ret SUCCESS (0, t)
             | Stopped sig \<Rightarrow>
                 if sig \<noteq> SIGTRAP then Ret SUCCESS (sig, t)
                 else if \<not> rn_sem_ok rn then Ret FAILURE (sig, t)
                 else if bs_sem b = 0 then Hang_Process
                 else
                   (case process_breakpoint re (child_bytes (rn_mem rn)) (rn_env rn) t of
                      Ret SUCCESS t' \<Rightarrow> record_loop re rns sig (b\<lparr>bs_sem := bs_sem b - 1\<rparr>, t')
                    | Ret FAILURE t' \<Rightarrow> Ret FAILURE (sig, t')
                    | Exit_Process \<Rightarrow> Exit_Process
                    | Crash_Process \<Rightarrow> Crash_Process
                    | Hang_Process \<Rightarrow> Hang_Process)
             | Other_Status \<Rightarrow> Ret FAILURE (signo, t)))"

section \<open>The end\<close>

text \<open>\<open>WAIT_DB_WORKER\<close>: \<open>result\<close> is what the thread makes of the finished channel.\<close>

definition wait_db_worker :: "worker_env \<Rightarrow> (status \<times> 'r worker) option \<Rightarrow> 'r worker outcome" where
  "wait_db_worker we result =
     (case result of
        None \<Rightarrow> Hang_Process
      | Some (st, w) \<Rightarrow> if \<not> we_join_ok we then Ret FAILURE w else Ret st w)"

definition wait_step :: "run_env \<Rightarrow> tracer \<Rightarrow> user_regs step_row worker outcome" where
  "wait_step ru t =
     wait_db_worker (ru_step ru) (wrk_insert_step (we_sql (ru_step ru)) (snd (ch_finish sys_ok (tr_insert_step t))))"

definition wait_heap :: "run_env \<Rightarrow> tracer \<Rightarrow> heap_row worker outcome" where
  "wait_heap ru t =
     wait_db_worker (ru_heap ru)
       (wrk_insert_heap (we_sql (ru_heap ru)) (we_chown_ok (ru_heap ru)) (snd (ch_finish sys_ok (tr_insert_heap t))))"

definition wait_mem :: "run_env \<Rightarrow> tracer \<Rightarrow> mem_row worker outcome" where
  "wait_mem ru t =
     wait_db_worker (ru_mem ru)
       (wrk_insert_mem (we_sql (ru_mem ru)) (we_chown_ok (ru_mem ru)) (snd (ch_finish sys_ok (mc_insert (tr_cache t)))))"

text \<open>The next part of a function after a call that may not return, or that fails.\<close>

fun proceed :: "'s outcome \<Rightarrow> ('s \<Rightarrow> 'r outcome) \<Rightarrow> 'r \<Rightarrow> 'r outcome" where
  "proceed (Ret SUCCESS s) k r = k s"
| "proceed (Ret FAILURE s) k r = Ret FAILURE r"
| "proceed Exit_Process k r = Exit_Process"
| "proceed Crash_Process k r = Crash_Process"
| "proceed Hang_Process k r = Hang_Process"

definition nothing_recorded :: recording where
  "nothing_recorded = \<lparr>rg_steps = [], rg_heap = [], rg_mem = [], rg_exit_signal = None\<rparr>"

text \<open>The signal that ended the child is stored unless it is zero.\<close>

definition store_signal :: "run_env \<Rightarrow> u64 \<Rightarrow> recording \<Rightarrow> recording outcome" where
  "store_signal ru signo rg =
     (if signo = 0 then Ret SUCCESS rg
      else if \<not> ru_reopen_ok ru then Ret FAILURE rg
      else Ret SUCCESS (if ru_signal_ok ru then rg\<lparr>rg_exit_signal := Some signo\<rparr> else rg))"

definition finish_recording :: "run_env \<Rightarrow> u64 \<Rightarrow> tracer \<Rightarrow> recording outcome" where
  "finish_recording ru signo t =
     proceed (wait_step ru t) (\<lambda>ws.
       let r1 = nothing_recorded\<lparr>rg_steps := committed ws\<rparr> in
       proceed (wait_heap ru t) (\<lambda>wh.
         let r2 = r1\<lparr>rg_heap := the (exported wh)\<rparr> in
         proceed (wait_mem ru t) (\<lambda>wm. store_signal ru signo (r2\<lparr>rg_mem := the (exported wm)\<rparr>)) r2) r1) nothing_recorded"

section \<open>The whole\<close>

definition record_program :: "run_env \<Rightarrow> recording outcome" where
  "record_program ru =
     (case prepare ru of
        None \<Rightarrow> Ret FAILURE nothing_recorded
      | Some (re, t) \<Rightarrow>
          proceed (first_stop ru re t) (\<lambda>t1.
            proceed (record_loop re (ru_rounds ru) SIGTRAP (start_bpf, t1)) (\<lambda>(signo, t2).
              finish_recording ru signo t2) nothing_recorded) nothing_recorded)"


section \<open>The first image\<close>

lemma start_db_worker_holds:
  assumes "we_sem_ok we" "we_mutex_ok we" "we_thread_ok we"
  shows "\<exists>ch. start_db_worker we = Some ch \<and> ch_holds ch []"
proof -
  obtain ch :: "'a channel" where ch: "ch_create True True = Some ch" by (cases "ch_create True True :: 'a channel option") (simp add: ch_create_def)
  then have "ch_holds ch []" using chan.rep_empty [where 'a = 'a] by simp
  with ch assms show ?thesis by (simp add: start_db_worker_def)
qed

lemma image_log_inv:
  assumes "image_log c lg"
  shows "log_inv (layout c) 1 lg"
proof -
  have "map (\<lambda>m. unat (mm_step_id m)) lg = replicate (length lg) 1"
    using assms by (intro replicate_eqI) (auto simp: image_log_def)
  moreover have "distinct (map (\<lambda>m. (mm_address m, mm_step_id m)) lg)"
    using assms by (auto simp: image_log_def distinct_map inj_on_def)
  ultimately show ?thesis using assms by (simp add: log_inv_def image_log_def)
qed

text \<open>What has been stored after \<open>n\<close> stops: the steps from 1 to \<open>n\<close>, and heap events.\<close>

definition stored :: "nat \<Rightarrow> tracer \<Rightarrow> user_regs step_msg list \<Rightarrow> heap_msg list \<Rightarrow> bool" where
  "stored n t ss hs \<longleftrightarrow>
     ch_holds (tr_insert_step t) (map (\<lambda>m. (m, step_msg_size)) ss) \<and> ch_holds (tr_insert_heap t) (map (\<lambda>m. (m, heap_msg_size)) hs) \<and>
     tr_step_id t = word_of_nat n \<and> map sm_step_id ss = map word_of_nat [1..<Suc n]"

lemma process_breakpoint_stored:
  assumes "process_breakpoint re readv se t = Ret SUCCESS t'" "stored n t ss hs"
  shows "\<exists>m. stored (Suc n) t' (ss @ [m]) (hs @ map (heap_msg_of (tr_step_id t + 1)) (se_events se)) \<and> Some (sm_regs m) = se_regs se"
proof -
  obtain u i regs where s: "se_regs se = Some regs"
    "tr_insert_step t' = ch_put (step_msg_at re regs (cu_lines (re_units re ! u) ! i) t, step_msg_size) (tr_insert_step t)"
    "tr_insert_heap t' = fold (\<lambda>e. ch_put (heap_msg_of (tr_step_id t + 1) e, heap_msg_size)) (se_events se) (tr_insert_heap t)"
    "tr_step_id t' = tr_step_id t + 1" using process_breakpoint_success [OF assms(1)] by blast
  let ?m = "step_msg_at re regs (cu_lines (re_units re ! u) ! i) t"
  have q: "ch_holds (tr_insert_step t) (map (\<lambda>m. (m, step_msg_size)) ss)" "ch_holds (tr_insert_heap t) (map (\<lambda>m. (m, heap_msg_size)) hs)"
    and ids: "tr_step_id t = word_of_nat n" "map sm_step_id ss = map word_of_nat [1..<Suc n]"
    using assms(2) by (simp_all only: stored_def)
  have "ch_holds (tr_insert_step t') (map (\<lambda>m. (m, step_msg_size)) (ss @ [?m]))"
    using chan.rep_put [OF q(1), of "(?m, step_msg_size)"] s(2) by simp
  moreover have "ch_holds (tr_insert_heap t')
      (map (\<lambda>m. (m, heap_msg_size)) (hs @ map (heap_msg_of (tr_step_id t + 1)) (se_events se)))"
    using chan.rep_put_all [OF q(2), of "map (\<lambda>e. (heap_msg_of (tr_step_id t + 1) e, heap_msg_size)) (se_events se)"] s(3)
    by (simp add: fold_map comp_def)
  moreover have "map sm_step_id (ss @ [?m]) = map word_of_nat [1..<Suc (Suc n)]" using ids by (simp add: step_msg_at_def add.commute)
  ultimately show ?thesis using s(1,4) ids(1) by (intro exI [of _ ?m]) (simp add: stored_def step_msg_at_def)
qed


text \<open>A stop at line \<open>i\<close> of unit \<open>u\<close> at which all calls succeed.\<close>

definition known_stop :: "rec_env \<Rightarrow> stop_env \<Rightarrow> nat \<Rightarrow> nat \<Rightarrow> bool" where
  "known_stop re se u i \<longleftrightarrow>
     u < length (re_units re) \<and> i < length (cu_lines (re_units re ! u)) \<and> 2 \<le> length (cu_lines (re_units re ! u)) \<and>
     stop_ok se \<and>
     (\<exists>regs. se_regs se = Some regs \<and> spares se (reg_ip regs - 1) \<and> reg_ip regs = cl_address (cu_lines (re_units re ! u) ! i) + re_base re + 1)"

text \<open>
  A start without failures: the maps are as the kernel prints them, and the first stop is at line \<open>p\<close> of unit \<open>k\<close>, the first
  line of a function.
\<close>

definition first_good :: "run_env \<Rightarrow> rec_env \<Rightarrow> string \<Rightarrow> mapping list \<Rightarrow> nat \<Rightarrow> nat \<Rightarrow> bool" where
  "first_good ru re exe ms k p \<longleftrightarrow>
     ru_cont_ok ru \<and> ru_first_status ru = Stopped SIGTRAP \<and> ru_proc_sem ru \<and> ru_proc_mutex ru \<and> ru_bpf_sem ru \<and> ru_bpf_ok ru \<and>
     ru_exe ru = Some exe \<and> length exe < 4096 \<and> ru_maps ru = Some (concat (map render ms)) \<and> mappings_ok (re_psz re) ms \<and>
     (\<forall>n. length (ru_fresh ru n) = n) \<and>
     known_stop re (ru_first_env ru) k p \<and> cl_func_flag (cu_lines (re_units re ! k) ! p) = FUNC_FLAG_START"

lemma first_stop_inv:
  assumes ok: "rec_ok re b" and good: "first_good ru re exe ms k p" and t: "t = start_tracer code sch hch mch"
    and ch: "ch_holds sch []" "ch_holds hch []" "ch_holds mch []"
  shows "\<exists>t1 lg m hs. first_stop ru re t = Ret SUCCESS t1 \<and> rec_inv re t1 lg (ru_first_mem ru) [] \<and> stored 1 t1 [m] hs \<and>
    Some (sm_regs m) = se_regs (ru_first_env ru) \<and> init_inv (re_psz re) exe (ru_first_mem ru) ms (tr_cache t1)"
proof -
  let ?readv = "child_bytes (ru_first_mem ru)"
  obtain regs where regs: "se_regs (ru_first_env ru) = Some regs"
    "reg_ip regs = cl_address (cu_lines (re_units re ! k) ! p) + re_base re + 1"
    and exec: "spares (ru_first_env ru) (reg_ip regs - 1)" using good by (auto simp: first_good_def known_stop_def)
  have re: "units_ok (re_units re)" "32 dvd re_psz re" using ok by (auto simp: rec_ok_def)
  have "mc_regions (tr_cache t) = []" "ch_holds (mc_insert (tr_cache t)) (sized [])" using t ch(3) by (simp_all add: start_tracer_def sized_def)
  from init_cache_inv [where readv = ?readv and fresh = "ru_fresh ru" and exe = exe, OF _ re(2) refl _ _ this] good obtain mc where
    mc: "init_cache (ru_exe ru) (ru_maps ru) ?readv (ru_fresh ru) (tr_cache t) = (SUCCESS, mc)"
      "init_inv (re_psz re) exe (ru_first_mem ru) ms mc" unfolding first_good_def by metis
  let ?t = "t\<lparr>tr_cache := mc\<rparr>" and ?line = "cu_lines (re_units re ! k) ! p"
  have g: "k < length (re_units re)" "p < length (cu_lines (re_units re ! k))" "2 \<le> length (cu_lines (re_units re ! k))"
    "stop_ok (ru_first_env ru)" "cl_func_flag ?line = FUNC_FLAG_START" using good by (auto simp: first_good_def known_stop_def)
  have unit: "tr_unit ?t < length (re_units re)" using t g(1) by (cases "re_units re") (simp_all add: start_tracer_def)
  have mem: "bp_memory re ?readv ?line t' = Some t'" for t' using g(5) by (simp add: bp_memory_def)
  obtain t1 where t1: "process_breakpoint re ?readv (ru_first_env ru) ?t = Ret SUCCESS t1" "tr_step_id t1 = tr_step_id ?t + 1"
    "tr_unit t1 = k" "tr_cache t1 = mc" "tr_mem_dirty t1 = tr_mem_dirty ?t"
    using process_breakpoint_at_line [OF re(1) unit g(1-4) exec regs mem] by auto
  have "stored 0 ?t [] []" using t ch(1,2) by (simp add: stored_def start_tracer_def)
  from process_breakpoint_stored [OF t1(1) this] obtain m where
    st: "stored 1 t1 [m] (map (heap_msg_of (tr_step_id ?t + 1)) (se_events (ru_first_env ru)))"
      "Some (sm_regs m) = se_regs (ru_first_env ru)" by auto
  obtain pch :: "u64 channel" where pch: "ch_create (ru_proc_sem ru) (ru_proc_mutex ru) = Some pch" "ch_holds pch []"
    using start_db_worker_holds [of "\<lparr>we_sem_ok = True, we_mutex_ok = True, we_thread_ok = True, we_join_ok = True, we_sql = (\<lambda>n op. DAB_OK),
      we_chown_ok = True\<rparr>"] good by (auto simp: start_db_worker_def first_good_def split: option.splits)
  let ?t1 = "t1\<lparr>tr_proc_mem := Some pch\<rparr>"
  have first: "first_stop ru re t = Ret SUCCESS ?t1"
    using good mc(1) t1(1) pch(1) by (simp add: first_stop_def first_good_def)
  obtain lg where lg: "ch_holds (mc_insert mc) (sized lg)" "cache_logged (mc_regions mc) lg" "image_log (mc_regions mc) lg"
    using mc(2) by (auto simp: init_inv_def)
  have step: "tr_step_id t1 = 1" using t1(2) t by (simp add: start_tracer_def)
  have "rec_inv re ?t1 lg (ru_first_mem ru) []"
    using mc(2) lg image_log_inv [OF lg(3)] pch(2) t1(3,4) g(1) step by (auto simp: rec_inv_def init_inv_def split: if_splits)
  moreover have "stored 1 ?t1 [m] (map (heap_msg_of (tr_step_id ?t + 1)) (se_events (ru_first_env ru)))"
    using st(1) by (simp add: stored_def)
  ultimately show ?thesis using first st(2) mc(2) t1(4) by auto
qed


section \<open>The rounds\<close>

fun fault_of :: "bpf_event \<Rightarrow> u64 list" where
  "fault_of (BPF_EVT_PAGEFAULT a) = [a]"
| "fault_of _ = []"

definition faults_of :: "round \<Rightarrow> u64 list" where
  "faults_of rn = concat (map (fault_of \<circ> snd) (rn_events rn))"

text \<open>Events that do not add memory, each with a successful \<^verbatim>\<open>sem_post\<close>.\<close>

fun adds_memory :: "bpf_event \<Rightarrow> bool" where
  "adds_memory (BPF_EVT_MMAPEXIT a) \<longleftrightarrow> True"
| "adds_memory (BPF_EVT_BRK a) \<longleftrightarrow> True"
| "adds_memory _ \<longleftrightarrow> False"

definition quiet :: "round \<Rightarrow> bool" where
  "quiet rn \<longleftrightarrow> (\<forall>(posted, ev) \<in> set (rn_events rn). posted \<and> \<not> adds_memory ev)"

definition traps :: "round \<Rightarrow> nat" where
  "traps rn = length (filter (\<lambda>e. e = BPF_EVT_SIGNAL SIGTRAP) (map snd (rn_events rn)))"

lemma deliver_posted:
  assumes "quiet rn"
  shows "deliver rn = fold (bpf_callback True (child_bytes (rn_mem rn)) (rn_fresh rn)) (map snd (rn_events rn))"
proof -
  have "fold (\<lambda>(posted, ev). bpf_callback posted readv fresh ev) evs = fold (bpf_callback True readv fresh) (map snd evs)"
    if "\<forall>(posted, ev) \<in> set evs. posted \<and> \<not> adds_memory ev" for readv fresh evs
    using that by (induction evs) auto
  then show ?thesis using assms by (simp add: deliver_def quiet_def)
qed

lemma bpf_callback_quiet:
  assumes "\<not> adds_memory ev" "\<not> bs_stop b"
  shows "snd (bpf_callback True readv fresh ev (b, t)) =
    t\<lparr>tr_proc_mem := map_option (fold (\<lambda>f. ch_put (f, 8)) (fault_of ev)) (tr_proc_mem t),
      tr_mem_dirty := tr_mem_dirty t \<or> fault_of ev \<noteq> []\<rparr>"
  using assms by (cases ev) (simp_all add: bpf_callback_def option.map_id)

lemma deliver_quiet:
  assumes "quiet rn" "\<not> bs_stop b"
  shows "snd (deliver rn (b, t)) =
    t\<lparr>tr_proc_mem := map_option (fold (\<lambda>f. ch_put (f, 8)) (faults_of rn)) (tr_proc_mem t),
      tr_mem_dirty := tr_mem_dirty t \<or> faults_of rn \<noteq> []\<rparr>"
proof -
  have "snd (fold (bpf_callback True readv fresh) evs (b, t)) =
      t\<lparr>tr_proc_mem := map_option (fold (\<lambda>f. ch_put (f, 8)) (concat (map fault_of evs))) (tr_proc_mem t),
        tr_mem_dirty := tr_mem_dirty t \<or> concat (map fault_of evs) \<noteq> []\<rparr>"
    if "\<forall>e \<in> set evs. \<not> adds_memory e" "\<not> bs_stop b" for readv fresh evs b t
    using that
  proof (induction evs arbitrary: b t)
    case (Cons e evs)
    obtain b1 t1 where e: "bpf_callback True readv fresh e (b, t) = (b1, t1)" by (metis prod.collapse)
    have "\<not> bs_stop b1" using bpf_callback_sem(1) [OF Cons.prems(2), of readv fresh e t] e by simp
    moreover have "t1 = t\<lparr>tr_proc_mem := map_option (fold (\<lambda>f. ch_put (f, 8)) (fault_of e)) (tr_proc_mem t),
        tr_mem_dirty := tr_mem_dirty t \<or> fault_of e \<noteq> []\<rparr>"
      using bpf_callback_quiet [of e b readv fresh t] Cons.prems e by simp
    ultimately show ?case
      using Cons.IH [of b1 t1] Cons.prems(1) e by (simp add: option.map_comp comp_def disj_assoc)
  qed (simp add: option.map_id)
  note this [of "map snd (rn_events rn)" b "child_bytes (rn_mem rn)" "rn_fresh rn" t]
  then show ?thesis using assms by (force simp: deliver_posted faults_of_def quiet_def comp_def)
qed

lemma deliver_semaphore:
  assumes "quiet rn" "\<not> bs_stop b"
  shows "\<not> bs_stop (fst (deliver rn (b, t)))"
    and "bs_sem (fst (deliver rn (b, t))) = bs_sem b + (traps rn + (if bs_count b then 0 else 1)) div 2"
    and "bs_count (fst (deliver rn (b, t))) = (if even (traps rn) then bs_count b else \<not> bs_count b)"
proof -
  have "\<not> bs_stop (fst (fold (bpf_callback True readv fresh) evs (b, t))) \<and>
      bs_count (fst (fold (bpf_callback True readv fresh) evs (b, t))) =
        (if even (length (filter (\<lambda>e. e = BPF_EVT_SIGNAL SIGTRAP) evs)) then bs_count b else \<not> bs_count b)"
    if "\<not> bs_stop b" for readv fresh evs b t
    using that
  proof (induction evs arbitrary: b t)
    case (Cons e evs)
    obtain b1 t1 where e: "bpf_callback True readv fresh e (b, t) = (b1, t1)" by (metis prod.collapse)
    then show ?case using bpf_callback_sem [OF Cons.prems, of readv fresh e t] Cons.IH [of b1 t1] by auto
  qed simp
  note this [OF assms(2), of "child_bytes (rn_mem rn)" "rn_fresh rn" "map snd (rn_events rn)" t]
  then show "\<not> bs_stop (fst (deliver rn (b, t)))"
    and "bs_count (fst (deliver rn (b, t))) = (if even (traps rn) then bs_count b else \<not> bs_count b)"
    by (simp_all add: deliver_posted [OF assms(1)] traps_def)
  show "bs_sem (fst (deliver rn (b, t))) = bs_sem b + (traps rn + (if bs_count b then 0 else 1)) div 2"
    unfolding deliver_posted [OF assms(1)] traps_def by (rule bpf_sigtraps [OF assms(2)])
qed


text \<open>
  A round in which the child stops at a trap.  The kernel reports one \<^verbatim>\<open>SIGTRAP\<close> for the trap, and before it, unless this is
  the first round, one for the instruction that was stepped over in the round before (\<open>c\<close>).
\<close>

fun paced :: "bool \<Rightarrow> round list \<Rightarrow> bool" where
  "paced c [] \<longleftrightarrow> True"
| "paced c (rn # rns) \<longleftrightarrow>
     rn_cont_ok rn \<and> rn_status rn = Stopped SIGTRAP \<and> rn_sem_ok rn \<and> quiet rn \<and> traps rn = (if c then 2 else 1) \<and> paced True rns"

definition stop_of :: "round \<Rightarrow> nat \<times> nat \<Rightarrow> stop_in" where
  "stop_of rn = (\<lambda>(u, i). \<lparr>si_faults = faults_of rn, si_env = rn_env rn, si_mem = rn_mem rn, si_unit = u, si_line = i\<rparr>)"

lemma record_stop_deliver:
  assumes "quiet rn" "\<not> bs_stop b" "\<not> bs_stop b'"
  shows "record_stop re b' (stop_of rn ui) t = process_breakpoint re (child_bytes (rn_mem rn)) (rn_env rn) (snd (deliver rn (b, t)))"
  unfolding record_stop_def deliver_faults [OF assms(3)] deliver_quiet [OF assms(1,2)]
  by (simp add: stop_of_def case_prod_beta)

lemma record_loop_run:
  assumes "\<not> bs_stop b'"
  shows "record_run re b' (map2 stop_of rns uis) t = Some t' \<Longrightarrow> length uis = length rns \<Longrightarrow> paced (bs_count b) rns \<Longrightarrow>
    \<not> bs_stop b \<Longrightarrow> bs_sem b = 0 \<Longrightarrow>
    \<exists>b1. record_loop re (rns @ rest) signo (b, t) = record_loop re rest (if rns = [] then signo else SIGTRAP) (b1, t') \<and> \<not> bs_stop b1"
proof (induction rns arbitrary: uis b t signo)
  case Nil
  then show ?case by auto
next
  case (Cons rn rns)
  obtain ui uis' where ui: "uis = ui # uis'" using Cons.prems(2) by (cases uis) auto
  have q: "quiet rn" "traps rn = (if bs_count b then 2 else 1)" "paced True rns" using Cons.prems(3) by simp_all
  obtain t1 where t1: "record_stop re b' (stop_of rn ui) t = Ret SUCCESS t1" "record_run re b' (map2 stop_of rns uis') t1 = Some t'"
    using Cons.prems(1) ui by (auto split: outcome.splits status.splits)
  obtain b2 t2 where d: "deliver rn (b, t) = (b2, t2)" by (metis prod.collapse)
  note sem = deliver_semaphore [OF q(1) Cons.prems(4), of t, unfolded d fst_conv]
  have b2: "\<not> bs_stop b2" "bs_sem b2 = 1" "bs_count b2" using sem q(2) Cons.prems(5) by (auto split: if_splits)
  let ?b = "b2\<lparr>bs_sem := bs_sem b2 - 1\<rparr>"
  have "record_loop re ((rn # rns) @ rest) signo (b, t) = record_loop re (rns @ rest) SIGTRAP (?b, t1)"
    using Cons.prems(3) d b2(2) t1(1) record_stop_deliver [OF q(1) Cons.prems(4) assms, of re ui t] by simp
  moreover have "\<exists>b1. record_loop re (rns @ rest) SIGTRAP (?b, t1) = record_loop re rest (if rns = [] then SIGTRAP else SIGTRAP) (b1, t') \<and> \<not> bs_stop b1"
    using Cons.IH [OF t1(2), of ?b SIGTRAP] Cons.prems(2) ui q(3) b2 by simp
  ultimately show ?case by simp
qed

lemma record_run_stored:
  assumes "\<not> bs_stop b"
  shows "record_run re b sis t = Some t' \<Longrightarrow> stored n t ss hs \<Longrightarrow>
    \<exists>ss' hs'. stored (n + length sis) t' (ss @ ss') hs' \<and> map (Some \<circ> sm_regs) ss' = map (se_regs \<circ> si_env) sis"
proof (induction sis arbitrary: t n ss hs)
  case Nil
  then show ?case by (intro exI [of _ "[]"] exI [of _ hs]) simp
next
  case (Cons si sis)
  obtain t1 where t1: "record_stop re b si t = Ret SUCCESS t1" "record_run re b sis t1 = Some t'"
    using Cons.prems(1) by (auto split: outcome.splits status.splits)
  let ?t = "t\<lparr>tr_proc_mem := map_option (fold (\<lambda>f. ch_put (f, 8)) (si_faults si)) (tr_proc_mem t),
      tr_mem_dirty := tr_mem_dirty t \<or> si_faults si \<noteq> []\<rparr>"
  have "process_breakpoint re (child_bytes (si_mem si)) (si_env si) ?t = Ret SUCCESS t1"
    using t1(1) by (simp only: record_stop_def deliver_faults [OF assms])
  moreover have "stored n ?t ss hs" using Cons.prems(2) by (simp add: stored_def)
  ultimately obtain m hs1 where m: "stored (Suc n) t1 (ss @ [m]) hs1" "Some (sm_regs m) = se_regs (si_env si)"
    using process_breakpoint_stored by blast
  obtain ss' hs' where "stored (Suc n + length sis) t' ((ss @ [m]) @ ss') hs'" "map (Some \<circ> sm_regs) ss' = map (se_regs \<circ> si_env) sis"
    using Cons.IH [OF t1(2) m(1)] by blast
  then show ?case using m(2) by (intro exI [of _ "m # ss'"] exI [of _ hs']) (simp add: comp_def)
qed

section \<open>From the recording to the examination\<close>

text \<open>The log of a recording is a log that the examination can read.\<close>

lemma log_inv_ok:
  assumes "log_inv (layout c) s lg" "cache_wf psz c" "\<forall>r \<in> set c. unat (reg_end r) \<le> 2 ^ 63" "unat s < 2 ^ 63"
  shows "log_ok lg"
proof -
  have "unat (mm_address m) < 2 ^ 63" if "on_grid (layout c) m" for m
    using that assms(3) unfolding on_grid_def layout_def by fastforce
  moreover have "unat (mm_step_id m) < 2 ^ 63" if "m \<in> set lg" for m
    using that assms(1,4) by (auto simp: log_inv_def u64_le_unat)
  ultimately show ?thesis
    using assms(1) grid_disjoint [OF assms(2)] unfolding log_inv_def log_ok_def by blast
qed

lemma log_inv_keys:
  assumes "log_inv lay s lg"
  shows "distinct (map (mem_key \<circ> mem_row_of) lg)"
proof -
  have "m = m'" if m: "m \<in> set lg" "m' \<in> set lg" "mem_key (mem_row_of m) = mem_key (mem_row_of m')" for m m'
  proof -
    have "sint (mm_address m) = sint (mm_address m')" "sint (mm_step_id m) = sint (mm_step_id m')"
      using m(3) by (simp_all add: mem_key_def mem_row_of_def)
    then have "mm_address m = mm_address m'" "mm_step_id m = mm_step_id m'" by (metis word_of_sint)+
    then show ?thesis using m(1,2) assms by (auto simp: log_inv_def distinct_map inj_on_def)
  qed
  then show ?thesis using assms by (auto simp: log_inv_def distinct_map inj_on_def)
qed

text \<open>Reading memory from the stored messages of a recording.\<close>

lemma log_reads:
  assumes "log_inv (layout c) s lg" "cache_wf psz c" "\<forall>r \<in> set c. unat (reg_end r) \<le> 2 ^ 63" "unat s < 2 ^ 63"
    and "unat step < 2 ^ 63" "32 \<le> unat addr" "unat addr + unat sz < 2 ^ 63"
    and "\<And>i. i < unat sz \<Longrightarrow> recorded (upto_step step lg) (addr + word_of_nat i) = Some (cm (addr + word_of_nat i))"
  shows "get_var_value DAB_OK DAB_NO_DATA (map mem_row_of lg) addr sz step = Some (Some (child_bytes cm addr (unat sz) @ [0]))"
proof -
  have "log_ok lg" using log_inv_ok [OF assms(1,2)] assms(3,4) by simp
  then have "get_var_value DAB_OK DAB_NO_DATA (map mem_row_of lg) addr sz step =
      Some (Some (map (\<lambda>i. the (recorded (upto_step step lg) (addr + word_of_nat i))) [0..<unat sz] @ [0]))"
    using get_var_value_reads [OF _ assms(5-7)] assms(8) by simp
  moreover have "map (\<lambda>i. the (recorded (upto_step step lg) (addr + word_of_nat i))) [0..<unat sz] = child_bytes cm addr (unat sz)"
    using assms(8) by (simp add: child_bytes_def)
  ultimately show ?thesis by simp
qed

section \<open>Good rounds\<close>

text \<open>Every byte of a watched mapping that has changed lies in a page for which a fault was reported.\<close>

definition changes_reported :: "nat \<Rightarrow> string \<Rightarrow> mapping list \<Rightarrow> (u64 \<Rightarrow> byte) \<Rightarrow> round \<Rightarrow> bool" where
  "changes_reported psz exe ms cm rn \<longleftrightarrow>
     (\<forall>a. in_mapping exe ms a \<longrightarrow> cm a \<noteq> rn_mem rn a \<longrightarrow> (\<exists>f \<in> set (faults_of rn). unat f div psz = unat a div psz))"

fun rounds_good :: "rec_env \<Rightarrow> string \<Rightarrow> mapping list \<Rightarrow> (u64 \<Rightarrow> byte) \<Rightarrow> round list \<Rightarrow> (nat \<times> nat) list \<Rightarrow> bool" where
  "rounds_good re exe ms cm [] uis \<longleftrightarrow> uis = []"
| "rounds_good re exe ms cm (rn # rns) [] \<longleftrightarrow> False"
| "rounds_good re exe ms cm (rn # rns) ((u, i) # uis) \<longleftrightarrow>
     known_stop re (rn_env rn) u i \<and> changes_reported (re_psz re) exe ms cm rn \<and> rounds_good re exe ms (rn_mem rn) rns uis"

lemma rounds_good_length: "rounds_good re exe ms cm rns uis \<Longrightarrow> length uis = length rns"
  by (induction re exe ms cm rns uis rule: rounds_good.induct) simp_all

lemma aligned_same_page:
  assumes wf: "cache_wf psz c" and al: "\<And>r. r \<in> set c \<Longrightarrow> psz dvd unat (reg_start r)"
    and a: "cache_byte c a \<noteq> None" and f: "unat f div psz = unat a div psz"
  shows "same_page psz c f a"
proof -
  obtain i where i: "i < length c" "in_region a (c ! i)" using a unfolding cache_byte_None by (metis in_set_conv_nth)
  let ?r = "c ! i"
  have ok: "region_ok psz ?r" and st: "psz dvd unat (reg_start ?r)" using cache_wf_region [OF wf i(1)] al i(1) by simp_all
  then obtain s n where s: "unat (reg_start ?r) = psz * s" and n: "unat (reg_end ?r) - unat (reg_start ?r) = psz * n"
    by (metis dvdE region_ok_def)
  have lt: "unat (reg_start ?r) < unat (reg_end ?r)" using ok by (simp add: region_ok_def u64_less_unat)
  then have e: "unat (reg_end ?r) = psz * (s + n)" using s n by (simp add: algebra_simps)
  have p: "0 < psz" using n lt by (cases psz) auto
  have div: "psz * s \<le> x \<and> x < psz * (s + n) \<longleftrightarrow> s \<le> x div psz \<and> x div psz < s + n" for x
    using p by (simp add: less_eq_div_iff_mult_less_eq div_less_iff_less_mult mult.commute)
  have inf: "in_region f ?r" using i(2) f div by (simp add: in_region_def u64_le_unat u64_less_unat s e)
  have pg: "page_at psz ?r x = (unat x div psz - s) * psz" if "in_region x ?r" for x
  proof -
    obtain y where "unat x = psz * s + y" using \<open>in_region x ?r\<close> by (auto simp: in_region_def u64_le_unat s le_iff_add)
    then show ?thesis using p by (simp add: page_at_def s)
  qed
  have "same_page psz c f a \<longleftrightarrow> in_region a ?r \<and> page_at psz ?r f = page_at psz ?r a" by (rule same_page_iff [OF wf i(1) inf])
  then show ?thesis using i(2) pg [OF i(2)] pg [OF inf] f by simp
qed


lemma rounds_good_stops:
  assumes inv: "init_inv (re_psz re) exe cm0 ms mc" and al: "\<And>m. m \<in> set ms \<Longrightarrow> watched exe m \<Longrightarrow> re_psz re dvd unat (mp_start m)"
  shows "rounds_good re exe ms cm rns uis \<Longrightarrow> stops_good re (mc_regions mc) cm (map2 stop_of rns uis)"
proof (induction rns arbitrary: cm uis)
  case Nil
  then show ?case by simp
next
  case (Cons rn rns)
  obtain u i uis' where ui: "uis = (u, i) # uis'" using Cons.prems by (cases uis) auto
  have g: "known_stop re (rn_env rn) u i" "changes_reported (re_psz re) exe ms cm rn" "rounds_good re exe ms (rn_mem rn) rns uis'"
    using Cons.prems ui by simp_all
  have wf: "cache_wf (re_psz re) (mc_regions mc)" using inv by (simp add: init_inv_def)
  have st: "re_psz re dvd unat (reg_start r)" if "r \<in> set (mc_regions mc)" for r
    using that inv al by (metis init_inv_def)
  have "\<exists>f \<in> set (faults_of rn). same_page (re_psz re) (mc_regions mc) f a"
    if a: "cache_byte (mc_regions mc) a \<noteq> None" "cm a \<noteq> rn_mem rn a" for a
  proof -
    have "in_mapping exe ms a" using a(1) inv by (auto simp: init_inv_def split: if_splits)
    then obtain f where "f \<in> set (faults_of rn)" "unat f div re_psz re = unat a div re_psz re"
      using g(2) a(2) by (auto simp: changes_reported_def)
    then show ?thesis using aligned_same_page [OF wf st a(1)] by blast
  qed
  then have "stop_good re (mc_regions mc) cm (stop_of rn (u, i))"
    using g(1) by (auto simp: stop_good_def known_stop_def stop_of_def stop_line_def)
  moreover have "si_mem (stop_of rn (u, i)) = rn_mem rn" by (simp add: stop_of_def)
  ultimately show ?case using Cons.IH [OF g(3)] ui by simp
qed

text \<open>All calls outside of the loop succeed, and the databases work.\<close>

definition worker_ok :: "worker_env \<Rightarrow> bool" where
  "worker_ok we \<longleftrightarrow>
     we_sem_ok we \<and> we_mutex_ok we \<and> we_thread_ok we \<and> we_join_ok we \<and> healthy (we_sql we) \<and> we_chown_ok we"

definition calls_ok :: "run_env \<Rightarrow> bool" where
  "calls_ok ru \<longleftrightarrow>
     ru_fifo_made ru \<and> ru_fifo_chown ru \<and> ru_fifo_open ru \<and> ru_reset ru = (True, True, True, True) \<and>
     worker_ok (ru_step ru) \<and> worker_ok (ru_heap ru) \<and> worker_ok (ru_mem ru)"

lemma prepare_ok:
  assumes "calls_ok ru" "set_breakpoints (place_env ru) (ru_units ru) \<lparr>bp_base = 0, bp_code = ru_code ru\<rparr> = Some (units, bp)"
  shows "\<exists>sch hch mch. prepare ru = Some (env_of ru units bp, start_tracer (bp_code bp) sch hch mch) \<and>
    ch_holds sch [] \<and> ch_holds hch [] \<and> ch_holds mch []"
proof -
  obtain sch :: "user_regs step_msg channel" and hch :: "heap_msg channel" and mch :: "mem_msg channel" where
    "start_db_worker (ru_step ru) = Some sch" "ch_holds sch []" "start_db_worker (ru_heap ru) = Some hch" "ch_holds hch []"
    "start_db_worker (ru_mem ru) = Some mch" "ch_holds mch []"
    using start_db_worker_holds assms(1) unfolding calls_ok_def worker_ok_def by metis
  then show ?thesis
    using assms by (intro exI [of _ sch] exI [of _ hch] exI [of _ mch]) (simp add: prepare_def calls_ok_def start_reset_dirty_def)
qed

lemma finish_ok:
  assumes ok: "calls_ok ru" and st: "stored n t ss hs" and mem: "ch_holds (mc_insert (tr_cache t)) (sized lg)"
    and keys: "distinct (map (mem_key \<circ> mem_row_of) lg)"
  shows "finish_recording ru 0 t =
    Ret SUCCESS \<lparr>rg_steps = map step_row_of ss, rg_heap = fold insert_heap hs [], rg_mem = map mem_row_of lg, rg_exit_signal = None\<rparr>"
proof -
  have h: "ch_holds (tr_insert_step t) (map (\<lambda>m. (m, step_msg_size)) ss)" "ch_holds (tr_insert_heap t) (map (\<lambda>m. (m, heap_msg_size)) hs)"
    using st by (simp_all only: stored_def)
  have sql: "healthy (we_sql (ru_step ru))" "healthy (we_sql (ru_heap ru))" "healthy (we_sql (ru_mem ru))"
    using ok by (simp_all add: calls_ok_def worker_ok_def)
  obtain ws where ws: "wrk_insert_step (we_sql (ru_step ru)) (snd (ch_finish sys_ok (tr_insert_step t))) = Some (SUCCESS, ws)"
    "committed ws = map step_row_of ss" using wrk_insert_step_all [OF sql(1) ch_closed_finish [OF h(1)]] by blast
  obtain wh where wh: "wrk_insert_heap (we_sql (ru_heap ru)) True (snd (ch_finish sys_ok (tr_insert_heap t))) = Some (SUCCESS, wh)"
    "exported wh = Some (fold insert_heap hs [])" using wrk_insert_heap_all [OF sql(2) ch_closed_finish [OF h(2)]] by blast
  obtain wm where wm: "wrk_insert_mem (we_sql (ru_mem ru)) True (snd (ch_finish sys_ok (mc_insert (tr_cache t)))) = Some (SUCCESS, wm)"
    "exported wm = Some (map mem_row_of lg)"
    using wrk_insert_mem_all [OF sql(3) ch_closed_finish [OF mem [unfolded sized_def]] keys] by blast
  show ?thesis
    using ok ws wh wm
    by (simp add: finish_recording_def wait_step_def wait_heap_def wait_mem_def wait_db_worker_def calls_ok_def worker_ok_def
        store_signal_def nothing_recorded_def Let_def)
qed

text \<open>
  The rounds of a recording: the child stops at traps, and then exits, without system calls that map memory or move the break
  in between (\<open>quiet\<close>).  The watched mappings start at a page and are below \<open>2 ^ 63\<close>.
\<close>

definition rounds_end :: "run_env \<Rightarrow> round list \<Rightarrow> bool" where
  "rounds_end ru rns \<longleftrightarrow>
     (\<exists>fin. ru_rounds ru = rns @ [fin] \<and> paced False rns \<and> rn_cont_ok fin \<and> rn_status fin = Exited \<and> quiet fin)"

definition pages_ok :: "nat \<Rightarrow> string \<Rightarrow> mapping list \<Rightarrow> bool" where
  "pages_ok psz exe ms \<longleftrightarrow> (\<forall>m \<in> set ms. watched exe m \<longrightarrow> psz dvd unat (mp_start m) \<and> unat (mp_end m) \<le> 2 ^ 63)"

lemma record_loop_exit:
  assumes "rn_cont_ok fin" "rn_status fin = Exited" "quiet fin" "\<not> bs_stop b"
  shows "\<exists>t'. record_loop re [fin] signo (b, t) = Ret SUCCESS (0, t') \<and> tr_cache t' = tr_cache t \<and>
    tr_insert_step t' = tr_insert_step t \<and> tr_insert_heap t' = tr_insert_heap t \<and> tr_step_id t' = tr_step_id t"
proof -
  obtain b' t' where d: "deliver fin (b, t) = (b', t')" by (metis prod.collapse)
  then show ?thesis using deliver_quiet [OF assms(3,4), of t] assms(1,2) by simp
qed

text \<open>After the first stop: the loop, to the exit of the child.\<close>

lemma record_loop_good:
  assumes ok: "rec_ok re start_bpf" and inv: "rec_inv re t lg cm []" and img: "init_inv (re_psz re) exe cm ms (tr_cache t)"
    and pages: "pages_ok (re_psz re) exe ms" and ends: "rounds_end ru rns" and good: "rounds_good re exe ms cm rns uis"
    and st: "stored 1 t [m] hs" and n: "length rns + 1 < 2 ^ 63"
  shows "\<exists>t' lg' ss' hs'. record_loop re (ru_rounds ru) SIGTRAP (start_bpf, t) = Ret SUCCESS (0, t') \<and>
    ch_holds (mc_insert (tr_cache t')) (sized lg') \<and> log_inv (layout (mc_regions (tr_cache t))) (tr_step_id t') lg' \<and>
    unat (tr_step_id t') = length rns + 1 \<and> stored (length rns + 1) t' (m # ss') hs' \<and>
    map (Some \<circ> sm_regs) ss' = map (se_regs \<circ> rn_env) rns \<and>
    (\<forall>j < length rns. cl_func_flag (cu_lines (re_units re ! fst (uis ! j)) ! snd (uis ! j)) \<noteq> FUNC_FLAG_START \<longrightarrow>
       (\<forall>a. in_mapping exe ms a \<longrightarrow> recorded (upto_step (word_of_nat (j + 2)) lg') a = Some (rn_mem (rns ! j) a)))"
proof -
  let ?sis = "map2 stop_of rns uis" and ?c = "mc_regions (tr_cache t)"
  obtain fin where fin: "ru_rounds ru = rns @ [fin]" "paced False rns" "rn_cont_ok fin" "rn_status fin = Exited" "quiet fin"
    using ends by (auto simp: rounds_end_def)
  have len: "length uis = length rns" using good by (rule rounds_good_length)
  have step: "tr_step_id t = 1" using st by (simp add: stored_def)
  have "stops_good re ?c cm ?sis" using rounds_good_stops [OF img _ good] pages by (simp add: pages_ok_def)
  from record_run_inv [OF ok inv this] n len step obtain t1 lg' where
    run: "record_run re start_bpf ?sis t = Some t1" "ch_holds (mc_insert (tr_cache t1)) (sized (lg @ lg'))"
      "log_inv (layout ?c) (tr_step_id t1) (lg @ lg')" "unat (tr_step_id t1) = length rns + 1"
    and sync: "\<And>j a. j < length ?sis \<Longrightarrow> cl_func_flag (stop_line re (?sis ! j)) \<noteq> FUNC_FLAG_START \<Longrightarrow> cache_byte ?c a \<noteq> None \<Longrightarrow>
      recorded (upto_step (1 + word_of_nat (Suc j)) (lg @ lg')) a = Some (si_mem (?sis ! j) a)"
    by auto
  have nstop: "\<not> bs_stop start_bpf" "bs_sem start_bpf = 0" "\<not> bs_count start_bpf" by (simp_all add: start_bpf_def)
  obtain b1 where b1: "record_loop re (rns @ [fin]) SIGTRAP (start_bpf, t) = record_loop re [fin] SIGTRAP (b1, t1)" "\<not> bs_stop b1"
    using record_loop_run [OF nstop(1) run(1) len _ nstop(1,2), of "[fin]" SIGTRAP] fin(2) nstop(3) by auto
  obtain t2 where t2: "record_loop re [fin] SIGTRAP (b1, t1) = Ret SUCCESS (0, t2)" "tr_cache t2 = tr_cache t1"
    "tr_insert_step t2 = tr_insert_step t1" "tr_insert_heap t2 = tr_insert_heap t1" "tr_step_id t2 = tr_step_id t1"
    using record_loop_exit [OF fin(3-5) b1(2)] by blast
  obtain ss' hs' where ss: "stored (1 + length ?sis) t1 ([m] @ ss') hs'" "map (Some \<circ> sm_regs) ss' = map (se_regs \<circ> si_env) ?sis"
    using record_run_stored [OF nstop(1) run(1) st] by blast
  have envs: "map (se_regs \<circ> si_env) ?sis = map (se_regs \<circ> rn_env) rns"
    using len by (intro nth_equalityI) (auto simp: stop_of_def case_prod_beta)
  have "recorded (upto_step (word_of_nat (j + 2)) (lg @ lg')) a = Some (rn_mem (rns ! j) a)"
    if "j < length rns" "cl_func_flag (cu_lines (re_units re ! fst (uis ! j)) ! snd (uis ! j)) \<noteq> FUNC_FLAG_START" "in_mapping exe ms a" for j a
  proof -
    have "(1 :: u64) + word_of_nat (Suc j) = word_of_nat (j + 2)" by simp
    moreover have "cache_byte ?c a \<noteq> None" using img that(3) by (simp add: init_inv_def)
    ultimately show ?thesis using sync [of j a] that len by (simp add: stop_of_def stop_line_def case_prod_beta)
  qed
  moreover have "stored (length rns + 1) t2 (m # ss') hs'" using ss(1) t2(3-5) len by (simp add: stored_def)
  ultimately show ?thesis
    using run(2-4) t2(1,2,5) b1(1) fin(1) ss(2) envs by (intro exI [of _ t2] exI [of _ "lg @ lg'"] exI [of _ ss'] exI [of _ hs']) simp
qed

lemma stored_ids:
  assumes "stored n t ss hs" "n < 2 ^ 63"
  shows "map st_id (map step_row_of ss) = map int [1..<Suc n]"
proof -
  have "sint (word_of_nat k :: u64) = int k" if "k \<le> n" for k
    using that assms(2) by (intro sint_word_of_nat_small) simp
  moreover have "map st_id (map step_row_of ss) = map sint (map sm_step_id ss)" by (simp add: step_row_of_def comp_def)
  ultimately show ?thesis using assms(1) unfolding stored_def by (simp del: upt_Suc)
qed

text \<open>
  A recording without failures: what it stores, where \<open>lg\<close> are the messages for memory, from which the child's memory at every
  stop that is not at the first line of a function can be read.
\<close>

lemma recording_succeeds:
  assumes "calls_ok ru" "set_breakpoints (place_env ru) (ru_units ru) \<lparr>bp_base = 0, bp_code = ru_code ru\<rparr> = Some (units, bp)"
    and "re = env_of ru units bp" "rec_ok re start_bpf" "first_good ru re exe ms k p" "pages_ok (ru_psz ru) exe ms"
    and "rounds_end ru rns" "rounds_good re exe ms (ru_first_mem ru) rns uis" "length rns + 1 < 2 ^ 63"
  shows "\<exists>ss hs lg c s. record_program ru =
      Ret SUCCESS \<lparr>rg_steps = map step_row_of ss, rg_heap = fold insert_heap hs [], rg_mem = map mem_row_of lg, rg_exit_signal = None\<rparr> \<and>
    map st_id (map step_row_of ss) = map int [1..<length rns + 2] \<and>
    map (Some \<circ> sm_regs) ss = se_regs (ru_first_env ru) # map (se_regs \<circ> rn_env) rns \<and>
    cache_wf (ru_psz ru) c \<and> (\<forall>r \<in> set c. unat (reg_end r) \<le> 2 ^ 63) \<and> log_inv (layout c) s lg \<and> unat s < 2 ^ 63 \<and>
    (\<forall>j a. j < length rns \<longrightarrow> cl_func_flag (cu_lines (re_units re ! fst (uis ! j)) ! snd (uis ! j)) \<noteq> FUNC_FLAG_START \<longrightarrow>
       in_mapping exe ms a \<longrightarrow> recorded (upto_step (word_of_nat (j + 2)) lg) a = Some (rn_mem (rns ! j) a))"
proof -
  obtain sch hch mch where p: "prepare ru = Some (re, start_tracer (bp_code bp) sch hch mch)"
    "ch_holds sch []" "ch_holds hch []" "ch_holds mch []" using prepare_ok [OF assms(1,2)] assms(3) by auto
  obtain t1 lg m hs where f: "first_stop ru re (start_tracer (bp_code bp) sch hch mch) = Ret SUCCESS t1"
    "rec_inv re t1 lg (ru_first_mem ru) []" "stored 1 t1 [m] hs" "Some (sm_regs m) = se_regs (ru_first_env ru)"
    "init_inv (re_psz re) exe (ru_first_mem ru) ms (tr_cache t1)"
    using first_stop_inv [OF assms(4,5) refl p(2-4)] by blast
  have psz: "ru_psz ru = re_psz re" using assms(3) by (simp add: env_of_def)
  obtain t2 lg' ss hs' where l: "record_loop re (ru_rounds ru) SIGTRAP (start_bpf, t1) = Ret SUCCESS (0, t2)"
    "ch_holds (mc_insert (tr_cache t2)) (sized lg')" "log_inv (layout (mc_regions (tr_cache t1))) (tr_step_id t2) lg'"
    "unat (tr_step_id t2) = length rns + 1" "stored (length rns + 1) t2 (m # ss) hs'"
    "map (Some \<circ> sm_regs) ss = map (se_regs \<circ> rn_env) rns"
    and sync: "\<And>j a. j < length rns \<Longrightarrow> cl_func_flag (cu_lines (re_units re ! fst (uis ! j)) ! snd (uis ! j)) \<noteq> FUNC_FLAG_START \<Longrightarrow>
      in_mapping exe ms a \<Longrightarrow> recorded (upto_step (word_of_nat (j + 2)) lg') a = Some (rn_mem (rns ! j) a)"
    using record_loop_good [OF assms(4) f(2,5) assms(6) [unfolded psz] assms(7,8) f(3) assms(9)] by blast
  let ?c = "mc_regions (tr_cache t1)"
  have "record_program ru = Ret SUCCESS \<lparr>rg_steps = map step_row_of (m # ss), rg_heap = fold insert_heap hs' [],
      rg_mem = map mem_row_of lg', rg_exit_signal = None\<rparr>"
    using p(1) f(1) l(1) finish_ok [OF assms(1) l(5,2) log_inv_keys [OF l(3)]] by (simp add: record_program_def)
  moreover have "map st_id (map step_row_of (m # ss)) = map int [1..<length rns + 2]"
    by (simp only: stored_ids [OF l(5) assms(9)]) simp
  moreover have "map (Some \<circ> sm_regs) (m # ss) = se_regs (ru_first_env ru) # map (se_regs \<circ> rn_env) rns" using f(4) l(6) by simp
  moreover have "cache_wf (re_psz re) ?c" "\<forall>r \<in> set ?c. unat (reg_end r) \<le> 2 ^ 63"
    using f(5) assms(6) by (force simp: init_inv_def pages_ok_def)+
  ultimately show ?thesis
    using l(3,4) assms(9) sync unfolding psz
    by (intro exI [of _ "m # ss"] exI [of _ hs'] exI [of _ lg'] exI [of _ ?c] exI [of _ "tr_step_id t2"]) simp
qed

section \<open>Units without statements\<close>

text \<open>
  The search for the unit of an address goes over all entries of the array, the unwritten ones too.  When at least half of the
  counted units have no statements and the memory was zero, the search takes the wrong turn at its first step, and every line
  outside of the unit of the stop before is reported as unknown: the recording fails at a breakpoint of its own.
\<close>

lemma unit_search_low:
  "\<forall>i. left \<le> i \<longrightarrow> i < right \<longrightarrow> cu_start (units ! i) = 0 \<and> cu_end (units ! i) < a \<Longrightarrow> left \<le> right \<Longrightarrow>
   \<exists>k. unit_search units a left right = (right, right, k)"
proof (induction units a left right rule: unit_search.induct)
  case (1 units a left right)
  let ?i = "(left + right) div 2"
  show ?case
  proof (cases "left < right")
    case True
    then have i: "left \<le> ?i" "?i < right" by linarith+
    then have u: "cu_start (units ! ?i) = 0" "cu_end (units ! ?i) < a" using 1(3) by blast+
    then have "\<not> a < cu_start (units ! ?i)" by (simp add: not_less word_zero_le)
    moreover have "\<exists>k. unit_search units a (Suc ?i) right = (right, right, k)"
      using 1(2) [OF refl True calculation u(2)] 1(3) i by simp
    ultimately show ?thesis using True u(2) by (subst unit_search.simps) (simp add: Let_def)
  next
    case False
    then show ?thesis using 1(4) by (subst unit_search.simps) (simp add: Let_def)
  qed
qed

theorem unit_without_statements_lost:
  assumes "2 * length units \<le> ru_unit_count ru" "\<And>i. ru_unwritten ru i = (0, 0)" "0 < a"
    and "last_unit < ru_unit_count ru" "\<not> in_unit a (instr_cache ru units ! last_unit)"
  shows "lookup_cache (instr_cache ru units) last_unit a = (last_unit, Some Absent)"
proof -
  let ?us = "instr_cache ru units" and ?n = "ru_unit_count ru"
  have n: "length ?us = ?n" "length units \<le> ?n div 2" using assms(1) by (simp_all add: instr_cache_def)
  have junk: "cu_start (?us ! i) = 0 \<and> cu_end (?us ! i) < a" if "?n div 2 \<le> i" "i < ?n" for i
    using that n(2) assms(2,3) by (simp add: instr_cache_def nth_append unwritten_unit_def)
  have mid: "?n div 2 < ?n" using assms(4) by simp
  then have m: "cu_start (?us ! (?n div 2)) = 0" "cu_end (?us ! (?n div 2)) < a" using junk by blast+
  obtain k where "unit_search ?us a (Suc (?n div 2)) ?n = (?n, ?n, k)"
    using unit_search_low [of "Suc (?n div 2)" ?n ?us a] junk mid by auto
  then have "unit_search ?us a 0 ?n = (?n, ?n, k)"
    using m mid by (subst unit_search.simps) (simp add: Let_def not_less word_zero_le)
  then have "find_unit ?us last_unit a = None"
    using assms(5) n(1) by (auto simp: find_unit_def in_unit_def not_le)
  then show ?thesis by (simp add: lookup_cache_def)
qed

end
