(* ===== verification/Call_Depth.thy ===== *)
theory Call_Depth
  imports Recorder
begin

text \<open>
  The call depth that a recording stores with its steps, against the calls that the program made.  What a program does is a
  tree of invocations: a step on a line, or a call with its first line, what happens in it, and its last line.
\<close>

section \<open>Invocations\<close>

datatype activity = Step cached_line | Call cached_line "activity list" cached_line

fun lines_of :: "activity \<Rightarrow> cached_line list" where
  "lines_of (Step l) = [l]"
| "lines_of (Call s body e) = s # concat (map lines_of body) @ [e]"

text \<open>How many calls are open at each of the lines, those around the activity being \<open>d\<close>.\<close>

fun nesting :: "nat \<Rightarrow> activity \<Rightarrow> nat list" where
  "nesting d (Step l) = [d]"
| "nesting d (Call s body e) = Suc d # concat (map (nesting (Suc d)) body) @ [Suc d]"

text \<open>The first line of a function is marked as its start, the last line as its end, and no other line is marked.\<close>

fun marked :: "activity \<Rightarrow> bool" where
  "marked (Step l) \<longleftrightarrow> cl_func_flag l \<noteq> FUNC_FLAG_START \<and> cl_func_flag l \<noteq> FUNC_FLAG_END"
| "marked (Call s body e) \<longleftrightarrow>
     cl_func_flag s = FUNC_FLAG_START \<and> cl_func_flag e = FUNC_FLAG_END \<and> (\<forall>a \<in> set body. marked a)"

section \<open>The counter\<close>

text \<open>The depths that the counter gives to a sequence of lines, and its value after them.\<close>

fun depths :: "u64 \<Rightarrow> cached_line list \<Rightarrow> u64 list" where
  "depths d [] = []"
| "depths d (l # ls) = entered_depth l d # depths (left_depth l (entered_depth l d)) ls"

definition depth_after :: "u64 \<Rightarrow> cached_line list \<Rightarrow> u64" where
  "depth_after d ls = fold (\<lambda>l d. left_depth l (entered_depth l d)) ls d"

lemma depths_append: "depths d (xs @ ys) = depths d xs @ depths (depth_after d xs) ys"
  by (induction xs arbitrary: d) (simp_all add: depth_after_def)

lemma depth_after_append: "depth_after d (xs @ ys) = depth_after (depth_after d xs) ys"
  by (simp add: depth_after_def)

lemma depths_take: "depths d (take n ls) = take n (depths d ls)"
proof (induction ls arbitrary: d n)
  case (Cons l ls)
  then show ?case by (cases n) simp_all
qed simp

lemma flags_differ [simp]: "FUNC_FLAG_START \<noteq> FUNC_FLAG_END" "FUNC_FLAG_END \<noteq> FUNC_FLAG_START"
  by (simp_all add: FUNC_FLAG_START_def FUNC_FLAG_END_def)

lemma depths_concat:
  assumes "\<And>a. a \<in> set acts \<Longrightarrow> depths (word_of_nat d) (lines_of a) = map word_of_nat (nesting d a) \<and>
      depth_after (word_of_nat d) (lines_of a) = word_of_nat d"
  shows "depths (word_of_nat d) (concat (map lines_of acts)) = map word_of_nat (concat (map (nesting d) acts)) \<and>
    depth_after (word_of_nat d) (concat (map lines_of acts)) = word_of_nat d"
  using assms by (induction acts) (simp_all add: depths_append depth_after_append, simp add: depth_after_def)

text \<open>Over a whole activity the counter has the number of open calls at every line, and is back at its value at the end.\<close>

lemma depths_nesting:
  "marked a \<Longrightarrow> depths (word_of_nat d) (lines_of a) = map word_of_nat (nesting d a) \<and>
     depth_after (word_of_nat d) (lines_of a) = word_of_nat d"
proof (induction a arbitrary: d)
  case (Step l)
  then show ?case by (simp add: depth_after_def entered_depth_def left_depth_def)
next
  case (Call s body e)
  have s: "entered_depth s (word_of_nat d) = word_of_nat (Suc d)" "left_depth s (word_of_nat (Suc d)) = word_of_nat (Suc d)"
    "entered_depth e (word_of_nat (Suc d)) = word_of_nat (Suc d)" "left_depth e (word_of_nat (Suc d)) = word_of_nat d"
    using Call.prems by (simp_all add: entered_depth_def left_depth_def)
  have "depths (word_of_nat (Suc d)) (concat (map lines_of body)) = map word_of_nat (concat (map (nesting (Suc d)) body)) \<and>
      depth_after (word_of_nat (Suc d)) (concat (map lines_of body)) = word_of_nat (Suc d)"
  proof (rule depths_concat)
    fix a assume a: "a \<in> set body"
    then have "marked a" using Call.prems by simp
    then show "depths (word_of_nat (Suc d)) (lines_of a) = map word_of_nat (nesting (Suc d) a) \<and>
      depth_after (word_of_nat (Suc d)) (lines_of a) = word_of_nat (Suc d)" by (rule Call.IH [OF a])
  qed
  then show ?case using s by (simp only: lines_of.simps nesting.simps depths.simps depths_append) (simp add: depth_after_def)
qed

lemma depths_activities:
  assumes "\<forall>a \<in> set acts. marked a"
  shows "depths 0 (take n (concat (map lines_of acts))) = map word_of_nat (take n (concat (map (nesting 0) acts)))"
proof -
  have "depths (word_of_nat 0) (concat (map lines_of acts)) = map word_of_nat (concat (map (nesting 0) acts)) \<and>
      depth_after (word_of_nat 0) (concat (map lines_of acts)) = word_of_nat 0"
    by (rule depths_concat, rule depths_nesting) (use assms in blast)
  then show ?thesis by (simp add: depths_take take_map)
qed

text \<open>After \<open>n\<close> lines at most \<open>n\<close> calls are open.\<close>

definition bounded_by :: "nat \<Rightarrow> nat list \<Rightarrow> bool" where
  "bounded_by d xs \<longleftrightarrow> (\<forall>j < length xs. xs ! j \<le> d + Suc j)"

lemma bounded_append: "bounded_by d xs \<Longrightarrow> bounded_by d ys \<Longrightarrow> bounded_by d (xs @ ys)"
  by (fastforce simp: bounded_by_def nth_append dest: spec [of _ "_ - length xs"])

lemma bounded_concat: "(\<And>x. x \<in> set xss \<Longrightarrow> bounded_by d x) \<Longrightarrow> bounded_by d (concat xss)"
  by (induction xss) (auto intro: bounded_append, simp add: bounded_by_def)

lemma bounded_Cons: "bounded_by (Suc d) xs \<Longrightarrow> x \<le> Suc d \<Longrightarrow> bounded_by d (x # xs)"
  by (auto simp: bounded_by_def nth_Cons split: nat.split)

lemma nesting_bounded: "bounded_by d (nesting d a)"
proof (induction a arbitrary: d)
  case (Call s body e)
  have "bounded_by (Suc d) (concat (map (nesting (Suc d)) body) @ [Suc d])"
    by (intro bounded_append bounded_concat) (use Call in \<open>auto, simp add: bounded_by_def\<close>)
  then show ?case by (simp add: bounded_Cons)
qed (simp add: bounded_by_def)

lemma nesting_small:
  assumes "x \<in> set (take n (concat (map (nesting 0) acts)))"
  shows "x \<le> length (take n (concat (map (nesting 0) acts)))"
proof -
  let ?xs = "concat (map (nesting 0) acts)"
  have b: "bounded_by 0 ?xs" by (rule bounded_concat) (auto intro: nesting_bounded)
  obtain j where "j < length (take n ?xs)" "x = take n ?xs ! j" using assms by (metis in_set_conv_nth)
  then show ?thesis using b by (force simp: bounded_by_def)
qed

section \<open>The counter during a recording\<close>

text \<open>
  The lines of the stops so far and the messages sent for them: \<open>ls\<close> are lines of the cache, the messages have their
  addresses, functions and depths, the addresses are those of the registers, and the counter has its value after them.
\<close>

definition traced :: "u64 \<Rightarrow> cached_unit list \<Rightarrow> tracer \<Rightarrow> cached_line list \<Rightarrow> user_regs step_msg list \<Rightarrow> bool" where
  "traced base units t ls ss \<longleftrightarrow>
     ch_holds (tr_insert_step t) (map (\<lambda>m. (m, step_msg_size)) ss) \<and> set ls \<subseteq> set (concat (map cu_lines units)) \<and>
     map sm_address ss = map cl_address ls \<and> map sm_func_id ss = map cl_func_id ls \<and>
     (\<forall>m \<in> set ss. sm_address m = reg_ip (sm_regs m) - 1 - base) \<and>
     map sm_depth ss = depths 0 ls \<and> tr_depth t = depth_after 0 ls \<and> tr_unit t < length units"

lemma traced_breakpoint:
  assumes "process_breakpoint re readv se t = Ret SUCCESS t'" "traced (re_base re) (re_units re) t ls ss"
  shows "\<exists>l m. traced (re_base re) (re_units re) t' (ls @ [l]) (ss @ [m])"
proof -
  obtain u i regs where s: "lookup_cache (re_units re) (tr_unit t) (reg_ip regs - 1 - re_base re) = (u, Some (Found i))"
    "tr_depth t' = left_depth (cu_lines (re_units re ! u) ! i) (entered_depth (cu_lines (re_units re ! u) ! i) (tr_depth t))"
    "tr_insert_step t' = ch_put (step_msg_at re regs (cu_lines (re_units re ! u) ! i) t, step_msg_size) (tr_insert_step t)"
    "tr_unit t' = u" using process_breakpoint_success [OF assms(1)] by metis
  let ?l = "cu_lines (re_units re ! u) ! i" and ?m = "step_msg_at re regs (cu_lines (re_units re ! u) ! i) t"
  have t: "ch_holds (tr_insert_step t) (map (\<lambda>m. (m, step_msg_size)) ss)" "set ls \<subseteq> set (concat (map cu_lines (re_units re)))"
    "\<forall>m \<in> set ss. sm_address m = reg_ip (sm_regs m) - 1 - re_base re"
    "map sm_address ss = map cl_address ls" "map sm_func_id ss = map cl_func_id ls" "map sm_depth ss = depths 0 ls"
    "tr_depth t = depth_after 0 ls" "tr_unit t < length (re_units re)" using assms(2) unfolding traced_def by blast+
  note found = lookup_found [OF s(1) t(8)]
  have "?l \<in> set (concat (map cu_lines (re_units re)))" using found(1,2) by (auto intro!: bexI [of _ "re_units re ! u"])
  moreover have "ch_holds (tr_insert_step t') (map (\<lambda>m. (m, step_msg_size)) (ss @ [?m]))"
    using chan.rep_put [OF t(1)] s(3) by simp
  moreover have "cl_address ?l = reg_ip regs - 1 - re_base re" by (rule found(3))
  ultimately have "traced (re_base re) (re_units re) t' (ls @ [?l]) (ss @ [?m])"
    using t s(2,4) found(1) by (simp add: traced_def step_msg_at_def depths_append depth_after_append) (simp add: depth_after_def)
  then show ?thesis by blast
qed

lemma deliver_keeps:
  "tr_insert_step (snd (deliver rn bt)) = tr_insert_step (snd bt) \<and> tr_depth (snd (deliver rn bt)) = tr_depth (snd bt) \<and>
   tr_unit (snd (deliver rn bt)) = tr_unit (snd bt)"
proof -
  have one: "tr_insert_step (snd (bpf_callback posted readv fresh ev bt)) = tr_insert_step (snd bt) \<and>
      tr_depth (snd (bpf_callback posted readv fresh ev bt)) = tr_depth (snd bt) \<and>
      tr_unit (snd (bpf_callback posted readv fresh ev bt)) = tr_unit (snd bt)" for posted readv fresh ev bt
    by (cases ev) (auto simp: bpf_callback_def case_prod_beta Let_def)
  have "tr_insert_step (snd (fold (\<lambda>(posted, ev). bpf_callback posted readv fresh ev) evs bt)) = tr_insert_step (snd bt) \<and>
      tr_depth (snd (fold (\<lambda>(posted, ev). bpf_callback posted readv fresh ev) evs bt)) = tr_depth (snd bt) \<and>
      tr_unit (snd (fold (\<lambda>(posted, ev). bpf_callback posted readv fresh ev) evs bt)) = tr_unit (snd bt)" for readv fresh evs
    by (induction evs arbitrary: bt) (simp_all add: one case_prod_beta)
  then show ?thesis by (simp add: deliver_def)
qed

lemma record_loop_traced:
  "record_loop re rns signo bt = Ret SUCCESS (sig, t') \<Longrightarrow> traced (re_base re) (re_units re) (snd bt) ls ss \<Longrightarrow>
   \<exists>ls' ss'. traced (re_base re) (re_units re) t' ls' ss'"
proof (induction rns arbitrary: signo bt ls ss)
  case (Cons rn rns)
  obtain b t where d: "deliver rn bt = (b, t)" by fastforce
  have t: "traced (re_base re) (re_units re) t ls ss" using deliver_keeps [of rn bt] Cons.prems(2) d by (simp add: traced_def)
  show ?case
  proof (cases "rn_cont_ok rn \<and> rn_status rn = Stopped SIGTRAP")
    case False
    then show ?thesis using Cons.prems t d by (auto split: if_splits wait_status.splits)
  next
    case True
    then obtain t1 where p: "process_breakpoint re (child_bytes (rn_mem rn)) (rn_env rn) t = Ret SUCCESS t1"
      "record_loop re rns SIGTRAP (b\<lparr>bs_sem := bs_sem b - 1\<rparr>, t1) = Ret SUCCESS (sig, t')"
      using Cons.prems(1) d by (auto split: if_splits outcome.splits status.splits)
    obtain l m where "traced (re_base re) (re_units re) t1 (ls @ [l]) (ss @ [m])" using traced_breakpoint [OF p(1) t] by blast
    then show ?thesis using Cons.IH [OF p(2)] by simp
  qed
qed simp

lemma start_db_worker_empty: "start_db_worker we = Some ch \<Longrightarrow> ch_holds ch []"
  using chan.rep_empty by (auto simp: start_db_worker_def ch_create_def split: option.splits if_splits)

lemma wait_step_rows:
  assumes "wait_step ru t = Ret SUCCESS w" "ch_holds (tr_insert_step t) (map (\<lambda>m. (m, step_msg_size)) ss)"
  shows "committed w = map step_row_of ss"
proof -
  obtain w' where "wrk_insert_step (we_sql (ru_step ru)) (snd (ch_finish sys_ok (tr_insert_step t))) = Some (SUCCESS, w')" "w = w'"
    using assms(1) by (auto simp: wait_step_def wait_db_worker_def split: option.splits if_splits)
  moreover obtain st w0 where o: "worker_open (we_sql (ru_step ru)) True 1 (worker_start :: user_regs step_row worker) = (st, w0)"
    by fastforce
  ultimately have l: "st = SUCCESS" "worker_loop (we_sql (ru_step ru)) insert_step step_msg_size (snd (ch_finish sys_ok (tr_insert_step t))) w0 =
      Some (SUCCESS, w)" by (cases st; simp add: wrk_insert_step_def)+
  then have "batch_inv insert_step [] w0" using o worker_open_inv by blast
  from worker_loop_spec [OF ch_closed_finish [OF assms(2)] this, of "we_sql (ru_step ru)"] l(2) show ?thesis
    by (auto simp: fold_insert_step)
qed

lemma cached_lines [simp]: "concat (map cu_lines (instr_cache ru units)) = concat (map cu_lines units)"
  by (simp add: instr_cache_def unwritten_unit_def comp_def)

lemma proceed_success:
  "proceed r k d = Ret SUCCESS x \<longleftrightarrow> (\<exists>s. r = Ret SUCCESS s \<and> k s = Ret SUCCESS x)"
proof (cases r)
  case (Ret st s)
  then show ?thesis by (cases st) auto
qed auto

lemma first_stop_success:
  assumes "first_stop ru re t = Ret SUCCESS t1"
  obtains mc t2 ch where "process_breakpoint re (child_bytes (ru_first_mem ru)) (ru_first_env ru) (t\<lparr>tr_cache := mc\<rparr>) = Ret SUCCESS t2"
    "t1 = t2\<lparr>tr_proc_mem := Some ch\<rparr>"
  using assms that
  by (auto simp: first_stop_def split: if_splits prod.splits status.splits outcome.splits option.splits)

text \<open>What a successful recording stores are the messages of the lines it has passed.\<close>

lemma recording_traced:
  assumes "record_program ru = Ret SUCCESS rg" "instr_cache ru units \<noteq> []"
    and "set_breakpoints (place_env ru) (ru_units ru) \<lparr>bp_base = 0, bp_code = ru_code ru\<rparr> = Some (units, bp)"
  shows "\<exists>ls ss t. traced (bp_base bp) (instr_cache ru units) t ls ss \<and> rg_steps rg = map step_row_of ss"
proof -
  obtain re t where p: "prepare ru = Some (re, t)" using assms(1) by (auto simp: record_program_def split: option.splits)
  then have re: "re_units re = instr_cache ru units" "re_base re = bp_base bp"
    and t: "ch_holds (tr_insert_step t) []" "tr_depth t = 0" "tr_unit t = 0"
    using assms(3)
    by (auto simp: prepare_def env_of_def start_tracer_def start_db_worker_empty split: if_splits prod.splits option.splits status.splits)
  obtain t1 signo t2 where run: "first_stop ru re t = Ret SUCCESS t1"
    "record_loop re (ru_rounds ru) SIGTRAP (start_bpf, t1) = Ret SUCCESS (signo, t2)" "finish_recording ru signo t2 = Ret SUCCESS rg"
    using assms(1) p by (auto simp: record_program_def proceed_success)
  obtain mc t0 ch where b: "process_breakpoint re (child_bytes (ru_first_mem ru)) (ru_first_env ru) (t\<lparr>tr_cache := mc\<rparr>) = Ret SUCCESS t0"
    "t1 = t0\<lparr>tr_proc_mem := Some ch\<rparr>" using run(1) by (rule first_stop_success)
  have "traced (re_base re) (re_units re) (t\<lparr>tr_cache := mc\<rparr>) [] []"
    using t re assms(2) by (simp add: traced_def depth_after_def)
  then obtain l m where "traced (re_base re) (re_units re) t0 [l] [m]" using traced_breakpoint [OF b(1)] by fastforce
  then have "traced (re_base re) (re_units re) (snd (start_bpf, t1)) [l] [m]" using b(2) by (auto simp: traced_def)
  then obtain ls ss where tr: "traced (re_base re) (re_units re) t2 ls ss" using record_loop_traced [OF run(2)] by blast
  then have ss: "ch_holds (tr_insert_step t2) (map (\<lambda>m. (m, step_msg_size)) ss)" by (simp add: traced_def)
  have "rg_steps rg = map step_row_of ss"
    using run(3) wait_step_rows [OF _ ss]
    by (auto simp: finish_recording_def proceed_success Let_def store_signal_def nothing_recorded_def split: if_splits)
  then show ?thesis using tr re by (intro exI [of _ ls] exI [of _ ss] exI [of _ t2]) simp
qed

text \<open>The known line at the address that a step was stored with.\<close>

definition line_of :: "cached_unit list \<Rightarrow> int \<Rightarrow> cached_line option" where
  "line_of units a = find (\<lambda>l. sint (cl_address l) = a) (concat (map cu_lines units))"

lemma find_unique: "y \<in> set xs \<Longrightarrow> P y \<Longrightarrow> \<forall>x \<in> set xs. P x \<longrightarrow> x = y \<Longrightarrow> find P xs = Some y"
proof (induction xs)
  case (Cons x xs)
  show ?case
  proof (cases "P x")
    case True
    then have "x = y" using Cons.prems(3) by (meson list.set_intros(1))
    then show ?thesis using True by simp
  next
    case False
    then have "y \<in> set xs" using Cons.prems(1,2) by (metis set_ConsD)
    moreover have "\<forall>z \<in> set xs. P z \<longrightarrow> z = y" using Cons.prems(3) by (meson list.set_intros(2))
    ultimately have "find P xs = Some y" using Cons.IH Cons.prems(2) by blast
    then show ?thesis using False by simp
  qed
qed simp

lemma line_of_line:
  assumes "distinct (map cl_address (concat (map cu_lines units)))" "l \<in> set (concat (map cu_lines units))"
  shows "line_of units (sint (cl_address l)) = Some l"
proof -
  have "x = l" if "x \<in> set (concat (map cu_lines units))" "sint (cl_address x) = sint (cl_address l)" for x
    using that assms by (metis distinct_map inj_onD word_of_sint)
  then show ?thesis unfolding line_of_def by (intro find_unique [OF assms(2)]) (rule refl, blast)
qed

lemma lines_of_rows:
  assumes "traced base (instr_cache ru units) t ls ss" "distinct (map cl_address (concat (map cu_lines units)))"
  shows "map (\<lambda>r. line_of units (st_address r)) (map step_row_of ss) = map Some ls"
proof -
  have "map (\<lambda>r. line_of units (st_address r)) (map step_row_of ss) = map (\<lambda>a. line_of units (sint a)) (map sm_address ss)"
    by (simp add: step_row_of_def)
  also have "\<dots> = map (\<lambda>l. line_of units (sint (cl_address l))) ls" using assms(1) by (simp add: traced_def)
  also have "\<dots> = map Some ls"
    using assms line_of_line by (auto simp: traced_def simp del: set_concat)
  finally show ?thesis .
qed

text \<open>The depths of a recording, for a program whose stops are at the lines of some activities, up to its end.\<close>

lemma recording_depths:
  assumes rec: "record_program ru = Ret SUCCESS rg"
    and bp: "set_breakpoints (place_env ru) (ru_units ru) \<lparr>bp_base = 0, bp_code = ru_code ru\<rparr> = Some (units, bp)"
    and addr: "distinct (map cl_address (concat (map cu_lines units)))" and mark: "\<forall>a \<in> set acts. marked a"
    and lines: "map (\<lambda>r. line_of units (st_address r)) (rg_steps rg) = map Some (take n (concat (map lines_of acts)))"
    and few: "length (rg_steps rg) < 2 ^ 63"
  shows "map st_depth (rg_steps rg) = map int (take n (concat (map (nesting 0) acts)))"
proof -
  let ?ls = "take n (concat (map lines_of acts))" and ?ns = "take n (concat (map (nesting 0) acts))"
  have d: "depths 0 ?ls = map word_of_nat ?ns" using mark by (rule depths_activities)
  have "length (depths e xs) = length xs" for e xs by (induction xs arbitrary: e) simp_all
  then have len: "length ?ns = length (rg_steps rg)" using d lines by (metis length_map)
  show ?thesis
  proof (cases "instr_cache ru units = []")
    case True
    then have "units = []" by (simp add: instr_cache_def)
    then have "rg_steps rg = []" using lines by (cases "rg_steps rg") (auto simp: line_of_def)
    then show ?thesis using len by (metis length_0_conv list.map_disc_iff)
  next
    case False
    from recording_traced [OF rec this bp] obtain ls ss t where
      t: "traced (bp_base bp) (instr_cache ru units) t ls ss" "rg_steps rg = map step_row_of ss" by blast
    have "map Some ls = map Some ?ls" using lines_of_rows [OF t(1) addr] lines t(2) by simp
    then have "ls = ?ls" by (simp add: inj_map_eq_map)
    then have "map sm_depth ss = map word_of_nat ?ns" using t(1) d by (simp add: traced_def)
    moreover have "sint (word_of_nat x :: u64) = int x" if "x \<in> set ?ns" for x
      using nesting_small [OF that, unfolded len] few by (intro sint_word_of_nat_small) simp
    ultimately have "map sint (map sm_depth ss) = map int ?ns" by simp
    then show ?thesis using t(2) by (simp add: step_row_of_def comp_def)
  qed
qed

end
