(* ===== verification/Spec2Isabelle.thy ===== *)
theory Spec2Isabelle
  imports Breakpoints Examine Dab Type_Names Preload Reset_Dirty Alter_Db Call_Depth
begin

text \<open>
  \<^bold>\<open>The flight recorder.\<close>  The program records the execution of a C program and lets a debugger travel in time through the
  recording.  It has two halves.  The recorder (\<^verbatim>\<open>src/record\<close>) collects the debug information of the program into a
  database, starts the program under \<^verbatim>\<open>ptrace\<close> with a trap on every source line, and at each stop stores the step (registers,
  address, depth of the stack), the heap events and the segments of memory that changed since the previous stop.  The examiner
  (\<^verbatim>\<open>src/examine\<close>) answers the requests of a debugger (stepping in both directions, breakpoints, the stack, variables and
  expressions) from that database alone.  Both stand on small libraries: \<^verbatim>\<open>src/dab\<close> (SQLite), \<^verbatim>\<open>src/stingray\<close> (managed
  strings) and \<^verbatim>\<open>src/jsonapi\<close>.

  \<^bold>\<open>Conventions.\<close>  A structure is a record, a tagged value a datatype, an unsigned long a \<open>64 word\<close>; a value stored in the
  database is the signed integer with the same bits, as \<^verbatim>\<open>sqlite3_bind_int64\<close> stores it.  Status codes are values.  In an
  optional result \<open>None\<close> is undefined behaviour, a crash or a call that never returns, which the accompanying text says.
  Code outside of the sources (SQLite, libdwarf, json-c, the kernel, the C library where its result is not determined) is an
  argument: a record of functions, or the outcome of the n-th call.  A table is the list of its rows in the order of
  insertion, a query the list of the rows it yields.

  \<^bold>\<open>The recorder.\<close>
  \<^item> \<open>Dbginfo\<close> (\<^verbatim>\<open>record/dbginfo.c\<close>): the walk over debug information entries, one function per function of the source
    (\<open>proc_unit\<close>, \<open>proc_lines\<close>, \<open>proc_symbols\<close>, \<open>proc_func\<close>, \<open>proc_block\<close>, \<open>proc_var\<close> and those for types), on the tables of
    \<^verbatim>\<open>record/db.c\<close>; the walk keeps the tables consistent (\<open>walk_link\<close>) and a failed unit leaves nothing behind.
  \<^item> \<open>Alter_Db\<close> (\<^verbatim>\<open>record/db.c\<close>, \<^verbatim>\<open>dbg_srcinfo\<close>): the statements of \<^verbatim>\<open>alter_db\<close> one by one; lines get their innermost
    scope, \<^verbatim>\<open>scope_ancestor\<close> is the transitive closure of the parents, and a type of unknown encoding makes everything fail.
  \<^item> \<open>Paths\<close> (\<^verbatim>\<open>get_abs_path\<close> of \<^verbatim>\<open>record/record.c\<close>): absolute paths.
  \<^item> \<open>Line_Cache\<close>, \<open>Breakpoints\<close>, \<open>Run\<close> (\<^verbatim>\<open>record/run.c\<close>): the cache of lines with its interpolation search, placing traps,
    and the processing of a stop (\<open>process_breakpoint\<close>: memory, registers, depth, heap events, stepping over the trap), of
    kernel events, and of a sequence of stops (\<open>record_run\<close>).  The instruction that is stepped over runs on the code as it
    is at that moment (\<open>se_step_exec\<close>), so that the original byte has to be back in place.
  \<^item> \<open>Memdiff\<close>, \<open>Memcache\<close> (\<^verbatim>\<open>record/memdiff.c\<close>, \<^verbatim>\<open>record/memcache.c\<close>): comparing memory, the recorder's copy of the memory
    of the program and the messages for changed segments.  The locale \<open>mem_compare\<close> is the contract of a comparison routine;
    it is interpreted on the scalar, SSE2 and AVX2 routines and on the selection.
  \<^item> \<open>Proc_Maps\<close> (\<^verbatim>\<open>init_cache\<close>, \<^verbatim>\<open>get_base_address\<close>): reading \<^verbatim>\<open>/proc/pid/maps\<close>.
  \<^item> \<open>Recorder\<close> (\<^verbatim>\<open>record\<close> of \<^verbatim>\<open>record/run.c\<close>): the start, the first stop, the loop over the stops and the end, in the order
    of the code (\<open>prepare\<close>, \<open>first_stop\<close>, \<open>record_loop\<close>, \<open>finish_recording\<close>, together \<open>record_program\<close>); the child and the
    outcomes of system calls are the input.  The array of units has an entry for every unit that was counted, unwritten for
    those without statements (\<open>instr_cache\<close>).  \<open>Call_Depth\<close> has the nested calls that the stops of a recording follow, and the
    depth of the steps.
  \<^item> \<open>Channel\<close> (\<^verbatim>\<open>record/channel.c\<close>): the linked list between threads.  The locale \<open>fifo\<close> is the abstract queue, interpreted on
    the list; an inductive step relation has every interleaving of writers and reader.
  \<^item> \<open>Db_Workers\<close> (\<^verbatim>\<open>record/db_workers.c\<close>): the threads that store steps, heap events and memory in batches.
  \<^item> \<open>Preload\<close> (\<^verbatim>\<open>record/preload.c\<close>): the allocation functions that report to the recorder through a pipe.
  \<^item> \<open>Reset_Dirty\<close> (\<^verbatim>\<open>record/reset_dirty.c\<close>): the thread that resets the soft-dirty bits, as a step relation.

  \<^bold>\<open>The examiner.\<close>
  \<^item> \<open>Comms\<close>, \<open>Jsonapi\<close> (\<^verbatim>\<open>examine/comms.c\<close>, \<^verbatim>\<open>jsonapi/jsonapi.h\<close>): framing of messages and access to JSON values.
  \<^item> \<open>Navigation\<close>, \<open>Requests\<close> (\<^verbatim>\<open>examine/requests.c\<close>): commands that move, breakpoints, the stack.  The locale
    \<open>forward_command\<close> is what \<open>next\<close>, \<open>stepIn\<close> and \<open>stepOut\<close> share; \<open>repeatable_command\<close> extends it.
  \<^item> \<open>Vars\<close>, \<open>Inspect\<close>, \<open>Location\<close> (\<^verbatim>\<open>examine/vars.c\<close>): reading recorded memory, showing variables, addresses.  The locale
    \<open>reference_store\<close> is the contract of the table of references, interpreted on the table.
  \<^item> \<open>Expression\<close> (\<^verbatim>\<open>examine/expressions\<close>): trees, their construction by the grammar's helpers, their evaluation, and the cache
    of expressions.  \<open>value_of\<close> is the arithmetic of integer expressions as the debugger means it.
  \<^item> \<open>Examine\<close> (\<^verbatim>\<open>examine/examine.c\<close> and the rest of \<^verbatim>\<open>requests.c\<close>): dispatch of requests and the loop of a connection,
    with a \<open>launch\<close> over an open recording, after which prepared statements read the first one.

  \<^bold>\<open>Libraries.\<close>
  \<^item> \<open>Stingray\<close> (\<^verbatim>\<open>stingray\<close>): managed strings on an explicit buffer.  The locale \<open>text_buffer\<close> is the contract of a buffer to
    which text is appended; \<open>Type_Names\<close> uses it for the names of types.  \<open>vsprintf\<close> interprets the format that \<^verbatim>\<open>sr_concat\<close>
    builds.
  \<^item> \<open>Dab\<close> (\<^verbatim>\<open>dab/dab.c\<close>): keys and handles per thread, parameters and columns (managed strings too), transactions, over a
    record of SQLite's functions.
  \<^item> \<open>Fr_Prelude\<close>: machine types, byte buffers, facts on words; its collections are \<open>buf_simps\<close> and \<open>addr_simps\<close>.

  \<^bold>\<open>What is shown.\<close>  The central theorem, \<open>whole_recording\<close> below, composes all of the recorder with the workers and the
  examiner: reading memory
  at a recorded step gives the bytes that the program had there.  Around it: the cache and the log follow the memory of the
  program when page faults cover its changes; the program executes its own instructions and finds no trap in their place; no
  message is lost between threads; the depth of a step is the number of open calls; stepping goes where a debugger expects and
  terminates; every request gets one answer; after a launch positions are recorded steps; variables and references have the
  recorded values, and expressions those of 64-bit arithmetic, which are C's where no conversion matters.  Each theorem states
  its restrictions in the text before it.  The theorems that show how the code departs from what it means to do are listed as findings.

  \<^bold>\<open>Bounds and fuel.\<close>  Loops over lists and trees are structural.  The recursive queries of SQLite use as fuel the number of
  rows, enough because a path without repetition is not longer (\<open>scopes_around_trancl\<close>).  The searches of the line cache and of
  the memory cache have the interval as measure, the loops over a connection the bytes that are left, the worker the messages
  in its finished channel, and the walk over debug information the size of the tree.  \<open>ch_destroy\<close> has as fuel one more than the
  number of nodes ever allocated, which \<open>ch_destroy_loop_frees\<close> shows to be enough.  Integers have their width wherever they can wrap.

  \<^bold>\<open>Not modelled.\<close>  The command lines (\<^verbatim>\<open>main\<close> of \<^verbatim>\<open>record.c\<close> and \<^verbatim>\<open>examine.c\<close>), opening the listening socket
  (\<^verbatim>\<open>init_comms\<close>), logging (\<^verbatim>\<open>eel\<close>, not part of the repository) and releasing the memory of libdwarf have no logic of their
  own.  \<^verbatim>\<open>bpf.c\<close> hands a program to the kernel; what it reports is an input of \<open>Run\<close>.  The handlers that would mix two connections after a second \<open>launch\<close> have
  no result (\<open>handle\<close>), and \<^verbatim>\<open>malloc\<close> is taken to succeed where channels and workers are created.  Of \<^verbatim>\<open>record\<close> the branch of the child
  process, which ends in \<^verbatim>\<open>execvp\<close>, is left out, and the workers are taken to read their channels after the last message, which
  by \<open>channel_interleaving_safe\<close> gives them the same messages as reading while they are written.  The lexer's and parser's tables and
  the hash of commands are generated.  The tester (\<^verbatim>\<open>src/tester\<close>, \<^verbatim>\<open>src/test\<close>), its scripts and the extensions for editors
  are tools beside the program.
\<close>

section \<open>From the recording to the examination\<close>

text \<open>
  Time travel: record any number of stops of a child whose reported page faults cover its memory
  changes, let the memory worker write the messages to a working database, and read memory at a step of
  the recording.  For every stop that is not at the first line of a function, \<open>get_var_value\<close> on the database
  returns exactly the bytes that the child had in memory at that stop.
\<close>

theorem recording_time_travel:
  assumes "rec_ok re b" "rec_inv re t lg cm pend" "stops_good re (mc_regions (tr_cache t)) cm sis"
    and "unat (tr_step_id t) + length sis < 2 ^ 63" "\<forall>r \<in> set (mc_regions (tr_cache t)). unat (reg_end r) \<le> 2 ^ 63"
    and "healthy out" "j < length sis" "cl_func_flag (stop_line re (sis ! j)) \<noteq> FUNC_FLAG_START"
    and "32 \<le> unat addr" "unat addr + unat sz < 2 ^ 63"
    and "\<And>i. i < unat sz \<Longrightarrow> cache_byte (mc_regions (tr_cache t)) (addr + word_of_nat i) \<noteq> None"
  shows "\<exists>t' w. record_run re b sis t = Some t' \<and>
    wrk_insert_mem out True (snd (ch_finish sys_ok (mc_insert (tr_cache t')))) = Some (SUCCESS, w) \<and>
    get_var_value DAB_OK DAB_NO_DATA (the (exported w)) addr sz (tr_step_id t + word_of_nat (Suc j)) =
      Some (Some (child_bytes (si_mem (sis ! j)) addr (unat sz) @ [0]))"
proof -
  obtain t' lg' where run: "record_run re b sis t = Some t'"
    "ch_holds (mc_insert (tr_cache t')) (sized (lg @ lg'))"
    "log_inv (layout (mc_regions (tr_cache t))) (tr_step_id t') (lg @ lg')"
    "unat (tr_step_id t') = unat (tr_step_id t) + length sis"
    "\<And>a. cache_byte (mc_regions (tr_cache t)) a \<noteq> None \<Longrightarrow>
        recorded (upto_step (tr_step_id t + word_of_nat (Suc j)) (lg @ lg')) a = Some (si_mem (sis ! j) a)"
    using record_run_inv [OF assms(1-4)] assms(7,8) by blast
  let ?lg = "lg @ lg'" and ?s = "tr_step_id t + word_of_nat (Suc j)"
  have "cache_wf (re_psz re) (mc_regions (tr_cache t))" using assms(2) by (auto simp: rec_inv_def Let_def)
  then have ok: "log_ok ?lg" using log_inv_ok [OF run(3)] run(4) assms(4,5) by simp
  have "ch_closed (snd (ch_finish sys_ok (mc_insert (tr_cache t')))) ?lg mem_msg_size"
    using run(2) by (intro ch_closed_finish) (simp add: sized_def)
  from wrk_insert_mem_all [OF assms(6) this log_inv_keys [OF run(3)]]
  obtain w where w: "wrk_insert_mem out True (snd (ch_finish sys_ok (mc_insert (tr_cache t')))) = Some (SUCCESS, w)"
    "exported w = Some (map mem_row_of ?lg)" by blast
  have us: "unat ?s < 2 ^ 63"
    using unat_add_offset [of "tr_step_id t" "Suc j"] assms(4,7) by simp
  have bytes: "recorded (upto_step ?s ?lg) (addr + word_of_nat i) = Some (si_mem (sis ! j) (addr + word_of_nat i))"
    if "i < unat sz" for i
    using run(5) assms(11) [OF that] by blast
  then have "get_var_value DAB_OK DAB_NO_DATA (map mem_row_of ?lg) addr sz ?s =
      Some (Some (map (\<lambda>i. the (recorded (upto_step ?s ?lg) (addr + word_of_nat i))) [0..<unat sz] @ [0]))"
    using get_var_value_reads [OF ok us assms(9,10)] by simp
  moreover have "map (\<lambda>i. the (recorded (upto_step ?s ?lg) (addr + word_of_nat i))) [0..<unat sz] =
      child_bytes (si_mem (sis ! j)) addr (unat sz)"
    using bytes by (simp add: child_bytes_def)
  ultimately show ?thesis using run(1) w by simp
qed

lemma zero_bytes: "child_bytes (\<lambda>a. 0) a n = replicate n 0"
  unfolding child_bytes_def map_replicate_const length_upt by simp

lemma sample_regions: "mc_regions (tr_cache sample_tracer) = mc_regions sample_cache"
proof -
  have "tr_cache sample_tracer = cache_add_region (child_bytes (\<lambda>a. 0)) (replicate 64 0) 64 64 1
      \<lparr>mc_regions = [], mc_insert = the (ch_create True True)\<rparr>" by (simp add: sample_tracer_def)
  also have "mc_regions \<dots> = [\<lparr>reg_start = 64, reg_end = 64 + 64, reg_pages = replicate 64 0\<rparr>]"
    by (subst cache_add_region_eq [where cm = "\<lambda>a. 0"]) (simp_all add: zero_bytes)
  finally show ?thesis by (simp add: sample_cache_def)
qed

lemma sample_cached: "cache_byte (mc_regions sample_cache) a = (if 64 \<le> unat a \<and> unat a < 128 then Some 0 else None)"
proof -
  have in_it: "in_region a (mc_regions sample_cache ! 0) \<longleftrightarrow> 64 \<le> unat a \<and> unat a < 128"
    by (simp add: sample_cache_def in_region_def u64_le_unat u64_less_unat)
  have one: "set (mc_regions sample_cache) = {mc_regions sample_cache ! 0}" by (simp add: sample_cache_def)
  show ?thesis
  proof (cases "64 \<le> unat a \<and> unat a < 128")
    case True
    have "unat a - 64 < 64" using True by linarith
    then have "reg_pages (mc_regions sample_cache ! 0) ! (unat a - 64) = 0" by (simp add: sample_cache_def)
    moreover have "unat (reg_start (mc_regions sample_cache ! 0)) = 64" by (simp add: sample_cache_def)
    moreover have "0 < length (mc_regions sample_cache)" by (simp add: sample_cache_def)
    ultimately show ?thesis using True in_it cache_byte_in [OF sample_cache_wf, of 0 a] by simp
  next
    case False
    then have "cache_byte (mc_regions sample_cache) a = None" unfolding cache_byte_None one using in_it by blast
    then show ?thesis using False by simp
  qed
qed

lemma sample_page: "same_page 64 (mc_regions sample_cache) 100 a \<longleftrightarrow> 64 \<le> unat a \<and> unat a < 128"
proof -
  have "in_region 100 (mc_regions sample_cache ! 0)" by (simp add: sample_cache_def in_region_def)
  from same_page_range [OF sample_cache_wf _ this, of a] show ?thesis
    by (simp add: sample_cache_def page_at_def)
qed

lemma sample_rec_inv:
  "rec_inv sample_env sample_tracer [seg_msg 64 1 (child_bytes (\<lambda>a. 0) 64 64) 0, seg_msg 64 1 (child_bytes (\<lambda>a. 0) 64 64) 1]
     (\<lambda>a. 0) []"
proof -
  let ?lg = "map (seg_msg 64 1 (child_bytes (\<lambda>a. 0) 64 64)) [0..<2]"
  have lg: "[seg_msg 64 1 (child_bytes (\<lambda>a. 0) 64 64) 0, seg_msg 64 1 (child_bytes (\<lambda>a. 0) 64 64) 1] = ?lg"
    by (simp add: upt_rec)
  have "mc_insert (tr_cache sample_tracer) =
      add_region_loop 64 (32 * 2) 1 (child_bytes (\<lambda>a. 0) 64 64) (32 * 0) (the (ch_create True True))"
    by (simp add: sample_tracer_def cache_add_region_def Let_def overwrite_def)
  moreover have "ch_holds (add_region_loop 64 (32 * 2) 1 (child_bytes (\<lambda>a. 0) 64 64) (32 * 0) (the (ch_create True True)))
      (sized ([] @ ?lg))"
    using chan.rep_empty by (intro add_region_loop_spec) simp_all
  ultimately have holds: "ch_holds (mc_insert (tr_cache sample_tracer)) (sized ?lg)" by simp
  have rec: "recorded ?lg a = (if 64 \<le> unat a \<and> unat a < 128 then Some 0 else None)" for a :: u64
  proof -
    have "recorded ?lg a = (if \<exists>k \<in> set [0..<2]. unat (64 :: u64) + 32 * k \<le> unat a \<and> unat a < unat (64 :: u64) + 32 * k + 32
        then Some (child_bytes (\<lambda>a. 0) 64 64 ! (unat a - unat (64 :: u64))) else None)"
      unfolding recorded_def by (rule replay_segs) auto
    moreover have "(\<exists>k \<in> set [0..<2]. unat (64 :: u64) + 32 * k \<le> unat a \<and> unat a < unat (64 :: u64) + 32 * k + 32)
        \<longleftrightarrow> 64 \<le> unat a \<and> unat a < 128" by (auto simp: upt_rec)
    moreover have "child_bytes (\<lambda>a. 0) 64 64 ! (unat a - unat (64 :: u64)) = 0" if "64 \<le> unat a \<and> unat a < 128"
    proof -
      have "unat a - unat (64 :: u64) < 64" using that by simp linarith
      then show ?thesis by (rule nth_child_bytes)
    qed
    ultimately show ?thesis by simp
  qed
  then have "cache_logged (mc_regions sample_cache) ?lg" by (simp add: cache_logged_def sample_cached)
  moreover have "log_inv (layout (mc_regions sample_cache)) 1 ?lg"
    by (simp add: log_inv_def sample_cache_def layout_def on_grid_def seg_msg_def length_slice upt_rec)
  ultimately show ?thesis
    unfolding lg rec_inv_def Let_def sample_regions
    using holds sample_cache_wf chan.rep_empty
    by (simp add: sample_env_def sample_tracer_def sample_units_def sample_cached)
qed

theorem recording_time_travel_witness:
  "\<exists>t' w. record_run sample_env sample_bpf [sample_stop] sample_tracer = Some t' \<and>
    wrk_insert_mem (\<lambda>n. wanted) True (snd (ch_finish sys_ok (mc_insert (tr_cache t')))) = Some (SUCCESS, w) \<and>
    get_var_value DAB_OK DAB_NO_DATA (the (exported w)) 90 10 (tr_step_id sample_tracer + word_of_nat (Suc 0)) =
      Some (Some (child_bytes (si_mem ([sample_stop] ! 0)) 90 (unat (10 :: u64)) @ [0]))"
proof (rule recording_time_travel [OF _ sample_rec_inv])
  show "rec_ok sample_env sample_bpf"
    by (auto simp: rec_ok_def sample_env_def sample_bpf_def sample_units_def units_ok_def unit_ok_def lines_ok_def
        sample_line_def)
  show "stops_good sample_env (mc_regions (tr_cache sample_tracer)) (\<lambda>a. 0) [sample_stop]"
    unfolding sample_regions
    by (simp add: stop_good_def sample_stop_def sample_env_def sample_units_def stop_ok_def stop_line_def sample_line_def
        sample_cached sample_page spares_def)
  show "\<forall>r \<in> set (mc_regions (tr_cache sample_tracer)). unat (reg_end r) \<le> 2 ^ 63"
    unfolding sample_regions by (simp add: sample_cache_def)
  show "cache_byte (mc_regions (tr_cache sample_tracer)) (90 + word_of_nat i) \<noteq> None" if "i < unat (10 :: u64)" for i
    unfolding sample_regions sample_cached using that unat_add_offset [of 90 i] by simp
  show "cl_func_flag (stop_line sample_env ([sample_stop] ! 0)) \<noteq> FUNC_FLAG_START"
    by (simp add: stop_line_def sample_env_def sample_units_def sample_stop_def sample_line_def FUNC_FLAG_START_def)
qed (simp_all add: healthy_def sample_tracer_def)


text \<open>
  C1.  A whole recording.  Let the traps be placed, every unit that was counted have statements, those of the stops at least
  two, the calls of the system succeed, the maps be as the kernel prints them with the watched mappings aligned to pages and
  below \<open>2 ^ 63\<close>, the first stop be at the first line of a function, and the child stop at known lines until it exits, without
  system calls that map memory or move the break between the first stop and its end, and with every change of its memory in a
  page for which a fault is reported.  Then \<^verbatim>\<open>record\<close> returns successfully (it neither blocks nor crashes), the database has the
  steps from 1 with the registers of each stop and no signal, and reading memory of the heap, the stack, the program or a
  region without file at the step of any stop that is not at the first line of a function gives the bytes that the child had
  there at that stop.
\<close>

theorem whole_recording:
  assumes "calls_ok ru" "set_breakpoints (place_env ru) (ru_units ru) \<lparr>bp_base = 0, bp_code = ru_code ru\<rparr> = Some (units, bp)"
    and "re = env_of ru units bp" "rec_ok re start_bpf" "first_good ru re exe ms k p" "pages_ok (ru_psz ru) exe ms"
    and "rounds_end ru rns" "rounds_good re exe ms (ru_first_mem ru) rns uis" "length rns + 1 < 2 ^ 63"
  shows "\<exists>rg. record_program ru = Ret SUCCESS rg \<and> rg_exit_signal rg = None \<and>
    map st_id (rg_steps rg) = map int [1..<length rns + 2] \<and>
    map (Some \<circ> st_regs) (rg_steps rg) = se_regs (ru_first_env ru) # map (se_regs \<circ> rn_env) rns \<and>
    (\<forall>j addr sz. j < length rns \<longrightarrow>
       cl_func_flag (cu_lines (re_units re ! fst (uis ! j)) ! snd (uis ! j)) \<noteq> FUNC_FLAG_START \<longrightarrow>
       32 \<le> unat addr \<longrightarrow> unat addr + unat sz < 2 ^ 63 \<longrightarrow> (\<forall>i < unat sz. in_mapping exe ms (addr + word_of_nat i)) \<longrightarrow>
       get_var_value DAB_OK DAB_NO_DATA (rg_mem rg) addr sz (word_of_nat (j + 2)) =
         Some (Some (child_bytes (rn_mem (rns ! j)) addr (unat sz) @ [0])))"
proof -
  obtain ss hs lg c s where r: "record_program ru =
      Ret SUCCESS \<lparr>rg_steps = map step_row_of ss, rg_heap = fold insert_heap hs [], rg_mem = map mem_row_of lg, rg_exit_signal = None\<rparr>"
    "map st_id (map step_row_of ss) = map int [1..<length rns + 2]"
    "map (Some \<circ> sm_regs) ss = se_regs (ru_first_env ru) # map (se_regs \<circ> rn_env) rns"
    "cache_wf (ru_psz ru) c" "\<forall>r \<in> set c. unat (reg_end r) \<le> 2 ^ 63" "log_inv (layout c) s lg" "unat s < 2 ^ 63"
    and sync: "\<And>j a. j < length rns \<Longrightarrow> cl_func_flag (cu_lines (re_units re ! fst (uis ! j)) ! snd (uis ! j)) \<noteq> FUNC_FLAG_START \<Longrightarrow>
      in_mapping exe ms a \<Longrightarrow> recorded (upto_step (word_of_nat (j + 2)) lg) a = Some (rn_mem (rns ! j) a)"
    using recording_succeeds [OF assms] by (elim exE conjE) (rule that, (assumption | blast)+)
  have "unat (word_of_nat (j + 2) :: u64) < 2 ^ 63" if "j < length rns" for j
    using that assms(9) by (subst unat_word_of_nat_small) simp_all
  then have "get_var_value DAB_OK DAB_NO_DATA (map mem_row_of lg) addr sz (word_of_nat (j + 2)) =
      Some (Some (child_bytes (rn_mem (rns ! j)) addr (unat sz) @ [0]))"
    if "j < length rns" "cl_func_flag (cu_lines (re_units re ! fst (uis ! j)) ! snd (uis ! j)) \<noteq> FUNC_FLAG_START"
      "32 \<le> unat addr" "unat addr + unat sz < 2 ^ 63" "\<forall>i < unat sz. in_mapping exe ms (addr + word_of_nat i)" for j addr and sz :: u64
    using log_reads [OF r(6,4,5,7), of "word_of_nat (j + 2)" addr sz "rn_mem (rns ! j)"] that sync by simp
  then show ?thesis using r(1-3) by (simp add: step_row_of_def comp_def)
qed

text \<open>
  C23.  Call depth: let the stops of a successful recording be at the lines of a sequence of activities, nested as the program
  made its calls (a call is the first line of a function, what happens in it, and its last line), up to the point where the
  program ended.  Then the depth stored with every step is the number of calls that are open at it.
\<close>

theorem recorded_depth:
  assumes "record_program ru = Ret SUCCESS rg"
    and "set_breakpoints (place_env ru) (ru_units ru) \<lparr>bp_base = 0, bp_code = ru_code ru\<rparr> = Some (units, bp)"
    and "distinct (map cl_address (concat (map cu_lines units)))" "\<forall>a \<in> set acts. marked a"
    and "map (\<lambda>r. line_of units (st_address r)) (rg_steps rg) = map Some (take n (concat (map lines_of acts)))"
    and "length (rg_steps rg) < 2 ^ 63"
  shows "map st_depth (rg_steps rg) = map int (take n (concat (map (nesting 0) acts)))"
  using assms by (rule recording_depths)

definition sample_traps :: "cached_unit list" where
  "sample_traps = [\<lparr>cu_start = 16, cu_end = 32,
     cu_lines = [\<lparr>cl_address = 16, cl_func_id = 1, cl_func_flag = 1, cl_org_instr_byte = 0x90\<rparr>,
                 \<lparr>cl_address = 32, cl_func_id = 1, cl_func_flag = 2, cl_org_instr_byte = 0x90\<rparr>]\<rparr>]"

definition sample_at :: "u64 \<Rightarrow> stop_env" where
  "sample_at pc = (si_env sample_stop)\<lparr>se_regs := Some \<lparr>reg_gpr = [], reg_ip = pc + 1\<rparr>\<rparr>"

definition sample_worker :: worker_env where
  "sample_worker = \<lparr>we_sem_ok = True, we_mutex_ok = True, we_thread_ok = True, we_join_ok = True, we_sql = (\<lambda>n. wanted), we_chown_ok = True\<rparr>"

definition sample_round :: round where
  "sample_round = \<lparr>rn_cont_ok = True, rn_status = Stopped SIGTRAP,
     rn_events = [(True, BPF_EVT_PAGEFAULT 0x1010), (True, BPF_EVT_SIGNAL SIGTRAP)], rn_sem_ok = True, rn_env = sample_at 32,
     rn_mem = (\<lambda>a. 7), rn_fresh = (\<lambda>n. replicate n 0)\<rparr>"

definition sample_exit :: round where
  "sample_exit = sample_round\<lparr>rn_status := Exited, rn_events := [(True, BPF_EVT_SIGNAL SIGTRAP)]\<rparr>"

definition sample_run :: run_env where
  "sample_run = \<lparr>ru_fifo_made = True, ru_fifo_chown = True, ru_fifo_open = True, ru_code = (\<lambda>a. 0x90), ru_exe = Some ''/p'',
     ru_maps_start = None, ru_stale = CHR 0x00, ru_bp = sample_bp_env\<lparr>be_readable := \<lambda>a. True\<rparr>, ru_units = sample_rows,
     ru_unit_count = 1, ru_unwritten = (\<lambda>_. (0, 0)),
     ru_reset = (True, True, True, True), ru_step = sample_worker, ru_heap = sample_worker, ru_mem = sample_worker,
     ru_cont_ok = True, ru_first_status = Stopped SIGTRAP, ru_maps = Some (concat (map render [sample_map])),
     ru_first_env = sample_at 16, ru_first_mem = (\<lambda>a. 0), ru_fresh = (\<lambda>n. replicate n 0), ru_proc_sem = True,
     ru_proc_mutex = True, ru_bpf_sem = True, ru_bpf_ok = True, ru_psz = 64, ru_memdiff = re_memdiff sample_env,
     ru_stk = replicate 64 0, ru_rounds = [sample_round, sample_exit], ru_reopen_ok = True, ru_signal_ok = True\<rparr>"

lemma sample_place:
  "\<exists>bp. set_breakpoints (place_env sample_run) (ru_units sample_run) \<lparr>bp_base = 0, bp_code = ru_code sample_run\<rparr> = Some (sample_traps, bp) \<and>
     bp_base bp = 0"
proof -
  have b: "poke code pos (with_low_byte (peek code pos) INT3) = code(pos := 0xCC)" for code pos
    using poke_low_byte [of code pos code "0xCC"] by (simp add: INT3_def)
  show ?thesis
    unfolding set_breakpoints_def place_env_def sample_run_def sample_bp_env_def sample_rows_def sample_traps_def
    by (simp add: set_line_def line_base_def Let_def peek_low_byte b)
qed

lemma sample_good:
  assumes "bp_base bp = 0"
  defines "re \<equiv> env_of sample_run sample_traps bp"
  shows "calls_ok sample_run" "rec_ok re start_bpf" "first_good sample_run re ''/p'' [sample_map] 0 0"
    "pages_ok (ru_psz sample_run) ''/p'' [sample_map]" "rounds_end sample_run [sample_round]"
    "rounds_good re ''/p'' [sample_map] (ru_first_mem sample_run) [sample_round] [(0, 1)]" "length [sample_round] + 1 < 2 ^ 63"
    "re_units re = sample_traps" "in_mapping ''/p'' [sample_map] a \<longleftrightarrow> 0x1000 \<le> a \<and> a < 0x1040"
proof -
  show units: "re_units re = sample_traps" by (simp add: re_def env_of_def instr_cache_def sample_run_def sample_traps_def)
  have base: "re_base re = 0" "re_psz re = 64" using assms(1) by (simp_all add: re_def env_of_def sample_run_def)
  show "calls_ok sample_run" by (simp add: calls_ok_def worker_ok_def sample_run_def sample_worker_def healthy_def)
  show "rec_ok re start_bpf" using units
    by (auto simp: rec_ok_def re_def env_of_def sample_run_def sample_env_def start_bpf_def units_ok_def unit_ok_def lines_ok_def sample_traps_def)
  have at: "known_stop re (sample_at (cl_address (cu_lines (sample_traps ! 0) ! i))) 0 i" if "i < 2" for i
    using that base unfolding known_stop_def units
    by (simp add: sample_at_def sample_stop_def stop_ok_def spares_def) (simp add: sample_traps_def)
  show "first_good sample_run re ''/p'' [sample_map] 0 0"
    using at [of 0] sample_map_text base unfolding first_good_def units
    by (simp add: sample_run_def mappings_ok_def) (simp add: sample_map_def sample_traps_def FUNC_FLAG_START_def)
  show "pages_ok (ru_psz sample_run) ''/p'' [sample_map]" by (simp add: pages_ok_def sample_run_def sample_map_def)
  show "rounds_end sample_run [sample_round]"
    by (simp add: rounds_end_def sample_run_def sample_exit_def sample_round_def quiet_def traps_def)
  show mapped: "in_mapping ''/p'' [sample_map] a \<longleftrightarrow> 0x1000 \<le> a \<and> a < 0x1040" for a
    by (simp add: in_mapping_def sample_map_def watched_def)
  have page: "unat a div 64 = 64" if "0x1000 \<le> a" "a < 0x1040" for a :: u64
    using that by (intro div_nat_eqI) (simp_all add: u64_le_unat u64_less_unat)
  have "changes_reported 64 ''/p'' [sample_map] (\<lambda>a. 0) sample_round"
    unfolding changes_reported_def mapped by (simp add: page faults_of_def sample_round_def)
  moreover have "known_stop re (sample_at 32) 0 1" using at [of 1] by (simp add: sample_traps_def)
  moreover have "rn_env sample_round = sample_at 32" "ru_first_mem sample_run = (\<lambda>a. 0)"
    by (simp_all add: sample_round_def sample_run_def)
  ultimately show "rounds_good re ''/p'' [sample_map] (ru_first_mem sample_run) [sample_round] [(0, 1)]" using base by simp
qed simp

theorem whole_recording_witness:
  "\<exists>rg. record_program sample_run = Ret SUCCESS rg \<and> map st_id (rg_steps rg) = [1, 2] \<and>
     get_var_value DAB_OK DAB_NO_DATA (rg_mem rg) 0x1010 2 2 = Some (Some [7, 7, 0])"
proof -
  obtain bp where bp: "set_breakpoints (place_env sample_run) (ru_units sample_run) \<lparr>bp_base = 0, bp_code = ru_code sample_run\<rparr> =
    Some (sample_traps, bp)" "bp_base bp = 0" using sample_place by blast
  let ?re = "env_of sample_run sample_traps bp"
  note good = sample_good [OF bp(2)]
  from whole_recording [OF good(1) bp(1) refl good(2-7)] obtain rg where rg: "record_program sample_run = Ret SUCCESS rg"
    "map st_id (rg_steps rg) = map int [1..<length [sample_round] + 2]"
    and read: "\<forall>j addr sz. j < length [sample_round] \<longrightarrow>
       cl_func_flag (cu_lines (re_units ?re ! fst ([(0, 1 :: nat)] ! j)) ! snd ([(0 :: nat, 1)] ! j)) \<noteq> FUNC_FLAG_START \<longrightarrow>
       32 \<le> unat addr \<longrightarrow> unat addr + unat sz < 2 ^ 63 \<longrightarrow> (\<forall>i < unat sz. in_mapping ''/p'' [sample_map] (addr + word_of_nat i)) \<longrightarrow>
       get_var_value DAB_OK DAB_NO_DATA (rg_mem rg) addr sz (word_of_nat (j + 2)) =
         Some (Some (child_bytes (rn_mem ([sample_round] ! j)) addr (unat sz) @ [0]))" by blast
  have "unat (2 :: u64) = 2" "child_bytes (\<lambda>a. 7) 0x1010 2 = [7, 7]" by (simp_all add: child_bytes_def upt_rec)
  moreover have "in_mapping ''/p'' [sample_map] (0x1010 + word_of_nat i)" if "i < 2" for i :: nat
  proof -
    have "i = 0 \<or> i = 1" using that by auto
    then show ?thesis by (auto simp: good(9))
  qed
  ultimately have "get_var_value DAB_OK DAB_NO_DATA (rg_mem rg) 0x1010 2 2 = Some (Some [7, 7, 0])"
    using read [unfolded good(8), rule_format, of 0 "0x1010" 2] by (simp add: sample_traps_def FUNC_FLAG_START_def sample_round_def)
  with rg show ?thesis by (auto simp: upt_rec)
qed

text \<open>The recording of a function of two lines: both steps have depth 1.\<close>

theorem recorded_depth_witness:
  "\<exists>rg. record_program sample_run = Ret SUCCESS rg \<and> map st_depth (rg_steps rg) = [1, 1]"
proof -
  obtain bp where bp: "set_breakpoints (place_env sample_run) (ru_units sample_run) \<lparr>bp_base = 0, bp_code = ru_code sample_run\<rparr> =
    Some (sample_traps, bp)" "bp_base bp = 0" using sample_place by blast
  let ?ls = "cu_lines (sample_traps ! 0)"
  let ?act = "Call (?ls ! 0) [] (?ls ! 1)"
  note good = sample_good [OF bp(2)]
  obtain ss hs lg where r: "record_program sample_run =
      Ret SUCCESS \<lparr>rg_steps = map step_row_of ss, rg_heap = fold insert_heap hs [], rg_mem = map mem_row_of lg, rg_exit_signal = None\<rparr>"
    "map (Some \<circ> sm_regs) ss = se_regs (ru_first_env sample_run) # map (se_regs \<circ> rn_env) [sample_round]"
    using recording_succeeds [OF good(1) bp(1) refl good(2-7)] by (elim exE conjE) (rule that)
  let ?rg = "\<lparr>rg_steps = map step_row_of ss, rg_heap = fold insert_heap hs [], rg_mem = map mem_row_of lg, rg_exit_signal = None\<rparr>"
  have "instr_cache sample_run sample_traps \<noteq> []" by (simp add: instr_cache_def sample_traps_def)
  from recording_traced [OF r(1) this bp(1)] obtain ls ss' t where
    t: "traced 0 (instr_cache sample_run sample_traps) t ls ss'" "map step_row_of ss = map step_row_of ss'" using bp(2) by auto
  have regs: "map st_regs (map step_row_of ss) = [\<lparr>reg_gpr = [], reg_ip = 17\<rparr>, \<lparr>reg_gpr = [], reg_ip = 33\<rparr>]"
    using r(2) by (auto simp: sample_run_def sample_round_def sample_at_def step_row_of_def)
  have lines: "map (\<lambda>r. line_of sample_traps (st_address r)) (rg_steps ?rg) = map Some (take 2 (concat (map lines_of [?act])))"
  proof -
    have "st_address (step_row_of m) = sint (reg_ip (st_regs (step_row_of m)) - 1)" if "m \<in> set ss'" for m
      using that t(1) by (simp add: traced_def step_row_of_def)
    then have "map st_address (map step_row_of ss) = map (\<lambda>r. sint (reg_ip r - 1)) (map st_regs (map step_row_of ss))"
      unfolding t(2) by simp
    then have "map st_address (map step_row_of ss) = [16, 32]" unfolding regs by simp
    then have "map (line_of sample_traps) (map st_address (map step_row_of ss)) = [Some (?ls ! 0), Some (?ls ! 1)]"
      by (simp add: line_of_def sample_traps_def)
    then show ?thesis by (simp add: comp_def)
  qed
  have "map st_depth (rg_steps ?rg) = map int (take 2 (concat (map (nesting 0) [?act])))"
    by (rule recorded_depth [OF r(1) bp(1) _ _ lines]) (use regs in \<open>auto simp: sample_traps_def FUNC_FLAG_START_def FUNC_FLAG_END_def\<close>)
  then show ?thesis using r(1) by simp
qed

text \<open>Two units with statements of four that were counted: the line at 200 is not found from a stop in the first unit.\<close>

theorem unit_without_statements_lost_witness:
  "lookup_cache (instr_cache (sample_run\<lparr>ru_unit_count := 4\<rparr>) sample_units) 0 200 = (0, Some Absent)"
  by (rule unit_without_statements_lost)
    (simp_all add: sample_run_def sample_units_def instr_cache_def in_unit_def)

end
